(* ===== verification/Prelude.thy ===== *)
theory Prelude
  imports Main "HOL-Library.Word"
begin

unbundle bit_operations_syntax

text \<open>
  Shared vocabulary of the development: the machine types of the C++ sources
  (\<open>uint8_t\<close>, \<open>uint32_t\<close>, \<open>uint64_t\<close>, \<open>buffer\<close>), the exceptions the code throws as values
  of a datatype, the model of \<open>std::map<key_t, V>\<close> as a strictly sorted association list
  with its operations, and the generic lemmas the component theories rest on.
\<close>

section \<open>Machine types\<close>

type_synonym u8 = "8 word"
type_synonym u16 = "16 word"
type_synonym u32 = "32 word"
type_synonym u64 = "64 word"

text \<open>\<open>using hash_t = uint32_t\<close> and \<open>using buffer = std::vector<uint8_t>\<close>.\<close>

type_synonym hash_t = u32
type_synonym buffer = "u8 list"

text \<open>A \<open>float\<close> is carried by its IEEE 754 bit pattern; no float arithmetic is modelled.\<close>

type_synonym float_bits = u32

section \<open>Exceptions as values\<close>

text \<open>
  One constructor per kind of \<open>throw\<close> in the sources (every one a \<open>std::runtime_error\<close> with
  its own message, or the standard library's own exception where the code calls it).
\<close>

datatype exc =
    Buffer_underflow
  | Varint_too_long
  | Invalid_span_size
  | Not_implemented
  | Invalid_type
  | Field_is_empty
  | Incompatible_types
  | Method_not_found
  | Missing_key_token
  | Invalid_key_token
  | Invalid_argument
  | Out_of_range
  | Send_on_closed
  | Undefined_conversion
  | Null_pointer
  | Fuel_exhausted
  | App_error string

text \<open>
  A computation that may throw returns \<open>Inl\<close> of the exception or \<open>Inr\<close> of its value; a
  reader additionally returns the bytes it left unread.
\<close>

type_synonym 'a result = "exc + 'a"
type_synonym 'a reader = "buffer \<Rightarrow> (exc + 'a \<times> buffer)"

named_theorems codec_simps \<open>equations of the encoders and decoders\<close>
named_theorems roundtrip_simps \<open>decoding undoes encoding\<close>

fun is_ok :: "'a result \<Rightarrow> bool" where
  "is_ok (Inl e) = False"
| "is_ok (Inr x) = True"

text \<open>
  Sequencing of readers, as the statement order of the code does it: an exception skips the
  rest.
\<close>

definition seqR :: "'a reader \<Rightarrow> ('a \<Rightarrow> 'b reader) \<Rightarrow> 'b reader" where
  "seqR p f bs = (case p bs of Inl e \<Rightarrow> Inl e | Inr (x, rest) \<Rightarrow> f x rest)"

definition retR :: "'a \<Rightarrow> 'a reader" where
  "retR x bs = Inr (x, bs)"

definition throwR :: "exc \<Rightarrow> 'a reader" where
  "throwR e bs = Inl e"

lemma seqR_Inr [simp]: "p bs = Inr (x, rest) \<Longrightarrow> seqR p f bs = f x rest"
  by (simp add: seqR_def)

lemma seqR_Inl [simp]: "p bs = Inl e \<Longrightarrow> seqR p f bs = Inl e"
  by (simp add: seqR_def)

lemma retR_eq [simp]: "retR x bs = Inr (x, bs)"
  by (simp add: retR_def)

lemma throwR_eq [simp]: "throwR e bs = Inl e"
  by (simp add: throwR_def)

lemma seqR_eq_Inr:
  "seqR p f bs = Inr r \<longleftrightarrow> (\<exists>x rest. p bs = Inr (x, rest) \<and> f x rest = Inr r)"
  by (auto simp: seqR_def split: sum.splits prod.splits)

lemma seqR_eq_Inl:
  "seqR p f bs = Inl e \<longleftrightarrow>
     p bs = Inl e \<or> (\<exists>x rest. p bs = Inr (x, rest) \<and> f x rest = Inl e)"
  by (auto simp: seqR_def split: sum.splits prod.splits)

lemma seqR_cong [fundef_cong]:
  assumes "p bs = p' bs'"
    and "\<And>x rest. p' bs' = Inr (x, rest) \<Longrightarrow> f x rest = f' x rest"
  shows "seqR p f bs = seqR p' f' bs'"
  using assms by (auto simp: seqR_def split: sum.splits)

section \<open>\<open>std::map<key_t, V>\<close>\<close>

text \<open>
  A \<open>std::map\<close> ordered by the unsigned hash value: a strictly sorted association list. Its
  iteration order is the list order.
\<close>

type_synonym 'v smap = "(hash_t \<times> 'v) list"

abbreviation sorted_map :: "'v smap \<Rightarrow> bool" where
  "sorted_map m \<equiv> sorted_wrt (<) (map fst m)"

text \<open>\<open>m[k] = v\<close> and \<open>m.insert_or_assign(k, v)\<close>.\<close>

fun map_put :: "hash_t \<Rightarrow> 'v \<Rightarrow> 'v smap \<Rightarrow> 'v smap" where
  "map_put k v [] = [(k, v)]"
| "map_put k v ((k', v') # m) =
     (if k < k' then (k, v) # (k', v') # m
      else if k = k' then (k, v) # m
      else (k', v') # map_put k v m)"

text \<open>\<open>m.emplace(k, v)\<close> and \<open>m.insert({k, v})\<close>: an existing entry is kept.\<close>

definition map_emplace :: "hash_t \<Rightarrow> 'v \<Rightarrow> 'v smap \<Rightarrow> 'v smap" where
  "map_emplace k v m = (case map_of m k of None \<Rightarrow> map_put k v m | Some _ \<Rightarrow> m)"

text \<open>\<open>m.erase(k)\<close>.\<close>

definition map_erase :: "hash_t \<Rightarrow> 'v smap \<Rightarrow> 'v smap" where
  "map_erase k m = filter (\<lambda>(k', _). k' \<noteq> k) m"

text \<open>The entries before \<open>m.lower_bound(k)\<close> and those from it on.\<close>

definition below :: "hash_t \<Rightarrow> 'v smap \<Rightarrow> 'v smap" where
  "below k m = takeWhile (\<lambda>(k', _). k' < k) m"

definition from_bound :: "hash_t \<Rightarrow> 'v smap \<Rightarrow> 'v smap" where
  "from_bound k m = dropWhile (\<lambda>(k', _). k' < k) m"

lemma set_map_put_keys [simp]: "fst ` set (map_put k v m) = insert k (fst ` set m)"
  by (induction k v m rule: map_put.induct) (simp_all add: insert_commute)

lemma sorted_map_put [simp, intro]: "sorted_map m \<Longrightarrow> sorted_map (map_put k v m)"
proof (induction m)
  case Nil
  then show ?case by simp
next
  case (Cons kv m)
  obtain k' v' where kv: "kv = (k', v')" by fastforce
  have keys: "set (map fst (map_put k v m)) = insert k (fst ` set m)"
    by (metis set_map set_map_put_keys)
  show ?case using Cons by (force simp: kv keys image_iff)
qed

lemma map_of_map_put [simp]: "map_of (map_put k v m) = (map_of m)(k \<mapsto> v)"
  by (induction m) (auto simp: fun_eq_iff)

lemma map_of_map_emplace:
  "map_of (map_emplace k v m) = (case map_of m k of None \<Rightarrow> (map_of m)(k \<mapsto> v) | Some _ \<Rightarrow> map_of m)"
  by (auto simp: map_emplace_def split: option.splits)

lemma sorted_map_emplace [simp, intro]: "sorted_map m \<Longrightarrow> sorted_map (map_emplace k v m)"
  by (auto simp: map_emplace_def split: option.splits)

lemma sorted_map_filter: "sorted_map m \<Longrightarrow> sorted_map (filter P m)"
  by (induction m) auto

lemma sorted_map_erase [simp, intro]: "sorted_map m \<Longrightarrow> sorted_map (map_erase k m)"
  unfolding map_erase_def by (rule sorted_map_filter)

lemma map_of_map_erase [simp]: "map_of (map_erase k m) = (map_of m)(k := None)"
proof (induction m)
  case Nil
  then show ?case by (simp add: map_erase_def)
next
  case (Cons kv m)
  then show ?case by (cases kv) (auto simp: map_erase_def fun_eq_iff)
qed

lemma sorted_map_distinct: "sorted_map m \<Longrightarrow> distinct (map fst m)"
  using strict_sorted_iff by blast

text \<open>Two maps with the same lookups are the same map: the representation is canonical.\<close>

lemma sorted_map_ext:
  assumes "sorted_map m" and "sorted_map n" and "map_of m = map_of n"
  shows "m = n"
  using assms
proof (induction m arbitrary: n)
  case Nil
  then show ?case by (cases n) (auto dest: fun_cong split: if_splits)
next
  case (Cons kv m)
  obtain k v where kv: "kv = (k, v)" by fastforce
  have none: "map_of m k = None"
    using Cons.prems(1) by (auto simp: kv map_of_eq_None_iff)
  have "map_of n k = Some v"
    using Cons.prems(3) by (metis kv map_of_Cons_code(2))
  then obtain k' v' n' where n: "n = (k', v') # n'"
    by (cases n) auto
  have none': "map_of n' k' = None"
    using Cons.prems(2) by (auto simp: n map_of_eq_None_iff)
  have keys: "fst ` set (kv # m) = fst ` set n"
    using Cons.prems(3) by (metis dom_map_of_conv_image_fst)
  have "k = k'"
  proof (rule ccontr)
    assume "k \<noteq> k'"
    then have "k \<in> fst ` set n'" and "k' \<in> fst ` set m"
      using keys by (auto simp: kv n)
    then show False
      using Cons.prems(1,2) by (force simp: kv n)
  qed
  moreover from this have "v = v'"
    using \<open>map_of n k = Some v\<close> by (simp add: n)
  moreover have "map_of m = map_of n'"
    using Cons.prems(3) none none' \<open>k = k'\<close>
    by (metis calculation(2) kv map_of.simps(2) map_upd_triv fun_upd_upd fun_upd_triv n prod.sel)
  ultimately show ?case
    using Cons.IH [of n'] Cons.prems by (simp add: kv n)
qed

lemma map_put_same: "sorted_map m \<Longrightarrow> map_of m k = Some v \<Longrightarrow> map_put k v m = m"
  by (rule sorted_map_ext) auto

lemma map_put_last:
  assumes "\<forall>k' \<in> fst ` set m. k' < k"
  shows "map_put k v m = m @ [(k, v)]"
  using assms by (induction m) auto

text \<open>Storing the entries of one map into another, in order.\<close>

abbreviation put_all :: "'v smap \<Rightarrow> 'v smap \<Rightarrow> 'v smap" where
  "put_all kvs m \<equiv> fold (\<lambda>(k, v). map_put k v) kvs m"

lemma map_of_put_all:
  "distinct (map fst kvs) \<Longrightarrow> map_of (put_all kvs m) = map_of m ++ map_of kvs"
proof (induction kvs arbitrary: m)
  case Nil
  then show ?case by simp
next
  case (Cons kv kvs)
  obtain k v where kv: "kv = (k, v)" by fastforce
  have "map_of kvs k = None" using Cons.prems by (simp add: kv map_of_eq_None_iff)
  then show ?case
    using Cons by (auto simp: kv fun_eq_iff map_add_def split: option.splits)
qed

lemma sorted_put_all: "sorted_map m \<Longrightarrow> sorted_map (put_all kvs m)"
  by (induction kvs arbitrary: m) auto

lemma put_all_absorb:
  assumes "sorted_map kvs" and "sorted_map m" and "fst ` set m \<subseteq> fst ` set kvs"
  shows "put_all kvs m = kvs"
proof (rule sorted_map_ext)
  have "dom (map_of m) \<subseteq> dom (map_of kvs)" using assms(3) by (simp add: dom_map_of_conv_image_fst)
  then have "map_of m ++ map_of kvs = map_of kvs"
    by (auto simp: fun_eq_iff map_add_def dom_def split: option.splits)
  then show "map_of (put_all kvs m) = map_of kvs"
    using sorted_map_distinct [OF assms(1)] by (simp add: map_of_put_all)
qed (use assms in \<open>auto simp: sorted_put_all\<close>)

lemma length_smap: "sorted_map m \<Longrightarrow> length m \<le> 2 ^ 32"
proof -
  assume "sorted_map m"
  then have "length m = card (fst ` set m)"
    by (metis distinct_card length_map list.set_map sorted_map_distinct)
  also have "\<dots> \<le> card (UNIV :: hash_t set)" by (rule card_mono) auto
  finally show ?thesis by (simp add: card_word)
qed

end
