(* ===== verification/Keys.thy ===== *)
theory Keys
  imports Prelude
begin

text \<open>
  Names and identifiers: the FNV-1a name hash and the \<open>key_t\<close> constructors of
  \<open>src/bison/bison_common.hpp\<close>, the process-wide key-name registry of
  \<open>src/bison/bison.cpp\<close>, and the opaque id generator of \<open>src/rmi/shared/ids.cpp\<close>.
\<close>

section \<open>The name hash\<close>

text \<open>
  \<open>static_cast<hash_t>(*input)\<close> widens a plain \<open>char\<close>. Whether \<open>char\<close> is signed is up to
  the platform (signed on x86, unsigned on ARM Linux and Android), so the widening is sign
  or zero extension accordingly.
\<close>

datatype char_kind = Signed_char | Unsigned_char

definition char_to_hash :: "char_kind \<Rightarrow> char \<Rightarrow> hash_t" where
  "char_to_hash ck c =
     (case ck of Signed_char \<Rightarrow> signed_take_bit 7 (of_char c) | Unsigned_char \<Rightarrow> of_char c)"

definition fnv_prime :: hash_t where
  "fnv_prime = 0x01000193"

definition fnv_offset :: hash_t where
  "fnv_offset = 0x811c9dc5"

text \<open>The loop over the null-terminated input; it stops at the first NUL character.\<close>

fun hash_loop :: "char_kind \<Rightarrow> hash_t \<Rightarrow> string \<Rightarrow> hash_t" where
  "hash_loop ck value [] = value"
| "hash_loop ck value (c # input) =
     (if c = CHR 0x00 then value
      else hash_loop ck ((value XOR char_to_hash ck c) * fnv_prime) input)"

definition hash :: "char_kind \<Rightarrow> string \<Rightarrow> hash_t" where
  "hash ck input = hash_loop ck fnv_offset input OR 0x80000000"

text \<open>The \<open>_key\<close> literal and the \<open>key_t\<close> constructors from a string.\<close>

definition key :: "string \<Rightarrow> hash_t" where
  "key name = hash Signed_char name"

lemmas hash_eval = key_def hash_def char_to_hash_def fnv_prime_def fnv_offset_def

text \<open>A numeric index is below the MSB, a hashed name is not.\<close>

definition is_index :: "hash_t \<Rightarrow> bool" where
  "is_index k \<longleftrightarrow> k < 0x80000000"

lemma msb_or_ge:
  fixes x :: u32
  shows "0x80000000 \<le> x OR 0x80000000"
proof -
  have "0x80000000 = (x OR 0x80000000) AND (0x80000000 :: u32)"
    by (rule bit_word_eqI) (auto simp: bit_simps)
  then show ?thesis
    by (metis word_and_le1 and.commute word_and_le2)
qed

text \<open>
  The hash of every name, whatever the signedness of \<open>char\<close>, lies in the upper half of
  the key space, so it never collides with a numeric (array) index.
\<close>

theorem hash_not_index: "\<not> is_index (hash ck name)"
  by (simp add: is_index_def hash_def msb_or_ge not_less)

lemma signed_take_bit_ascii:
  assumes "(of_char c :: nat) < 128"
  shows "char_to_hash Signed_char c = char_to_hash Unsigned_char c"
proof -
  have "\<not> digit7 c"
    using assms by (cases c) (auto simp: of_char_def split: if_splits)
  then show ?thesis
    by (cases c) (auto simp: char_to_hash_def of_char_def)
qed

lemma hash_loop_ascii:
  assumes "\<forall>c \<in> set s. (of_char c :: nat) < 128"
  shows "hash_loop Signed_char v s = hash_loop Unsigned_char v s"
  using assms by (induction s arbitrary: v) (auto simp: signed_take_bit_ascii)

text \<open>
  Names of ASCII characters hash to the same key on every platform.
\<close>

theorem hash_ascii_portable:
  assumes "\<forall>c \<in> set name. (of_char c :: nat) < 128"
  shows "hash Signed_char name = hash Unsigned_char name"
  using hash_loop_ascii [OF assms] by (simp add: hash_def)

theorem hash_ascii_portable_witness:
  "(\<forall>c \<in> set ''__class''. (of_char c :: nat) < 128) \<and>
   hash Signed_char ''__class'' = hash Unsigned_char ''__class''"
proof -
  have h: "\<forall>c \<in> set ''__class''. (of_char c :: nat) < 128" by simp
  show ?thesis using h hash_ascii_portable [OF h] by blast
qed

text \<open>
  A name with a byte above 127 hashes differently where \<open>char\<close> is signed: the documented
  byte-wise formula (FORMAT.md 1.3) is the unsigned one.
\<close>

lemma hash_non_ascii_differs:
  "hash Signed_char [CHR 0xC3, CHR 0xA9] \<noteq> hash Unsigned_char [CHR 0xC3, CHR 0xA9]"
  by (simp add: hash_eval)

section \<open>The key-name registry\<close>

type_synonym name_registry = "hash_t \<rightharpoonup> string"

text \<open>\<open>register_key_name\<close> calls \<open>emplace\<close>: the first name registered for a hash stays.\<close>

definition register_key_name :: "hash_t \<Rightarrow> string \<Rightarrow> name_registry \<Rightarrow> name_registry" where
  "register_key_name h name reg = (case reg h of None \<Rightarrow> reg(h \<mapsto> name) | Some _ \<Rightarrow> reg)"

definition lookup_registered_key_name :: "name_registry \<Rightarrow> hash_t \<Rightarrow> string option" where
  "lookup_registered_key_name reg h = reg h"

text \<open>The \<open>_rkey\<close> literal registers the name and returns its key.\<close>

definition rkey :: "string \<Rightarrow> name_registry \<Rightarrow> hash_t \<times> name_registry" where
  "rkey name reg = (key name, register_key_name (key name) name reg)"

fun register_all :: "(hash_t \<times> string) list \<Rightarrow> name_registry \<Rightarrow> name_registry" where
  "register_all [] reg = reg"
| "register_all ((h, n) # xs) reg = register_all xs (register_key_name h n reg)"

lemma register_keeps:
  "reg h = Some n \<Longrightarrow> register_key_name h' n' reg h = Some n"
  by (auto simp: register_key_name_def split: option.splits)

lemma register_all_keeps: "reg h = Some n \<Longrightarrow> register_all xs reg h = Some n"
  by (induction xs reg rule: register_all.induct) (auto simp: register_keeps)

text \<open>
  The registry answers with the first name registered for a hash, whatever is registered
  afterwards (a later name for the same hash, a collision or a re-registration, is ignored).
\<close>

theorem registry_first_wins:
  "lookup_registered_key_name (register_all xs Map.empty) h = map_of xs h"
proof -
  have "register_all xs reg h = (case reg h of Some n \<Rightarrow> Some n | None \<Rightarrow> map_of xs h)" for reg
    by (induction xs reg rule: register_all.induct)
       (auto simp: register_key_name_def split: option.splits)
  then show ?thesis by (simp add: lookup_registered_key_name_def)
qed

section \<open>Opaque identifiers\<close>

text \<open>\<open>mix32\<close>: the avalanche mixer, statement by statement.\<close>

definition mix32 :: "hash_t \<Rightarrow> hash_t" where
  "mix32 x0 =
     (let x1 = x0 XOR drop_bit 16 x0;
          x2 = x1 * 0x7feb352d;
          x3 = x2 XOR drop_bit 15 x2;
          x4 = x3 * 0x846ca68b
      in x4 XOR drop_bit 16 x4)"

definition kGoldenStep :: hash_t where
  "kGoldenStep = 0x9e3779b9"

text \<open>The seed is computed once from the clock (the 64-bit tick count is an argument).\<close>

definition id_seed :: "u64 \<Rightarrow> hash_t" where
  "id_seed now = (ucast now XOR ucast (drop_bit 32 now)) XOR 0x80000001"

text \<open>
  \<open>generate_id\<close>: an atomic fetch-and-add on the counter, whose old value is mixed. The
  counter is the state.
\<close>

definition generate_id :: "hash_t \<Rightarrow> hash_t \<times> hash_t" where
  "generate_id state = (mix32 state, state + kGoldenStep)"

fun generate_ids :: "nat \<Rightarrow> hash_t \<Rightarrow> hash_t list" where
  "generate_ids 0 state = []"
| "generate_ids (Suc n) state =
     (case generate_id state of (i, state') \<Rightarrow> i # generate_ids n state')"

definition unmix32 :: "hash_t \<Rightarrow> hash_t" where
  "unmix32 y0 =
     (let y1 = y0 XOR drop_bit 16 y0;
          y2 = y1 * 0x43021123;
          y3 = y2 XOR drop_bit 15 y2 XOR drop_bit 30 y2;
          y4 = y3 * 0x1d69e2a5
      in y4 XOR drop_bit 16 y4)"

lemma xorshift16_involution: "(x XOR drop_bit 16 x) XOR drop_bit 16 (x XOR drop_bit 16 x) = (x :: u32)"
  by (rule bit_word_eqI) (auto simp: bit_simps)

lemma xorshift15_inverse:
  fixes x :: u32
  defines "y \<equiv> x XOR drop_bit 15 x"
  shows "y XOR drop_bit 15 y XOR drop_bit 30 y = x"
  unfolding y_def by (rule bit_word_eqI) (auto simp: bit_simps)

lemma unmix32_mix32: "unmix32 (mix32 x) = x"
proof -
  have "(0x846ca68b :: u32) * 0x43021123 = 1" by simp
  then have a: "z * 0x846ca68b * 0x43021123 = z" for z :: u32
    by (simp only: mult.assoc mult_1_right)
  have "(0x7feb352d :: u32) * 0x1d69e2a5 = 1" by simp
  then have b: "z * 0x7feb352d * 0x1d69e2a5 = z" for z :: u32
    by (simp only: mult.assoc mult_1_right)
  show ?thesis
    unfolding mix32_def unmix32_def Let_def xorshift16_involution a xorshift15_inverse b
    by (rule refl)
qed

lemma inj_mix32: "inj mix32"
  by (rule inj_on_inverseI) (rule unmix32_mix32)

lemma mix32_eq_0_iff: "mix32 x = 0 \<longleftrightarrow> x = 0"
proof -
  have "mix32 0 = 0" by (simp add: mix32_def)
  then show ?thesis by (metis unmix32_mix32)
qed

lemma kGoldenStep_cancel: "n * kGoldenStep = m * kGoldenStep \<Longrightarrow> n = m"
proof -
  assume "n * kGoldenStep = m * kGoldenStep"
  then have "n * kGoldenStep * 0x144cbc89 = m * kGoldenStep * 0x144cbc89" by simp
  moreover have "kGoldenStep * 0x144cbc89 = 1" by (simp add: kGoldenStep_def)
  ultimately show "n = m" by (simp only: mult.assoc mult_1_right)
qed

lemma length_generate_ids [simp]: "length (generate_ids n s) = n"
  by (induction n arbitrary: s) (auto simp: generate_id_def)

lemma generate_ids_nth:
  "i < n \<Longrightarrow> generate_ids n s ! i = mix32 (s + of_nat i * kGoldenStep)"
proof (induction n arbitrary: s i)
  case 0
  then show ?case by simp
next
  case (Suc n)
  then show ?case
    by (cases i) (auto simp: generate_id_def algebra_simps)
qed

text \<open>
  No id repeats within any \<open>2^32\<close> consecutive calls of \<open>generate_id\<close>: the step is odd and
  the mixer is a bijection.
\<close>

theorem generate_ids_distinct:
  assumes "n \<le> 2 ^ 32"
  shows "distinct (generate_ids n s)"
proof -
  have "i = j" if "i < n" "j < n" "generate_ids n s ! i = generate_ids n s ! j" for i j
  proof -
    have "s + of_nat i * kGoldenStep = s + of_nat j * kGoldenStep"
      using that by (simp add: generate_ids_nth inj_eq [OF inj_mix32])
    then have "(of_nat i :: u32) = of_nat j"
      by (simp add: kGoldenStep_cancel)
    then have "unat (of_nat i :: u32) = unat (of_nat j :: u32)" by simp
    moreover have "i < 2 ^ 32" and "j < 2 ^ 32" using that assms by auto
    ultimately show "i = j"
      by (simp add: unat_of_nat)
  qed
  then show ?thesis by (auto simp: distinct_conv_nth)
qed

theorem generate_ids_distinct_witness:
  "(1000 :: nat) \<le> 2 ^ 32 \<and> distinct (generate_ids 1000 (id_seed 12345))"
proof -
  have h: "(1000 :: nat) \<le> 2 ^ 32" by simp
  show ?thesis using h generate_ids_distinct [OF h] by blast
qed

text \<open>
  The generator does not avoid 0, the token that means "none" for object ids, request ids and
  groups: it is returned exactly in the counter state 0.
\<close>

lemma generate_id_zero_iff: "fst (generate_id s) = 0 \<longleftrightarrow> s = 0"
  by (simp add: generate_id_def mix32_eq_0_iff)

end
