(* ===== verification/Codec_Spec.thy ===== *)
theory Codec_Spec
  imports Prelude
begin

text \<open>
  The contract between an encoder and its decoder, stated once as a pair of locales: decoding
  what was encoded gives the value back and leaves the following bytes alone
  (\<open>byte_codec\<close>), and decoding is local, that is, looks only at the bytes it consumes
  (\<open>local_codec\<close>). The lemmas proved from it (no encoding is a proper prefix of another,
  sequences of encoded elements decode element by element, every truncation of an encoding is
  rejected) are shared by all the codecs of the development.
\<close>

section \<open>Reading a counted sequence\<close>

fun read_n :: "'a reader \<Rightarrow> nat \<Rightarrow> 'a list reader" where
  "read_n rd 0 bs = Inr ([], bs)"
| "read_n rd (Suc n) bs =
     (case rd bs of Inl e \<Rightarrow> Inl e
      | Inr (x, rest) \<Rightarrow>
          (case read_n rd n rest of Inl e \<Rightarrow> Inl e | Inr (xs, rest') \<Rightarrow> Inr (x # xs, rest')))"

text \<open>A reader is local when its answer does not depend on the bytes it leaves unread.\<close>

definition local_reader :: "'a reader \<Rightarrow> bool" where
  "local_reader rd \<longleftrightarrow>
     (\<forall>bs x rest. rd bs = Inr (x, rest) \<longrightarrow>
        (\<exists>p. bs = p @ rest) \<and> (\<forall>more. rd (bs @ more) = Inr (x, rest @ more)))"

lemma local_readerI:
  assumes "\<And>bs x rest. rd bs = Inr (x, rest) \<Longrightarrow> \<exists>p. bs = p @ rest"
    and "\<And>bs x rest more. rd bs = Inr (x, rest) \<Longrightarrow> rd (bs @ more) = Inr (x, rest @ more)"
  shows "local_reader rd"
  using assms by (auto simp: local_reader_def)

lemma local_reader_suffix: "local_reader rd \<Longrightarrow> rd bs = Inr (x, rest) \<Longrightarrow> \<exists>p. bs = p @ rest"
  by (auto simp: local_reader_def)

lemma local_reader_extend:
  "local_reader rd \<Longrightarrow> rd bs = Inr (x, rest) \<Longrightarrow> rd (bs @ more) = Inr (x, rest @ more)"
  by (auto simp: local_reader_def)

lemma local_reader_length:
  "local_reader rd \<Longrightarrow> rd bs = Inr (x, rest) \<Longrightarrow> length rest \<le> length bs"
  using local_reader_suffix by fastforce

lemma local_retR: "local_reader (retR x)"
  by (auto simp: local_reader_def)

lemma local_throwR: "local_reader (throwR e)"
  by (auto simp: local_reader_def)

lemma local_seqR:
  assumes "local_reader p" and "\<And>x. local_reader (f x)"
  shows "local_reader (seqR p f)"
proof (rule local_readerI)
  fix bs y rest
  assume "seqR p f bs = Inr (y, rest)"
  then obtain x mid where m: "p bs = Inr (x, mid)" "f x mid = Inr (y, rest)"
    by (auto simp: seqR_eq_Inr)
  from local_reader_suffix [OF assms(1) m(1)] local_reader_suffix [OF assms(2) m(2)]
  show "\<exists>q. bs = q @ rest" by force
  fix more
  from local_reader_extend [OF assms(1) m(1)] local_reader_extend [OF assms(2) m(2)]
  show "seqR p f (bs @ more) = Inr (y, rest @ more)" by simp
qed

lemma local_read_n: "local_reader rd \<Longrightarrow> local_reader (read_n rd n)"
proof (induction n)
  case 0
  then show ?case by (auto simp: local_reader_def)
next
  case (Suc n)
  have eq: "read_n rd (Suc n) = seqR rd (\<lambda>x. seqR (read_n rd n) (\<lambda>xs. retR (x # xs)))"
    by (rule ext) (auto simp: seqR_def retR_def split: sum.splits)
  show ?case unfolding eq
    by (intro local_seqR local_retR Suc)
qed

lemma read_n_length: "read_n rd n bs = Inr (xs, rest) \<Longrightarrow> length xs = n"
  by (induction n arbitrary: bs xs) (auto split: sum.splits)

lemmas local_intros = local_retR local_throwR local_seqR local_read_n

section \<open>The contract\<close>

locale byte_codec =
  fixes enc :: "'a \<Rightarrow> buffer"
    and dec :: "'a reader"
    and ok :: "'a \<Rightarrow> bool"
  assumes dec_enc: "ok x \<Longrightarrow> dec (enc x @ rest) = Inr (x, rest)"
begin

lemma enc_prefix_free:
  assumes "ok x" and "ok y" and "enc x @ r = enc y @ s"
  shows "x = y \<and> r = s"
proof -
  have "Inr (x, r) = dec (enc x @ r)" using assms(1) by (simp add: dec_enc)
  also have "\<dots> = Inr (y, s)" using assms(2,3) by (simp add: dec_enc)
  finally show ?thesis by simp
qed

lemma enc_inject: "ok x \<Longrightarrow> ok y \<Longrightarrow> enc x = enc y \<longleftrightarrow> x = y"
  using enc_prefix_free [of x y "[]" "[]"] by auto

lemma read_n_enc:
  assumes "\<forall>x \<in> set xs. ok x"
  shows "read_n dec (length xs) (concat (map enc xs) @ rest) = Inr (xs, rest)"
  using assms by (induction xs) (auto simp: dec_enc)

end

locale local_codec = byte_codec +
  assumes dec_local: "local_reader dec"
begin

lemma truncation_fails:
  assumes "ok x" and "n < length (enc x)"
  shows "\<exists>e. dec (take n (enc x)) = Inl e"
proof (cases "dec (take n (enc x))")
  case (Inl e)
  then show ?thesis by blast
next
  case (Inr r)
  obtain y rest where r: "dec (take n (enc x)) = Inr (y, rest)" using Inr by (cases r) auto
  have "dec (take n (enc x) @ drop n (enc x)) = Inr (y, rest @ drop n (enc x))"
    by (rule local_reader_extend [OF dec_local r])
  moreover have "dec (enc x) = Inr (x, [])"
    using dec_enc [OF assms(1), of "[]"] by simp
  ultimately show ?thesis using assms(2) by simp
qed

end

section \<open>Termination of recursive readers\<close>

text \<open>A reader never returns more input than it got.\<close>

definition shrinks :: "'a reader \<Rightarrow> bool" where
  "shrinks rd \<longleftrightarrow> (\<forall>bs x rest. rd bs = Inr (x, rest) \<longrightarrow> length rest \<le> length bs)"

lemma shrinksD: "shrinks rd \<Longrightarrow> rd bs = Inr (x, rest) \<Longrightarrow> length rest \<le> length bs"
  by (auto simp: shrinks_def)

lemma shrinks_retR: "shrinks (retR x)"
  by (simp add: shrinks_def)

lemma shrinks_throwR: "shrinks (throwR e)"
  by (simp add: shrinks_def)

lemma shrinks_seqR: "shrinks p \<Longrightarrow> (\<And>x. shrinks (f x)) \<Longrightarrow> shrinks (seqR p f)"
  unfolding shrinks_def by (fastforce simp: seqR_eq_Inr intro: order_trans)

lemma read_n_Suc: "read_n rd (Suc n) = seqR rd (\<lambda>x. seqR (read_n rd n) (\<lambda>xs. retR (x # xs)))"
  by (rule ext) (auto simp: seqR_def retR_def split: sum.splits)

lemma shrinks_read_n: "shrinks rd \<Longrightarrow> shrinks (read_n rd n)"
proof (induction n)
  case 0
  then show ?case by (simp add: shrinks_def)
next
  case (Suc n)
  then show ?case by (simp only: read_n_Suc) (intro shrinks_seqR shrinks_retR; simp)
qed

lemma local_shrinks: "local_reader rd \<Longrightarrow> shrinks rd"
  by (auto simp: shrinks_def dest: local_reader_length)

lemmas shrinks_intros = shrinks_retR shrinks_throwR shrinks_seqR shrinks_read_n

text \<open>The fuel of a reader is enough for inputs of up to \<open>n\<close> bytes.\<close>

definition fuel_ok :: "nat \<Rightarrow> 'a reader \<Rightarrow> bool" where
  "fuel_ok n rd \<longleftrightarrow> (\<forall>bs. length bs \<le> n \<longrightarrow> rd bs \<noteq> Inl Fuel_exhausted)"

lemma fuel_ok_retR: "fuel_ok n (retR x)"
  by (simp add: fuel_ok_def)

lemma fuel_okD: "fuel_ok n rd \<Longrightarrow> length bs \<le> n \<Longrightarrow> rd bs \<noteq> Inl Fuel_exhausted"
  by (simp add: fuel_ok_def)

lemma fuel_ok_seqR:
  assumes "fuel_ok n p" and "shrinks p" and "\<And>x. fuel_ok n (f x)"
  shows "fuel_ok n (seqR p f)"
  unfolding fuel_ok_def
proof (intro allI impI)
  fix bs :: buffer
  assume len: "length bs \<le> n"
  show "seqR p f bs \<noteq> Inl Fuel_exhausted"
  proof (cases "p bs")
    case (Inl e)
    then show ?thesis using fuel_okD [OF assms(1) len] by simp
  next
    case (Inr r)
    obtain x rest where r: "p bs = Inr (x, rest)" using Inr by (cases r) auto
    then have "length rest \<le> n" using shrinksD [OF assms(2)] len by (meson order_trans)
    then show ?thesis using r fuel_okD [OF assms(3)] by simp
  qed
qed

lemma fuel_ok_read_n: "fuel_ok m rd \<Longrightarrow> shrinks rd \<Longrightarrow> fuel_ok m (read_n rd n)"
proof (induction n)
  case 0
  then show ?case by (simp add: fuel_ok_def)
next
  case (Suc n)
  then show ?case
    by (simp only: read_n_Suc) (intro fuel_ok_seqR fuel_ok_retR shrinks_read_n; simp)
qed

text \<open>Two readers agree on inputs of up to \<open>n\<close> bytes.\<close>

definition agree :: "nat \<Rightarrow> 'a reader \<Rightarrow> 'a reader \<Rightarrow> bool" where
  "agree n p q \<longleftrightarrow> (\<forall>bs. length bs \<le> n \<longrightarrow> p bs = q bs)"

lemma agree_refl: "agree n p p"
  by (simp add: agree_def)

lemma agreeD: "agree n p q \<Longrightarrow> length bs \<le> n \<Longrightarrow> p bs = q bs"
  by (simp add: agree_def)

lemma agree_seqR:
  assumes "agree n p q" and "shrinks p" and "\<And>x. agree n (f x) (g x)"
  shows "agree n (seqR p f) (seqR q g)"
  unfolding agree_def
proof (intro allI impI)
  fix bs :: buffer
  assume len: "length bs \<le> n"
  have "p bs = q bs" using assms(1) len by (simp add: agree_def)
  then show "seqR p f bs = seqR q g bs"
    using assms(3) len shrinksD [OF assms(2), of bs]
    by (auto simp: seqR_def agree_def split: sum.splits)
qed

end
