(* ===== verification/Serializer.thy ===== *)
theory Serializer
  imports Keys Codec_Spec
begin

text \<open>
  The byte-level backends of \<open>src/bison/bison_serialization.hpp\<close> and \<open>byte_swap\<close> of
  \<open>src/bison/bison_common.hpp\<close>. Every \<open>write\<close> appends to the serializer's buffer, so a
  serializer is represented by the bytes it appends; a deserializer is represented by the
  bytes between its read position and its end. The \<open>stream_\<close> variants differ in one way: a
  scalar, string or vector read past the end of the stream does not throw but leaves the
  missing bytes zero.
\<close>

section \<open>Byte order\<close>

datatype host = Little_endian | Big_endian

text \<open>The bytes of a value, least significant first.\<close>

definition le32 :: "u32 \<Rightarrow> buffer" where
  "le32 w = [ucast w, ucast (drop_bit 8 w), ucast (drop_bit 16 w), ucast (drop_bit 24 w)]"

text \<open>What \<open>memcpy\<close> sees of a scalar on a host, and the scalar it stores back.\<close>

definition mem_bytes32 :: "host \<Rightarrow> u32 \<Rightarrow> buffer" where
  "mem_bytes32 h w = (case h of Little_endian \<Rightarrow> le32 w | Big_endian \<Rightarrow> rev (le32 w))"

definition de_le32 :: "buffer \<Rightarrow> u32" where
  "de_le32 bs = (case bs of [a, b, c, d] \<Rightarrow>
       ucast a OR push_bit 8 (ucast b) OR push_bit 16 (ucast c) OR push_bit 24 (ucast d)
     | _ \<Rightarrow> 0)"

definition of_mem_bytes32 :: "host \<Rightarrow> buffer \<Rightarrow> u32" where
  "of_mem_bytes32 h bs = (case h of Little_endian \<Rightarrow> de_le32 bs | Big_endian \<Rightarrow> de_le32 (rev bs))"

definition bswap32 :: "u32 \<Rightarrow> u32" where
  "bswap32 w = push_bit 24 (take_bit 8 w) OR push_bit 16 (take_bit 8 (drop_bit 8 w)) OR
     push_bit 8 (take_bit 8 (drop_bit 16 w)) OR drop_bit 24 w"

text \<open>\<open>byte_swap\<close> at size 4 (\<open>__builtin_bswap32\<close> branch): a no-op on big-endian hosts.\<close>

definition byte_swap32 :: "host \<Rightarrow> u32 \<Rightarrow> u32" where
  "byte_swap32 h w = (if h = Big_endian then w else bswap32 w)"

text \<open>The portable fallback: the byte-reversing loop over the object representation.\<close>

definition byte_swap32_loop :: "host \<Rightarrow> u32 \<Rightarrow> u32" where
  "byte_swap32_loop h w =
     (if h = Big_endian then w else of_mem_bytes32 h (rev (mem_bytes32 h w)))"

text \<open>Big-endian (network) byte order, the wire order.\<close>

definition be32 :: "u32 \<Rightarrow> buffer" where
  "be32 w = [ucast (drop_bit 24 w), ucast (drop_bit 16 w), ucast (drop_bit 8 w), ucast w]"

definition de_be32 :: "buffer \<Rightarrow> u32" where
  "de_be32 bs = de_le32 (rev bs)"

lemma length_be32 [simp]: "length (be32 w) = 4"
  by (simp add: be32_def)

lemma byte_cases: "(n :: nat) < 8 \<or> 8 \<le> n \<and> n < 16 \<or> 16 \<le> n \<and> n < 24 \<or> 24 \<le> n"
  by linarith

lemma bit_8_word_ge: "8 \<le> n \<Longrightarrow> \<not> bit (w :: u8) n"
  by (auto dest: bit_imp_le_length)

lemma de_le32_le32 [simp]: "de_le32 (le32 w) = w"
proof (rule bit_word_eqI)
  fix n :: nat
  assume "n < LENGTH(32)"
  then show "bit (de_le32 (le32 w)) n = bit w n"
    using byte_cases [of n]
    by (elim disjE) (auto simp: de_le32_def le32_def bit_simps)
qed

lemma rev_be32: "rev (be32 w) = le32 w"
  by (simp add: be32_def le32_def)

lemma de_be32_be32 [simp]: "de_be32 (be32 w) = w"
  by (simp add: de_be32_def rev_be32)

lemma le32_de_le32:
  assumes "length bs = 4"
  shows "le32 (de_le32 bs) = bs"
proof -
  obtain a b c d where bs: "bs = [a, b, c, d]"
    using assms by (auto simp: numeral_eq_Suc length_Suc_conv)
  have "le32 (ucast a OR push_bit 8 (ucast b) OR push_bit 16 (ucast c) OR push_bit 24 (ucast d))
      = [a, b, c, d]"
    by (simp add: le32_def, intro conjI; rule bit_word_eqI)
       (simp_all add: bit_simps bit_8_word_ge)
  then show ?thesis by (simp add: bs de_le32_def)
qed

lemma be32_de_be32: "length bs = 4 \<Longrightarrow> be32 (de_be32 bs) = bs"
  by (metis de_be32_def le32_de_le32 length_rev rev_be32 rev_rev_ident)

lemma le32_bswap32: "le32 (bswap32 w) = be32 w"
  by (simp only: le32_def be32_def bswap32_def list.inject, intro conjI; (rule bit_word_eqI)?)
     (simp_all add: bit_simps)

lemma bswap32_eq: "bswap32 w = de_le32 (be32 w)"
  by (metis de_le32_le32 le32_bswap32)

lemma le32_eq_rev: "le32 w = rev (be32 w)"
  by (simp add: rev_be32)

section \<open>Scalars on the wire\<close>

text \<open>\<open>buffer_serializer::write<T>\<close> for 4-byte \<open>T\<close>: swap, then append the object's bytes.\<close>

definition write_scalar32 :: "host \<Rightarrow> u32 \<Rightarrow> buffer" where
  "write_scalar32 h data = mem_bytes32 h (byte_swap32 h data)"

definition write_scalar8 :: "u8 \<Rightarrow> buffer" where
  "write_scalar8 data = [data]"

text \<open>\<open>buffer_deserializer::read<T>\<close>: the bounds check, then \<open>memcpy\<close> and swap.\<close>

definition read_scalar32 :: "host \<Rightarrow> u32 reader" where
  "read_scalar32 h bs =
     (if length bs < 4 then Inl Buffer_underflow
      else Inr (byte_swap32 h (of_mem_bytes32 h (take 4 bs)), drop 4 bs))"

definition read_scalar8 :: "u8 reader" where
  "read_scalar8 bs = (case bs of [] \<Rightarrow> Inl Buffer_underflow | b # rest \<Rightarrow> Inr (b, rest))"

text \<open>
  The optimised and the portable \<open>byte_swap\<close> agree on every host.
\<close>

theorem byte_swap_builtin_eq_loop: "byte_swap32 h w = byte_swap32_loop h w"
  by (cases h)
     (simp_all add: byte_swap32_def byte_swap32_loop_def of_mem_bytes32_def mem_bytes32_def
        bswap32_eq le32_eq_rev)

lemma swap_of_mem:
  assumes "length bs = 4"
  shows "byte_swap32 h (of_mem_bytes32 h bs) = de_be32 bs"
  using assms
  by (cases h)
     (simp_all add: byte_swap32_def of_mem_bytes32_def bswap32_eq de_be32_def,
      metis be32_de_be32 de_be32_def le32_de_le32 length_rev rev_be32 rev_swap)

lemma mem_of_swap: "mem_bytes32 h (byte_swap32 h w) = be32 w"
  by (cases h) (simp_all add: byte_swap32_def mem_bytes32_def le32_bswap32, simp add: le32_eq_rev)

lemma scalar32_wire:
  "write_scalar32 h w = be32 w"
  "read_scalar32 h bs =
     (if length bs < 4 then Inl Buffer_underflow else Inr (de_be32 (take 4 bs), drop 4 bs))"
  by (simp_all add: write_scalar32_def read_scalar32_def mem_of_swap swap_of_mem)

text \<open>
  What a scalar write emits and what a scalar read accepts is big-endian whatever the
  byte order of the host, so hosts of different byte order interoperate.
\<close>

theorem scalar_host_independent:
  "write_scalar32 h w = be32 w \<and>
   read_scalar32 h bs =
     (if length bs < 4 then Inl Buffer_underflow else Inr (de_be32 (take 4 bs), drop 4 bs))"
  using scalar32_wire by blast

text \<open>The scalar operations used from here on, host-independently.\<close>

definition write_u32 :: "u32 \<Rightarrow> buffer" where
  "write_u32 w = be32 w"

definition read_u32 :: "u32 reader" where
  "read_u32 bs =
     (if length bs < 4 then Inl Buffer_underflow else Inr (de_be32 (take 4 bs), drop 4 bs))"

text \<open>\<open>bool\<close> is one byte; a non-zero byte is read as \<open>true\<close>.\<close>

definition write_bool :: "bool \<Rightarrow> buffer" where
  "write_bool b = [if b then 1 else 0]"

definition read_bool :: "bool reader" where
  "read_bool = seqR read_scalar8 (\<lambda>b. retR (b \<noteq> 0))"

section \<open>Variable-length integers\<close>

text \<open>\<open>write_varint\<close>: the do-while loop of ULEB128.\<close>

function write_varint :: "u64 \<Rightarrow> buffer" where
  "write_varint v =
     (let byte = ucast (v AND 0x7F); v' = drop_bit 7 v
      in if v' \<noteq> 0 then (byte OR 0x80) # write_varint v' else [byte])"
  by pat_completeness auto
termination
proof (relation "measure unat")
  fix v v' :: u64 and byte :: u8
  assume "v' = drop_bit 7 v" and "v' \<noteq> 0"
  then have "v \<noteq> 0" by auto
  then have "unat v \<noteq> 0" by (simp add: unat_eq_0)
  then have "drop_bit 7 (unat v) < unat v" by (simp add: drop_bit_eq_div)
  then show "(v', v) \<in> measure unat"
    using \<open>v' = _\<close> by (simp only: in_measure unat_drop_bit_eq)
qed simp

declare write_varint.simps [simp del]

text \<open>The loop of \<open>read_varint\<close> with its accumulator and shift.\<close>

fun read_varint_loop :: "u64 \<Rightarrow> nat \<Rightarrow> u64 reader" where
  "read_varint_loop result shift [] = Inl Buffer_underflow"
| "read_varint_loop result shift (byte # rest) =
     (let result' = result OR push_bit shift (ucast (byte AND 0x7F))
      in if byte AND 0x80 = 0 then Inr (result', rest)
         else if shift + 7 \<ge> 64 then Inl Varint_too_long
         else read_varint_loop result' (shift + 7) rest)"

definition read_varint :: "u64 reader" where
  "read_varint = read_varint_loop 0 0"

lemma and_7F: "(w :: 'a::len word) AND 0x7F = take_bit 7 w"
  by (simp add: take_bit_eq_mask mask_eq_exp_minus_1)

lemma and_80: "(b :: u8) AND 0x80 = 0 \<longleftrightarrow> \<not> bit b 7"
  using and_exp_eq_0_iff_not_bit [of b 7] by simp

lemma or_80: "(b :: u8) OR 0x80 = set_bit 7 b"
  by (simp add: set_bit_eq_or push_bit_eq_mult)

lemmas varint_bits = and_7F and_80 or_80

lemma low_group_bits:
  fixes v :: u64
  shows "ucast (take_bit 7 (set_bit 7 (ucast (take_bit 7 v) :: u8))) = take_bit 7 v"
    and "ucast (take_bit 7 (ucast (take_bit 7 v) :: u8)) = take_bit 7 v"
    and "\<not> bit (ucast (take_bit 7 v) :: u8) 7"
    and "bit (set_bit 7 (ucast (take_bit 7 v) :: u8)) 7"
proof -
  show "ucast (take_bit 7 (set_bit 7 (ucast (take_bit 7 v) :: u8))) = take_bit 7 v"
    by (rule bit_word_eqI) (auto simp: bit_simps)
  show "ucast (take_bit 7 (ucast (take_bit 7 v) :: u8)) = take_bit 7 v"
    by (rule bit_word_eqI) (auto simp: bit_simps)
  show "\<not> bit (ucast (take_bit 7 v) :: u8) 7"
    by (simp add: bit_simps)
  show "bit (set_bit 7 (ucast (take_bit 7 v) :: u8)) 7"
    by (simp add: bit_simps)
qed

lemma split_low_group:
  fixes v :: u64
  shows "push_bit s (take_bit 7 v) OR push_bit (s + 7) (drop_bit 7 v) = push_bit s v"
proof -
  have "bit (take_bit 7 v OR push_bit 7 (drop_bit 7 v)) n = bit v n" if "n < 64" for n
    using that by (cases "n < 7") (auto simp: bit_simps)
  then have "take_bit 7 v OR push_bit 7 (drop_bit 7 v) = v"
    by (intro bit_word_eqI) simp
  then show ?thesis
    by (metis push_bit_or push_bit_push_bit)
qed

lemma write_varint_unfold:
  "write_varint v =
     (if drop_bit 7 v = 0 then [ucast v] else set_bit 7 (ucast (take_bit 7 v)) # write_varint (drop_bit 7 v))"
proof -
  have "take_bit 7 v = v" if "drop_bit 7 v = 0"
    using that split_low_group [of 0 v] by simp
  then show ?thesis
    by (subst write_varint.simps) (simp add: Let_def varint_bits)
qed

lemma drop_bit_eq_0_bits: "drop_bit n (v :: u64) = 0 \<longleftrightarrow> (\<forall>k. bit v k \<longrightarrow> k < n)"
proof
  assume z: "drop_bit n v = 0"
  show "\<forall>k. bit v k \<longrightarrow> k < n"
  proof (intro allI impI)
    fix k assume k: "bit v k"
    show "k < n"
    proof (rule ccontr)
      assume "\<not> k < n"
      then have "bit (drop_bit n v) (k - n)" using k by (simp add: bit_drop_bit_eq)
      then show False by (simp add: z)
    qed
  qed
next
  assume "\<forall>k. bit v k \<longrightarrow> k < n"
  then show "drop_bit n v = 0"
    by (intro bit_word_eqI) (auto simp: bit_drop_bit_eq)
qed

lemma read_write_varint_loop:
  "s < 64 \<Longrightarrow> drop_bit (64 - s) v = 0 \<Longrightarrow>
   read_varint_loop r s (write_varint v @ rest) = Inr (r OR push_bit s v, rest)"
proof (induction v arbitrary: r s rule: write_varint.induct)
  case (1 v)
  have hi: "bit v n \<Longrightarrow> n < 64 - s" for n
    using "1.prems"(2) by (simp add: drop_bit_eq_0_bits)
  show ?case
  proof (cases "drop_bit 7 v = 0")
    case True
    then have "take_bit 7 v = v" using split_low_group [of 0 v] by simp
    then show ?thesis
      using True low_group_bits(2,3) [of v]
      by (subst write_varint_unfold) (simp add: Let_def varint_bits)
  next
    case False
    then obtain k where k: "bit v k" "7 \<le> k"
      using drop_bit_eq_0_bits not_le by blast
    then have s7: "s + 7 < 64" using hi [of k] by linarith
    have hi': "drop_bit (64 - (s + 7)) (drop_bit 7 v) = 0"
      using s7 by (auto simp: drop_bit_eq_0_bits bit_drop_bit_eq dest!: hi)
    show ?thesis
      using False "1.IH" [OF refl refl False s7 hi'] s7
      by (subst write_varint_unfold)
         (simp add: Let_def varint_bits low_group_bits or.assoc split_low_group)
  qed
qed

lemma read_write_varint [roundtrip_simps]: "read_varint (write_varint v @ rest) = Inr (v, rest)"
  using read_write_varint_loop [of 0 v 0 rest] by (simp add: read_varint_def)

text \<open>
  \<open>read_varint\<close> inverts \<open>write_varint\<close> on all 64-bit values and leaves the following bytes
  unread.
\<close>

theorem varint_roundtrip: "read_varint (write_varint v @ rest) = Inr (v, rest)"
  by (rule read_write_varint)

text \<open>
  Every encoding has between one and ten bytes, seven value bits per byte: no shorter encoding
  exists, and a value below 128 takes one byte.
\<close>

lemma write_varint_not_Nil [simp]: "write_varint v \<noteq> []"
  by (subst write_varint_unfold) simp

lemma length_write_varint:
  "length (write_varint v) \<le> Suc n \<longleftrightarrow> drop_bit (7 * Suc n) v = 0"
proof (induction v arbitrary: n rule: write_varint.induct)
  case (1 v)
  show ?case
  proof (cases "drop_bit 7 v = 0")
    case True
    then have "drop_bit (7 * Suc n) v = 0"
      by (auto simp: drop_bit_eq_0_bits)
    then show ?thesis using True by (subst write_varint_unfold) simp
  next
    case False
    show ?thesis
    proof (cases n)
      case 0
      then show ?thesis using False by (subst write_varint_unfold) simp
    next
      case (Suc m)
      have "drop_bit (7 * Suc m) (drop_bit 7 v) = drop_bit (7 * Suc n) v"
        by (simp add: Suc)
      then show ?thesis
        using False "1.IH" [OF refl refl False, of m]
        by (subst write_varint_unfold) (simp add: Suc)
    qed
  qed
qed

text \<open>
  An encoding has at most ten bytes, and at most \<open>n + 1\<close> exactly when the value has at most
  \<open>7 (n + 1)\<close> significant bits: the encoder is minimal.
\<close>

theorem varint_length_minimal:
  "length (write_varint v) \<in> {1..10} \<and>
   (length (write_varint v) \<le> Suc n \<longleftrightarrow> unat v < 2 ^ (7 * Suc n))"
proof -
  have "drop_bit (7 * Suc 9) v = 0"
    by (auto simp: drop_bit_eq_0_bits dest: bit_imp_le_length)
  then have "length (write_varint v) \<le> Suc 9"
    by (simp only: length_write_varint)
  moreover have "drop_bit (7 * Suc n) v = 0 \<longleftrightarrow> unat v < 2 ^ (7 * Suc n)"
  proof -
    have "drop_bit (7 * Suc n) v = 0 \<longleftrightarrow> unat (drop_bit (7 * Suc n) v) = 0"
      by (simp only: unat_eq_0)
    also have "\<dots> \<longleftrightarrow> unat v < 2 ^ (7 * Suc n)"
      by (simp add: unat_drop_bit_eq drop_bit_eq_div [of _ "unat v"] div_eq_0_iff
          del: unat_eq_zero)
    finally show ?thesis .
  qed
  moreover have "1 \<le> length (write_varint v)"
    by (simp add: Suc_leI)
  ultimately show ?thesis
    by (simp add: length_write_varint)
qed

text \<open>A read consumes between one and ten bytes.\<close>

lemma read_varint_loop_consumes:
  "s < 64 \<Longrightarrow> read_varint_loop r s bs = Inr (v, rest) \<Longrightarrow>
   \<exists>p. bs = p @ rest \<and> p \<noteq> [] \<and> s + 7 * (length p - 1) < 64"
proof (induction r s bs rule: read_varint_loop.induct)
  case (1 r s)
  then show ?case by simp
next
  case (2 r s b bs)
  show ?case
  proof (cases "b AND 0x80 = 0")
    case True
    then show ?thesis using 2 by (intro exI [of _ "[b]"]) (simp add: Let_def)
  next
    case False
    with 2 obtain p where "bs = p @ rest" "p \<noteq> []" "(s + 7) + 7 * (length p - 1) < 64"
      by (auto simp: Let_def split: if_splits)
    then show ?thesis by (intro exI [of _ "b # p"]) (cases p; simp)
  qed
qed

lemma read_varint_consumes:
  "read_varint bs = Inr (v, rest) \<Longrightarrow> \<exists>p. bs = p @ rest \<and> p \<noteq> [] \<and> length p \<le> 10"
proof -
  assume "read_varint bs = Inr (v, rest)"
  then obtain p where p: "bs = p @ rest" "p \<noteq> []" "0 + 7 * (length p - 1) < 64"
    using read_varint_loop_consumes [of 0 0 bs v rest] by (auto simp: read_varint_def)
  moreover have "length p \<le> 10" using p(3) by linarith
  ultimately show ?thesis by blast
qed

lemma read_varint_loop_error:
  "k < 10 \<Longrightarrow> read_varint_loop r (7 * k) bs = Inl e \<longleftrightarrow>
     (\<forall>b \<in> set (take (10 - k) bs). bit b 7) \<and>
     e = (if length bs < 10 - k then Buffer_underflow else Varint_too_long)"
proof (induction bs arbitrary: k r)
  case Nil
  then show ?case by auto
next
  case (Cons b bs)
  have sh: "7 * k + 7 = 7 * Suc k" by simp
  show ?case
  proof (cases "bit b 7 \<and> k < 9")
    case True
    then have "10 - k = Suc (10 - Suc k)" by linarith
    then show ?thesis
      using True Cons.IH [of "Suc k"] by (simp add: Let_def varint_bits sh)
  next
    case False
    then have "\<not> bit b 7 \<or> k = 9" using Cons.prems by linarith
    then show ?thesis
      using Cons.prems by (cases "bit b 7") (auto simp: Let_def varint_bits take_Cons')
  qed
qed

text \<open>
  \<open>read_varint\<close> fails on exactly two kinds of input: every one of fewer than ten bytes has its
  continuation bit set (underflow), or every one of the first ten has (too long). So it
  always returns, and never consumes more than ten bytes.
\<close>

theorem varint_errors:
  "(read_varint bs = Inl e \<longleftrightarrow>
     (\<forall>b \<in> set (take 10 bs). bit b 7) \<and>
     e = (if length bs < 10 then Buffer_underflow else Varint_too_long))"
  using read_varint_loop_error [of 0 0 bs e] by (simp add: read_varint_def)

theorem varint_errors_witness:
  "read_varint (replicate 10 0x80) = Inl Varint_too_long"
  using varint_errors [of "replicate 10 0x80" Varint_too_long] by simp

text \<open>
  A ten-byte encoding whose last group exceeds the one bit left is accepted and its excess
  bits are lost: ten bytes carry 70 payload bits.
\<close>

lemma varint_tenth_byte_truncates:
  "read_varint (replicate 9 0x80 @ [0x02]) = Inr (0, [])"
  by code_simp

section \<open>Strings\<close>

text \<open>A \<open>std::string\<close> is a sequence of bytes; \<open>char\<close> is the 8-bit character type of HOL.\<close>

definition char_byte :: "char \<Rightarrow> u8" where
  "char_byte c = of_char c"

definition byte_char :: "u8 \<Rightarrow> char" where
  "byte_char b = char_of (unat b)"

lemma of_char_u8: "(of_char c :: u8) = of_nat (of_char c)"
  by (rule of_nat_of_char [symmetric])

lemma byte_char_char_byte [simp]: "byte_char (char_byte c) = c"
proof -
  have "unat (of_char c :: u8) = of_char c"
    unfolding of_char_u8 unat_of_nat by simp
  then show ?thesis by (simp add: byte_char_def char_byte_def)
qed

lemma char_byte_byte_char [simp]: "char_byte (byte_char b) = b"
proof -
  have "unat b < 256" using unsigned_less [of b] by simp
  then show ?thesis unfolding byte_char_def char_byte_def of_char_u8 of_char_of by simp
qed

lemma map_byte_char [simp]: "map byte_char (map char_byte s) = s"
  by (simp add: comp_def)

definition write_string :: "string \<Rightarrow> buffer" where
  "write_string data = write_varint (of_nat (length data)) @ map char_byte data"

text \<open>\<open>if (pos_ + count > end_) throw\<close>, then the bytes are copied.\<close>

definition take_bytes :: "nat \<Rightarrow> buffer reader" where
  "take_bytes count bs =
     (if count > length bs then Inl Buffer_underflow else Inr (take count bs, drop count bs))"

definition read_string :: "string reader" where
  "read_string = seqR read_varint (\<lambda>count. seqR (take_bytes (unat count)) (\<lambda>bs. retR (map byte_char bs)))"

section \<open>Vectors\<close>

definition write_vec_bool :: "bool list \<Rightarrow> buffer" where
  "write_vec_bool data =
     write_varint (of_nat (length data)) @ map (\<lambda>elem. if elem then 1 else 0) data"

definition write_vec8 :: "u8 list \<Rightarrow> buffer" where
  "write_vec8 data = write_varint (of_nat (length data)) @ data"

text \<open>4-byte elements: a bulk copy on big-endian hosts, an element loop otherwise.\<close>

definition write_vec32 :: "host \<Rightarrow> u32 list \<Rightarrow> buffer" where
  "write_vec32 h data =
     write_varint (of_nat (length data)) @
     (if h = Big_endian then concat (map (mem_bytes32 h) data)
      else concat (map (\<lambda>elem. mem_bytes32 h (byte_swap32 h elem)) data))"

definition read_vec_bool :: "bool list reader" where
  "read_vec_bool =
     seqR read_varint (\<lambda>count. read_n (seqR read_scalar8 (\<lambda>b. retR (b \<noteq> 0))) (unat count))"

definition read_vec8 :: "u8 list reader" where
  "read_vec8 = seqR read_varint (\<lambda>count. take_bytes (unat count))"

text \<open>Groups of four bytes of a bulk copy, as the host reads them.\<close>

fun words_of_mem :: "host \<Rightarrow> buffer \<Rightarrow> u32 list" where
  "words_of_mem h (a # b # c # d # bs) = of_mem_bytes32 h [a, b, c, d] # words_of_mem h bs"
| "words_of_mem h _ = []"

definition read_vec32 :: "host \<Rightarrow> u32 list reader" where
  "read_vec32 h =
     seqR read_varint (\<lambda>count.
       if h = Big_endian
       then seqR (take_bytes (unat count * 4)) (\<lambda>bs. retR (words_of_mem h bs))
       else read_n (read_scalar32 h) (unat count))"

text \<open>\<open>read(std::span<T>)\<close>: the stored count must equal the span's size.\<close>

definition read_span32 :: "nat \<Rightarrow> u32 list reader" where
  "read_span32 sz =
     seqR read_varint (\<lambda>count.
       if unat count \<noteq> sz then throwR Invalid_span_size else read_n read_u32 (unat count))"

lemma write_vec32_eq: "write_vec32 h data = write_varint (of_nat (length data)) @ concat (map be32 data)"
proof -
  have "(\<lambda>w. mem_bytes32 h (byte_swap32 h w)) = be32" by (rule ext) (rule mem_of_swap)
  moreover have "mem_bytes32 Big_endian = be32"
    by (rule ext) (simp add: mem_bytes32_def le32_eq_rev)
  ultimately show ?thesis by (cases h) (simp_all add: write_vec32_def)
qed

lemma read_scalar32_eq: "read_scalar32 h = read_u32"
  by (rule ext) (simp add: scalar32_wire read_u32_def)

lemma four_bytes:
  assumes "\<not> length bs < 4"
  obtains a b c d bs' where "bs = a # b # c # d # bs'"
  using assms by (auto simp: not_less numeral_eq_Suc Suc_le_length_iff)

lemma take_drop_4:
  "take (4 + m) (a # b # c # d # l) = a # b # c # d # take m l"
  "drop (4 + m) (a # b # c # d # l) = drop m l"
  by (simp_all add: numeral_eq_Suc)

lemma take_bytes_words:
  "seqR (take_bytes (n * 4)) (\<lambda>bs. retR (words_of_mem Big_endian bs)) bs = read_n read_u32 n bs"
proof (induction n arbitrary: bs)
  case 0
  then show ?case by (simp add: seqR_def take_bytes_def)
next
  case (Suc n)
  show ?case
  proof (cases "length bs < 4")
    case True
    then show ?thesis by (simp add: seqR_def take_bytes_def read_u32_def)
  next
    case False
    then obtain a b c d bs' where bs: "bs = a # b # c # d # bs'"
      by (rule four_bytes)
    show ?thesis
      using Suc.IH [of bs', symmetric]
      by (auto simp: bs seqR_def take_bytes_def read_u32_def of_mem_bytes32_def de_be32_def take_drop_4)
  qed
qed

text \<open>
  The endianness branches of the 4-byte vector codec agree: on every host the writer emits the
  count and the big-endian elements, and the reader reads the count and then the elements one
  by one.
\<close>

theorem vector_host_independent:
  "write_vec32 h data = write_varint (of_nat (length data)) @ concat (map be32 data) \<and>
   read_vec32 h = seqR read_varint (\<lambda>count. read_n read_u32 (unat count))"
proof -
  have "seqR (take_bytes (n * 4)) (\<lambda>bs. retR (words_of_mem Big_endian bs)) = read_n read_u32 n" for n
    by (rule ext) (rule take_bytes_words)
  then show ?thesis
    by (cases h) (simp_all add: write_vec32_eq read_vec32_def read_scalar32_eq)
qed

section \<open>The stream backend\<close>

text \<open>
  \<open>std::istream::read\<close> past the end stores the bytes there are and leaves the zero-initialised
  rest of the object; only \<open>read_varint\<close> tests for the end of the stream.
\<close>

definition zero_padded :: "nat \<Rightarrow> buffer \<Rightarrow> buffer" where
  "zero_padded n bs = take n bs @ replicate (n - length bs) 0"

definition stream_read_u8 :: "u8 reader" where
  "stream_read_u8 bs = Inr (hd (zero_padded 1 bs), drop 1 bs)"

definition stream_read_u32 :: "u32 reader" where
  "stream_read_u32 bs = Inr (de_be32 (zero_padded 4 bs), drop 4 bs)"

definition stream_read_bool :: "bool reader" where
  "stream_read_bool = seqR stream_read_u8 (\<lambda>b. retR (b \<noteq> 0))"

definition stream_read_varint :: "u64 reader" where
  "stream_read_varint = read_varint_loop 0 0"

definition stream_take_bytes :: "nat \<Rightarrow> buffer reader" where
  "stream_take_bytes count bs = Inr (zero_padded count bs, drop count bs)"

definition stream_read_string :: "string reader" where
  "stream_read_string =
     seqR stream_read_varint (\<lambda>count.
       seqR (stream_take_bytes (unat count)) (\<lambda>bs. retR (map byte_char bs)))"

definition stream_read_vec_bool :: "bool list reader" where
  "stream_read_vec_bool =
     seqR stream_read_varint (\<lambda>count.
       read_n (seqR stream_read_u8 (\<lambda>b. retR (b \<noteq> 0))) (unat count))"

definition stream_read_vec8 :: "u8 list reader" where
  "stream_read_vec8 = seqR stream_read_varint (\<lambda>count. stream_take_bytes (unat count))"

definition stream_read_vec32 :: "u32 list reader" where
  "stream_read_vec32 = seqR stream_read_varint (\<lambda>count. read_n stream_read_u32 (unat count))"

section \<open>A backend as the object layer uses it\<close>

text \<open>
  \<open>field::deserialize\<close> and \<open>dynamic::deserialize\<close> exist twice in the sources, once over each
  deserializer, with the same text. The operations they use are collected in a record with the
  two backends as its instances.
\<close>

record backend =
  b_u8 :: "u8 reader"
  b_u32 :: "u32 reader"
  b_bool :: "bool reader"
  b_varint :: "u64 reader"
  b_string :: "string reader"
  b_vec_bool :: "bool list reader"
  b_vec32 :: "u32 list reader"
  b_vec8 :: "u8 list reader"

definition buffer_deserializer :: backend where
  "buffer_deserializer = \<lparr>
     b_u8 = read_scalar8, b_u32 = read_u32, b_bool = read_bool, b_varint = read_varint,
     b_string = read_string, b_vec_bool = read_vec_bool,
     b_vec32 = seqR read_varint (\<lambda>count. read_n read_u32 (unat count)),
     b_vec8 = read_vec8 \<rparr>"

definition stream_deserializer :: backend where
  "stream_deserializer = \<lparr>
     b_u8 = stream_read_u8, b_u32 = stream_read_u32, b_bool = stream_read_bool,
     b_varint = stream_read_varint, b_string = stream_read_string,
     b_vec_bool = stream_read_vec_bool, b_vec32 = stream_read_vec32, b_vec8 = stream_read_vec8 \<rparr>"

lemmas buffer_ops = buffer_deserializer_def backend.simps
lemmas stream_ops = stream_deserializer_def backend.simps

text \<open>The laws of a backend: every operation inverts its writer.\<close>

definition fits :: "nat \<Rightarrow> bool" where
  "fits n \<longleftrightarrow> n < 2 ^ 64"

locale wire_backend =
  fixes io :: backend
  assumes u8: "b_u8 io (b # rest) = Inr (b, rest)"
    and u32: "b_u32 io (be32 w @ rest) = Inr (w, rest)"
    and bool: "b_bool io ((if x then 1 else 0) # rest) = Inr (x, rest)"
    and varint: "b_varint io (write_varint v @ rest) = Inr (v, rest)"
    and string: "fits (length s) \<Longrightarrow> b_string io (write_string s @ rest) = Inr (s, rest)"
    and vec_bool: "fits (length bs) \<Longrightarrow> b_vec_bool io (write_vec_bool bs @ rest) = Inr (bs, rest)"
    and vec32: "fits (length ws) \<Longrightarrow> b_vec32 io (write_vec32 h ws @ rest) = Inr (ws, rest)"
    and vec8: "fits (length ys) \<Longrightarrow> b_vec8 io (write_vec8 ys @ rest) = Inr (ys, rest)"

lemma unat_count [simp]: "fits n \<Longrightarrow> unat (of_nat n :: u64) = n"
  by (simp add: fits_def unat_of_nat)

lemma read_u32_be32 [roundtrip_simps]: "read_u32 (be32 w @ rest) = Inr (w, rest)"
  by (simp add: read_u32_def)

lemma stream_read_u32_be32 [roundtrip_simps]: "stream_read_u32 (be32 w @ rest) = Inr (w, rest)"
  by (simp add: stream_read_u32_def zero_padded_def)

lemma drop_suffix: "\<exists>p. bs = p @ drop n bs"
  by (metis append_take_drop_id)

interpretation scalar32: local_codec be32 read_u32 "\<lambda>_. True"
proof unfold_locales
  show "read_u32 (be32 x @ rest) = Inr (x, rest)" for x rest by (rule read_u32_be32)
  show "local_reader read_u32"
    by (rule local_readerI)
       (auto simp: read_u32_def drop_suffix split: if_splits)
qed

interpretation stream32: byte_codec be32 stream_read_u32 "\<lambda>_. True"
  by unfold_locales (rule stream_read_u32_be32)

lemma local_read_scalar8: "local_reader read_scalar8"
  by (rule local_readerI) (auto simp: read_scalar8_def split: list.splits)

lemma local_take_bytes: "local_reader (take_bytes n)"
  by (rule local_readerI)
     (auto simp: take_bytes_def drop_suffix split: if_splits)

lemma read_varint_loop_extend:
  "read_varint_loop r s bs = Inr (v, rest) \<Longrightarrow>
   read_varint_loop r s (bs @ ext) = Inr (v, rest @ ext)"
  by (induction r s bs rule: read_varint_loop.induct) (auto simp: Let_def split: if_splits)

interpretation varint: local_codec write_varint read_varint "\<lambda>_. True"
proof unfold_locales
  show "read_varint (write_varint x @ rest) = Inr (x, rest)" for x rest by (rule read_write_varint)
  show "local_reader read_varint"
  proof (rule local_readerI)
    fix bs ext rest :: buffer and v
    assume r: "read_varint bs = Inr (v, rest)"
    then show "\<exists>p. bs = p @ rest" by (auto dest: read_varint_consumes)
    show "read_varint (bs @ ext) = Inr (v, rest @ ext)"
      using r by (simp add: read_varint_def read_varint_loop_extend)
  qed
qed

lemma read_n_bytes_bool:
  "read_n (seqR read_scalar8 (\<lambda>b. retR (b \<noteq> 0))) (length xs)
     (map (\<lambda>x. if x then 1 else 0) xs @ rest) = Inr (xs, rest)"
  by (induction xs) (auto simp: seqR_def read_scalar8_def)

lemma stream_read_n_bytes_bool:
  "read_n (seqR stream_read_u8 (\<lambda>b. retR (b \<noteq> 0))) (length xs)
     (map (\<lambda>x. if x then 1 else 0) xs @ rest) = Inr (xs, rest)"
  by (induction xs) (auto simp: seqR_def stream_read_u8_def zero_padded_def)

interpretation buffer_backend: wire_backend buffer_deserializer
  by unfold_locales
     (auto simp: buffer_ops read_scalar8_def read_bool_def seqR_def read_u32_be32
        read_write_varint read_string_def write_string_def take_bytes_def read_vec_bool_def
        write_vec_bool_def read_n_bytes_bool write_vec32_eq read_vec8_def write_vec8_def comp_def
        scalar32.read_n_enc)

lemma stream_read_write_varint: "stream_read_varint (write_varint v @ rest) = Inr (v, rest)"
  using read_write_varint [of v rest] by (simp add: stream_read_varint_def read_varint_def)

interpretation stream_backend: wire_backend stream_deserializer
  by unfold_locales
     (auto simp: stream_ops stream_read_u8_def stream_read_bool_def seqR_def stream_read_u32_be32
        stream_read_write_varint stream_read_string_def write_string_def stream_take_bytes_def
        zero_padded_def stream_read_vec_bool_def write_vec_bool_def stream_read_n_bytes_bool
        write_vec32_eq stream_read_vec32_def stream_read_vec8_def write_vec8_def comp_def stream32.read_n_enc)

text \<open>The buffer backend is local: it never looks past what it consumes.\<close>

lemma buffer_backend_local:
  "local_reader (b_u8 buffer_deserializer)" "local_reader (b_u32 buffer_deserializer)"
  "local_reader (b_bool buffer_deserializer)" "local_reader (b_varint buffer_deserializer)"
  "local_reader (b_string buffer_deserializer)" "local_reader (b_vec_bool buffer_deserializer)"
  "local_reader (b_vec32 buffer_deserializer)" "local_reader (b_vec8 buffer_deserializer)"
  by (auto simp: buffer_ops read_bool_def read_string_def read_vec_bool_def read_vec8_def
      intro!: local_intros local_read_scalar8 scalar32.dec_local varint.dec_local local_take_bytes)

section \<open>The two backends agree\<close>

text \<open>\<open>q\<close> returns what \<open>p\<close> returns wherever \<open>p\<close> does not throw.\<close>

definition covers :: "'a reader \<Rightarrow> 'a reader \<Rightarrow> bool" where
  "covers q p \<longleftrightarrow> (\<forall>bs r. p bs = Inr r \<longrightarrow> q bs = Inr r)"

lemma covers_refl: "covers p p"
  by (simp add: covers_def)

lemma coversD: "covers q p \<Longrightarrow> p bs = Inr r \<Longrightarrow> q bs = Inr r"
  by (cases r) (simp add: covers_def)

lemma covers_seqR:
  assumes "covers q p" and "\<And>x. covers (g x) (f x)"
  shows "covers (seqR q g) (seqR p f)"
  using assms by (auto simp: covers_def seqR_eq_Inr)

lemma covers_read_n: "covers q p \<Longrightarrow> covers (read_n q n) (read_n p n)"
proof (induction n)
  case 0
  then show ?case by (simp add: covers_def)
next
  case (Suc n)
  have eq: "read_n rd (Suc n) = seqR rd (\<lambda>x. seqR (read_n rd n) (\<lambda>xs. retR (x # xs)))"
    for rd :: "'a reader"
    by (rule ext) (auto simp: seqR_def retR_def split: sum.splits)
  show ?case unfolding eq by (intro covers_seqR covers_refl Suc)
qed

lemma covers_u8: "covers stream_read_u8 read_scalar8"
  by (auto simp: covers_def read_scalar8_def stream_read_u8_def zero_padded_def split: list.splits)

lemma covers_u32: "covers stream_read_u32 read_u32"
  by (auto simp: covers_def read_u32_def stream_read_u32_def zero_padded_def split: if_splits)

lemma covers_take_bytes: "covers (stream_take_bytes n) (take_bytes n)"
  by (auto simp: covers_def take_bytes_def stream_take_bytes_def zero_padded_def split: if_splits)

lemma covers_varint: "covers stream_read_varint read_varint"
  by (simp add: covers_def stream_read_varint_def read_varint_def)

lemmas covers_intros =
  covers_seqR covers_refl covers_read_n covers_u8 covers_u32 covers_take_bytes covers_varint

definition backend_covers :: "backend \<Rightarrow> backend \<Rightarrow> bool" where
  "backend_covers io' io \<longleftrightarrow>
     covers (b_u8 io') (b_u8 io) \<and> covers (b_u32 io') (b_u32 io) \<and>
     covers (b_bool io') (b_bool io) \<and> covers (b_varint io') (b_varint io) \<and>
     covers (b_string io') (b_string io) \<and> covers (b_vec_bool io') (b_vec_bool io) \<and>
     covers (b_vec32 io') (b_vec32 io) \<and> covers (b_vec8 io') (b_vec8 io)"

lemma stream_covers_buffer: "backend_covers stream_deserializer buffer_deserializer"
  unfolding backend_covers_def
  by (auto simp: buffer_ops stream_ops read_bool_def stream_read_bool_def read_string_def
      stream_read_string_def read_vec_bool_def stream_read_vec_bool_def read_vec8_def
      stream_read_vec8_def stream_read_vec32_def intro!: covers_intros)

text \<open>
  Past the end the two differ: the buffer deserializer throws, the stream deserializer returns
  a value padded with zero bytes.
\<close>

lemma truncated_scalar_differs:
  "read_u32 [0x12, 0x34] = Inl Buffer_underflow \<and>
   stream_read_u32 [0x12, 0x34] = Inr (0x12340000, [])"
  by code_simp

section \<open>Backends consume their input\<close>

text \<open>
  What the recursive decoder relies on to terminate: no operation lengthens the input, and a
  non-zero tag byte costs a byte of it (the stream backend invents zero bytes past the end, but
  no other).
\<close>

definition plain_reader :: "'a reader \<Rightarrow> bool" where
  "plain_reader rd \<longleftrightarrow> shrinks rd \<and> (\<forall>n. fuel_ok n rd)"

locale bounded_backend = wire_backend +
  assumes u8_consumes: "b_u8 io bs = Inr (b, rest) \<Longrightarrow> b \<noteq> 0 \<Longrightarrow> length rest < length bs"
    and plain_u8: "plain_reader (b_u8 io)"
    and plain_u32: "plain_reader (b_u32 io)"
    and plain_bool: "plain_reader (b_bool io)"
    and plain_varint: "plain_reader (b_varint io)"
    and plain_string: "plain_reader (b_string io)"
    and plain_vec_bool: "plain_reader (b_vec_bool io)"
    and plain_vec32: "plain_reader (b_vec32 io)"
    and plain_vec8: "plain_reader (b_vec8 io)"
begin

lemmas plain_ops = plain_u8 plain_u32 plain_bool plain_varint plain_string plain_vec_bool
  plain_vec32 plain_vec8

end

lemma plain_shrinks: "plain_reader rd \<Longrightarrow> shrinks rd"
  by (simp add: plain_reader_def)

lemma plain_fuel: "plain_reader rd \<Longrightarrow> fuel_ok n rd"
  by (simp add: plain_reader_def)

lemma plain_retR: "plain_reader (retR x)"
  by (simp add: plain_reader_def shrinks_retR fuel_ok_retR)

lemma plain_seqR: "plain_reader p \<Longrightarrow> (\<And>x. plain_reader (f x)) \<Longrightarrow> plain_reader (seqR p f)"
  by (auto simp: plain_reader_def intro!: shrinks_seqR fuel_ok_seqR)

lemma plain_read_n: "plain_reader rd \<Longrightarrow> plain_reader (read_n rd n)"
  by (simp add: plain_reader_def shrinks_read_n fuel_ok_read_n)

lemma read_varint_loop_no_fuel: "read_varint_loop r s bs \<noteq> Inl Fuel_exhausted"
  by (induction r s bs rule: read_varint_loop.induct) (auto simp: Let_def split: if_splits)

lemma stream_u8_consumes: "stream_read_u8 bs = Inr (b, rest) \<Longrightarrow> b \<noteq> 0 \<Longrightarrow> length rest < length bs"
  by (cases bs) (auto simp: stream_read_u8_def zero_padded_def)

lemma plain_leaves:
  "plain_reader read_scalar8" "plain_reader read_u32" "plain_reader (take_bytes n)"
  "plain_reader stream_read_u8" "plain_reader stream_read_u32"
  "plain_reader (stream_take_bytes n)" "plain_reader read_varint" "plain_reader stream_read_varint"
  using local_shrinks [OF varint.dec_local] read_varint_loop_no_fuel
  by (auto simp: plain_reader_def shrinks_def fuel_ok_def read_scalar8_def read_u32_def
      take_bytes_def stream_read_u8_def stream_read_u32_def stream_take_bytes_def read_varint_def
      stream_read_varint_def split: list.splits if_splits)

lemmas plain_intros = plain_retR plain_seqR plain_read_n plain_leaves

interpretation buffer_backend: bounded_backend buffer_deserializer
  by unfold_locales
     (auto simp: buffer_ops read_scalar8_def read_bool_def read_string_def read_vec_bool_def
        read_vec8_def intro!: plain_intros split: list.splits)

interpretation stream_backend: bounded_backend stream_deserializer
  by unfold_locales
     (auto simp: stream_ops stream_read_bool_def stream_read_string_def stream_read_vec_bool_def
        stream_read_vec8_def stream_read_vec32_def intro!: plain_intros dest: stream_u8_consumes)

section \<open>Either deserializer\<close>

datatype medium = In_buffer | In_stream

fun deserializer :: "medium \<Rightarrow> backend" where
  "deserializer In_buffer = buffer_deserializer"
| "deserializer In_stream = stream_deserializer"

definition ensures :: "('a \<Rightarrow> bool) \<Rightarrow> 'a reader \<Rightarrow> bool" where
  "ensures P rd \<longleftrightarrow> (\<forall>bs x rest. rd bs = Inr (x, rest) \<longrightarrow> P x)"

lemma ensuresD: "ensures P rd \<Longrightarrow> rd bs = Inr (x, rest) \<Longrightarrow> P x"
  by (auto simp: ensures_def)

lemma ensures_retR: "P x \<Longrightarrow> ensures P (retR x)"
  by (simp add: ensures_def)

lemma ensures_throwR: "ensures P (throwR e)"
  by (simp add: ensures_def)

lemma ensures_seqR: "ensures Q p \<Longrightarrow> (\<And>x. Q x \<Longrightarrow> ensures P (f x)) \<Longrightarrow> ensures P (seqR p f)"
  by (fastforce simp: ensures_def seqR_eq_Inr)

lemma ensures_True: "ensures (\<lambda>_. True) p"
  by (simp add: ensures_def)

lemma ensures_read_n: "ensures (\<lambda>xs. length xs = n) (read_n rd n)"
  by (simp add: ensures_def read_n_length)

lemma ensures_take_bytes:
  "ensures (\<lambda>xs. length xs = n) (take_bytes n)" "ensures (\<lambda>xs. length xs = n) (stream_take_bytes n)"
  by (auto simp: ensures_def take_bytes_def stream_take_bytes_def zero_padded_def split: if_splits)

lemma fits_unat [simp]: "fits (unat (w :: u64))"
  using unsigned_less [of w] by (simp add: fits_def)

text \<open>A backend whose containers are never longer than a 64-bit count.\<close>

locale sized_backend = bounded_backend +
  assumes sized_string: "ensures (\<lambda>s. fits (length s)) (b_string io)"
    and sized_vec_bool: "ensures (\<lambda>s. fits (length s)) (b_vec_bool io)"
    and sized_vec32: "ensures (\<lambda>s. fits (length s)) (b_vec32 io)"
    and sized_vec8: "ensures (\<lambda>s. fits (length s)) (b_vec8 io)"

lemma ensures_counted:
  assumes "\<And>n. ensures (\<lambda>xs. length xs = n) (f n)"
  shows "ensures (\<lambda>xs. fits (length xs)) (seqR p (\<lambda>count. f (unat (count :: u64))))"
  using assms by (fastforce simp: ensures_def seqR_eq_Inr)

lemma ensures_counted_map:
  assumes "\<And>n. ensures (\<lambda>xs. length xs = n) (f n)"
  shows "ensures (\<lambda>xs. fits (length xs))
    (seqR p (\<lambda>count. seqR (f (unat (count :: u64))) (\<lambda>bs. retR (map g bs))))"
  using assms by (fastforce simp: ensures_def seqR_eq_Inr)

interpretation any_backend: sized_backend "deserializer md"
proof (cases md)
  case In_buffer
  have "sized_backend buffer_deserializer"
    by unfold_locales
       (auto simp: buffer_ops read_string_def read_vec_bool_def read_vec8_def
          intro!: ensures_counted ensures_counted_map ensures_read_n ensures_take_bytes)
  then show "sized_backend (deserializer md)" by (simp add: In_buffer)
next
  case In_stream
  have "sized_backend stream_deserializer"
    by unfold_locales
       (auto simp: stream_ops stream_read_string_def stream_read_vec_bool_def stream_read_vec8_def
          stream_read_vec32_def
          intro!: ensures_counted ensures_counted_map ensures_read_n ensures_take_bytes)
  then show "sized_backend (deserializer md)" by (simp add: In_stream)
qed

end
