(* ===== verification/Framing.thy ===== *)
theory Framing
  imports Serializer
begin

text \<open>
  Length-prefixed framing: \<open>frame_parser\<close> of \<open>src/rmi/transport/frame_parser.hpp\<close> and
  \<open>uv_stream_state::enqueue_frame\<close> of \<open>src/rmi/transport/uv_stream_state.hpp\<close>. The incremental
  parser is shown to implement the stateless splitting of the byte stream, whatever way the
  bytes are cut into reads.
\<close>

section \<open>The parser\<close>

definition kMaxFrameBytes :: nat where
  "kMaxFrameBytes = 64 * 1024 * 1024"

text \<open>The vector \<open>partial\<close> is its bytes and its capacity.\<close>

record frame_parser =
  hdr :: buffer
  hdr_pos :: nat
  payload_left :: nat
  partial_buf :: buffer
  partial_cap :: nat

definition new_parser :: frame_parser where
  "new_parser = \<lparr> hdr = [0, 0, 0, 0], hdr_pos = 0, payload_left = 0, partial_buf = [], partial_cap = 0 \<rparr>"

text \<open>\<open>offer_reuse\<close>: a larger buffer replaces the scratch buffer, cleared.\<close>

definition offer_reuse :: "nat \<Rightarrow> frame_parser \<Rightarrow> frame_parser" where
  "offer_reuse cap st =
     (if cap > partial_cap st then st\<lparr> partial_buf := [], partial_cap := cap \<rparr> else st)"

text \<open>The two halves of the loop body of \<open>feed\<close>: the header part and the payload part.\<close>

definition header_part :: "host \<Rightarrow> frame_parser \<Rightarrow> buffer \<Rightarrow> frame_parser \<times> buffer \<times> bool" where
  "header_part h st p =
     (if hdr_pos st < 4 then
        let n = min (4 - hdr_pos st) (length p);
            st1 = st\<lparr> hdr := take (hdr_pos st) (hdr st) @ take n p @ drop (hdr_pos st + n) (hdr st),
                      hdr_pos := hdr_pos st + n \<rparr>;
            p1 = drop n p
        in if hdr_pos st1 = 4 then
             let len = unat (byte_swap32 h (of_mem_bytes32 h (hdr st1)));
                 st2 = st1\<lparr> payload_left := len \<rparr>
             in if len > kMaxFrameBytes then (st2, p1, False)
                else (st2\<lparr> partial_buf := [], partial_cap := max (partial_cap st2) len \<rparr>, p1, True)
           else (st1, p1, True)
      else (st, p, True))"

definition payload_part :: "frame_parser \<Rightarrow> buffer \<Rightarrow> frame_parser \<times> buffer \<times> buffer list" where
  "payload_part st p =
     (if hdr_pos st = 4 \<and> (p \<noteq> [] \<or> payload_left st = 0) then
        let n = min (payload_left st) (length p);
            st1 = st\<lparr> partial_buf := partial_buf st @ take n p, payload_left := payload_left st - n \<rparr>;
            p1 = drop n p
        in if payload_left st1 = 0
           then (st1\<lparr> partial_buf := [], partial_cap := 0, hdr_pos := 0 \<rparr>, p1, [partial_buf st1])
           else (st1, p1, [])
      else (st, p, []))"

text \<open>The loop of \<open>feed\<close>; \<open>out\<close> collects the calls of \<open>on_frame\<close>. A loop that never ends is \<open>None\<close>.\<close>

partial_function (option) feed_loop ::
  "host \<Rightarrow> frame_parser \<Rightarrow> buffer \<Rightarrow> buffer list \<Rightarrow> (bool \<times> frame_parser \<times> buffer list) option" where
  "feed_loop h st p out =
     (if p = [] then Some (True, st, out)
      else (case header_part h st p of (st1, p1, ok) \<Rightarrow>
        if \<not> ok then Some (False, st1, out)
        else (case payload_part st1 p1 of (st2, p2, frames) \<Rightarrow>
          feed_loop h st2 p2 (out @ frames))))"

definition feed :: "host \<Rightarrow> frame_parser \<Rightarrow> buffer \<Rightarrow> (bool \<times> frame_parser \<times> buffer list) option" where
  "feed h st p = feed_loop h st p []"

text \<open>\<open>enqueue_frame\<close>: the bytes one frame puts on the stream.\<close>

definition enqueue_frame :: "host \<Rightarrow> buffer \<Rightarrow> buffer" where
  "enqueue_frame h frame = mem_bytes32 h (byte_swap32 h (of_nat (length frame))) @ frame"

section \<open>Splitting the byte stream\<close>

text \<open>
  The specification: the frames at the front of a stream, the bytes of the incomplete frame that
  follows them, and whether no declared length exceeds the limit.
\<close>

function deframe :: "buffer \<Rightarrow> buffer list \<times> buffer \<times> bool" where
  "deframe bs =
     (if length bs < 4 then ([], bs, True)
      else let n = unat (de_be32 (take 4 bs)) in
        if n > kMaxFrameBytes then ([], bs, False)
        else if length bs < 4 + n then ([], bs, True)
        else (case deframe (drop (4 + n) bs) of (fs, rest, ok) \<Rightarrow>
                (take n (drop 4 bs) # fs, rest, ok)))"
  by pat_completeness auto

termination by (relation "measure length") auto

declare deframe.simps [simp del]

text \<open>The bytes the parser holds.\<close>

definition held :: "frame_parser \<Rightarrow> buffer" where
  "held st = take (hdr_pos st) (hdr st) @ (if hdr_pos st = 4 then partial_buf st else [])"

definition parser_inv :: "frame_parser \<Rightarrow> bool" where
  "parser_inv st \<longleftrightarrow> length (hdr st) = 4 \<and> hdr_pos st \<le> 4 \<and>
     (hdr_pos st = 4 \<longrightarrow> 0 < payload_left st \<and>
        unat (de_be32 (hdr st)) = length (partial_buf st) + payload_left st \<and>
        unat (de_be32 (hdr st)) \<le> kMaxFrameBytes)"

lemma deframe_frame:
  assumes "length hd4 = 4" and "unat (de_be32 hd4) = length xs" and "length xs \<le> kMaxFrameBytes"
  shows "deframe (hd4 @ xs @ q) = (case deframe q of (fs, r, ok) \<Rightarrow> (xs # fs, r, ok))"
  using assms by (subst deframe.simps) (simp add: Let_def)

lemma deframe_too_long:
  assumes "length hd4 = 4" and "unat (de_be32 hd4) > kMaxFrameBytes"
  shows "deframe (hd4 @ q) = ([], hd4 @ q, False)"
  using assms by (subst deframe.simps) (simp add: Let_def)

lemma deframe_held:
  assumes "parser_inv st"
  shows "deframe (held st) = ([], held st, True)"
  using assms
  by (subst deframe.simps) (auto simp: parser_inv_def held_def Let_def)

lemma parser_inv_new: "parser_inv new_parser"
  by (simp add: parser_inv_def new_parser_def)

text \<open>One pass through the payload part, from a complete header.\<close>

definition header_done :: "frame_parser \<Rightarrow> bool" where
  "header_done st \<longleftrightarrow> length (hdr st) = 4 \<and> hdr_pos st = 4 \<and>
     unat (de_be32 (hdr st)) = length (partial_buf st) + payload_left st \<and>
     unat (de_be32 (hdr st)) \<le> kMaxFrameBytes"

lemma payload_part_step:
  assumes "header_done st" and "payload_part st q = (st', q', fs)"
  shows "parser_inv st' \<and> length q' \<le> length q \<and>
    (q \<noteq> [] \<longrightarrow> 0 < payload_left st \<longrightarrow> length q' < length q) \<and>
    deframe (hdr st @ partial_buf st @ q) =
      (case deframe (held st' @ q') of (gs, r, ok) \<Rightarrow> (fs @ gs, r, ok))"
proof -
  let ?n = "min (payload_left st) (length q)"
  consider (full) "payload_left st \<le> length q" | (part) "length q < payload_left st" "q \<noteq> []"
    | (none) "length q < payload_left st" "q = []" by fastforce
  then show ?thesis
  proof cases
    case full
    let ?xs = "partial_buf st @ take (payload_left st) q"
    have cond: "q \<noteq> [] \<or> payload_left st = 0" using full by auto
    have st': "q' = drop (payload_left st) q" "fs = [?xs]" "hdr_pos st' = 0" "hdr st' = hdr st"
      using assms(2) full cond assms(1)
      by (auto simp: payload_part_def header_done_def Let_def min_def)
    have "deframe (hdr st @ ?xs @ q') = (case deframe q' of (gs, r, ok) \<Rightarrow> (?xs # gs, r, ok))"
      using assms(1) full by (intro deframe_frame) (auto simp: header_done_def)
    moreover have "hdr st @ ?xs @ q' = hdr st @ partial_buf st @ q" by (simp add: st'(1))
    ultimately show ?thesis
      using assms(1) full
      by (auto simp: st' held_def parser_inv_def header_done_def)
  next
    case part
    then have st': "q' = []" "fs = []" "st' = st\<lparr> partial_buf := partial_buf st @ q,
        payload_left := payload_left st - length q \<rparr>"
      using assms by (auto simp: payload_part_def header_done_def Let_def min_def)
    then show ?thesis
      using assms(1) part by (auto simp: held_def parser_inv_def header_done_def)
  next
    case none
    then have st': "q' = []" "fs = []" "st' = st"
      using assms by (auto simp: payload_part_def)
    then show ?thesis
      using assms(1) none by (auto simp: held_def parser_inv_def header_done_def)
  qed
qed

lemma feed_loop_refines:
  assumes "parser_inv st"
  shows "\<exists>ok st' fs. feed_loop h st p out = Some (ok, st', out @ fs) \<and>
    (\<exists>rest. deframe (held st @ p) = (fs, rest, ok) \<and> (ok \<longrightarrow> parser_inv st' \<and> rest = held st'))"
  using assms
proof (induction "length p" arbitrary: st p out rule: less_induct)
  case less
  note inv = less.prems
  show ?case
  proof (cases "p = []")
    case True
    then show ?thesis
      using inv deframe_held [OF inv] by (subst feed_loop.simps) (simp, blast)
  next
    case False
    have payload: "\<exists>ok st' fs. (case payload_part s q of (st2, p2, frames) \<Rightarrow>
          feed_loop h st2 p2 (out @ frames)) = Some (ok, st', out @ fs) \<and>
        (\<exists>rest. deframe (hdr s @ partial_buf s @ q) = (fs, rest, ok) \<and>
           (ok \<longrightarrow> parser_inv st' \<and> rest = held st'))"
      if hdone: "header_done s" and len: "length q < length p \<or> q = p \<and> 0 < payload_left s" for s q
    proof -
      obtain st2 q2 frames where pp: "payload_part s q = (st2, q2, frames)"
        using prod_cases3 by blast
      note step = payload_part_step [OF hdone pp]
      have "length q2 < length p" using step len False by auto
      from less.hyps [OF this, of st2 "out @ frames"] step
      obtain ok st' fs rest where r: "feed_loop h st2 q2 (out @ frames) = Some (ok, st', (out @ frames) @ fs)"
        "deframe (held st2 @ q2) = (fs, rest, ok)" "ok \<longrightarrow> parser_inv st' \<and> rest = held st'"
        by blast
      then show ?thesis
        using step by (intro exI [of _ ok] exI [of _ st'] exI [of _ "frames @ fs"]) (auto simp: pp)
    qed
    show ?thesis
    proof (cases "hdr_pos st < 4")
      case False
      then have hdone: "header_done st" "0 < payload_left st"
        using inv by (auto simp: parser_inv_def header_done_def)
      have "held st @ p = hdr st @ partial_buf st @ p"
        using hdone by (simp add: held_def header_done_def)
      then show ?thesis
        using payload [of st p] hdone \<open>p \<noteq> []\<close> False
        by (subst feed_loop.simps) (simp add: header_part_def)
    next
      case True
      let ?n = "min (4 - hdr_pos st) (length p)"
      let ?h = "take (hdr_pos st) (hdr st) @ take ?n p @ drop (hdr_pos st + ?n) (hdr st)"
      have lh: "length ?h = 4" using inv True by (auto simp: parser_inv_def)
      have held: "held st = take (hdr_pos st) (hdr st)" using True by (simp add: held_def)
      have lp: "length (take (hdr_pos st) (hdr st)) = hdr_pos st"
        using inv by (simp add: parser_inv_def)
      show ?thesis
      proof (cases "hdr_pos st + ?n = 4")
        case incomplete: False
        then have n: "?n = length p" "hdr_pos st + length p < 4" using True by auto
        let ?s = "st\<lparr> hdr := ?h, hdr_pos := hdr_pos st + ?n \<rparr>"
        have i: "parser_inv ?s" using n lh by (simp add: parser_inv_def)
        have "held ?s = held st @ p" using n lp by (simp add: held_def)
        moreover have "feed_loop h st p out = Some (True, ?s, out)"
        proof -
          have "header_part h st p = (?s, [], True)"
            using True n by (simp add: header_part_def Let_def)
          moreover have "payload_part ?s [] = (?s, [], [])"
            using n by (simp add: payload_part_def)
          moreover have "feed_loop h ?s [] out = Some (True, ?s, out)"
            by (subst feed_loop.simps) simp
          ultimately show ?thesis using \<open>p \<noteq> []\<close> by (subst feed_loop.simps) simp
        qed
        ultimately show ?thesis using deframe_held [OF i] i by auto
      next
        case complete: True
        have h4: "?h = take 4 (held st @ p)" and q: "held st @ p = ?h @ drop ?n p"
          using complete inv lp by (auto simp: held parser_inv_def min_def)
        have np: "0 < ?n" using True \<open>p \<noteq> []\<close> by simp
        let ?len = "unat (de_be32 ?h)"
        have hp: "header_part h st p =
            (let st2 = st\<lparr> hdr := ?h, hdr_pos := 4, payload_left := ?len \<rparr>
             in if ?len > kMaxFrameBytes then (st2, drop ?n p, False)
                else (st2\<lparr> partial_buf := [], partial_cap := max (partial_cap st2) ?len \<rparr>, drop ?n p, True))"
          using True complete lh by (simp add: header_part_def Let_def swap_of_mem)
        show ?thesis
        proof (cases "?len > kMaxFrameBytes")
          case big: True
          have "deframe (held st @ p) = ([], ?h @ drop ?n p, False)"
            unfolding q by (rule deframe_too_long [OF lh big])
          then show ?thesis
            using big \<open>p \<noteq> []\<close> by (subst feed_loop.simps) (simp add: hp, blast)
        next
          case small: False
          let ?s = "st\<lparr> hdr := ?h, hdr_pos := 4, payload_left := ?len, partial_buf := [],
              partial_cap := max (partial_cap st) ?len \<rparr>"
          have "header_done ?s" using lh small by (simp add: header_done_def)
          moreover have "length (drop ?n p) < length p" using np \<open>p \<noteq> []\<close> by simp
          ultimately have "\<exists>ok st' fs. (case payload_part ?s (drop ?n p) of (st2, p2, frames) \<Rightarrow>
                feed_loop h st2 p2 (out @ frames)) = Some (ok, st', out @ fs) \<and>
              (\<exists>rest. deframe (hdr ?s @ partial_buf ?s @ drop ?n p) = (fs, rest, ok) \<and>
                 (ok \<longrightarrow> parser_inv st' \<and> rest = held st'))"
            by (intro payload) auto
          moreover have "hdr ?s @ partial_buf ?s @ drop ?n p = held st @ p" by (simp add: q)
          moreover have "header_part h st p = (?s, drop ?n p, True)"
            using small by (simp add: hp Let_def)
          ultimately show ?thesis
            using \<open>p \<noteq> []\<close> by (subst feed_loop.simps) simp
        qed
      qed
    qed
  qed
qed

section \<open>Properties of the parser\<close>

lemma feed_refines:
  assumes "parser_inv st"
  shows "case deframe (held st @ p) of (fs, rest, ok) \<Rightarrow>
     \<exists>st'. feed h st p = Some (ok, st', fs) \<and> (ok \<longrightarrow> parser_inv st' \<and> held st' = rest)"
  using feed_loop_refines [OF assms, of h p "[]"] by (auto simp: feed_def)

text \<open>
  C3: \<open>feed\<close> always returns, and implements the splitting of the byte stream: the frames it
  delivers, the bytes it retains and its verdict are those of the stream read so far,
  independently of how the earlier bytes were fed; the parser invariant is preserved.
\<close>

theorem feed_refines_deframe:
  assumes "parser_inv st"
  shows "case deframe (held st @ p) of (fs, rest, ok) \<Rightarrow>
     \<exists>st'. feed h st p = Some (ok, st', fs) \<and> (ok \<longrightarrow> parser_inv st' \<and> held st' = rest)"
  by (rule feed_refines [OF assms])

theorem feed_refines_deframe_witness:
  "case deframe (held new_parser @ [0, 0, 0, 1, 7, 0]) of (fs, rest, ok) \<Rightarrow>
     \<exists>st'. feed Little_endian new_parser [0, 0, 0, 1, 7, 0] = Some (ok, st', fs) \<and>
       (ok \<longrightarrow> parser_inv st' \<and> held st' = rest)"
  by (rule feed_refines_deframe [OF parser_inv_new])

text \<open>A connection's reads, until one of them finds a declared length over the limit.\<close>

fun feed_all :: "host \<Rightarrow> frame_parser \<Rightarrow> buffer list \<Rightarrow> (bool \<times> frame_parser \<times> buffer list) option" where
  "feed_all h st [] = Some (True, st, [])"
| "feed_all h st (c # cs) =
     (case feed h st c of
        None \<Rightarrow> None
      | Some (ok, st', fs) \<Rightarrow>
          if \<not> ok then Some (False, st', fs)
          else (case feed_all h st' cs of
                  None \<Rightarrow> None
                | Some (ok', st'', gs) \<Rightarrow> Some (ok', st'', fs @ gs)))"

lemma deframe_append:
  "deframe bs = (fs, rest, ok) \<Longrightarrow>
   (if ok then deframe (bs @ p) = (case deframe (rest @ p) of (gs, r, ok') \<Rightarrow> (fs @ gs, r, ok'))
    else \<exists>r. deframe (bs @ p) = (fs, r, False))"
proof (induction bs arbitrary: fs rule: deframe.induct)
  case (1 bs)
  let ?n = "unat (de_be32 (take 4 bs))"
  consider (short) "length bs < 4" | (big) "4 \<le> length bs" "?n > kMaxFrameBytes"
    | (some) "4 \<le> length bs" "?n \<le> kMaxFrameBytes" "length bs < 4 + ?n"
    | (frame) "4 + ?n \<le> length bs" "?n \<le> kMaxFrameBytes" by linarith
  then show ?case
  proof cases
    case short
    then have "fs = []" "rest = bs" "ok" using "1.prems" by (simp_all add: deframe.simps [of bs])
    then show ?thesis by (auto split: prod.splits)
  next
    case big
    then have "fs = []" "\<not> ok" using "1.prems" by (simp_all add: deframe.simps [of bs] Let_def)
    then show ?thesis using big by (simp add: deframe.simps [of "bs @ p"] Let_def)
  next
    case some
    then have "fs = []" "rest = bs" "ok" using "1.prems" by (simp_all add: deframe.simps [of bs] Let_def)
    then show ?thesis by (auto split: prod.splits)
  next
    case frame
    obtain gs where gs: "deframe (drop (4 + ?n) bs) = (gs, rest, ok)"
      and fs: "fs = take ?n (drop 4 bs) # gs"
      using "1.prems" frame by (auto simp: deframe.simps [of bs] Let_def split: prod.splits)
    have "deframe (bs @ p) = (case deframe (drop (4 + ?n) bs @ p) of (gs, r, ok) \<Rightarrow>
        (take ?n (drop 4 bs) # gs, r, ok))"
      using frame by (subst deframe.simps) (simp add: Let_def)
    then show ?thesis
      using "1.IH" [OF _ refl _ _ gs] frame by (auto simp: fs split: if_splits prod.splits)
  qed
qed

lemma feed_all_refines:
  assumes "parser_inv st"
  shows "case deframe (held st @ concat cs) of (fs, rest, ok) \<Rightarrow>
     \<exists>st'. feed_all h st cs = Some (ok, st', fs) \<and> (ok \<longrightarrow> parser_inv st' \<and> held st' = rest)"
  using assms
proof (induction cs arbitrary: st)
  case Nil
  then show ?case by (simp add: deframe_held)
next
  case (Cons c cs)
  obtain fs rest ok where d: "deframe (held st @ c) = (fs, rest, ok)" using prod_cases3 by blast
  obtain st' where f: "feed h st c = Some (ok, st', fs)" and i: "ok \<longrightarrow> parser_inv st' \<and> held st' = rest"
    using feed_refines [OF Cons.prems, where p = c and h = h] d by auto
  show ?case
  proof (cases ok)
    case True
    then show ?thesis
      using deframe_append [OF d, of "concat cs"] Cons.IH [of st'] i
      by (auto simp: f split: prod.splits)
  next
    case False
    then show ?thesis using deframe_append [OF d, of "concat cs"] by (auto simp: f)
  qed
qed

text \<open>
  The frames a connection delivers and whether it is closed for an oversized frame depend
  only on the bytes received, not on how the network cut them into reads.
\<close>

theorem feed_chunk_independent:
  assumes "concat cs = concat ds"
  shows "map_option (\<lambda>(ok, st, fs). (ok, fs)) (feed_all h new_parser cs) =
    map_option (\<lambda>(ok, st, fs). (ok, fs)) (feed_all h' new_parser ds)"
  using feed_all_refines [OF parser_inv_new, where cs = cs and h = h]
    feed_all_refines [OF parser_inv_new, where cs = ds and h = h'] assms
  by (auto split: prod.splits)

theorem feed_chunk_independent_witness:
  "map_option (\<lambda>(ok, st, fs). (ok, fs)) (feed_all Little_endian new_parser [[0, 0], [0, 1, 9]]) =
    map_option (\<lambda>(ok, st, fs). (ok, fs)) (feed_all Big_endian new_parser [[0, 0, 0, 1, 9]])"
  by (rule feed_chunk_independent) simp

lemma deframe_enqueued:
  assumes "length frame \<le> kMaxFrameBytes"
  shows "deframe (enqueue_frame h frame @ q) = (case deframe q of (fs, r, ok) \<Rightarrow> (frame # fs, r, ok))"
proof -
  have "length frame < 2 ^ 32" using assms by (simp add: kMaxFrameBytes_def)
  then have "unat (of_nat (length frame) :: u32) = length frame"
    by (simp add: unat_of_nat take_bit_nat_eq_self)
  then show ?thesis
    unfolding enqueue_frame_def mem_of_swap append_assoc
    using assms by (intro deframe_frame) simp_all
qed



section \<open>Recycled buffers\<close>

text \<open>
  \<open>uv_stream_state::on_read\<close>: the spare buffer of capacity \<open>spare\<close> left by \<open>dequeue_frame\<close> is
  offered to the parser before the bytes of the read are fed.
\<close>

definition on_read :: "host \<Rightarrow> nat \<Rightarrow> buffer \<Rightarrow> frame_parser \<Rightarrow> (bool \<times> frame_parser \<times> buffer list) option" where
  "on_read h spare bytes st = feed h (if 0 < spare then offer_reuse spare st else st) bytes"

lemma offer_reuse_between_frames:
  assumes "parser_inv st" and "hdr_pos st < 4 \<or> cap \<le> partial_cap st"
  shows "parser_inv (offer_reuse cap st) \<and> held (offer_reuse cap st) = held st"
  using assms by (auto simp: offer_reuse_def parser_inv_def held_def)

text \<open>
  Offering a spare buffer is invisible between frames, or when its capacity does not exceed
  the scratch buffer's: the read then delivers exactly what it would have delivered without.
\<close>

theorem on_read_reuse_invisible:
  assumes "parser_inv st" and "hdr_pos st < 4 \<or> spare \<le> partial_cap st"
  shows "map_option (\<lambda>(ok, st', fs). (ok, fs)) (on_read h spare bytes st) =
    map_option (\<lambda>(ok, st', fs). (ok, fs)) (feed h st bytes)"
proof -
  let ?s = "if 0 < spare then offer_reuse spare st else st"
  have s: "parser_inv ?s" "held ?s = held st"
    using offer_reuse_between_frames [OF assms] assms(1) by auto
  show ?thesis
    using feed_refines [OF s(1), where p = bytes and h = h]
      feed_refines [OF assms(1), where p = bytes and h = h]
    by (auto simp: on_read_def s(2) split: prod.splits)
qed

theorem on_read_reuse_invisible_witness:
  "map_option (\<lambda>(ok, st', fs). (ok, fs)) (on_read Little_endian 100 [0, 0, 0, 1, 7] new_parser) =
    map_option (\<lambda>(ok, st', fs). (ok, fs)) (feed Little_endian new_parser [0, 0, 0, 1, 7])"
  by (rule on_read_reuse_invisible [OF parser_inv_new]) (simp add: new_parser_def)

lemma feed_completes:
  assumes "parser_inv st" and "hdr_pos st = 4" and "length q = payload_left st"
  shows "\<exists>st'. feed h st q = Some (True, st', [partial_buf st @ q])"
proof -
  have "q \<noteq> []" using assms by (auto simp: parser_inv_def)
  moreover have "feed_loop h s [] out = Some (True, s, out)" for s out
    by (subst feed_loop.simps) simp
  ultimately show ?thesis
    using assms unfolding feed_def
    by (subst feed_loop.simps) (simp add: header_part_def payload_part_def Let_def)
qed

text \<open>
  A larger spare buffer offered in the middle of a frame makes the parser lose the payload
  bytes it had already received: when the rest of the payload arrives, the frame delivered is
  that rest alone, where the parser without the offer delivers the whole payload.
\<close>

theorem reuse_mid_frame_loses_bytes:
  assumes "parser_inv st" and "hdr_pos st = 4" and "partial_cap st < spare"
    and "length q = payload_left st"
  shows "(\<exists>st'. on_read h spare q st = Some (True, st', [q])) \<and>
    (\<exists>st'. feed h st q = Some (True, st', [partial_buf st @ q]))"
proof -
  let ?s = "st\<lparr> partial_buf := [], partial_cap := spare \<rparr>"
  have "q \<noteq> []" using assms by (auto simp: parser_inv_def)
  moreover have "feed_loop h s [] out = Some (True, s, out)" for s out
    by (subst feed_loop.simps) simp
  ultimately have "\<exists>st'. feed h ?s q = Some (True, st', [q])"
    using assms unfolding feed_def
    by (subst feed_loop.simps) (simp add: header_part_def payload_part_def Let_def)
  then show ?thesis
    using feed_completes [OF assms(1,2,4)] assms(3) by (simp add: on_read_def offer_reuse_def)
qed

theorem reuse_mid_frame_loses_bytes_witness:
  "(\<exists>st'. on_read Little_endian 8 [3, 4]
       \<lparr> hdr = [0, 0, 0, 4], hdr_pos = 4, payload_left = 2, partial_buf = [1, 2], partial_cap = 4 \<rparr>
     = Some (True, st', [[3, 4]])) \<and>
   (\<exists>st'. feed Little_endian
       \<lparr> hdr = [0, 0, 0, 4], hdr_pos = 4, payload_left = 2, partial_buf = [1, 2], partial_cap = 4 \<rparr> [3, 4]
     = Some (True, st', [[1, 2, 3, 4]]))"
proof -
  have "de_be32 [0, 0, 0, 4] = 4" by (simp add: de_be32_def de_le32_def)
  then show ?thesis
    using reuse_mid_frame_loses_bytes
      [of "\<lparr> hdr = [0, 0, 0, 4], hdr_pos = 4, payload_left = 2, partial_buf = [1, 2], partial_cap = 4 \<rparr>"
        8 "[3, 4]" Little_endian]
    by (simp add: parser_inv_def kMaxFrameBytes_def)
qed

end
