(* ===== verification/Text.thy ===== *)
theory Text
  imports Prelude
begin

text \<open>
  The text primitives of the C++ standard library the sources call: \<open>std::to_string\<close>,
  \<open>std::stoi\<close>, hexadecimal stream output and the trimming idiom with
  \<open>find_first_not_of\<close> / \<open>find_last_not_of\<close>, with the lemmas that printing and reading
  numbers are inverse.
\<close>

section \<open>Decimal numbers\<close>

definition digit_char :: "nat \<Rightarrow> char" where
  "digit_char d = char_of (48 + d)"

definition digit_val :: "char \<Rightarrow> nat" where
  "digit_val c = of_char c - 48"

definition is_digit :: "char \<Rightarrow> bool" where
  "is_digit c \<longleftrightarrow> 48 \<le> (of_char c :: nat) \<and> (of_char c :: nat) \<le> 57"

fun nat_digits :: "nat \<Rightarrow> string" where
  "nat_digits n = (if n < 10 then [digit_char n] else nat_digits (n div 10) @ [digit_char (n mod 10)])"

declare nat_digits.simps [simp del]

text \<open>\<open>std::to_string\<close> of a signed number.\<close>

definition int_to_string :: "int \<Rightarrow> string" where
  "int_to_string i = (if i < 0 then CHR ''-'' # nat_digits (nat (- i)) else nat_digits (nat i))"

definition digits_value :: "nat \<Rightarrow> string \<Rightarrow> nat" where
  "digits_value v ds = foldl (\<lambda>v c. v * 10 + digit_val c) v ds"

lemma of_char_digit_char: "d < 10 \<Longrightarrow> (of_char (digit_char d) :: nat) = 48 + d"
  by (simp add: digit_char_def)

lemma is_digit_digit_char [simp]: "d < 10 \<Longrightarrow> is_digit (digit_char d)"
  by (simp add: is_digit_def of_char_digit_char)

lemma digit_val_digit_char [simp]: "d < 10 \<Longrightarrow> digit_val (digit_char d) = d"
  by (simp add: digit_val_def of_char_digit_char)

lemma digits_value_append [simp]:
  "digits_value v (ds @ es) = digits_value (digits_value v ds) es"
  by (simp add: digits_value_def)

lemma digits_value_Cons: "digits_value v (c # ds) = digits_value (v * 10 + digit_val c) ds"
  by (simp add: digits_value_def)

lemma digits_value_Nil [simp]: "digits_value v [] = v"
  by (simp add: digits_value_def)

lemma nat_digits_not_Nil [simp]: "nat_digits n \<noteq> []"
  by (subst nat_digits.simps) simp

lemma nat_digits_all_digits: "\<forall>c \<in> set (nat_digits n). is_digit c"
proof (induction n rule: nat_digits.induct)
  case (1 n)
  then show ?case by (subst nat_digits.simps) auto
qed

lemma digits_value_nat_digits: "digits_value 0 (nat_digits n) = n"
proof (induction n rule: nat_digits.induct)
  case (1 n)
  show ?case
  proof (cases "n < 10")
    case True
    then show ?thesis by (subst nat_digits.simps) (simp add: digits_value_Cons)
  next
    case False
    with 1 show ?thesis by (subst nat_digits.simps) (simp add: digits_value_Cons)
  qed
qed

lemma length_nat_digits: "n < 10 ^ Suc k \<Longrightarrow> length (nat_digits n) \<le> Suc k"
proof (induction k arbitrary: n)
  case 0
  then show ?case by (subst nat_digits.simps) simp
next
  case (Suc k)
  then have "n div 10 < 10 ^ Suc k" by (simp add: less_mult_imp_div_less)
  with Suc.IH [of "n div 10"] show ?case by (subst nat_digits.simps) simp
qed

lemma digits_value_mono: "v \<le> digits_value v ds"
proof (induction ds arbitrary: v)
  case Nil
  then show ?case by simp
next
  case (Cons c ds)
  have "v \<le> v * 10 + digit_val c" by simp
  also have "\<dots> \<le> digits_value v (c # ds)" using Cons by (simp add: digits_value_Cons)
  finally show ?case .
qed

section \<open>\<open>std::stoi\<close>\<close>

definition is_space :: "char \<Rightarrow> bool" where
  "is_space c \<longleftrightarrow> c \<in> {CHR '' '', CHR 0x09, CHR 0x0A, CHR 0x0B, CHR 0x0C, CHR 0x0D}"

text \<open>
  Leading white space and a sign are skipped, the longest digit run is converted, what follows
  it is ignored.
\<close>

definition stoi :: "string \<Rightarrow> u32 result" where
  "stoi s =
     (let s1 = dropWhile is_space s;
          neg = (s1 \<noteq> [] \<and> hd s1 = CHR ''-'');
          s2 = (if s1 \<noteq> [] \<and> (hd s1 = CHR ''-'' \<or> hd s1 = CHR ''+'') then tl s1 else s1);
          ds = takeWhile is_digit s2;
          v = (if neg then - int (digits_value 0 ds) else int (digits_value 0 ds))
      in if ds = [] then Inl Invalid_argument
         else if - (2 ^ 31) \<le> v \<and> v < 2 ^ 31 then Inr (word_of_int v)
         else Inl Out_of_range)"

text \<open>\<open>std::to_string(int32_t)\<close>.\<close>

definition int32_to_string :: "u32 \<Rightarrow> string" where
  "int32_to_string w = int_to_string (sint w)"

lemma not_digit_sign: "is_digit c \<Longrightarrow> c \<noteq> CHR ''-'' \<and> c \<noteq> CHR ''+'' \<and> \<not> is_space c"
  by (auto simp: is_digit_def is_space_def)

lemma stoi_int32_to_string: "stoi (int32_to_string w) = Inr w"
proof -
  have rng: "- (2 ^ 31) \<le> sint w" "sint w < 2 ^ 31"
    using sint_ge [of w] sint_lt [of w] by simp_all
  have tw: "takeWhile is_digit (nat_digits n) = nat_digits n" for n
    using nat_digits_all_digits by (simp add: takeWhile_eq_all_conv)
  obtain c cs where nd: "nat_digits (nat (sint w)) = c # cs" "is_digit c"
    using nat_digits_all_digits [of "nat (sint w)"] by (cases "nat_digits (nat (sint w))") auto
  show ?thesis
  proof (cases "sint w < 0")
    case True
    have "dropWhile is_space (CHR ''-'' # ds) = CHR ''-'' # ds" for ds
      by (simp add: is_space_def)
    then show ?thesis
      using True rng
      by (simp add: stoi_def int32_to_string_def int_to_string_def Let_def tw digits_value_nat_digits)
  next
    case False
    have hd: "hd (nat_digits (nat (sint w))) = c" by (simp add: nd)
    have sp: "dropWhile is_space (nat_digits (nat (sint w))) = nat_digits (nat (sint w))"
      using nd not_digit_sign by simp
    have "c \<noteq> CHR ''-''" "c \<noteq> CHR ''+''" using nd(2) not_digit_sign by auto
    then show ?thesis
      using False rng
      by (simp add: stoi_def int32_to_string_def int_to_string_def Let_def hd sp tw
          digits_value_nat_digits)
  qed
qed

section \<open>Hexadecimal\<close>

definition hex_char :: "nat \<Rightarrow> char" where
  "hex_char d = (if d < 10 then char_of (48 + d) else char_of (87 + d))"

text \<open>\<open>oss << std::hex << std::setfill('0') << std::setw(2) << byte\<close>, byte by byte.\<close>

definition hex_byte :: "u8 \<Rightarrow> string" where
  "hex_byte b = [hex_char (unat b div 16), hex_char (unat b mod 16)]"

definition hex_string :: "buffer \<Rightarrow> string" where
  "hex_string bs = concat (map hex_byte bs)"

text \<open>An eight-digit hash, most significant byte first.\<close>

definition hex32 :: "u32 \<Rightarrow> string" where
  "hex32 w = hex_string [ucast (drop_bit 24 w), ucast (drop_bit 16 w), ucast (drop_bit 8 w), ucast w]"

lemma length_hex_string [simp]: "length (hex_string bs) = 2 * length bs"
  by (induction bs) (auto simp: hex_string_def hex_byte_def)

section \<open>Trimming\<close>

text \<open>
  \<open>s.substr(find_first_not_of(set), \<dots>find_last_not_of(set))\<close>, or the empty string when every
  character is in the set.
\<close>

definition trim_of :: "(char \<Rightarrow> bool) \<Rightarrow> string \<Rightarrow> string" where
  "trim_of P s = rev (dropWhile P (rev (dropWhile P s)))"

lemma trim_of_id:
  assumes "s \<noteq> []" and "\<not> P (hd s)" and "\<not> P (last s)"
  shows "trim_of P s = s"
proof -
  have "dropWhile P s = s" using assms(1,2) by (cases s) auto
  moreover have "dropWhile P (rev s) = rev s"
    using assms(1,3) by (cases "rev s") (auto simp: rev_swap)
  ultimately show ?thesis by (simp add: trim_of_def)
qed

lemma trim_of_drops: "\<forall>c \<in> set xs. P c \<Longrightarrow> trim_of P (xs @ s) = trim_of P s"
  by (simp add: trim_of_def dropWhile_append2)

lemma trim_of_idem: "trim_of P (trim_of P s) = trim_of P s"
proof (cases "trim_of P s = []")
  case True
  have "trim_of P [] = []" by (simp add: trim_of_def)
  then show ?thesis by (simp only: True)
next
  case False
  let ?u = "dropWhile P s"
  have ne: "dropWhile P (rev ?u) \<noteq> []" using False by (simp add: trim_of_def)
  have "\<not> P (last (trim_of P s))"
    using hd_dropWhile [OF ne] ne by (simp add: trim_of_def last_rev)
  moreover have "\<not> P (hd (trim_of P s))"
  proof -
    have u: "?u \<noteq> []" using ne by (metis dropWhile.simps(1) rev.simps(1))
    obtain zs where zs: "rev ?u = zs @ dropWhile P (rev ?u)"
      by (metis takeWhile_dropWhile_id)
    have "?u = trim_of P s @ rev zs"
      by (metis rev_append rev_rev_ident trim_of_def zs)
    then have "hd (trim_of P s) = hd ?u" using False by (metis hd_append2)
    then show ?thesis using hd_dropWhile [OF u] by simp
  qed
  ultimately show ?thesis using False by (intro trim_of_id)
qed

lemma set_trim_of: "set (trim_of P s) \<subseteq> set s"
proof
  fix c
  assume "c \<in> set (trim_of P s)"
  then have "c \<in> set (rev (dropWhile P s))"
    unfolding trim_of_def set_rev [of "dropWhile P (rev (dropWhile P s))"]
    by (rule set_dropWhileD)
  then show "c \<in> set s" unfolding set_rev by (rule set_dropWhileD)
qed

section \<open>Splitting\<close>

text \<open>The pieces between the occurrences of a separator, found with \<open>s.find(c, start)\<close>.\<close>

fun split_on :: "char \<Rightarrow> string \<Rightarrow> string list" where
  "split_on c [] = [[]]"
| "split_on c (x # xs) =
     (if x = c then [] # split_on c xs
      else (case split_on c xs of [] \<Rightarrow> [[x]] | y # ys \<Rightarrow> (x # y) # ys))"

lemma split_on_not_Nil [simp]: "split_on c s \<noteq> []"
  by (induction s) (auto split: list.splits)

lemma split_on_piece: "c \<notin> set s \<Longrightarrow> split_on c s = [s]"
  by (induction s) auto

lemma split_on_append: "c \<notin> set s \<Longrightarrow> split_on c (s @ c # t) = s # split_on c t"
  by (induction s) auto

end
