(* ===== verification/Term_Codec.thy ===== *)
theory Term_Codec
  imports Serializer Text
begin

text \<open>
  The text encoding of frames in \<open>src/rmi/transport/term_transport.cpp\<close>: base64, decimal
  chunk numbers, and the two wire formats, the chunked OSC-99 sequences of the client and the
  \<open>BISON<\<dots>>\<close> marker of the server.
\<close>

section \<open>Base64\<close>

definition kBase64Chars :: string where
  "kBase64Chars = ''ABCDEFGHIJKLMNOPQRSTUVWXYZabcdefghijklmnopqrstuvwxyz0123456789+/''"

definition b64_char :: "u32 \<Rightarrow> char" where
  "b64_char n = kBase64Chars ! unat (n AND 0x3F)"

fun base64_encode :: "buffer \<Rightarrow> string" where
  "base64_encode (a # b # c # rest) =
     (let n = push_bit 16 (ucast a) OR push_bit 8 (ucast b) OR ucast c
      in [b64_char (drop_bit 18 n), b64_char (drop_bit 12 n), b64_char (drop_bit 6 n), b64_char n] @
         base64_encode rest)"
| "base64_encode [a] =
     (let n = push_bit 16 (ucast a)
      in [b64_char (drop_bit 18 n), b64_char (drop_bit 12 n), CHR ''='', CHR ''=''])"
| "base64_encode [a, b] =
     (let n = push_bit 16 (ucast a) OR push_bit 8 (ucast b)
      in [b64_char (drop_bit 18 n), b64_char (drop_bit 12 n), b64_char (drop_bit 6 n), CHR ''=''])"
| "base64_encode [] = []"

definition kDecodeTableSize :: nat where
  "kDecodeTableSize = 80"

definition make_decode_table :: "int list" where
  "make_decode_table =
     fold (\<lambda>i table. table[of_char (kBase64Chars ! i) - 43 := int i]) [0..<64]
       (replicate kDecodeTableSize (- 1))"

text \<open>The inner loop over the four characters of a group.\<close>

fun group_vals :: "int list \<Rightarrow> string \<Rightarrow> nat \<Rightarrow> (u32 list \<times> nat) option" where
  "group_vals table [] pad = Some ([], pad)"
| "group_vals table (c # cs) pad =
     (if c = CHR ''='' then
        (case group_vals table cs (pad + 1) of None \<Rightarrow> None | Some (vs, p) \<Rightarrow> Some (0 # vs, p))
      else if (of_char c :: nat) < 43 \<or> (of_char c :: nat) \<ge> 43 + kDecodeTableSize \<or>
              table ! (of_char c - 43) < 0 then None
      else if pad > 0 then None
      else (case group_vals table cs pad of
              None \<Rightarrow> None
            | Some (vs, p) \<Rightarrow> Some (word_of_int (table ! (of_char c - 43)) # vs, p)))"

definition group_bytes :: "u32 list \<Rightarrow> nat \<Rightarrow> buffer" where
  "group_bytes vals pad =
     (let n = push_bit 18 (vals ! 0) OR push_bit 12 (vals ! 1) OR push_bit 6 (vals ! 2) OR vals ! 3
      in [ucast (drop_bit 16 n AND 0xFF)] @
         (if pad < 2 then [ucast (drop_bit 8 n AND 0xFF)] else []) @
         (if pad < 1 then [ucast (n AND 0xFF)] else []))"

text \<open>The outer loop; \<open>in.size() % 4 != 0\<close> is tested before it.\<close>

fun decode_groups :: "string \<Rightarrow> buffer option" where
  "decode_groups (a # b # c # d # rest) =
     (case group_vals make_decode_table [a, b, c, d] 0 of
        None \<Rightarrow> None
      | Some (vals, pad) \<Rightarrow>
          if pad > 2 \<or> (pad > 0 \<and> rest \<noteq> []) then None
          else (case decode_groups rest of
                  None \<Rightarrow> None
                | Some out \<Rightarrow> Some (group_bytes vals pad @ out)))"
| "decode_groups _ = Some []"

definition base64_decode :: "string \<Rightarrow> buffer option" where
  "base64_decode s =
     (if s = [] then Some []
      else if length s mod 4 \<noteq> 0 then None
      else decode_groups s)"

lemma length_kBase64Chars: "length kBase64Chars = 64"
  by (simp add: kBase64Chars_def)

lemma distinct_kBase64Chars: "distinct kBase64Chars"
  by (simp add: kBase64Chars_def)

lemma kBase64Chars_range:
  "c \<in> set kBase64Chars \<Longrightarrow> 43 \<le> (of_char c :: nat) \<and> (of_char c :: nat) < 123 \<and> c \<noteq> CHR ''=''"
  by (simp add: kBase64Chars_def) (elim disjE; simp)

lemma fold_updates:
  assumes "inj_on f (set is)" and "\<forall>i \<in> set is. f i < length t" and "distinct is"
  shows "i \<in> set is \<Longrightarrow> fold (\<lambda>i t. t[f i := g i]) is t ! f i = g i"
  using assms
proof (induction "is" arbitrary: t)
  case Nil
  then show ?case by simp
next
  case (Cons j js)
  have other: "fold (\<lambda>i t. t[f i := g i]) ks t ! x = t ! x" if "x \<notin> f ` set ks" for ks t x
    using that by (induction ks arbitrary: t) auto
  show ?case
  proof (cases "i = j")
    case True
    then have "f j \<notin> f ` set js" using Cons.prems by auto
    then show ?thesis using True Cons.prems by (simp add: other)
  next
    case False
    then show ?thesis using Cons by auto
  qed
qed

lemma decode_table_correct:
  assumes "i < 64"
  shows "make_decode_table ! (of_char (kBase64Chars ! i) - 43) = int i"
proof -
  let ?f = "\<lambda>i. (of_char (kBase64Chars ! i) :: nat) - 43"
  have r: "43 \<le> (of_char (kBase64Chars ! j) :: nat) \<and> (of_char (kBase64Chars ! j) :: nat) < 123"
    if "j < 64" for j
    using kBase64Chars_range that by (simp add: length_kBase64Chars)
  have "inj_on ?f (set [0..<64])"
  proof (rule inj_onI)
    fix j k
    assume jk: "j \<in> set [0..<64]" "k \<in> set [0..<64]" "?f j = ?f k"
    then have "(of_char (kBase64Chars ! j) :: nat) = of_char (kBase64Chars ! k)"
      using r [of j] r [of k] by (simp add: eq_diff_iff)
    then show "j = k"
      using jk distinct_kBase64Chars by (simp add: nth_eq_iff_index_eq length_kBase64Chars)
  qed
  moreover have "\<forall>j \<in> set [0..<64]. ?f j < length (replicate kDecodeTableSize (- 1 :: int))"
    using r by (fastforce simp: kDecodeTableSize_def)
  ultimately show ?thesis
    using assms unfolding make_decode_table_def by (intro fold_updates) auto
qed

lemma and_3F: "x AND 0x3F = take_bit 6 (x :: u32)" and and_FF: "x AND 0xFF = take_bit 8 (x :: u32)"
  by (simp_all add: take_bit_eq_mask mask_eq_exp_minus_1)

lemma unat_sextet: "unat (n AND 0x3F :: u32) < 64"
  using take_bit_nat_less_exp [of 6 "unat n"] by (simp add: and_3F unsigned_take_bit_eq)

lemma b64_char_member: "b64_char n \<in> set kBase64Chars"
  by (simp add: b64_char_def unat_sextet length_kBase64Chars)

lemma group_vals_char [simp]:
  "group_vals make_decode_table (b64_char n # cs) 0 =
     (case group_vals make_decode_table cs 0 of None \<Rightarrow> None | Some (vs, p) \<Rightarrow> Some ((n AND 0x3F) # vs, p))"
proof -
  have r: "43 \<le> (of_char (b64_char n) :: nat)" "(of_char (b64_char n) :: nat) < 123" "b64_char n \<noteq> CHR ''=''"
    using kBase64Chars_range [OF b64_char_member, of n] by simp_all
  have t: "make_decode_table ! (of_char (b64_char n) - 43) = uint (n AND 0x3F)"
    using decode_table_correct [OF unat_sextet, of n] by (simp add: b64_char_def)
  show ?thesis
    using r by (cases "group_vals make_decode_table cs 0") (auto simp: t kDecodeTableSize_def)
qed

lemma group_vals_eq [simp]:
  "group_vals table (CHR ''='' # cs) pad =
     (case group_vals table cs (pad + 1) of None \<Rightarrow> None | Some (vs, p) \<Rightarrow> Some (0 # vs, p))"
  by simp

declare group_vals.simps(2) [simp del]

lemma join_sextets:
  fixes n :: u32
  assumes "drop_bit 24 n = 0"
  shows "push_bit 18 (take_bit 6 (drop_bit 18 n)) OR push_bit 12 (take_bit 6 (drop_bit 12 n)) OR
    push_bit 6 (take_bit 6 (drop_bit 6 n)) OR take_bit 6 n = n"
proof (rule bit_word_eqI)
  fix k :: nat
  assume k: "k < LENGTH(32)"
  have hi: "\<not> bit n k" if "24 \<le> k"
  proof -
    have "bit (drop_bit 24 n) (k - 24) = False" using assms by simp
    then show ?thesis using that by (simp add: bit_simps)
  qed
  consider "k < 6" | "6 \<le> k" "k < 12" | "12 \<le> k" "k < 18" | "18 \<le> k" "k < 24" | "24 \<le> k" by linarith
  then show "bit (push_bit 18 (take_bit 6 (drop_bit 18 n)) OR push_bit 12 (take_bit 6 (drop_bit 12 n)) OR
    push_bit 6 (take_bit 6 (drop_bit 6 n)) OR take_bit 6 n) k = bit n k"
    using k hi by cases (auto simp add: bit_simps)
qed

definition word24 :: "u8 \<Rightarrow> u8 \<Rightarrow> u8 \<Rightarrow> u32" where
  "word24 a b c = push_bit 16 (ucast a) OR push_bit 8 (ucast b) OR ucast c"

lemma word24_bytes:
  "drop_bit 24 (word24 a b c) = 0" "ucast (take_bit 8 (drop_bit 16 (word24 a b c))) = a"
  "ucast (take_bit 8 (drop_bit 8 (word24 a b c))) = b" "ucast (take_bit 8 (word24 a b c)) = c"
  by (rule bit_word_eqI; simp add: word24_def bit_simps bit_8_word_ge)+

lemma group_bytes_word24:
  "group_bytes [drop_bit 18 (word24 a b c) AND 0x3F, drop_bit 12 (word24 a b c) AND 0x3F,
     drop_bit 6 (word24 a b c) AND 0x3F, word24 a b c AND 0x3F] 0 = [a, b, c]"
  by (simp add: group_bytes_def and_3F and_FF join_sextets word24_bytes Let_def)

lemma group_bytes_pad:
  "group_bytes vs (Suc (Suc 0)) = take 1 (group_bytes vs 0)" "group_bytes vs (Suc 0) = take 2 (group_bytes vs 0)"
  by (simp_all add: group_bytes_def Let_def numeral_2_eq_2)

lemma word24_short:
  "drop_bit 6 (word24 a 0 0) AND 0x3F = 0" "word24 a b 0 AND 0x3F = 0"
  "word24 a 0 0 = push_bit 16 (ucast a)" "word24 a b 0 = push_bit 16 (ucast a) OR push_bit 8 (ucast b)"
  by (simp_all add: and_3F word24_def) (rule bit_word_eqI; simp add: bit_simps)+

lemma decode_groups_encode: "decode_groups (base64_encode bs) = Some bs"
proof (induction bs rule: base64_encode.induct)
  case (1 a b c rest)
  then show ?case
    using group_bytes_word24 [of a b c]
    by (simp add: Let_def word24_def [symmetric] del: One_nat_def)
next
  case (2 a)
  show ?case
    using group_bytes_word24 [of a 0 0]
    by (simp add: Let_def word24_short(3) [symmetric] word24_short(1,2) group_bytes_pad)
next
  case (3 a b)
  show ?case
    using group_bytes_word24 [of a b 0]
    by (simp add: Let_def word24_short(4) [symmetric] word24_short(1,2) group_bytes_pad)
next
  case 4
  show ?case by simp
qed

lemma div3_step: "(5 + n) div 3 = Suc (Suc (Suc n) div (3 :: nat))"
  by presburger

lemma length_base64_encode: "length (base64_encode bs) = 4 * ((length bs + 2) div 3)"
  by (induction bs rule: base64_encode.induct) (simp_all add: Let_def div3_step)

lemma base64_encode_chars:
  "c \<in> set (base64_encode bs) \<Longrightarrow> c \<in> set kBase64Chars \<or> c = CHR ''=''"
  by (induction bs rule: base64_encode.induct) (auto simp: Let_def b64_char_member)

lemma base64_decode_encode: "base64_decode (base64_encode bs) = Some bs"
proof (cases "base64_encode bs = []")
  case True
  then have "bs = []" using length_base64_encode [of bs] by (cases bs) auto
  then show ?thesis by (simp add: base64_decode_def)
next
  case False
  then show ?thesis
    by (simp add: base64_decode_def length_base64_encode decode_groups_encode)
qed

text \<open>
  Decoding undoes encoding for every byte sequence, of any length modulo three.
\<close>

theorem base64_roundtrip: "base64_decode (base64_encode bs) = Some bs"
  by (rule base64_decode_encode)

text \<open>
  The decoder also accepts texts the encoder never produces: the unused low bits of the last
  sextet before the padding are ignored.
\<close>

lemma base64_not_canonical: "base64_decode ''AA=='' = Some [0]" "base64_decode ''AB=='' = Some [0]"
proof -
  have ch: "CHR ''A'' = b64_char 0" "CHR ''B'' = b64_char 1"
    by (simp_all add: b64_char_def kBase64Chars_def)
  show "base64_decode ''AA=='' = Some [0]" "base64_decode ''AB=='' = Some [0]"
    by (simp_all add: base64_decode_def ch group_bytes_def)
qed

section \<open>Decimal chunk numbers\<close>

text \<open>\<open>parse_uint\<close>; the accumulator stays below \<open>10 * 2\<^sup>3\<^sup>2\<close>, so the 64-bit \<open>v\<close> never wraps.\<close>

fun parse_uint_loop :: "string \<Rightarrow> nat \<Rightarrow> nat option" where
  "parse_uint_loop [] v = Some v"
| "parse_uint_loop (c # cs) v =
     (if (of_char c :: nat) < 48 \<or> (of_char c :: nat) > 57 then None
      else let v' = v * 10 + (of_char c - 48)
           in if v' > 0xFFFFFFFF then None else parse_uint_loop cs v')"

definition parse_uint :: "string \<Rightarrow> nat option" where
  "parse_uint s = (if s = [] \<or> length s > 10 then None else parse_uint_loop s 0)"

lemma parse_uint_loop_digits:
  assumes "\<forall>c \<in> set ds. is_digit c" and "digits_value v ds \<le> 0xFFFFFFFF"
  shows "parse_uint_loop ds v = Some (digits_value v ds)"
  using assms
proof (induction ds arbitrary: v)
  case Nil
  then show ?case by simp
next
  case (Cons c ds)
  have "v * 10 + digit_val c \<le> digits_value v (c # ds)"
    unfolding digits_value_Cons by (rule digits_value_mono)
  then have "v * 10 + digit_val c \<le> 0xFFFFFFFF" using Cons.prems by simp
  then show ?case
    using Cons by (simp add: is_digit_def digit_val_def digits_value_Cons Let_def)
qed

lemma parse_uint_nat_digits:
  assumes "n \<le> 0xFFFFFFFF"
  shows "parse_uint (nat_digits n) = Some n"
proof -
  have "n < 10 ^ Suc 9" using assms by simp
  then have "length (nat_digits n) \<le> 10" using length_nat_digits [of n 9] by simp
  then show ?thesis
    using assms parse_uint_loop_digits [of "nat_digits n" 0] nat_digits_all_digits
    by (simp add: parse_uint_def digits_value_nat_digits)
qed

section \<open>The wire formats\<close>

definition kOscPrefix :: string where
  "kOscPrefix = [CHR 0x1B, CHR '']'', CHR ''9'', CHR ''9'', CHR '';'']"

definition kOscTerminator :: char where
  "kOscTerminator = CHR 0x07"

definition kMaxOscSequenceBytes :: nat where
  "kMaxOscSequenceBytes = 4096"

definition kOscFixedOverhead :: nat where
  "kOscFixedOverhead = length kOscPrefix + 1 + 1 + 1"

definition kSeqDigitBudget :: nat where
  "kSeqDigitBudget = 10"

definition kBase64Budget :: nat where
  "kBase64Budget = kMaxOscSequenceBytes - kOscFixedOverhead - 2 * kSeqDigitBudget"

definition kChunkRawBytes :: nat where
  "kChunkRawBytes = (kBase64Budget div 4) * 3"

definition kMarkerPrefix :: string where
  "kMarkerPrefix = ''BISON<''"

definition kMarkerSuffix :: char where
  "kMarkerSuffix = CHR ''>''"

definition kMaxCaptureBytes :: nat where
  "kMaxCaptureBytes = kMaxOscSequenceBytes * 4"

lemma kChunkRawBytes_eq: "kChunkRawBytes = 3051"
  by (simp add: kChunkRawBytes_def kBase64Budget_def kMaxOscSequenceBytes_def kOscFixedOverhead_def
      kOscPrefix_def kSeqDigitBudget_def)

datatype term_role = Client_role | Server_role

definition osc_chunk :: "nat \<Rightarrow> nat \<Rightarrow> buffer \<Rightarrow> string" where
  "osc_chunk i n_chunks chunk_bytes =
     kOscPrefix @ nat_digits i @ [CHR '';''] @ nat_digits n_chunks @ [CHR '';''] @
     base64_encode chunk_bytes @ [kOscTerminator]"

definition total_chunks :: "buffer \<Rightarrow> nat" where
  "total_chunks frame =
     (if frame = [] then 1 else (length frame + kChunkRawBytes - 1) div kChunkRawBytes)"

definition chunk_at :: "buffer \<Rightarrow> nat \<Rightarrow> buffer" where
  "chunk_at frame i =
     (let offset = i * kChunkRawBytes in take (min kChunkRawBytes (length frame - offset)) (drop offset frame))"

text \<open>The bytes \<open>send_frame\<close> writes.\<close>

definition send_frame :: "bool \<Rightarrow> term_role \<Rightarrow> buffer \<Rightarrow> string result" where
  "send_frame closed role frame =
     (if closed then Inl Send_on_closed
      else if role = Server_role then
        Inr (kMarkerPrefix @ base64_encode frame @ [kMarkerSuffix])
      else
        Inr (concat (map (\<lambda>i. osc_chunk i (total_chunks frame) (chunk_at frame i)) [0..<total_chunks frame])))"

lemma length_chunk_at: "length (chunk_at frame i) \<le> kChunkRawBytes"
  by (simp add: chunk_at_def Let_def)

text \<open>
  No OSC sequence the client role emits exceeds \<open>kMaxOscSequenceBytes\<close>, however large the
  frame, as long as its chunks can be numbered with ten digits.
\<close>

theorem osc_sequence_bounded:
  assumes "n_chunks < 10 ^ 10" and "i < n_chunks"
  shows "length (osc_chunk i n_chunks (chunk_at frame i)) \<le> kMaxOscSequenceBytes"
proof -
  have "length (nat_digits i) \<le> 10" "length (nat_digits n_chunks) \<le> 10"
    using assms length_nat_digits [of i 9] length_nat_digits [of n_chunks 9] by simp_all
  moreover have "length (base64_encode (chunk_at frame i)) \<le> 4068"
    using length_chunk_at [of frame i] by (simp add: length_base64_encode kChunkRawBytes_eq)
  ultimately show ?thesis
    by (simp add: osc_chunk_def kOscPrefix_def kMaxOscSequenceBytes_def)
qed

theorem osc_sequence_bounded_witness:
  "length (osc_chunk 0 1 (chunk_at [1, 2, 3] 0)) \<le> kMaxOscSequenceBytes"
  by (rule osc_sequence_bounded) simp_all

lemma concat_chunks: "concat (map (chunk_at frame) [0..<n]) = take (n * kChunkRawBytes) frame"
proof (induction n)
  case 0
  then show ?case by simp
next
  case (Suc n)
  have "chunk_at frame n = take kChunkRawBytes (drop (n * kChunkRawBytes) frame)"
    by (simp add: chunk_at_def Let_def min_def)
  then show ?case
    using Suc by (simp add: take_add [symmetric] add.commute)
qed

lemma total_chunks_cover: "length frame \<le> total_chunks frame * kChunkRawBytes"
proof -
  have "(length frame + 3051 - 1) mod 3051 < 3051" by simp
  then show ?thesis
    using div_mult_mod_eq [of "length frame + 3051 - 1" 3051]
    by (simp add: total_chunks_def kChunkRawBytes_eq) linarith
qed

lemma chunks_frame: "concat (map (chunk_at frame) [0..<total_chunks frame]) = frame"
  by (simp add: concat_chunks total_chunks_cover)

lemma total_chunks_pos: "0 < total_chunks frame"
proof (cases "frame = []")
  case False
  then have "3051 \<le> length frame + 3051 - 1" by (cases frame) auto
  then have "0 < (length frame + 3051 - 1) div 3051" by (simp only: div_greater_zero_iff) simp
  then show ?thesis using False by (simp add: total_chunks_def kChunkRawBytes_eq)
qed (simp add: total_chunks_def)

end
