(* ===== verification/Term_Reader.thy ===== *)
theory Term_Reader
  imports Term_Codec
begin

text \<open>
  The receiving side of the terminal transport (\<open>term_reader\<close> of
  \<open>src/rmi/transport/term_transport.cpp\<close>): the byte scanner that separates frames from the
  terminal's own bytes, and the reassembly of chunked frames. Characters are the bytes of the
  wire. The idle timer is an event that may fire between any two bytes.
\<close>

section \<open>State\<close>

record reassembly =
  r_active :: bool
  r_total :: nat
  r_expected :: nat
  r_buf :: buffer

definition new_reassembly :: reassembly where
  "new_reassembly = \<lparr> r_active = False, r_total = 0, r_expected = 0, r_buf = [] \<rparr>"

record term_reader =
  osc_format :: bool
  in_seq :: bool
  match_pos :: nat
  speculative :: string
  capture :: string
  pending_passthrough :: string
  esc_pending :: bool
  in_csi :: bool
  assem :: reassembly
  passed :: "string list"
  recv_queue :: "buffer list"
  received_any :: bool
  recv_closed :: bool

text \<open>\<open>init\<close>: a side receives the format the other side's role sends.\<close>

definition reader_init :: "term_role \<Rightarrow> term_reader" where
  "reader_init role = \<lparr> osc_format = (role = Server_role), in_seq = False, match_pos = 0,
     speculative = [], capture = [], pending_passthrough = [], esc_pending = False, in_csi = False,
     assem = new_reassembly, passed = [], recv_queue = [], received_any = False, recv_closed = False \<rparr>"

definition scan_prefix :: "term_reader \<Rightarrow> string" where
  "scan_prefix st = (if osc_format st then kOscPrefix else kMarkerPrefix)"

definition terminator :: "term_reader \<Rightarrow> char" where
  "terminator st = (if osc_format st then kOscTerminator else kMarkerSuffix)"

section \<open>Completed sequences\<close>

definition push_frame :: "buffer \<Rightarrow> term_reader \<Rightarrow> term_reader" where
  "push_frame f st = st\<lparr> recv_queue := recv_queue st @ [f], received_any := True \<rparr>"

definition complete_marker :: "string \<Rightarrow> term_reader \<Rightarrow> term_reader" where
  "complete_marker body st =
     (case base64_decode body of None \<Rightarrow> st | Some decoded \<Rightarrow> push_frame decoded st)"

text \<open>One chunk of a frame: the reassembly after it, and the frame it completes, if any.\<close>

definition assemble :: "nat \<Rightarrow> nat \<Rightarrow> buffer \<Rightarrow> reassembly \<Rightarrow> reassembly \<times> buffer option" where
  "assemble seq n_chunks decoded a =
     (let a0 = (if seq = 0
                then \<lparr> r_active = True, r_total = n_chunks, r_expected = 0, r_buf = [] \<rparr>
                else a)
      in if \<not> r_active a0 \<or> seq \<noteq> r_expected a0 \<or> n_chunks \<noteq> r_total a0
         then (new_reassembly, None)
         else let a1 = a0\<lparr> r_buf := r_buf a0 @ decoded, r_expected := r_expected a0 + 1 \<rparr>
              in if r_expected a1 = r_total a1 then (new_reassembly, Some (r_buf a1))
                 else (a1, None))"

definition complete_chunk :: "nat \<Rightarrow> nat \<Rightarrow> string \<Rightarrow> term_reader \<Rightarrow> term_reader" where
  "complete_chunk seq n_chunks b64_payload st =
     (case base64_decode b64_payload of
        None \<Rightarrow> st
      | Some decoded \<Rightarrow>
          if n_chunks = 0 then st
          else (case assemble seq n_chunks decoded (assem st) of
                  (a, None) \<Rightarrow> st\<lparr> assem := a \<rparr>
                | (a, Some f) \<Rightarrow> push_frame f (st\<lparr> assem := a \<rparr>)))"

text \<open>\<open>body.find(';')\<close> and the two pieces around it.\<close>

definition cut_at :: "char \<Rightarrow> string \<Rightarrow> (string \<times> string) option" where
  "cut_at c s = (if c \<in> set s then Some (takeWhile (\<lambda>x. x \<noteq> c) s, tl (dropWhile (\<lambda>x. x \<noteq> c) s)) else None)"

definition parse_and_complete :: "string \<Rightarrow> term_reader \<Rightarrow> term_reader" where
  "parse_and_complete body st =
     (case cut_at CHR '';'' body of
        None \<Rightarrow> st
      | Some (f1, body1) \<Rightarrow> (case cut_at CHR '';'' body1 of
            None \<Rightarrow> st
          | Some (f2, b64) \<Rightarrow> (case (parse_uint f1, parse_uint f2) of
                (Some seq, Some n_chunks) \<Rightarrow> complete_chunk seq n_chunks b64 st
              | _ \<Rightarrow> st)))"

definition complete_sequence :: "term_reader \<Rightarrow> term_reader" where
  "complete_sequence st =
     (let st1 = (if osc_format st then parse_and_complete (capture st) st
                 else complete_marker (capture st) st)
      in st1\<lparr> capture := [], in_seq := False, match_pos := 0, speculative := [] \<rparr>)"

section \<open>The scanner\<close>

definition add_pending :: "string \<Rightarrow> term_reader \<Rightarrow> term_reader" where
  "add_pending s st = st\<lparr> pending_passthrough := pending_passthrough st @ s \<rparr>"

text \<open>The body of an open sequence.\<close>

definition feed_in_seq :: "char \<Rightarrow> term_reader \<Rightarrow> term_reader" where
  "feed_in_seq b st =
     (if b = terminator st then complete_sequence st
      else let st1 = st\<lparr> capture := capture st @ [b] \<rparr>
           in if osc_format st \<and> length (capture st1) > kMaxCaptureBytes
              then st1\<lparr> capture := [], in_seq := False \<rparr>
              else st1)"

text \<open>Matching against the prefix, and what becomes of a byte that does not match.\<close>

definition feed_match :: "char \<Rightarrow> term_reader \<Rightarrow> term_reader" where
  "feed_match b st =
     (if b = scan_prefix st ! match_pos st then
        let st1 = st\<lparr> speculative := speculative st @ [b], match_pos := match_pos st + 1 \<rparr>
        in if match_pos st1 = length (scan_prefix st)
           then st1\<lparr> in_seq := True, speculative := [], capture := [], match_pos := 0 \<rparr>
           else st1
      else
        let st1 = (add_pending (speculative st) st)\<lparr> speculative := [], match_pos := 0 \<rparr>
        in if b = CHR 0x1B then add_pending [b] (st1\<lparr> esc_pending := True \<rparr>)
           else if b = scan_prefix st ! 0 then st1\<lparr> match_pos := 1, speculative := [b] \<rparr>
           else add_pending [b] st1)"

definition feed_byte :: "char \<Rightarrow> term_reader \<Rightarrow> term_reader" where
  "feed_byte b st =
     (if in_seq st then feed_in_seq b st
      else if in_csi st then
        (let st1 = add_pending [b] st
         in if 0x40 \<le> (of_char b :: nat) \<and> (of_char b :: nat) \<le> 0x7E then st1\<lparr> in_csi := False \<rparr> else st1)
      else if esc_pending st then
        (let st1 = st\<lparr> esc_pending := False \<rparr>
         in if b = CHR ''['' then add_pending [b] (st1\<lparr> in_csi := True \<rparr>) else feed_match b st1)
      else feed_match b st)"

abbreviation feed_bytes :: "string \<Rightarrow> term_reader \<Rightarrow> term_reader" where
  "feed_bytes bs \<equiv> fold feed_byte bs"

definition flush_pending :: "term_reader \<Rightarrow> term_reader" where
  "flush_pending st =
     (if pending_passthrough st \<noteq> []
      then st\<lparr> passed := passed st @ [pending_passthrough st], pending_passthrough := [] \<rparr> else st)"

definition on_idle_timeout :: "term_reader \<Rightarrow> term_reader" where
  "on_idle_timeout st =
     (let st1 = (if speculative st \<noteq> [] then (add_pending (speculative st) st)\<lparr> speculative := [] \<rparr> else st)
      in flush_pending (st1\<lparr> match_pos := 0 \<rparr>))"

text \<open>\<open>on_read\<close>: end of file (\<open>None\<close>) or the bytes of one read.\<close>

definition on_read :: "string option \<Rightarrow> term_reader \<Rightarrow> term_reader" where
  "on_read r st = (case r of
       None \<Rightarrow> st\<lparr> recv_closed := True, passed := passed st @ [[]] \<rparr>
     | Some bs \<Rightarrow> flush_pending (feed_bytes bs st))"

text \<open>\<open>dequeue_frame\<close>, as the receiving thread sees it: a frame, the end of the stream, or a wait.\<close>

datatype dequeued = Got buffer | Closed | Wait

definition dequeue_frame :: "term_reader \<Rightarrow> dequeued \<times> term_reader" where
  "dequeue_frame st = (case recv_queue st of
       f # fs \<Rightarrow> (Got f, st\<lparr> recv_queue := fs \<rparr>)
     | [] \<Rightarrow> (if recv_closed st then Closed else Wait, st))"

section \<open>Frames survive the wire\<close>

definition quiescent :: "term_reader \<Rightarrow> bool" where
  "quiescent st \<longleftrightarrow> \<not> in_seq st \<and> match_pos st = 0 \<and> speculative st = [] \<and> \<not> esc_pending st \<and> \<not> in_csi st"

lemma quiescent_init: "quiescent (reader_init role)"
  by (simp add: quiescent_def reader_init_def)

lemma feed_prefix:
  assumes "quiescent st"
  shows "feed_bytes (scan_prefix st) st = st\<lparr> in_seq := True, capture := [] \<rparr>"
proof (cases "osc_format st")
  case True
  then show ?thesis
    using assms by (simp add: quiescent_def scan_prefix_def kOscPrefix_def feed_byte_def feed_match_def Let_def)
next
  case False
  then show ?thesis
    using assms by (simp add: quiescent_def scan_prefix_def kMarkerPrefix_def feed_byte_def feed_match_def Let_def)
qed

lemma feed_body:
  assumes "in_seq st" and "terminator st \<notin> set body"
    and "osc_format st \<longrightarrow> length (capture st) + length body \<le> kMaxCaptureBytes"
  shows "feed_bytes body st = st\<lparr> capture := capture st @ body \<rparr>"
  using assms
proof (induction body arbitrary: st)
  case Nil
  then show ?case by simp
next
  case (Cons c body)
  have "feed_byte c st = st\<lparr> capture := capture st @ [c] \<rparr>"
    using Cons.prems by (auto simp: feed_byte_def feed_in_seq_def Let_def)
  then show ?case
    using Cons.IH [of "st\<lparr> capture := capture st @ [c] \<rparr>"] Cons.prems by (simp add: terminator_def)
qed

lemma feed_sequence:
  assumes "quiescent st" and "terminator st \<notin> set body"
    and "osc_format st \<longrightarrow> length body \<le> kMaxCaptureBytes"
  shows "feed_bytes (scan_prefix st @ body @ [terminator st]) st =
    complete_sequence (st\<lparr> in_seq := True, capture := body \<rparr>)"
proof -
  have "terminator (st\<lparr> in_seq := True, capture := c \<rparr>) = terminator st" for c
    by (simp add: terminator_def)
  then show ?thesis
    using assms feed_body [of "st\<lparr> in_seq := True, capture := [] \<rparr>" body]
    by (simp add: feed_prefix feed_byte_def feed_in_seq_def terminator_def)
qed

lemma base64_plain:
  assumes "c \<in> set (base64_encode bs)"
  shows "c \<noteq> kOscTerminator" "c \<noteq> kMarkerSuffix" "c \<noteq> CHR '';''"
  using base64_encode_chars [OF assms]
  by (auto simp: kBase64Chars_def kOscTerminator_def kMarkerSuffix_def)

lemma nat_digits_plain:
  assumes "c \<in> set (nat_digits n)"
  shows "c \<noteq> kOscTerminator" "c \<noteq> CHR '';''"
proof -
  have "is_digit c" using nat_digits_all_digits assms by blast
  then show "c \<noteq> kOscTerminator" "c \<noteq> CHR '';''" by (auto simp: is_digit_def kOscTerminator_def)
qed

lemma completion_frame:
  "esc_pending (complete_marker body st) = esc_pending st"
  "in_csi (complete_marker body st) = in_csi st"
  "passed (complete_marker body st) = passed st"
  "pending_passthrough (complete_marker body st) = pending_passthrough st"
  "osc_format (complete_marker body st) = osc_format st"
  "esc_pending (parse_and_complete body st) = esc_pending st"
  "in_csi (parse_and_complete body st) = in_csi st"
  "passed (parse_and_complete body st) = passed st"
  "pending_passthrough (parse_and_complete body st) = pending_passthrough st"
  "osc_format (parse_and_complete body st) = osc_format st"
  by (auto simp: parse_and_complete_def complete_chunk_def complete_marker_def push_frame_def
      split: option.splits prod.splits)

lemma complete_sequence_frame [simp]:
  "esc_pending (complete_sequence st) = esc_pending st" "in_csi (complete_sequence st) = in_csi st"
  "passed (complete_sequence st) = passed st" "osc_format (complete_sequence st) = osc_format st"
  "pending_passthrough (complete_sequence st) = pending_passthrough st"
  "\<not> in_seq (complete_sequence st)" "match_pos (complete_sequence st) = 0"
  "speculative (complete_sequence st) = []"
  by (simp_all add: complete_sequence_def completion_frame Let_def)

lemma cut_at_append: "c \<notin> set xs \<Longrightarrow> cut_at c (xs @ c # ys) = Some (xs, ys)"
  by (induction xs) (auto simp: cut_at_def)

text \<open>One chunk, from a reader between sequences.\<close>

lemma feed_osc_chunk:
  assumes "quiescent st" and "osc_format st" and "n_chunks \<le> 0xFFFFFFFF" and "i < n_chunks"
    and "length payload \<le> kChunkRawBytes"
  shows "feed_bytes (osc_chunk i n_chunks payload) st =
    (case assemble i n_chunks payload (assem st) of
       (a, None) \<Rightarrow> st\<lparr> assem := a, capture := [] \<rparr>
     | (a, Some f) \<Rightarrow> push_frame f (st\<lparr> assem := a, capture := [] \<rparr>))"
proof -
  let ?body = "nat_digits i @ CHR '';'' # nat_digits n_chunks @ CHR '';'' # base64_encode payload"
  have "length (nat_digits i) \<le> 10" "length (nat_digits n_chunks) \<le> 10"
    using assms(3,4) length_nat_digits [of i 9] length_nat_digits [of n_chunks 9] by simp_all
  moreover have "length (base64_encode payload) \<le> 4068"
    using assms(5) by (simp add: length_base64_encode kChunkRawBytes_eq)
  ultimately have len: "length ?body \<le> kMaxCaptureBytes"
    by (simp add: kMaxCaptureBytes_def kMaxOscSequenceBytes_def)
  have "terminator st \<notin> set ?body"
    using base64_plain(1) nat_digits_plain(1) assms(2)
    by (auto simp: terminator_def) (auto simp: kOscTerminator_def)
  then have "feed_bytes (scan_prefix st @ ?body @ [terminator st]) st =
      complete_sequence (st\<lparr> in_seq := True, capture := ?body \<rparr>)"
    using assms(1) len by (intro feed_sequence) simp_all
  moreover have "osc_chunk i n_chunks payload = scan_prefix st @ ?body @ [terminator st]"
    using assms(2) by (simp add: osc_chunk_def scan_prefix_def terminator_def)
  moreover have "cut_at CHR '';'' ?body = Some (nat_digits i, nat_digits n_chunks @ CHR '';'' # base64_encode payload)"
    using nat_digits_plain(2) by (intro cut_at_append) auto
  moreover have "cut_at CHR '';'' (nat_digits n_chunks @ CHR '';'' # base64_encode payload)
      = Some (nat_digits n_chunks, base64_encode payload)"
    using nat_digits_plain(2) by (intro cut_at_append) auto
  moreover have "parse_uint (nat_digits i) = Some i" "parse_uint (nat_digits n_chunks) = Some n_chunks"
    using assms(3,4) by (simp_all add: parse_uint_nat_digits)
  ultimately show ?thesis
    using assms(1,2,4)
    by (simp add: complete_sequence_def parse_and_complete_def complete_chunk_def base64_decode_encode
        quiescent_def push_frame_def Let_def split: prod.splits option.splits)
qed

lemma feed_chunks:
  assumes "quiescent st" and "osc_format st" and "total_chunks frame \<le> 0xFFFFFFFF"
    and "k < total_chunks frame"
  shows "\<exists>c. feed_bytes (concat (map (\<lambda>i. osc_chunk i (total_chunks frame) (chunk_at frame i)) [0..<k])) st =
    (if k = 0 then st else st\<lparr> assem := \<lparr> r_active = True, r_total = total_chunks frame, r_expected = k,
        r_buf = concat (map (chunk_at frame) [0..<k]) \<rparr>, capture := c \<rparr>)"
  using assms(4)
proof (induction k)
  case 0
  then show ?case by simp
next
  case (Suc k)
  let ?n = "total_chunks frame"
  let ?a = "\<lambda>k. \<lparr> r_active = True, r_total = ?n, r_expected = k, r_buf = concat (map (chunk_at frame) [0..<k]) \<rparr>"
  obtain c where ih: "feed_bytes (concat (map (\<lambda>i. osc_chunk i ?n (chunk_at frame i)) [0..<k])) st =
      (if k = 0 then st else st\<lparr> assem := ?a k, capture := c \<rparr>)"
    using Suc by auto
  let ?s = "if k = 0 then st else st\<lparr> assem := ?a k, capture := c \<rparr>"
  have "quiescent ?s" "osc_format ?s" using assms(1,2) by (auto simp: quiescent_def)
  then have "feed_bytes (osc_chunk k ?n (chunk_at frame k)) ?s =
      (case assemble k ?n (chunk_at frame k) (assem ?s) of
         (a, None) \<Rightarrow> ?s\<lparr> assem := a, capture := [] \<rparr>
       | (a, Some f) \<Rightarrow> push_frame f (?s\<lparr> assem := a, capture := [] \<rparr>))"
    using Suc.prems assms(3) length_chunk_at by (intro feed_osc_chunk) auto
  moreover have "assemble k ?n (chunk_at frame k) (assem ?s) = (?a (Suc k), None)"
    using Suc.prems by (auto simp: assemble_def Let_def)
  ultimately show ?case
    by (intro exI [of _ "[]"]) (auto simp: ih)
qed

lemma feed_frame_osc:
  assumes "quiescent st" and "osc_format st" and "total_chunks frame \<le> 0xFFFFFFFF"
    and "send_frame False Client_role frame = Inr bytes"
  shows "\<exists>c. feed_bytes bytes st =
    st\<lparr> assem := new_reassembly, capture := c, recv_queue := recv_queue st @ [frame], received_any := True \<rparr>"
proof -
  let ?n = "total_chunks frame" and ?chunk = "\<lambda>i. osc_chunk i (total_chunks frame) (chunk_at frame i)"
  obtain k where k: "?n = Suc k" using total_chunks_pos [of frame] by (cases ?n) auto
  let ?a = "\<lparr> r_active = True, r_total = ?n, r_expected = k, r_buf = concat (map (chunk_at frame) [0..<k]) \<rparr>"
  obtain c where ih: "feed_bytes (concat (map ?chunk [0..<k])) st =
      (if k = 0 then st else st\<lparr> assem := ?a, capture := c \<rparr>)" (is "_ = ?s")
    using feed_chunks [OF assms(1-3), of k] k by auto
  have "quiescent ?s" "osc_format ?s" using assms(1,2) by (auto simp: quiescent_def)
  then have "feed_bytes (?chunk k) ?s =
      (case assemble k ?n (chunk_at frame k) (assem ?s) of
         (a, None) \<Rightarrow> ?s\<lparr> assem := a, capture := [] \<rparr>
       | (a, Some f) \<Rightarrow> push_frame f (?s\<lparr> assem := a, capture := [] \<rparr>))"
    using k assms(3) length_chunk_at by (intro feed_osc_chunk) auto
  moreover have "assemble k ?n (chunk_at frame k) (assem ?s)
      = (new_reassembly, Some (concat (map (chunk_at frame) [0..<Suc k])))"
    using k by (auto simp: assemble_def Let_def)
  moreover have "feed_bytes bytes st = feed_bytes (?chunk k) ?s"
  proof -
    have "send_frame False Client_role frame = Inr (concat (map ?chunk [0..<?n]))"
      by (simp add: send_frame_def)
    moreover have "concat (map ?chunk [0..<?n]) = concat (map ?chunk [0..<k]) @ ?chunk k"
      unfolding k by simp
    ultimately have "bytes = concat (map ?chunk [0..<k]) @ ?chunk k"
      using assms(4) by (metis sum.inject(2))
    then show ?thesis by (simp only: fold_append comp_apply ih)
  qed
  moreover have "concat (map (chunk_at frame) [0..<Suc k]) = frame"
    using chunks_frame [of frame] by (simp only: k)
  ultimately show ?thesis
    by (intro exI [of _ "[]"]) (auto simp: push_frame_def)
qed

lemma feed_frame_marker:
  assumes "quiescent st" and "\<not> osc_format st" and "send_frame False Server_role frame = Inr bytes"
  shows "\<exists>c. feed_bytes bytes st =
    st\<lparr> capture := c, recv_queue := recv_queue st @ [frame], received_any := True \<rparr>"
proof -
  have "terminator st \<notin> set (base64_encode frame)"
    using base64_plain(2) assms(2) by (auto simp: terminator_def)
  then have "feed_bytes (scan_prefix st @ base64_encode frame @ [terminator st]) st =
      complete_sequence (st\<lparr> in_seq := True, capture := base64_encode frame \<rparr>)"
    using assms(1,2) by (intro feed_sequence) simp_all
  moreover have "bytes = scan_prefix st @ base64_encode frame @ [terminator st]"
    using assms(2,3) by (simp add: send_frame_def scan_prefix_def terminator_def)
  moreover have "complete_sequence (st\<lparr> in_seq := True, capture := base64_encode frame \<rparr>) =
      st\<lparr> capture := [], recv_queue := recv_queue st @ [frame], received_any := True \<rparr>"
    using assms(1,2)
    by (cases st)
       (simp add: complete_sequence_def complete_marker_def base64_decode_encode push_frame_def
         quiescent_def Let_def)
  ultimately show ?thesis by auto
qed

text \<open>The peer of a reader.\<close>

definition sender_role :: "term_reader \<Rightarrow> term_role" where
  "sender_role st = (if osc_format st then Client_role else Server_role)"



section \<open>Terminal bytes are conserved\<close>

text \<open>What the loop thread sees: bytes, the expiry of the idle timer, the end of a read.\<close>

datatype reader_event = Byte char | Idle_timeout | End_of_read

fun reader_step :: "reader_event \<Rightarrow> term_reader \<Rightarrow> term_reader" where
  "reader_step (Byte b) st = feed_byte b st"
| "reader_step Idle_timeout st = on_idle_timeout st"
| "reader_step End_of_read st = flush_pending st"

fun event_bytes :: "reader_event \<Rightarrow> string" where
  "event_bytes (Byte b) = [b]"
| "event_bytes Idle_timeout = []"
| "event_bytes End_of_read = []"

text \<open>The bytes given or about to be given to the terminal.\<close>

definition relayed :: "term_reader \<Rightarrow> string" where
  "relayed st = concat (passed st) @ pending_passthrough st @ speculative st"

definition scanner_inv :: "term_reader \<Rightarrow> bool" where
  "scanner_inv st \<longleftrightarrow>
     (if in_seq st then match_pos st = 0 \<and> speculative st = []
      else match_pos st < length (scan_prefix st) \<and>
           speculative st = take (match_pos st) (scan_prefix st)) \<and>
     (esc_pending st \<or> in_csi st \<longrightarrow> \<not> in_seq st \<and> match_pos st = 0)"

lemma scan_prefix_nonempty: "0 < length (scan_prefix st)" "1 < length (scan_prefix st)"
  by (auto simp: scan_prefix_def kOscPrefix_def kMarkerPrefix_def)

lemma scan_prefix_cong: "osc_format st = osc_format st' \<Longrightarrow> scan_prefix st = scan_prefix st'"
  by (simp add: scan_prefix_def)

lemma scanner_upd [simp]:
  "relayed (st\<lparr> esc_pending := x \<rparr>) = relayed st" "scan_prefix (st\<lparr> esc_pending := x \<rparr>) = scan_prefix st"
  "scan_prefix (st\<lparr> in_csi := x \<rparr>) = scan_prefix st"
  by (simp_all add: relayed_def scan_prefix_def)

text \<open>The effect of a byte outside a sequence.\<close>

definition plain_step :: "char \<Rightarrow> term_reader \<Rightarrow> term_reader \<Rightarrow> bool" where
  "plain_step b st st' \<longleftrightarrow> scanner_inv st' \<and> osc_format st' = osc_format st \<and>
     (if in_seq st' then speculative st @ [b] = scan_prefix st \<and> relayed st = relayed st' @ speculative st
      else relayed st' = relayed st @ [b] \<and>
        (speculative st' = speculative st @ [b] \<or> speculative st' = [b] \<or> speculative st' = []))"

lemma feed_match_plain:
  assumes "scanner_inv st" and "\<not> in_seq st" and "\<not> esc_pending st" and "\<not> in_csi st"
  shows "plain_step b st (feed_match b st)"
proof (cases "b = scan_prefix st ! match_pos st")
  case True
  then have "speculative st @ [b] = take (Suc (match_pos st)) (scan_prefix st)"
    using assms(1,2) by (simp add: scanner_inv_def take_Suc_conv_app_nth)
  then show ?thesis
    using True assms by (auto simp: plain_step_def feed_match_def scanner_inv_def relayed_def scan_prefix_def Let_def)
next
  case False
  have "take (Suc 0) (scan_prefix st) = [scan_prefix st ! 0]"
    using scan_prefix_nonempty(1) [of st] by (simp add: take_Suc_conv_app_nth)
  then show ?thesis
    using False assms scan_prefix_nonempty [of st]
    by (auto simp: plain_step_def feed_match_def scanner_inv_def relayed_def scan_prefix_def add_pending_def Let_def)
qed

lemma feed_byte_plain:
  assumes "scanner_inv st" and "\<not> in_seq st"
  shows "plain_step b st (feed_byte b st)"
proof -
  consider (csi) "in_csi st" | (esc) "\<not> in_csi st" "esc_pending st" | (match) "\<not> in_csi st" "\<not> esc_pending st"
    by blast
  then show ?thesis
  proof cases
    case csi
    then show ?thesis
      using assms
      by (auto simp: plain_step_def feed_byte_def scanner_inv_def relayed_def scan_prefix_def add_pending_def Let_def)
  next
    case esc
    let ?s = "st\<lparr> esc_pending := False \<rparr>"
    have "scanner_inv ?s" "\<not> in_seq ?s" "\<not> esc_pending ?s" "\<not> in_csi ?s"
      using assms esc by (auto simp: scanner_inv_def scan_prefix_def)
    from feed_match_plain [OF this, of b] have "plain_step b st (feed_match b ?s)"
      by (simp add: plain_step_def cong: if_cong)
    moreover have "plain_step b st (add_pending [b] (?s\<lparr> in_csi := True \<rparr>))"
      using assms esc
      by (auto simp: plain_step_def scanner_inv_def relayed_def scan_prefix_def add_pending_def)
    ultimately show ?thesis
      using assms(2) esc by (cases "b = CHR ''[''") (simp_all add: feed_byte_def Let_def)
  next
    case match
    then show ?thesis using feed_match_plain [OF assms] assms(2) by (simp add: feed_byte_def)
  qed
qed

lemma feed_byte_inside:
  assumes "scanner_inv st" and "in_seq st"
  shows "scanner_inv (feed_byte b st) \<and> relayed (feed_byte b st) = relayed st \<and>
    speculative (feed_byte b st) = [] \<and> osc_format (feed_byte b st) = osc_format st"
proof (cases "b = terminator st")
  case True
  then show ?thesis
    using assms scan_prefix_nonempty
    by (simp add: feed_byte_def feed_in_seq_def scanner_inv_def relayed_def)
next
  case False
  then show ?thesis
    using assms scan_prefix_nonempty
    by (auto simp: feed_byte_def feed_in_seq_def scanner_inv_def relayed_def scan_prefix_def
        kOscPrefix_def kMarkerPrefix_def Let_def)
qed

lemma flush_pending_keeps [simp]:
  "in_seq (flush_pending st) = in_seq st" "match_pos (flush_pending st) = match_pos st"
  "speculative (flush_pending st) = speculative st" "osc_format (flush_pending st) = osc_format st"
  "esc_pending (flush_pending st) = esc_pending st" "in_csi (flush_pending st) = in_csi st"
  "relayed (flush_pending st) = relayed st" "scan_prefix (flush_pending st) = scan_prefix st"
  by (simp_all add: flush_pending_def relayed_def scan_prefix_def)

lemma scanner_inv_flush [simp]: "scanner_inv (flush_pending st) = scanner_inv st"
  by (simp add: scanner_inv_def)

lemma quiet_event:
  assumes "scanner_inv st" and "e = Idle_timeout \<or> e = End_of_read"
  shows "scanner_inv (reader_step e st) \<and> relayed (reader_step e st) = relayed st \<and>
    (in_seq (reader_step e st) \<longleftrightarrow> in_seq st) \<and> osc_format (reader_step e st) = osc_format st \<and>
    (speculative (reader_step e st) = speculative st \<or> speculative (reader_step e st) = [])"
  using assms(2)
proof
  assume e: "e = Idle_timeout"
  let ?s = "(if speculative st \<noteq> [] then (add_pending (speculative st) st)\<lparr> speculative := [] \<rparr> else st)
      \<lparr> match_pos := 0 \<rparr>"
  have "scanner_inv ?s" "relayed ?s = relayed st" "in_seq ?s = in_seq st" "osc_format ?s = osc_format st"
    "speculative ?s = []"
    using assms(1) scan_prefix_nonempty(1) [of st]
    by (auto simp: scanner_inv_def add_pending_def relayed_def scan_prefix_def split: if_splits)
  moreover have "reader_step e st = flush_pending ?s" by (simp add: e on_idle_timeout_def Let_def)
  ultimately show ?thesis by simp
next
  assume "e = End_of_read"
  then show ?thesis using assms(1) by simp
qed


section \<open>Reassembly never mixes frames\<close>

text \<open>Chunks as they complete: number, count and payload.\<close>

fun assemble_all :: "(nat \<times> nat \<times> buffer) list \<Rightarrow> reassembly \<Rightarrow> buffer list" where
  "assemble_all [] a = []"
| "assemble_all ((seq, n_chunks, payload) # chunks) a =
     (case assemble seq n_chunks payload a of
        (a', None) \<Rightarrow> assemble_all chunks a'
      | (a', Some f) \<Rightarrow> f # assemble_all chunks a')"

text \<open>A complete set of chunks: consecutive numbers from 0, one common count, nothing missing.\<close>

definition complete_run :: "(nat \<times> nat \<times> buffer) list \<Rightarrow> bool" where
  "complete_run run \<longleftrightarrow> run \<noteq> [] \<and>
     (\<forall>i < length run. fst (run ! i) = i \<and> fst (snd (run ! i)) = length run)"

definition run_payload :: "(nat \<times> nat \<times> buffer) list \<Rightarrow> buffer" where
  "run_payload run = concat (map (\<lambda>(_, _, payload). payload) run)"

text \<open>The chunks an active reassembly holds: the latest ones received, in order.\<close>

definition holds_run :: "(nat \<times> nat \<times> buffer) list \<Rightarrow> reassembly \<Rightarrow> bool" where
  "holds_run run a \<longleftrightarrow> r_active a \<longrightarrow>
     r_expected a = length run \<and> r_buf a = run_payload run \<and>
     (\<forall>i < length run. fst (run ! i) = i \<and> fst (snd (run ! i)) = r_total a)"

lemma assemble_holds:
  assumes "holds_run run a" and "assemble seq n_chunks payload a = (a', out)"
  shows "\<exists>run'. (run' = [] \<or> (\<exists>pre. run @ [(seq, n_chunks, payload)] = pre @ run')) \<and>
    (case out of None \<Rightarrow> holds_run run' a'
     | Some f \<Rightarrow> complete_run run' \<and> f = run_payload run' \<and> \<not> r_active a')"
proof -
  define a0 where "a0 = (if seq = 0 then \<lparr> r_active = True, r_total = n_chunks, r_expected = 0, r_buf = [] \<rparr> else a)"
  define base where "base = (if seq = 0 then [] else run)"
  have holds0: "holds_run base a0" using assms(1) by (simp add: holds_run_def a0_def base_def run_payload_def)
  have suff: "\<exists>pre. run @ [(seq, n_chunks, payload)] = pre @ base @ [(seq, n_chunks, payload)]"
    by (simp add: base_def)
  show ?thesis
  proof (cases "\<not> r_active a0 \<or> seq \<noteq> r_expected a0 \<or> n_chunks \<noteq> r_total a0")
    case True
    then have "a' = new_reassembly" "out = None"
      using assms(2) by (auto simp: assemble_def a0_def Let_def)
    then show ?thesis by (intro exI [of _ "[]"]) (simp add: holds_run_def new_reassembly_def)
  next
    case False
    let ?run = "base @ [(seq, n_chunks, payload)]"
    let ?a = "a0\<lparr> r_buf := r_buf a0 @ payload, r_expected := r_expected a0 + 1 \<rparr>"
    have h: "holds_run ?run ?a"
      using holds0 False by (auto simp: holds_run_def run_payload_def nth_append less_Suc_eq)
    have "assemble seq n_chunks payload a =
        (if \<not> r_active a0 \<or> seq \<noteq> r_expected a0 \<or> n_chunks \<noteq> r_total a0 then (new_reassembly, None)
         else if r_expected ?a = r_total ?a then (new_reassembly, Some (r_buf ?a)) else (?a, None))"
      unfolding assemble_def Let_def a0_def by (rule refl)
    then have res: "(a', out) = (if r_expected ?a = r_total ?a then (new_reassembly, Some (r_buf ?a)) else (?a, None))"
      unfolding if_not_P [OF False] assms(2) .
    show ?thesis
    proof (cases "r_expected ?a = r_total ?a")
      case True
      have "complete_run ?run" using h True False by (auto simp: holds_run_def complete_run_def)
      then show ?thesis
        using h True False suff res
        by (intro exI [of _ ?run]) (auto simp: holds_run_def new_reassembly_def)
    next
      case False
      then show ?thesis using h suff res by (intro exI [of _ ?run]) auto
    qed
  qed
qed

lemma assemble_all_runs:
  assumes "holds_run run a"
  shows "f \<in> set (assemble_all chunks a) \<Longrightarrow>
    \<exists>pre run' post. run @ chunks = pre @ run' @ post \<and> complete_run run' \<and> f = run_payload run'"
  using assms
proof (induction chunks arbitrary: run a)
  case Nil
  then show ?case by simp
next
  case (Cons c chunks)
  obtain seq n_chunks payload where c: "c = (seq, n_chunks, payload)" using prod_cases3 by blast
  obtain a' out where as: "assemble seq n_chunks payload a = (a', out)" by fastforce
  obtain run' where run': "run' = [] \<or> (\<exists>pre. run @ [c] = pre @ run')"
    and out: "case out of None \<Rightarrow> holds_run run' a'
     | Some f \<Rightarrow> complete_run run' \<and> f = run_payload run' \<and> \<not> r_active a'"
    using assemble_holds [OF Cons.prems(2) as] by (auto simp: c)
  have lift: "\<exists>pre. run @ c # chunks = pre @ run' @ chunks"
  proof -
    have split: "run @ c # chunks = (run @ [c]) @ chunks" by simp
    from run' show ?thesis
    proof
      assume "run' = []"
      then show ?thesis using split by fastforce
    next
      assume "\<exists>pre. run @ [c] = pre @ run'"
      then show ?thesis using split by fastforce
    qed
  qed
  show ?case
  proof (cases out)
    case None
    then have "f \<in> set (assemble_all chunks a')" using Cons.prems(1) by (simp add: c as)
    with Cons.IH [OF this, of run'] out None obtain pre r post
      where "run' @ chunks = pre @ r @ post" "complete_run r" "f = run_payload r" by auto
    with lift show ?thesis by (metis append.assoc)
  next
    case (Some g)
    have inactive: "holds_run [] a'" using out Some by (simp add: holds_run_def)
    from Cons.prems(1) have "f = g \<or> f \<in> set (assemble_all chunks a')" by (simp add: c as Some)
    then show ?thesis
    proof
      assume "f = g"
      obtain pre where "run @ c # chunks = pre @ run' @ chunks" using lift by blast
      then show ?thesis
        using out Some \<open>f = g\<close> by (intro exI [of _ pre] exI [of _ run'] exI [of _ chunks]) simp
    next
      assume "f \<in> set (assemble_all chunks a')"
      from Cons.IH [OF this inactive] obtain pre r post
        where "chunks = pre @ r @ post" "complete_run r" "f = run_payload r" by auto
      then show ?thesis by (intro exI [of _ "run @ c # pre"] exI [of _ r] exI [of _ post]) simp
    qed
  qed
qed



section \<open>An escape byte before a frame\<close>

text \<open>
  In the server's direction the prefix itself starts with ESC. A frame right after a lone ESC
  byte of the terminal is lost: the second ESC, which ends the false match, is taken for the
  start of a terminal escape sequence and does not restart the match.
\<close>

lemma digit_chars: "digit_char 0 = CHR ''0''" "digit_char 1 = CHR ''1''"
proof -
  have "char_of (of_char (CHR ''0'') :: nat) = CHR ''0''" "char_of (of_char (CHR ''1'') :: nat) = CHR ''1''"
    by (rule char_of_char)+
  then show "digit_char 0 = CHR ''0''" "digit_char 1 = CHR ''1''" by (simp_all add: digit_char_def)
qed

lemma nat_digits_0: "nat_digits 0 = ''0''"
  by (subst nat_digits.simps) (simp add: digit_chars)

lemma nat_digits_1: "nat_digits 1 = ''1''"
  by (subst nat_digits.simps) (simp add: digit_chars [unfolded One_nat_def])

lemma frame_after_escape_lost:
  "recv_queue (feed_bytes (CHR 0x1B # osc_chunk 0 1 []) (reader_init Server_role)) = []"
  "recv_queue (feed_bytes (osc_chunk 0 1 []) (reader_init Server_role)) = [[]]"
proof -
  show "recv_queue (feed_bytes (CHR 0x1B # osc_chunk 0 1 []) (reader_init Server_role)) = []"
    unfolding osc_chunk_def nat_digits_0 nat_digits_1 by code_simp
  have "feed_bytes (osc_chunk 0 1 []) (reader_init Server_role) =
      push_frame [] ((reader_init Server_role)\<lparr> assem := new_reassembly, capture := [] \<rparr>)"
    by (subst feed_osc_chunk [OF quiescent_init])
       (simp_all add: reader_init_def assemble_def Let_def)
  then show "recv_queue (feed_bytes (osc_chunk 0 1 []) (reader_init Server_role)) = [[]]"
    by (simp add: push_frame_def reader_init_def)
qed

end
