(* ===== verification/Fifo.thy ===== *)
theory Fifo
  imports Prelude
begin

text \<open>
  The contract of a queue inside a larger state: what the consumer gets, with what is still queued,
  is what was queued before with what was pushed, in order. The receive queues of the transports
  and the event queue of the client provide it.
\<close>

fun run_all :: "('op \<Rightarrow> 's \<Rightarrow> 'x list \<times> 's) \<Rightarrow> 'op list \<Rightarrow> 's \<Rightarrow> 'x list \<times> 's" where
  "run_all run [] s = ([], s)"
| "run_all run (p # ps) s =
     (case run p s of (got, s1) \<Rightarrow> case run_all run ps s1 of (more_got, s2) \<Rightarrow> (got @ more_got, s2))"

locale fifo =
  fixes run :: "'op \<Rightarrow> 's \<Rightarrow> 'x list \<times> 's"
    and pushed :: "'op \<Rightarrow> 'x list"
    and contents :: "'s \<Rightarrow> 'x list"
  assumes law: "run p s = (got, s') \<Longrightarrow> got @ contents s' = contents s @ pushed p"
begin

lemma run_all_fifo:
  "run_all run ps s = (got, s') \<Longrightarrow> got @ contents s' = contents s @ concat (map pushed ps)"
proof (induction ps arbitrary: s got s')
  case Nil
  then show ?case by simp
next
  case (Cons p ps)
  obtain g1 s1 where 1: "run p s = (g1, s1)" by fastforce
  obtain g2 s2 where 2: "run_all run ps s1 = (g2, s2)" by fastforce
  have eqs: "got = g1 @ g2" "s' = s2" using Cons.prems by (simp_all add: 1 2)
  show ?case using law [OF 1] Cons.IH [OF 2] eqs
    by (metis append_assoc concat.simps(2) list.simps(9))
qed

lemma received_prefix:
  "run_all run ps s = (got, s') \<Longrightarrow> contents s = [] \<Longrightarrow> \<exists>rest. concat (map pushed ps) = got @ rest"
  using run_all_fifo [of ps s got s'] by (intro exI [of _ "contents s'"]) simp

lemma drained:
  "run_all run ps s = (got, s') \<Longrightarrow> contents s = [] \<Longrightarrow> contents s' = [] \<Longrightarrow> got = concat (map pushed ps)"
  using run_all_fifo [of ps s got s'] by auto

end

end
