(* ===== verification/Memory_Transport.thy ===== *)
theory Memory_Transport
  imports Fifo
begin

text \<open>
  The in-process transport (\<open>src/rmi/transport/memory_transport.cpp\<close>): a channel is two queues
  of frames and a flag, the listener a queue of channels not yet accepted. Every access to a queue
  is one critical section of its \<open>synchronized\<close> wrapper, so an execution is an interleaving of
  the steps below. A receive is two sections, the wait for its predicate and the pop: the pop
  re-checks the queue, and a wait that ends with the predicate false is a timeout.
\<close>

section \<open>A channel\<close>

record memory_channel =
  c2s :: "buffer list"
  s2c :: "buffer list"
  closed :: bool

definition new_channel :: memory_channel where
  "new_channel = \<lparr> c2s = [], s2c = [], closed = False \<rparr>"

definition client_send :: "buffer \<Rightarrow> memory_channel \<Rightarrow> memory_channel" where
  "client_send frame ch = ch\<lparr> c2s := c2s ch @ [frame] \<rparr>"

definition server_send :: "buffer \<Rightarrow> memory_channel \<Rightarrow> memory_channel" where
  "server_send frame ch = ch\<lparr> s2c := s2c ch @ [frame] \<rparr>"

text \<open>The predicate the waits of both receives end on.\<close>

definition ready :: "'a list \<Rightarrow> bool \<Rightarrow> bool" where
  "ready q flag \<longleftrightarrow> q \<noteq> [] \<or> flag"

definition client_receive :: "memory_channel \<Rightarrow> buffer option \<times> memory_channel" where
  "client_receive ch =
     (if \<not> ready (s2c ch) (closed ch) then (None, ch)
      else case s2c ch of [] \<Rightarrow> (None, ch) | frame # q \<Rightarrow> (Some frame, ch\<lparr> s2c := q \<rparr>))"

definition server_receive :: "memory_channel \<Rightarrow> buffer option \<times> memory_channel" where
  "server_receive ch =
     (if \<not> ready (c2s ch) (closed ch) then (None, ch)
      else case c2s ch of [] \<Rightarrow> (None, ch) | frame # q \<Rightarrow> (Some frame, ch\<lparr> c2s := q \<rparr>))"

definition shutdown :: "memory_channel \<Rightarrow> memory_channel" where
  "shutdown ch = ch\<lparr> closed := True \<rparr>"

definition close_connection :: "memory_channel \<Rightarrow> memory_channel" where
  "close_connection ch = ch\<lparr> closed := True \<rparr>"

definition is_closed :: "memory_channel \<Rightarrow> bool" where
  "is_closed ch = closed ch"

section \<open>The listener\<close>

text \<open>Channels are named by their position in \<open>channels\<close>, which only grows.\<close>

record memory_server =
  channels :: "memory_channel list"
  pending :: "nat list"
  stopped :: bool

definition start :: "memory_server \<Rightarrow> memory_server" where
  "start sv = sv\<lparr> stopped := False \<rparr>"

definition connect :: "memory_server \<Rightarrow> nat \<times> memory_server" where
  "connect sv =
     (let ch = length (channels sv)
      in (ch, sv\<lparr> channels := channels sv @ [new_channel], pending := pending sv @ [ch] \<rparr>))"

definition accept :: "memory_server \<Rightarrow> nat option \<times> memory_server" where
  "accept sv =
     (if \<not> ready (pending sv) (stopped sv) then (None, sv)
      else case pending sv of [] \<Rightarrow> (None, sv) | ch # q \<Rightarrow> (Some ch, sv\<lparr> pending := q \<rparr>))"

definition stop :: "memory_server \<Rightarrow> memory_server" where
  "stop sv = sv\<lparr> stopped := True \<rparr>"

section \<open>Executions\<close>

text \<open>One step of either endpoint on a shared channel.\<close>

datatype channel_op =
    Client_send buffer
  | Client_receive
  | Server_send buffer
  | Server_receive
  | Client_shutdown
  | Server_close

fun apply_op :: "channel_op \<Rightarrow> memory_channel \<Rightarrow> memory_channel" where
  "apply_op (Client_send f) ch = client_send f ch"
| "apply_op Client_receive ch = snd (client_receive ch)"
| "apply_op (Server_send f) ch = server_send f ch"
| "apply_op Server_receive ch = snd (server_receive ch)"
| "apply_op Client_shutdown ch = shutdown ch"
| "apply_op Server_close ch = close_connection ch"

text \<open>What the server receives of the client's frames, and the client of the server's.\<close>

definition run_c2s :: "channel_op \<Rightarrow> memory_channel \<Rightarrow> buffer list \<times> memory_channel" where
  "run_c2s p ch = ((case p of Server_receive \<Rightarrow> (case fst (server_receive ch) of Some f \<Rightarrow> [f] | None \<Rightarrow> []) | _ \<Rightarrow> []),
     apply_op p ch)"

definition run_s2c :: "channel_op \<Rightarrow> memory_channel \<Rightarrow> buffer list \<times> memory_channel" where
  "run_s2c p ch = ((case p of Client_receive \<Rightarrow> (case fst (client_receive ch) of Some f \<Rightarrow> [f] | None \<Rightarrow> []) | _ \<Rightarrow> []),
     apply_op p ch)"

fun sent_c2s :: "channel_op \<Rightarrow> buffer list" where
  "sent_c2s (Client_send f) = [f]"
| "sent_c2s _ = []"

fun sent_s2c :: "channel_op \<Rightarrow> buffer list" where
  "sent_s2c (Server_send f) = [f]"
| "sent_s2c _ = []"

lemmas channel_defs = client_send_def server_send_def client_receive_def server_receive_def shutdown_def
  close_connection_def ready_def

interpretation c2s_queue: fifo run_c2s sent_c2s c2s
  by unfold_locales (case_tac p; auto simp: run_c2s_def channel_defs split: list.splits)

interpretation s2c_queue: fifo run_s2c sent_s2c s2c
  by unfold_locales (case_tac p; auto simp: run_s2c_def channel_defs split: list.splits)

datatype listen_op = Connect_op | Accept_op | Start_op | Stop_op

text \<open>The accepted channels; a connection pushes the next free number.\<close>

definition run_listen :: "listen_op \<Rightarrow> memory_server \<Rightarrow> nat list \<times> memory_server" where
  "run_listen p sv =
     (case p of
        Connect_op \<Rightarrow> ([], snd (connect sv))
      | Accept_op \<Rightarrow> (case accept sv of (Some ch, sv') \<Rightarrow> ([ch], sv') | (None, sv') \<Rightarrow> ([], sv'))
      | Start_op \<Rightarrow> ([], start sv)
      | Stop_op \<Rightarrow> ([], stop sv))"

lemma run_listen_step:
  assumes "run_listen p sv = (got, sv')"
  shows "got @ pending sv' = pending sv @ (if p = Connect_op then [length (channels sv)] else [])"
    and "length (channels sv') = length (channels sv) + (if p = Connect_op then 1 else 0)"
  using assms
  by (auto simp: run_listen_def connect_def accept_def start_def stop_def Let_def ready_def
      split: listen_op.splits list.splits option.splits prod.splits if_splits)

section \<open>Delivery\<close>

text \<open>
  Whatever the interleaving of the two endpoints' steps, closing included, what the server has
  received followed by what is still queued is exactly what the client sent, in that order, and
  likewise in the other direction: no frame is lost, duplicated, reordered or invented.
\<close>

theorem memory_channel_fifo:
  assumes "run_all run_c2s ops new_channel = (to_server, ch)" and "run_all run_s2c ops new_channel = (to_client, ch)"
  shows "to_server @ c2s ch = concat (map sent_c2s ops) \<and> to_client @ s2c ch = concat (map sent_s2c ops)"
  using c2s_queue.run_all_fifo [OF assms(1)] s2c_queue.run_all_fifo [OF assms(2)]
  by (simp add: new_channel_def)

theorem memory_channel_fifo_witness:
  "let ops = [Client_send [1], Client_send [2], Server_close, Server_receive, Server_send [3], Client_receive];
       ch = \<lparr> c2s = [[2]], s2c = [], closed = True \<rparr>
   in run_all run_c2s ops new_channel = ([[1]], ch) \<and> [[1]] @ c2s ch = concat (map sent_c2s ops) \<and>
      [[3]] @ s2c ch = concat (map sent_s2c ops)"
proof -
  let ?ops = "[Client_send [1], Client_send [2], Server_close, Server_receive, Server_send [3], Client_receive]"
  let ?ch = "\<lparr> c2s = [[2]], s2c = [], closed = True \<rparr>"
  have 1: "run_all run_c2s ?ops new_channel = ([[1]], ?ch)"
    by (simp add: run_c2s_def channel_defs new_channel_def)
  have 2: "run_all run_s2c ?ops new_channel = ([[3]], ?ch)"
    by (simp add: run_s2c_def channel_defs new_channel_def)
  show ?thesis using 1 memory_channel_fifo [OF 1 2] by (simp add: Let_def)
qed

text \<open>
  Connections are accepted once each and in the order in which they were made: the accepted
  channels followed by the waiting ones are the channels created, from the first on.
\<close>

theorem connections_accepted_in_order:
  assumes "run_all run_listen ops \<lparr> channels = [], pending = [], stopped = False \<rparr> = (accepted, sv)"
  shows "accepted @ pending sv = [0 ..< length (channels sv)]"
proof -
  have "got @ pending sv' = pending sv0 @ [length (channels sv0) ..< length (channels sv')] \<and>
      length (channels sv0) \<le> length (channels sv')"
    if "run_all run_listen ps sv0 = (got, sv')" for ps sv0 got sv'
    using that
  proof (induction ps arbitrary: sv0 got sv')
    case Nil
    then show ?case by simp
  next
    case (Cons p ps)
    obtain g1 s1 where 1: "run_listen p sv0 = (g1, s1)" by fastforce
    obtain g2 s2 where 2: "run_all run_listen ps s1 = (g2, s2)" by fastforce
    have eqs: "got = g1 @ g2" "sv' = s2" using Cons.prems by (simp_all add: 1 2)
    have IH: "g2 @ pending sv' = pending s1 @ [length (channels s1) ..< length (channels sv')]"
        "length (channels s1) \<le> length (channels sv')"
      using Cons.IH [OF 2] eqs by simp_all
    have "got @ pending sv' = (g1 @ pending s1) @ [length (channels s1) ..< length (channels sv')]"
      by (simp add: eqs(1) IH(1))
    then show ?case
      using run_listen_step [OF 1] IH(2) by (auto simp: upt_conv_Cons split: if_splits)
  qed
  from this [OF assms] show ?thesis by simp
qed

theorem connections_accepted_in_order_witness:
  "\<exists>sv. run_all run_listen [Connect_op, Connect_op, Stop_op, Accept_op] \<lparr> channels = [], pending = [], stopped = False \<rparr> =
      ([0], sv) \<and> [0] @ pending sv = [0 ..< length (channels sv)]"
proof -
  let ?sv = "\<lparr> channels = [new_channel, new_channel], pending = [Suc 0], stopped = True \<rparr>"
  have 1: "run_all run_listen [Connect_op, Connect_op, Stop_op, Accept_op] \<lparr> channels = [], pending = [], stopped = False \<rparr> =
      ([0], ?sv)"
    by (simp add: run_listen_def connect_def accept_def stop_def ready_def Let_def)
  show ?thesis using 1 connections_accepted_in_order [OF 1] by blast
qed

text \<open>A closed channel still hands out what was queued, and then nothing more.\<close>

lemma receive_after_close:
  "server_receive (close_connection ch) =
     (case c2s ch of [] \<Rightarrow> (None, close_connection ch) | f # q \<Rightarrow> (Some f, (close_connection ch)\<lparr> c2s := q \<rparr>))"
  by (simp add: channel_defs split: list.splits)

end
