(* ===== verification/Constants.thy ===== *)
theory Constants
  imports Keys
begin

text \<open>
  The reserved keys of \<open>dynamic\<close> (\<open>src/bison/bison_object.hpp\<close>) and the protocol tokens of
  \<open>src/rmi/shared/constants.hpp\<close>, each defined as the hash of its name, with the values the
  hash gives (collected in \<open>token_values\<close>) and their pairwise distinctness.
\<close>

section \<open>Reserved keys of \<open>dynamic\<close>\<close>

definition CLASS :: hash_t where
  "CLASS = key ''__class''"

definition PARENT :: hash_t where
  "PARENT = key ''__parent''"

definition NAMESPACE :: hash_t where
  "NAMESPACE = key ''__namespace''"

definition CALL_FALLBACK :: hash_t where
  "CALL_FALLBACK = key ''__callFallback''"

section \<open>Protocol tokens\<close>

definition KIND_REQUEST :: hash_t where
  "KIND_REQUEST = key ''request''"

definition KIND_RESPONSE :: hash_t where
  "KIND_RESPONSE = key ''response''"

definition KIND_EVENT :: hash_t where
  "KIND_EVENT = key ''event''"

definition OP_CONNECT :: hash_t where
  "OP_CONNECT = key ''connect''"

definition OP_DESCRIBE :: hash_t where
  "OP_DESCRIBE = key ''describe''"

definition OP_INSTANTIATE :: hash_t where
  "OP_INSTANTIATE = key ''instantiate''"

definition OP_CLEAR :: hash_t where
  "OP_CLEAR = key ''clear''"

definition OP_SET :: hash_t where
  "OP_SET = key ''set''"

definition OP_GET :: hash_t where
  "OP_GET = key ''get''"

definition OP_CALL :: hash_t where
  "OP_CALL = key ''call''"

definition OP_DESTROY :: hash_t where
  "OP_DESTROY = key ''destroy''"

definition OP_DESTROY_GROUP :: hash_t where
  "OP_DESTROY_GROUP = key ''destroyGroup''"

definition OP_DISCONNECT :: hash_t where
  "OP_DISCONNECT = key ''disconnect''"

definition OP_EVENT :: hash_t where
  "OP_EVENT = key ''event''"

definition OP_DICTIONARY :: hash_t where
  "OP_DICTIONARY = key ''dictionary''"

definition OP_HELP :: hash_t where
  "OP_HELP = key ''help''"

definition HOOK_CONSTRUCT :: hash_t where
  "HOOK_CONSTRUCT = key ''__construct''"

definition HOOK_DESTRUCT :: hash_t where
  "HOOK_DESTRUCT = key ''__destruct''"

definition HOOK_CLEAR :: hash_t where
  "HOOK_CLEAR = key ''__clear''"

definition HOOK_SETTER :: hash_t where
  "HOOK_SETTER = key ''__setter''"

definition HOOK_GETTER :: hash_t where
  "HOOK_GETTER = key ''__getter''"

definition ERR_INVALID_REQUEST :: hash_t where
  "ERR_INVALID_REQUEST = key ''INVALID_REQUEST''"

definition ERR_UNSUPPORTED_VERSION :: hash_t where
  "ERR_UNSUPPORTED_VERSION = key ''UNSUPPORTED_VERSION''"

definition ERR_UNKNOWN_OPERATION :: hash_t where
  "ERR_UNKNOWN_OPERATION = key ''UNKNOWN_OPERATION''"

definition ERR_CLASS_NOT_FOUND :: hash_t where
  "ERR_CLASS_NOT_FOUND = key ''CLASS_NOT_FOUND''"

definition ERR_OBJECT_NOT_FOUND :: hash_t where
  "ERR_OBJECT_NOT_FOUND = key ''OBJECT_NOT_FOUND''"

definition ERR_ACCESS_DENIED :: hash_t where
  "ERR_ACCESS_DENIED = key ''ACCESS_DENIED''"

definition ERR_VALIDATION_ERROR :: hash_t where
  "ERR_VALIDATION_ERROR = key ''VALIDATION_ERROR''"

definition ERR_INTERNAL_ERROR :: hash_t where
  "ERR_INTERNAL_ERROR = key ''INTERNAL_ERROR''"

definition ERR_TIMEOUT :: hash_t where
  "ERR_TIMEOUT = key ''TIMEOUT''"

definition ERR_TRANSPORT_ERROR :: hash_t where
  "ERR_TRANSPORT_ERROR = key ''TRANSPORT_ERROR''"

definition CLASS_ENVELOPE :: hash_t where
  "CLASS_ENVELOPE = key ''__envelope''"

definition CLASS_ERROR :: hash_t where
  "CLASS_ERROR = key ''__error''"

definition FIELD_VERSION :: hash_t where
  "FIELD_VERSION = key ''__version''"

definition FIELD_KIND :: hash_t where
  "FIELD_KIND = key ''__kind''"

definition FIELD_OP :: hash_t where
  "FIELD_OP = key ''__op''"

definition FIELD_REQUEST_ID :: hash_t where
  "FIELD_REQUEST_ID = key ''__requestId''"

definition FIELD_OBJECT_ID :: hash_t where
  "FIELD_OBJECT_ID = key ''__objectId''"

definition FIELD_GROUP :: hash_t where
  "FIELD_GROUP = key ''__group''"

definition FIELD_WITH_SCHEMA :: hash_t where
  "FIELD_WITH_SCHEMA = key ''__withSchema''"

definition FIELD_PAYLOAD :: hash_t where
  "FIELD_PAYLOAD = key ''__payload''"

definition FIELD_ERROR :: hash_t where
  "FIELD_ERROR = key ''__error''"

definition FIELD_ONEWAY :: hash_t where
  "FIELD_ONEWAY = key ''__oneway''"

definition FIELD_ERROR_CODE :: hash_t where
  "FIELD_ERROR_CODE = key ''__code''"

definition FIELD_ERROR_MESSAGE :: hash_t where
  "FIELD_ERROR_MESSAGE = key ''__message''"

definition FIELD_ERROR_DETAILS :: hash_t where
  "FIELD_ERROR_DETAILS = key ''__details''"

definition FIELD_KLASS :: hash_t where
  "FIELD_KLASS = key ''__class''"

definition FIELD_NAMESPACE :: hash_t where
  "FIELD_NAMESPACE = key ''__namespace''"

definition FIELD_PARAMS :: hash_t where
  "FIELD_PARAMS = key ''__params''"

definition FIELD_NAME :: hash_t where
  "FIELD_NAME = key ''__name''"

definition FIELD_DISPLAY_NAME :: hash_t where
  "FIELD_DISPLAY_NAME = key ''__displayName''"

definition FIELD_DESCRIPTION :: hash_t where
  "FIELD_DESCRIPTION = key ''__description''"

definition FIELD_CATEGORY :: hash_t where
  "FIELD_CATEGORY = key ''__category''"

definition FIELD_OBSOLETE :: hash_t where
  "FIELD_OBSOLETE = key ''__obsolete''"

definition FIELD_OBSOLETE_MESSAGE :: hash_t where
  "FIELD_OBSOLETE_MESSAGE = key ''__obsoleteMessage''"

definition FIELD_REQUIRED :: hash_t where
  "FIELD_REQUIRED = key ''__required''"

definition FIELD_FIELDS :: hash_t where
  "FIELD_FIELDS = key ''__fields''"

definition FIELD_METHODS :: hash_t where
  "FIELD_METHODS = key ''__methods''"

definition NS_BISON :: hash_t where
  "NS_BISON = key ''bison''"

definition CLASS_PROFILER :: hash_t where
  "CLASS_PROFILER = key ''__BisonProfiler''"

definition METHOD_BEGIN_PROFILING_SESSION :: hash_t where
  "METHOD_BEGIN_PROFILING_SESSION = key ''beginProfilingSession''"

definition METHOD_IS_CAPTURE_ACTIVE :: hash_t where
  "METHOD_IS_CAPTURE_ACTIVE = key ''isCaptureActive''"

definition METHOD_START_CAPTURE :: hash_t where
  "METHOD_START_CAPTURE = key ''startCapture''"

definition METHOD_STOP_CAPTURE :: hash_t where
  "METHOD_STOP_CAPTURE = key ''stopCapture''"

definition METHOD_SUBMIT_TRACE_BLOCK :: hash_t where
  "METHOD_SUBMIT_TRACE_BLOCK = key ''submitTraceBlock''"

definition FIELD_PROFILER_SEQUENCE_ID :: hash_t where
  "FIELD_PROFILER_SEQUENCE_ID = key ''sequenceId''"

definition FIELD_PROFILER_ACTIVE :: hash_t where
  "FIELD_PROFILER_ACTIVE = key ''active''"

definition FIELD_PROFILER_LABEL :: hash_t where
  "FIELD_PROFILER_LABEL = key ''label''"

definition FIELD_PROFILER_OK :: hash_t where
  "FIELD_PROFILER_OK = key ''ok''"

definition FIELD_PROFILER_PATH :: hash_t where
  "FIELD_PROFILER_PATH = key ''path''"

definition FIELD_PROFILER_BYTES :: hash_t where
  "FIELD_PROFILER_BYTES = key ''bytes''"

definition FIELD_PROFILER_ACCEPTED :: hash_t where
  "FIELD_PROFILER_ACCEPTED = key ''accepted''"

definition PROTOCOL_VERSION :: u32 where
  "PROTOCOL_VERSION = 2"

section \<open>Their values\<close>

lemma CLASS_value: "CLASS = 0x9c06ccf5"
  by (simp add: CLASS_def hash_eval)

lemma PARENT_value: "PARENT = 0xe4dcf88b"
  by (simp add: PARENT_def hash_eval)

lemma NAMESPACE_value: "NAMESPACE = 0xbe8d7a8e"
  by (simp add: NAMESPACE_def hash_eval)

lemma CALL_FALLBACK_value: "CALL_FALLBACK = 0xa5d05589"
  by (simp add: CALL_FALLBACK_def hash_eval)

lemma KIND_REQUEST_value: "KIND_REQUEST = 0xbeaa09b2"
  by (simp add: KIND_REQUEST_def hash_eval)

lemma KIND_RESPONSE_value: "KIND_RESPONSE = 0xd95dc1de"
  by (simp add: KIND_RESPONSE_def hash_eval)

lemma KIND_EVENT_value: "KIND_EVENT = 0xfe30d09f"
  by (simp add: KIND_EVENT_def hash_eval)

lemma OP_CONNECT_value: "OP_CONNECT = 0xaae0ccf9"
  by (simp add: OP_CONNECT_def hash_eval)

lemma OP_DESCRIBE_value: "OP_DESCRIBE = 0xd11659e8"
  by (simp add: OP_DESCRIBE_def hash_eval)

lemma OP_INSTANTIATE_value: "OP_INSTANTIATE = 0x851e64db"
  by (simp add: OP_INSTANTIATE_def hash_eval)

lemma OP_CLEAR_value: "OP_CLEAR = 0xdc6e1222"
  by (simp add: OP_CLEAR_def hash_eval)

lemma OP_SET_value: "OP_SET = 0xc6270703"
  by (simp add: OP_SET_def hash_eval)

lemma OP_GET_value: "OP_GET = 0xd40ca757"
  by (simp add: OP_GET_def hash_eval)

lemma OP_CALL_value: "OP_CALL = 0xb3f184a9"
  by (simp add: OP_CALL_def hash_eval)

lemma OP_DESTROY_value: "OP_DESTROY = 0xc45b6745"
  by (simp add: OP_DESTROY_def hash_eval)

lemma OP_DESTROY_GROUP_value: "OP_DESTROY_GROUP = 0x9aaa8cac"
  by (simp add: OP_DESTROY_GROUP_def hash_eval)

lemma OP_DISCONNECT_value: "OP_DISCONNECT = 0xc5e6feeb"
  by (simp add: OP_DISCONNECT_def hash_eval)

lemma OP_EVENT_value: "OP_EVENT = 0xfe30d09f"
  by (simp add: OP_EVENT_def hash_eval)

lemma OP_DICTIONARY_value: "OP_DICTIONARY = 0xb7ba8535"
  by (simp add: OP_DICTIONARY_def hash_eval)

lemma OP_HELP_value: "OP_HELP = 0xb871a3fa"
  by (simp add: OP_HELP_def hash_eval)

lemma HOOK_CONSTRUCT_value: "HOOK_CONSTRUCT = 0xc484bfcc"
  by (simp add: HOOK_CONSTRUCT_def hash_eval)

lemma HOOK_DESTRUCT_value: "HOOK_DESTRUCT = 0xc9b33c99"
  by (simp add: HOOK_DESTRUCT_def hash_eval)

lemma HOOK_CLEAR_value: "HOOK_CLEAR = 0xe65ac7ac"
  by (simp add: HOOK_CLEAR_def hash_eval)

lemma HOOK_SETTER_value: "HOOK_SETTER = 0x9b013384"
  by (simp add: HOOK_SETTER_def hash_eval)

lemma HOOK_GETTER_value: "HOOK_GETTER = 0xb4923bf8"
  by (simp add: HOOK_GETTER_def hash_eval)

lemma ERR_INVALID_REQUEST_value: "ERR_INVALID_REQUEST = 0xb6e5ddfa"
  by (simp add: ERR_INVALID_REQUEST_def hash_eval)

lemma ERR_UNSUPPORTED_VERSION_value: "ERR_UNSUPPORTED_VERSION = 0xbb0ad4ef"
  by (simp add: ERR_UNSUPPORTED_VERSION_def hash_eval)

lemma ERR_UNKNOWN_OPERATION_value: "ERR_UNKNOWN_OPERATION = 0xf5ebaf37"
  by (simp add: ERR_UNKNOWN_OPERATION_def hash_eval)

lemma ERR_CLASS_NOT_FOUND_value: "ERR_CLASS_NOT_FOUND = 0x95417da6"
  by (simp add: ERR_CLASS_NOT_FOUND_def hash_eval)

lemma ERR_OBJECT_NOT_FOUND_value: "ERR_OBJECT_NOT_FOUND = 0xbb36dd67"
  by (simp add: ERR_OBJECT_NOT_FOUND_def hash_eval)

lemma ERR_ACCESS_DENIED_value: "ERR_ACCESS_DENIED = 0xc701d937"
  by (simp add: ERR_ACCESS_DENIED_def hash_eval)

lemma ERR_VALIDATION_ERROR_value: "ERR_VALIDATION_ERROR = 0xbb49adcf"
  by (simp add: ERR_VALIDATION_ERROR_def hash_eval)

lemma ERR_INTERNAL_ERROR_value: "ERR_INTERNAL_ERROR = 0xcfde62b9"
  by (simp add: ERR_INTERNAL_ERROR_def hash_eval)

lemma ERR_TIMEOUT_value: "ERR_TIMEOUT = 0xe1231f68"
  by (simp add: ERR_TIMEOUT_def hash_eval)

lemma ERR_TRANSPORT_ERROR_value: "ERR_TRANSPORT_ERROR = 0xe2ba0147"
  by (simp add: ERR_TRANSPORT_ERROR_def hash_eval)

lemma CLASS_ENVELOPE_value: "CLASS_ENVELOPE = 0xa94956ef"
  by (simp add: CLASS_ENVELOPE_def hash_eval)

lemma CLASS_ERROR_value: "CLASS_ERROR = 0xf65b734b"
  by (simp add: CLASS_ERROR_def hash_eval)

lemma FIELD_VERSION_value: "FIELD_VERSION = 0xcf2d8ebd"
  by (simp add: FIELD_VERSION_def hash_eval)

lemma FIELD_KIND_value: "FIELD_KIND = 0xa0d2d5a9"
  by (simp add: FIELD_KIND_def hash_eval)

lemma FIELD_OP_value: "FIELD_OP = 0x9d948abc"
  by (simp add: FIELD_OP_def hash_eval)

lemma FIELD_REQUEST_ID_value: "FIELD_REQUEST_ID = 0xbdfa45b1"
  by (simp add: FIELD_REQUEST_ID_def hash_eval)

lemma FIELD_OBJECT_ID_value: "FIELD_OBJECT_ID = 0x96f63205"
  by (simp add: FIELD_OBJECT_ID_def hash_eval)

lemma FIELD_GROUP_value: "FIELD_GROUP = 0xa47110ba"
  by (simp add: FIELD_GROUP_def hash_eval)

lemma FIELD_WITH_SCHEMA_value: "FIELD_WITH_SCHEMA = 0x8724d7bc"
  by (simp add: FIELD_WITH_SCHEMA_def hash_eval)

lemma FIELD_PAYLOAD_value: "FIELD_PAYLOAD = 0xc59f3853"
  by (simp add: FIELD_PAYLOAD_def hash_eval)

lemma FIELD_ERROR_value: "FIELD_ERROR = 0xf65b734b"
  by (simp add: FIELD_ERROR_def hash_eval)

lemma FIELD_ONEWAY_value: "FIELD_ONEWAY = 0xc5cfd7a0"
  by (simp add: FIELD_ONEWAY_def hash_eval)

lemma FIELD_ERROR_CODE_value: "FIELD_ERROR_CODE = 0xb8e4059a"
  by (simp add: FIELD_ERROR_CODE_def hash_eval)

lemma FIELD_ERROR_MESSAGE_value: "FIELD_ERROR_MESSAGE = 0x8e021c4a"
  by (simp add: FIELD_ERROR_MESSAGE_def hash_eval)

lemma FIELD_ERROR_DETAILS_value: "FIELD_ERROR_DETAILS = 0xa6c4c1f3"
  by (simp add: FIELD_ERROR_DETAILS_def hash_eval)

lemma FIELD_KLASS_value: "FIELD_KLASS = 0x9c06ccf5"
  by (simp add: FIELD_KLASS_def hash_eval)

lemma FIELD_NAMESPACE_value: "FIELD_NAMESPACE = 0xbe8d7a8e"
  by (simp add: FIELD_NAMESPACE_def hash_eval)

lemma FIELD_PARAMS_value: "FIELD_PARAMS = 0x83f8af09"
  by (simp add: FIELD_PARAMS_def hash_eval)

lemma FIELD_NAME_value: "FIELD_NAME = 0x948fb568"
  by (simp add: FIELD_NAME_def hash_eval)

lemma FIELD_DISPLAY_NAME_value: "FIELD_DISPLAY_NAME = 0xc97a0b58"
  by (simp add: FIELD_DISPLAY_NAME_def hash_eval)

lemma FIELD_DESCRIPTION_value: "FIELD_DESCRIPTION = 0xe9e7c8d7"
  by (simp add: FIELD_DESCRIPTION_def hash_eval)

lemma FIELD_CATEGORY_value: "FIELD_CATEGORY = 0xfc36d047"
  by (simp add: FIELD_CATEGORY_def hash_eval)

lemma FIELD_OBSOLETE_value: "FIELD_OBSOLETE = 0x835d7fb4"
  by (simp add: FIELD_OBSOLETE_def hash_eval)

lemma FIELD_OBSOLETE_MESSAGE_value: "FIELD_OBSOLETE_MESSAGE = 0x9891dfb3"
  by (simp add: FIELD_OBSOLETE_MESSAGE_def hash_eval)

lemma FIELD_REQUIRED_value: "FIELD_REQUIRED = 0x84b0f4fe"
  by (simp add: FIELD_REQUIRED_def hash_eval)

lemma FIELD_FIELDS_value: "FIELD_FIELDS = 0x9439786a"
  by (simp add: FIELD_FIELDS_def hash_eval)

lemma FIELD_METHODS_value: "FIELD_METHODS = 0xb33a42d3"
  by (simp add: FIELD_METHODS_def hash_eval)

lemma NS_BISON_value: "NS_BISON = 0x900c5a40"
  by (simp add: NS_BISON_def hash_eval)

lemma CLASS_PROFILER_value: "CLASS_PROFILER = 0xe8513f37"
  by (simp add: CLASS_PROFILER_def hash_eval)

lemma METHOD_BEGIN_PROFILING_SESSION_value: "METHOD_BEGIN_PROFILING_SESSION = 0x92017480"
  by (simp add: METHOD_BEGIN_PROFILING_SESSION_def hash_eval)

lemma METHOD_IS_CAPTURE_ACTIVE_value: "METHOD_IS_CAPTURE_ACTIVE = 0xdefac5c3"
  by (simp add: METHOD_IS_CAPTURE_ACTIVE_def hash_eval)

lemma METHOD_START_CAPTURE_value: "METHOD_START_CAPTURE = 0xbf124cf7"
  by (simp add: METHOD_START_CAPTURE_def hash_eval)

lemma METHOD_STOP_CAPTURE_value: "METHOD_STOP_CAPTURE = 0xabc058c1"
  by (simp add: METHOD_STOP_CAPTURE_def hash_eval)

lemma METHOD_SUBMIT_TRACE_BLOCK_value: "METHOD_SUBMIT_TRACE_BLOCK = 0xa102ad2b"
  by (simp add: METHOD_SUBMIT_TRACE_BLOCK_def hash_eval)

lemma FIELD_PROFILER_SEQUENCE_ID_value: "FIELD_PROFILER_SEQUENCE_ID = 0x80143db5"
  by (simp add: FIELD_PROFILER_SEQUENCE_ID_def hash_eval)

lemma FIELD_PROFILER_ACTIVE_value: "FIELD_PROFILER_ACTIVE = 0xd975992f"
  by (simp add: FIELD_PROFILER_ACTIVE_def hash_eval)

lemma FIELD_PROFILER_LABEL_value: "FIELD_PROFILER_LABEL = 0xf69717fd"
  by (simp add: FIELD_PROFILER_LABEL_def hash_eval)

lemma FIELD_PROFILER_OK_value: "FIELD_PROFILER_OK = 0xe63437af"
  by (simp add: FIELD_PROFILER_OK_def hash_eval)

lemma FIELD_PROFILER_PATH_value: "FIELD_PROFILER_PATH = 0x84874d36"
  by (simp add: FIELD_PROFILER_PATH_def hash_eval)

lemma FIELD_PROFILER_BYTES_value: "FIELD_PROFILER_BYTES = 0xe5b1d004"
  by (simp add: FIELD_PROFILER_BYTES_def hash_eval)

lemma FIELD_PROFILER_ACCEPTED_value: "FIELD_PROFILER_ACCEPTED = 0x9bc03140"
  by (simp add: FIELD_PROFILER_ACCEPTED_def hash_eval)

lemmas token_values =
  CLASS_value
  PARENT_value
  NAMESPACE_value
  CALL_FALLBACK_value
  KIND_REQUEST_value
  KIND_RESPONSE_value
  KIND_EVENT_value
  OP_CONNECT_value
  OP_DESCRIBE_value
  OP_INSTANTIATE_value
  OP_CLEAR_value
  OP_SET_value
  OP_GET_value
  OP_CALL_value
  OP_DESTROY_value
  OP_DESTROY_GROUP_value
  OP_DISCONNECT_value
  OP_EVENT_value
  OP_DICTIONARY_value
  OP_HELP_value
  HOOK_CONSTRUCT_value
  HOOK_DESTRUCT_value
  HOOK_CLEAR_value
  HOOK_SETTER_value
  HOOK_GETTER_value
  ERR_INVALID_REQUEST_value
  ERR_UNSUPPORTED_VERSION_value
  ERR_UNKNOWN_OPERATION_value
  ERR_CLASS_NOT_FOUND_value
  ERR_OBJECT_NOT_FOUND_value
  ERR_ACCESS_DENIED_value
  ERR_VALIDATION_ERROR_value
  ERR_INTERNAL_ERROR_value
  ERR_TIMEOUT_value
  ERR_TRANSPORT_ERROR_value
  CLASS_ENVELOPE_value
  CLASS_ERROR_value
  FIELD_VERSION_value
  FIELD_KIND_value
  FIELD_OP_value
  FIELD_REQUEST_ID_value
  FIELD_OBJECT_ID_value
  FIELD_GROUP_value
  FIELD_WITH_SCHEMA_value
  FIELD_PAYLOAD_value
  FIELD_ERROR_value
  FIELD_ONEWAY_value
  FIELD_ERROR_CODE_value
  FIELD_ERROR_MESSAGE_value
  FIELD_ERROR_DETAILS_value
  FIELD_KLASS_value
  FIELD_NAMESPACE_value
  FIELD_PARAMS_value
  FIELD_NAME_value
  FIELD_DISPLAY_NAME_value
  FIELD_DESCRIPTION_value
  FIELD_CATEGORY_value
  FIELD_OBSOLETE_value
  FIELD_OBSOLETE_MESSAGE_value
  FIELD_REQUIRED_value
  FIELD_FIELDS_value
  FIELD_METHODS_value
  NS_BISON_value
  CLASS_PROFILER_value
  METHOD_BEGIN_PROFILING_SESSION_value
  METHOD_IS_CAPTURE_ACTIVE_value
  METHOD_START_CAPTURE_value
  METHOD_STOP_CAPTURE_value
  METHOD_SUBMIT_TRACE_BLOCK_value
  FIELD_PROFILER_SEQUENCE_ID_value
  FIELD_PROFILER_ACTIVE_value
  FIELD_PROFILER_LABEL_value
  FIELD_PROFILER_OK_value
  FIELD_PROFILER_PATH_value
  FIELD_PROFILER_BYTES_value
  FIELD_PROFILER_ACCEPTED_value

definition operation_tokens :: "hash_t list" where
  "operation_tokens =
     [OP_CONNECT,
      OP_DESCRIBE,
      OP_INSTANTIATE,
      OP_CLEAR,
      OP_SET,
      OP_GET,
      OP_CALL,
      OP_DESTROY,
      OP_DESTROY_GROUP,
      OP_DISCONNECT,
      OP_EVENT,
      OP_DICTIONARY,
      OP_HELP]"

definition error_tokens :: "hash_t list" where
  "error_tokens =
     [ERR_INVALID_REQUEST,
      ERR_UNSUPPORTED_VERSION,
      ERR_UNKNOWN_OPERATION,
      ERR_CLASS_NOT_FOUND,
      ERR_OBJECT_NOT_FOUND,
      ERR_ACCESS_DENIED,
      ERR_VALIDATION_ERROR,
      ERR_INTERNAL_ERROR,
      ERR_TIMEOUT,
      ERR_TRANSPORT_ERROR]"

definition envelope_fields :: "hash_t list" where
  "envelope_fields =
     [FIELD_VERSION,
      FIELD_KIND,
      FIELD_OP,
      FIELD_REQUEST_ID,
      FIELD_OBJECT_ID,
      FIELD_GROUP,
      FIELD_WITH_SCHEMA,
      FIELD_PAYLOAD,
      FIELD_ERROR,
      FIELD_ONEWAY,
      CLASS,
      PARENT,
      NAMESPACE]"

text \<open>
  No two operation tokens, no two error codes, no two message kinds and no two envelope
  or reserved field keys collide under the 32-bit hash, so the server's dispatch table and the
  envelope's schema are unambiguous.
\<close>

theorem tokens_distinct:
  "distinct operation_tokens \<and> distinct error_tokens \<and> distinct envelope_fields \<and>
   distinct [KIND_REQUEST, KIND_RESPONSE, KIND_EVENT] \<and>
   0 \<notin> set operation_tokens"
  by (simp add: operation_tokens_def error_tokens_def envelope_fields_def token_values)

end
