(* ===== verification/Values.thy ===== *)
theory Values
  imports Text
begin

text \<open>
  Fields and their attributes (\<open>field_base\<close> of \<open>src/bison/bison_common.hpp\<close>; \<open>attribute\<close>,
  \<open>EnumFlags\<close>, \<open>Enum\<close> and \<open>field\<close> of \<open>src/bison/bison_object.hpp\<close>): the twelve value types
  and their tags, stable-type assignment, typed access, conversions, and the two attributes
  that make string assignment to an integer field parse symbolic names. The type of a nested
  object is the parameter \<open>'p\<close>: an address in the heap model, a tree in the codec.
\<close>

section \<open>Values\<close>

datatype 'p field_base =
    Monostate
  | HashV hash_t
  | KeyV hash_t
  | BoolV bool
  | Int32V u32
  | FloatV float_bits
  | PtrV "'p option"
  | StringV string
  | VecBoolV "bool list"
  | VecInt32V "u32 list"
  | VecFloatV "float_bits list"
  | VecByteV "u8 list"

text \<open>The alternatives of the variant, in declaration order.\<close>

datatype ftype =
    TMonostate | THash | TKey | TBool | TInt32 | TFloat | TPtr | TString
  | TVecBool | TVecInt32 | TVecFloat | TVecByte

fun type_of :: "'p field_base \<Rightarrow> ftype" where
  "type_of Monostate = TMonostate"
| "type_of (HashV _) = THash"
| "type_of (KeyV _) = TKey"
| "type_of (BoolV _) = TBool"
| "type_of (Int32V _) = TInt32"
| "type_of (FloatV _) = TFloat"
| "type_of (PtrV _) = TPtr"
| "type_of (StringV _) = TString"
| "type_of (VecBoolV _) = TVecBool"
| "type_of (VecInt32V _) = TVecInt32"
| "type_of (VecFloatV _) = TVecFloat"
| "type_of (VecByteV _) = TVecByte"

text \<open>\<open>index_of\<close> walks the alternatives; \<open>tag_of\<close> is the index as one byte.\<close>

definition alternatives :: "ftype list" where
  "alternatives = [TMonostate, THash, TKey, TBool, TInt32, TFloat, TPtr, TString,
     TVecBool, TVecInt32, TVecFloat, TVecByte]"

fun index_from :: "ftype \<Rightarrow> ftype list \<Rightarrow> nat \<Rightarrow> nat" where
  "index_from T [] index = index"
| "index_from T (A # As) index = (if A = T then index else index_from T As (Suc index))"

definition index_of :: "ftype \<Rightarrow> nat" where
  "index_of T = index_from T alternatives 0"

definition tag_of :: "ftype \<Rightarrow> u8" where
  "tag_of T = of_nat (index_of T)"

lemma tag_of_simps [simp]:
  "tag_of TMonostate = 0" "tag_of THash = 1" "tag_of TKey = 2" "tag_of TBool = 3"
  "tag_of TInt32 = 4" "tag_of TFloat = 5" "tag_of TPtr = 6" "tag_of TString = 7"
  "tag_of TVecBool = 8" "tag_of TVecInt32 = 9" "tag_of TVecFloat = 10" "tag_of TVecByte = 11"
  by (simp_all add: tag_of_def index_of_def alternatives_def)

lemma tag_of_inject [simp]: "tag_of T = tag_of U \<longleftrightarrow> T = U"
  by (cases T; cases U) simp_all

section \<open>Attributes\<close>

type_synonym enum_table = "(string \<times> u32) list"

text \<open>A \<open>double\<close> is carried by its bit pattern.\<close>

datatype attribute =
    DisplayName string
  | Description string
  | Category string
  | Obsolete string
  | Required
  | Range u64 u64
  | Step u64
  | EnumFlags enum_table
  | EnumAttr enum_table
  | Hidden
  | Order u32
  | ColorField
  | Multiline u32
  | DropTarget string

definition is_blank :: "char \<Rightarrow> bool" where
  "is_blank c \<longleftrightarrow> c = CHR '' '' \<or> c = CHR 0x09"

text \<open>\<open>EnumFlags::parse\<close>: one pass over the pieces between bars.\<close>

definition flags_token :: "enum_table \<Rightarrow> u32 \<Rightarrow> string \<Rightarrow> u32" where
  "flags_token values result piece =
     (let tok = trim_of is_blank piece in
      if tok = [] then result
      else (case map_of values tok of
              Some val \<Rightarrow> result OR val
            | None \<Rightarrow> (case stoi tok of Inr n \<Rightarrow> result OR n | Inl _ \<Rightarrow> result)))"

definition flags_parse :: "enum_table \<Rightarrow> string \<Rightarrow> u32" where
  "flags_parse values s = foldl (flags_token values) 0 (split_on CHR ''|'' s)"

text \<open>\<open>EnumFlags::format\<close>.\<close>

definition add_piece :: "string \<Rightarrow> string \<Rightarrow> string" where
  "add_piece out name = (if out \<noteq> [] then out @ '' | '' else out) @ name"

fun flags_format_loop :: "enum_table \<Rightarrow> string \<Rightarrow> u32 \<Rightarrow> string \<times> u32" where
  "flags_format_loop [] out remaining = (out, remaining)"
| "flags_format_loop ((name, val) # entries) out remaining =
     (if val \<noteq> 0 \<and> remaining AND val = val
      then flags_format_loop entries (add_piece out name) (remaining AND NOT val)
      else flags_format_loop entries out remaining)"

definition flags_format :: "enum_table \<Rightarrow> u32 \<Rightarrow> string" where
  "flags_format values v =
     (case flags_format_loop values [] v of (out, remaining) \<Rightarrow>
        let out = (if remaining \<noteq> 0 then add_piece out (int32_to_string remaining) else out)
        in if out = [] then int32_to_string v else out)"

text \<open>\<open>Enum::parse\<close> and \<open>Enum::format\<close>.\<close>

definition enum_parse :: "enum_table \<Rightarrow> string \<Rightarrow> u32 result" where
  "enum_parse values s =
     (let tok = (if \<forall>c \<in> set s. is_blank c then s else trim_of is_blank s)
      in case map_of values tok of Some val \<Rightarrow> Inr val | None \<Rightarrow> stoi tok)"

fun enum_format :: "enum_table \<Rightarrow> u32 \<Rightarrow> string" where
  "enum_format [] v = int32_to_string v"
| "enum_format ((name, val) # entries) v = (if val = v then name else enum_format entries v)"

section \<open>Fields\<close>

record 'p field =
  f_base :: "'p field_base"
  f_attrs :: "attribute list"

definition plain_field :: "'p field_base \<Rightarrow> 'p field" where
  "plain_field v = \<lparr> f_base = v, f_attrs = [] \<rparr>"

definition field_is :: "ftype \<Rightarrow> 'p field \<Rightarrow> bool" where
  "field_is T f \<longleftrightarrow> type_of (f_base f) = T"

text \<open>\<open>findAttribute<EnumFlags>()\<close> and \<open>findAttribute<Enum>()\<close>: the first of that class.\<close>

fun find_flags :: "attribute list \<Rightarrow> enum_table option" where
  "find_flags [] = None"
| "find_flags (a # as) = (case a of EnumFlags t \<Rightarrow> Some t | _ \<Rightarrow> find_flags as)"

fun find_enum :: "attribute list \<Rightarrow> enum_table option" where
  "find_enum [] = None"
| "find_enum (a # as) = (case a of EnumAttr t \<Rightarrow> Some t | _ \<Rightarrow> find_enum as)"

definition add_attribute :: "attribute \<Rightarrow> 'p field \<Rightarrow> 'p field" where
  "add_attribute a f = f\<lparr> f_attrs := f_attrs f @ [a] \<rparr>"

text \<open>\<open>field::operator=\<close>: stable-type assignment with the symbolic-name coercions.\<close>

definition field_assign :: "'p field \<Rightarrow> 'p field_base \<Rightarrow> 'p field result" where
  "field_assign f v =
     (if field_is TMonostate f then Inr (f\<lparr> f_base := v \<rparr>)
      else if \<not> field_is (type_of v) f then
        (case v of
           StringV s \<Rightarrow>
             if field_is TInt32 f then
               (case find_flags (f_attrs f) of
                  Some t \<Rightarrow> Inr (f\<lparr> f_base := Int32V (flags_parse t s) \<rparr>)
                | None \<Rightarrow>
                    (case find_enum (f_attrs f) of
                       Some t \<Rightarrow> (case enum_parse t s of
                           Inr n \<Rightarrow> Inr (f\<lparr> f_base := Int32V n \<rparr>) | Inl e \<Rightarrow> Inl e)
                     | None \<Rightarrow> Inl Invalid_type))
             else Inl Invalid_type
         | _ \<Rightarrow> Inl Invalid_type)
      else Inr (f\<lparr> f_base := v \<rparr>))"

text \<open>
  \<open>as<T>()\<close>: an empty field is initialised with the default (\<open>T{}\<close> or the argument), a field of
  another type throws. The reference returned denotes the value of the field returned.
\<close>

definition field_as :: "ftype \<Rightarrow> 'p field_base \<Rightarrow> 'p field \<Rightarrow> 'p field result" where
  "field_as T def f =
     (if field_is TMonostate f then Inr (f\<lparr> f_base := def \<rparr>)
      else if \<not> field_is T f then Inl Invalid_type
      else Inr f)"

text \<open>\<open>as<T>() const\<close>.\<close>

definition field_as_const :: "ftype \<Rightarrow> 'p field \<Rightarrow> 'p field_base result" where
  "field_as_const T f = (if \<not> field_is T f then Inl Invalid_type else Inr (f_base f))"

text \<open>\<open>get<T>()\<close>.\<close>

definition field_get :: "ftype \<Rightarrow> 'p field \<Rightarrow> 'p field_base option" where
  "field_get T f = (if field_is T f then Some (f_base f) else None)"

section \<open>Conversions\<close>

text \<open>
  An IEEE single is \<open>(-1)\<^sup>s * m * 2\<^sup>e\<close>; \<open>None\<close> for infinities and NaNs. Converting to an integer
  truncates; a value out of range is undefined behaviour in C++.
\<close>

definition float_negative :: "float_bits \<Rightarrow> bool" where
  "float_negative w = bit w 31"

definition float_exponent :: "float_bits \<Rightarrow> nat" where
  "float_exponent w = unat (take_bit 8 (drop_bit 23 w))"

definition float_magnitude :: "float_bits \<Rightarrow> nat \<times> int" where
  "float_magnitude w =
     (let m = unat (take_bit 23 w); ex = float_exponent w
      in if ex = 0 then (m, - 149) else (m + 2 ^ 23, int ex - 150))"

definition float_trunc :: "float_bits \<Rightarrow> int option" where
  "float_trunc w =
     (if float_exponent w = 255 then None
      else (case float_magnitude w of (m, e) \<Rightarrow>
        let a = (if 0 \<le> e then m * 2 ^ nat e else m div 2 ^ nat (- e))
        in Some (if float_negative w then - int a else int a)))"

text \<open>\<open>std::to_string(float)\<close>: \<open>%f\<close>, six decimals, correctly rounded.\<close>

definition float_to_string :: "float_bits \<Rightarrow> string" where
  "float_to_string w =
     (let sgn = (if float_negative w then ''-'' else [])
      in if float_exponent w = 255
         then sgn @ (if take_bit 23 w = 0 then ''inf'' else ''nan'')
         else (case float_magnitude w of (m, e) \<Rightarrow>
           let n = m * 10 ^ 6;
               d = 2 ^ nat (- e);
               q = n div d;
               r = n mod d;
               micro = (if 0 \<le> e then n * 2 ^ nat e
                        else if 2 * r > d \<or> (2 * r = d \<and> odd q) then q + 1 else q);
               frac = nat_digits (micro mod 10 ^ 6)
           in sgn @ nat_digits (micro div 10 ^ 6) @ ''.'' @
              replicate (6 - length frac) CHR ''0'' @ frac))"

definition int_in :: "int \<Rightarrow> int \<Rightarrow> int option \<Rightarrow> u32 result" where
  "int_in lo hi v = (case v of
       Some i \<Rightarrow> if lo \<le> i \<and> i \<le> hi then Inr (word_of_int i) else Inl Undefined_conversion
     | None \<Rightarrow> Inl Undefined_conversion)"

text \<open>\<open>cast_value<key_t>\<close>, \<open><hash_t>\<close>, \<open><int32_t>\<close>, \<open><bool>\<close> and \<open><std::string>\<close>.\<close>

definition cast_key :: "'p field_base \<Rightarrow> hash_t result" where
  "cast_key v = (case v of
       KeyV k \<Rightarrow> Inr k
     | Monostate \<Rightarrow> Inl Field_is_empty
     | _ \<Rightarrow> Inl Incompatible_types)"

definition cast_int32 :: "'p field_base \<Rightarrow> u32 result" where
  "cast_int32 v = (case v of
       Int32V i \<Rightarrow> Inr i
     | Monostate \<Rightarrow> Inl Field_is_empty
     | HashV h \<Rightarrow> Inr h
     | BoolV b \<Rightarrow> Inr (if b then 1 else 0)
     | FloatV f \<Rightarrow> int_in (- (2 ^ 31)) (2 ^ 31 - 1) (float_trunc f)
     | StringV s \<Rightarrow> stoi s
     | _ \<Rightarrow> Inl Incompatible_types)"

definition cast_hash :: "'p field_base \<Rightarrow> hash_t result" where
  "cast_hash v = (case v of
       HashV h \<Rightarrow> Inr h
     | Monostate \<Rightarrow> Inl Field_is_empty
     | BoolV b \<Rightarrow> Inr (if b then 1 else 0)
     | Int32V i \<Rightarrow> Inr i
     | FloatV f \<Rightarrow> int_in 0 (2 ^ 32 - 1) (float_trunc f)
     | StringV s \<Rightarrow> stoi s
     | _ \<Rightarrow> Inl Incompatible_types)"

definition cast_bool :: "'p field_base \<Rightarrow> bool result" where
  "cast_bool v = (case v of
       BoolV b \<Rightarrow> Inr b
     | Monostate \<Rightarrow> Inl Field_is_empty
     | HashV h \<Rightarrow> Inr (h \<noteq> 0)
     | Int32V i \<Rightarrow> Inr (i \<noteq> 0)
     | FloatV f \<Rightarrow> Inr (take_bit 31 f \<noteq> 0)
     | StringV s \<Rightarrow> (case stoi s of Inr i \<Rightarrow> Inr (i \<noteq> 0) | Inl e \<Rightarrow> Inl e)
     | _ \<Rightarrow> Inl Incompatible_types)"

definition cast_string :: "'p field_base \<Rightarrow> string result" where
  "cast_string v = (case v of
       StringV s \<Rightarrow> Inr s
     | Monostate \<Rightarrow> Inl Field_is_empty
     | BoolV b \<Rightarrow> Inr (if b then ''true'' else ''false'')
     | HashV h \<Rightarrow> Inr (nat_digits (unat h))
     | Int32V i \<Rightarrow> Inr (int32_to_string i)
     | FloatV f \<Rightarrow> Inr (float_to_string f)
     | _ \<Rightarrow> Inl Incompatible_types)"

text \<open>\<open>get_as<std::string>()\<close>: flags and enum integers print symbolically.\<close>

definition field_get_string :: "'p field \<Rightarrow> string result" where
  "field_get_string f = (case f_base f of
       Int32V raw \<Rightarrow>
         (case find_flags (f_attrs f) of
            Some t \<Rightarrow> Inr (flags_format t raw)
          | None \<Rightarrow> (case find_enum (f_attrs f) of
                Some t \<Rightarrow> Inr (enum_format t raw)
              | None \<Rightarrow> cast_string (Int32V raw :: 'p field_base)))
     | v \<Rightarrow> cast_string v)"

section \<open>Printing and parsing symbolic integers\<close>

text \<open>The names an enum table may use so that they can be read back.\<close>

definition symbolic :: "string \<Rightarrow> bool" where
  "symbolic n \<longleftrightarrow> n \<noteq> [] \<and> \<not> is_blank (hd n) \<and> \<not> is_blank (last n) \<and>
     hd n \<noteq> CHR ''-'' \<and> \<not> is_digit (hd n) \<and> CHR ''|'' \<notin> set n"

definition wf_table :: "enum_table \<Rightarrow> bool" where
  "wf_table t \<longleftrightarrow> distinct (map fst t) \<and> (\<forall>n \<in> fst ` set t. symbolic n)"

fun join_bars :: "string list \<Rightarrow> string" where
  "join_bars [] = []"
| "join_bars [s] = s"
| "join_bars (s # ss) = s @ '' | '' @ join_bars ss"

lemma join_bars_Nil: "\<forall>s \<in> set ss. s \<noteq> [] \<Longrightarrow> join_bars ss = [] \<longleftrightarrow> ss = []"
  by (induction ss rule: join_bars.induct) auto

lemma join_bars_snoc:
  "\<forall>s \<in> set ss. s \<noteq> [] \<Longrightarrow> join_bars (ss @ [name]) = add_piece (join_bars ss) name"
proof (induction ss rule: join_bars.induct)
  case (3 s t ss)
  then show ?case by (auto simp: add_piece_def join_bars_Nil split: if_splits)
qed (auto simp: add_piece_def)

text \<open>A token survives the trimming, and a printed number is not a symbolic name.\<close>

definition token :: "string \<Rightarrow> bool" where
  "token s \<longleftrightarrow> s \<noteq> [] \<and> \<not> is_blank (hd s) \<and> \<not> is_blank (last s) \<and> CHR ''|'' \<notin> set s"

lemma symbolic_token: "symbolic n \<Longrightarrow> token n"
  by (simp add: symbolic_def token_def)

lemma digit_not_blank: "is_digit c \<Longrightarrow> \<not> is_blank c \<and> c \<noteq> CHR ''|''"
  by (auto simp: is_digit_def is_blank_def)

lemma token_nat_digits: "token (nat_digits n)"
proof -
  have "hd (nat_digits n) \<in> set (nat_digits n)" "last (nat_digits n) \<in> set (nat_digits n)"
    by simp_all
  then show ?thesis
    using nat_digits_all_digits [of n] digit_not_blank by (auto simp: token_def)
qed

lemma token_int32_to_string: "token (int32_to_string w)"
  using token_nat_digits by (auto simp: int32_to_string_def int_to_string_def token_def is_blank_def)

lemma int32_to_string_not_symbolic: "\<not> symbolic (int32_to_string w)"
proof -
  have "is_digit (hd (nat_digits n))" for n
    using nat_digits_all_digits [of n] by (simp add: list.set_sel(1))
  then show ?thesis by (auto simp: symbolic_def int32_to_string_def int_to_string_def)
qed

lemma trim_of_blank_token:
  assumes "token s" and "a = [] \<or> a = '' ''" and "b = [] \<or> b = '' ''"
  shows "trim_of is_blank (a @ s @ b) = s"
proof -
  have bl: "is_blank CHR '' ''" by (simp add: is_blank_def)
  have 1: "dropWhile is_blank (a @ s @ b) = s @ b"
    using assms(1,2) bl by (cases s) (auto simp: token_def)
  have "rev s \<noteq> []" "\<not> is_blank (hd (rev s))"
    using assms(1) by (auto simp: token_def hd_rev)
  then have 2: "dropWhile is_blank (rev b @ rev s) = rev s"
    using assms(3) bl by (cases "rev s") auto
  show ?thesis using 1 2 by (simp add: trim_of_def)
qed

lemma split_join_bars:
  assumes "\<forall>s \<in> set ss. token s" and "ss \<noteq> []" and "a = [] \<or> a = '' ''"
  shows "map (trim_of is_blank) (split_on CHR ''|'' (a @ join_bars ss)) = ss"
  using assms
proof (induction ss arbitrary: a rule: join_bars.induct)
  case 1
  then show ?case by simp
next
  case (2 s)
  then have "CHR ''|'' \<notin> set (a @ s)" by (auto simp: token_def)
  then have "split_on CHR ''|'' (a @ s) = [a @ s]" by (rule split_on_piece)
  then show ?case using 2 trim_of_blank_token [of s a "[]"] by simp
next
  case (3 s t ss)
  have nb: "CHR ''|'' \<notin> set (a @ s @ '' '')" using "3.prems" by (auto simp: token_def)
  have "split_on CHR ''|'' ((a @ s @ '' '') @ CHR ''|'' # ('' '' @ join_bars (t # ss)))
      = (a @ s @ '' '') # split_on CHR ''|'' ('' '' @ join_bars (t # ss))"
    by (rule split_on_append [OF nb])
  then have sp: "split_on CHR ''|'' (a @ join_bars (s # t # ss))
      = (a @ s @ '' '') # split_on CHR ''|'' ('' '' @ join_bars (t # ss))"
    by (simp only: append_assoc append_Cons append_Nil join_bars.simps)
  have tr: "trim_of is_blank (a @ s @ '' '') = s"
    using "3.prems" trim_of_blank_token [of s a "'' ''"] by simp
  have ih: "map (trim_of is_blank) (split_on CHR ''|'' ('' '' @ join_bars (t # ss))) = t # ss"
    by (rule "3.IH") (use "3.prems" in simp_all)
  show ?case unfolding sp list.map(2) tr ih by simp
qed

text \<open>The value of one token, and of a list of them.\<close>

definition token_value :: "enum_table \<Rightarrow> string \<Rightarrow> u32" where
  "token_value t tok = (case map_of t tok of Some val \<Rightarrow> val
     | None \<Rightarrow> (case stoi tok of Inr n \<Rightarrow> n | Inl _ \<Rightarrow> 0))"

lemma foldl_flags_token:
  assumes "\<forall>s \<in> set (map (trim_of is_blank) ps). s \<noteq> []"
  shows "foldl (flags_token t) r ps
    = foldl (\<lambda>r tok. r OR token_value t tok) r (map (trim_of is_blank) ps)"
  using assms
proof (induction ps arbitrary: r)
  case Nil
  then show ?case by simp
next
  case (Cons p ps)
  have "flags_token t r p = r OR token_value t (trim_of is_blank p)"
    using Cons.prems
    by (auto simp: flags_token_def token_value_def split: option.splits sum.splits)
  then show ?case using Cons by simp
qed

lemma flags_parse_join:
  assumes "\<forall>s \<in> set ss. token s" and "ss \<noteq> []"
  shows "flags_parse t (join_bars ss) = foldl (\<lambda>r tok. r OR token_value t tok) 0 ss"
proof -
  have m: "map (trim_of is_blank) (split_on CHR ''|'' (join_bars ss)) = ss"
    using split_join_bars [OF assms, of "[]"] by simp
  show ?thesis
    unfolding flags_parse_def
    by (subst foldl_flags_token) (use assms(1) in \<open>auto simp: m token_def\<close>)
qed

lemma mask_split:
  assumes "remaining AND val = val"
  shows "val OR remaining AND NOT val = (remaining :: u32)"
proof (rule bit_word_eqI)
  fix n
  have "bit (remaining AND val) n = bit val n" using assms by simp
  then show "bit (val OR remaining AND NOT val) n = bit remaining n"
    by (auto simp: bit_simps dest: bit_imp_le_length)
qed

lemma flags_format_loop_tokens:
  assumes "wf_table t" and "set es \<subseteq> set t" and "\<forall>s \<in> set ss. token s"
  shows "\<exists>ns r'. flags_format_loop es (join_bars ss) r = (join_bars (ss @ ns), r') \<and>
    (\<forall>s \<in> set ns. token s) \<and>
    (\<forall>x. foldl (\<lambda>r tok. r OR token_value t tok) x ns OR r' = x OR r)"
  using assms(2,3)
proof (induction es arbitrary: ss r)
  case Nil
  show ?case by (rule exI [of _ "[]"], rule exI [of _ r]) simp
next
  case (Cons e es)
  obtain name val where e: "e = (name, val)" by fastforce
  have mem: "(name, val) \<in> set t" using Cons.prems(1) e by simp
  then have tok: "token name"
    using assms(1) by (force simp: wf_table_def intro: symbolic_token)
  have ne: "\<forall>s \<in> set ss. s \<noteq> []" using Cons.prems(2) by (auto simp: token_def)
  have tv: "token_value t name = val"
    using assms(1) mem by (simp add: token_value_def wf_table_def)
  show ?case
  proof (cases "val \<noteq> 0 \<and> r AND val = val")
    case True
    obtain ns r' where ih: "flags_format_loop es (join_bars (ss @ [name])) (r AND NOT val)
        = (join_bars ((ss @ [name]) @ ns), r')"
      "\<forall>s \<in> set ns. token s"
      "\<forall>x. foldl (\<lambda>r tok. r OR token_value t tok) x ns OR r' = x OR r AND NOT val"
      using Cons.IH [of "ss @ [name]" "r AND NOT val"] Cons.prems tok by auto
    have "x OR val OR r AND NOT val = x OR r" for x
      using mask_split True by (simp add: or.assoc)
    then have "foldl (\<lambda>r tok. r OR token_value t tok) x (name # ns) OR r' = x OR r" for x
      using ih(3) by (simp add: tv or.assoc)
    then show ?thesis
      using True ih(1,2) tok
      by (intro exI [of _ "name # ns"] exI [of _ r']) (simp add: e join_bars_snoc [OF ne])
  next
    case False
    then show ?thesis using Cons.IH [of ss r] Cons.prems by (auto simp: e)
  qed
qed

lemma flags_format_tokens:
  assumes "wf_table t"
  obtains ss where "flags_format t v = join_bars ss" and "\<forall>s \<in> set ss. token s" and "ss \<noteq> []"
    and "foldl (\<lambda>r tok. r OR token_value t tok) 0 ss = v"
proof -
  obtain ns r where l: "flags_format_loop t [] v = (join_bars ns, r)"
    and tok: "\<forall>s \<in> set ns. token s"
    and val: "\<And>x. foldl (\<lambda>r tok. r OR token_value t tok) x ns OR r = x OR v"
    using flags_format_loop_tokens [OF assms subset_refl, of "[]" v] by auto
  have num: "token_value t (int32_to_string w) = w" for w
  proof -
    have "map_of t (int32_to_string w) = None"
      using assms int32_to_string_not_symbolic [of w] by (auto simp: wf_table_def map_of_eq_None_iff)
    then show ?thesis by (simp add: token_value_def stoi_int32_to_string)
  qed
  have ne: "\<forall>s \<in> set ns. s \<noteq> []" using tok by (auto simp: token_def)
  have "join_bars [int32_to_string w] = int32_to_string w" for w by simp
  moreover have "add_piece [] s = s" for s by (simp add: add_piece_def)
  moreover have "add_piece (join_bars ns) s \<noteq> []" if "token s" for s
    using that by (auto simp: add_piece_def token_def)
  ultimately show ?thesis
  proof (cases "r = 0")
    case False
    show ?thesis
    proof (rule that [of "ns @ [int32_to_string r]"])
      show "flags_format t v = join_bars (ns @ [int32_to_string r])"
        using False token_int32_to_string [of r]
        by (auto simp: flags_format_def l Let_def join_bars_snoc [OF ne] add_piece_def token_def)
      show "foldl (\<lambda>r tok. r OR token_value t tok) 0 (ns @ [int32_to_string r]) = v"
        using val [of 0] by (simp add: num)
    qed (use tok token_int32_to_string in auto)
  next
    case True
    show ?thesis
    proof (cases "ns = []")
      case True2: True
      show ?thesis
        by (rule that [of "[int32_to_string v]"])
           (use True True2 token_int32_to_string in \<open>auto simp: flags_format_def l num\<close>)
    next
      case False
      then have "join_bars ns \<noteq> []" using join_bars_Nil [OF ne] by simp
      then show ?thesis
        by (intro that [of ns]) (use True False tok val [of 0] in \<open>auto simp: flags_format_def l\<close>)
    qed
  qed
qed

text \<open>
  \<open>EnumFlags::parse\<close> reads back every value \<open>EnumFlags::format\<close> prints, including the bits no
  entry covers, whatever composite or overlapping entries the table has.
\<close>

theorem flags_roundtrip:
  assumes "wf_table t"
  shows "flags_parse t (flags_format t v) = v"
  by (rule flags_format_tokens [OF assms, of v]) (simp add: flags_parse_join)

theorem flags_roundtrip_witness:
  "flags_parse [(''Read'', 1), (''Write'', 2), (''All'', 3)]
     (flags_format [(''Read'', 1), (''Write'', 2), (''All'', 3)] 0x17) = 0x17"
  by (rule flags_roundtrip)
     (simp add: wf_table_def symbolic_def is_blank_def is_digit_def)

text \<open>
  \<open>Enum::parse\<close> reads back every value \<open>Enum::format\<close> prints, a value without a name through
  its decimal form.
\<close>

theorem enum_roundtrip:
  assumes "wf_table t"
  shows "enum_parse t (enum_format t v) = Inr v"
proof -
  have parse_token: "enum_parse t s = (case map_of t s of Some val \<Rightarrow> Inr val | None \<Rightarrow> stoi s)"
    if "token s" for s
  proof -
    have "trim_of is_blank s = s" using trim_of_blank_token [OF that, of "[]" "[]"] by simp
    then have "(if \<forall>c \<in> set s. is_blank c then s else trim_of is_blank s) = s" by simp
    then show ?thesis by (simp only: enum_parse_def Let_def)
  qed
  have "(\<exists>name. (name, v) \<in> set es \<and> enum_format es v = name) \<or>
      enum_format es v = int32_to_string v" for es
  proof (induction es)
    case (Cons e es)
    then show ?case by (cases e; cases "snd e = v") auto
  qed simp
  from this [of t] show ?thesis
  proof (elim disjE exE conjE)
    fix name
    assume m: "(name, v) \<in> set t" and f: "enum_format t v = name"
    have "token name" "map_of t name = Some v"
      using assms m by (force simp: wf_table_def intro: symbolic_token)+
    then show ?thesis by (simp add: f parse_token)
  next
    assume f: "enum_format t v = int32_to_string v"
    have "map_of t (int32_to_string v) = None"
      using assms int32_to_string_not_symbolic [of v] by (auto simp: wf_table_def map_of_eq_None_iff)
    then show ?thesis
      by (simp add: f parse_token token_int32_to_string stoi_int32_to_string)
  qed
qed

theorem enum_roundtrip_witness:
  "enum_parse [(''North'', 0), (''South'', 1)] (enum_format [(''North'', 0), (''South'', 1)] 1) = Inr 1"
  by (rule enum_roundtrip) (simp add: wf_table_def symbolic_def is_blank_def is_digit_def)

section \<open>Stable types\<close>

text \<open>
  A program's accesses to one field: assignments of values and typed mutable accesses. A failed
  access throws and leaves the field as it was.
\<close>

datatype 'p access = Assign "'p field_base" | As ftype "'p field_base"

fun run_access :: "'p access \<Rightarrow> 'p field \<Rightarrow> 'p field" where
  "run_access (Assign v) f = (case field_assign f v of Inr f' \<Rightarrow> f' | Inl _ \<Rightarrow> f)"
| "run_access (As T d) f = (case field_as T d f of Inr f' \<Rightarrow> f' | Inl _ \<Rightarrow> f)"

lemma field_assign_stable:
  assumes "field_assign f v = Inr f'" and "\<not> field_is TMonostate f"
  shows "type_of (f_base f') = type_of (f_base f) \<and> f_attrs f' = f_attrs f"
  using assms
  by (auto simp: field_assign_def field_is_def split: if_splits field_base.splits option.splits sum.splits)



end
