(* ===== verification/Object.thy ===== *)
theory Object
  imports Constants Values
begin

text \<open>
  The object model of \<open>src/bison/bison_object.hpp\<close>: \<open>dynamic\<close> objects on a heap, the global class
  registry, prototype-chain lookup with its two caches (the inherited value copied into the
  instance, the pointer cache \<open>field_lookup_\<close>), cloning, registration and method calls.

  An address is the identity of a \<open>shared_ptr\<close>'s target; the heap only grows (an object nobody
  references any more is never observed). A pointer stored in \<open>field_lookup_\<close> always refers to
  the node of its own key, so an entry is \<open>Some True\<close> (a pointer to \<open>fields_[key]\<close>) or
  \<open>Some False\<close> (\<open>nullptr\<close>, a confirmed miss).
\<close>

section \<open>State\<close>

type_synonym addr = nat

text \<open>
  A \<open>shared_ptr<const method>\<close>: \<open>m_fn\<close> identifies the application's callable.
\<close>

record meth =
  m_fn :: nat
  m_input :: "addr option"
  m_output :: "addr option"
  m_attrs :: "attribute list"

record obj =
  o_fields :: "addr field smap"
  o_methods :: "meth smap"
  o_lookup :: "hash_t \<Rightarrow> bool option"
  o_userdata :: "nat option"
  o_factory :: "nat option"

type_synonym class_table = "addr smap"

record store =
  heap :: "obj list"
  registry :: "class_table smap"

text \<open>
  A member function: it may throw, and what it wrote before throwing stays written.
\<close>

type_synonym 'a action = "store \<Rightarrow> 'a result \<times> store"

definition bindA :: "'a action \<Rightarrow> ('a \<Rightarrow> 'b action) \<Rightarrow> 'b action" where
  "bindA m f s = (case m s of (Inl e, s') \<Rightarrow> (Inl e, s') | (Inr x, s') \<Rightarrow> f x s')"

definition retA :: "'a \<Rightarrow> 'a action" where
  "retA x s = (Inr x, s)"

definition throwA :: "exc \<Rightarrow> 'a action" where
  "throwA e s = (Inl e, s)"

abbreviation obj_at :: "store \<Rightarrow> addr \<Rightarrow> obj" where
  "obj_at s a \<equiv> heap s ! a"

abbreviation fields_of :: "store \<Rightarrow> addr \<Rightarrow> addr field smap" where
  "fields_of s a \<equiv> o_fields (obj_at s a)"

definition update_obj :: "addr \<Rightarrow> (obj \<Rightarrow> obj) \<Rightarrow> store \<Rightarrow> store" where
  "update_obj a f s = s\<lparr> heap := (heap s)[a := f (obj_at s a)] \<rparr>"

definition set_field :: "addr \<Rightarrow> hash_t \<Rightarrow> addr field \<Rightarrow> store \<Rightarrow> store" where
  "set_field a k f = update_obj a (\<lambda>ob. ob\<lparr> o_fields := map_put k f (o_fields ob) \<rparr>)"

definition set_lookup :: "addr \<Rightarrow> hash_t \<Rightarrow> bool \<Rightarrow> store \<Rightarrow> store" where
  "set_lookup a k b = update_obj a (\<lambda>ob. ob\<lparr> o_lookup := (o_lookup ob)(k \<mapsto> b) \<rparr>)"

definition alloc :: "obj \<Rightarrow> addr action" where
  "alloc ob s = (Inr (length (heap s)), s\<lparr> heap := heap s @ [ob] \<rparr>)"

section \<open>Construction and plain accessors\<close>

definition blank_obj :: "addr field smap \<Rightarrow> obj" where
  "blank_obj m = \<lparr> o_fields = m, o_methods = [], o_lookup = (\<lambda>_. None), o_userdata = None, o_factory = None \<rparr>"

text \<open>The constructor \<open>dynamic(klass, fields, userdata)\<close>: \<open>fields_[CLASS] = klass\<close>.\<close>

definition construct :: "hash_t \<Rightarrow> addr field smap \<Rightarrow> nat option \<Rightarrow> obj result" where
  "construct klass m ud =
     (case field_assign (case map_of m CLASS of Some f \<Rightarrow> f | None \<Rightarrow> plain_field Monostate) (KeyV klass) of
        Inl e \<Rightarrow> Inl e
      | Inr f \<Rightarrow> Inr ((blank_obj (map_put CLASS f m))\<lparr> o_userdata := ud \<rparr>))"

definition mono_field :: "addr field" where
  "mono_field = plain_field Monostate"

text \<open>\<open>fields_[key]\<close>: the entry is created empty when absent.\<close>

definition fields_index :: "addr \<Rightarrow> hash_t \<Rightarrow> store \<Rightarrow> store" where
  "fields_index a k s = (case map_of (fields_of s a) k of None \<Rightarrow> set_field a k mono_field s | Some _ \<Rightarrow> s)"

text \<open>\<open>operator[](size_t)\<close>, also what a plain \<open>hash_t\<close> index such as \<open>PARENT\<close> selects.\<close>

definition index_pos :: "addr \<Rightarrow> hash_t \<Rightarrow> unit action" where
  "index_pos a k s = (Inr (), set_lookup a k True (fields_index a k s))"

text \<open>\<open>field = v\<close> on the field a key of the object denotes.\<close>

definition assign_at :: "addr \<Rightarrow> hash_t \<Rightarrow> addr field_base \<Rightarrow> unit action" where
  "assign_at a k v s =
     (case map_of (fields_of s a) k of
        None \<Rightarrow> (Inl Invalid_type, s)
      | Some f \<Rightarrow> (case field_assign f v of
            Inl e \<Rightarrow> (Inl e, s)
          | Inr f' \<Rightarrow> (Inr (), set_field a k f' s)))"

text \<open>\<open>as<key_t>(k)\<close>.\<close>

definition as_key :: "addr \<Rightarrow> hash_t \<Rightarrow> hash_t action" where
  "as_key a k s =
     (let s1 = set_lookup a k True (fields_index a k s)
      in case map_of (fields_of s1 a) k of
           Some f \<Rightarrow> (case field_as TKey (KeyV 0) f of
               Inr f' \<Rightarrow> (case f_base f' of KeyV h \<Rightarrow> (Inr h, set_field a k f' s1) | _ \<Rightarrow> (Inl Invalid_type, s1))
             | Inl e \<Rightarrow> (Inl e, s1))
         | None \<Rightarrow> (Inl Invalid_type, s1))"

text \<open>
  \<open>as<key_t>(k) const\<close>: \<open>fields_\<close> is \<open>mutable\<close>, so the field it reaches is not const and the mutable
  \<open>field::as<T>()\<close> is the one it calls; an empty field becomes the key 0 here too.
\<close>

definition as_key_const :: "addr \<Rightarrow> hash_t \<Rightarrow> hash_t action" where
  "as_key_const a k = as_key a k"

text \<open>The array view: keys below \<open>0x80000000\<close>.\<close>

definition index_limit :: hash_t where
  "index_limit = 0x80000000"

definition dyn_size :: "addr field smap \<Rightarrow> nat" where
  "dyn_size m = (case below index_limit m of [] \<Rightarrow> 0 | kvs \<Rightarrow> unat (fst (last kvs) + 1))"

definition erase :: "addr \<Rightarrow> hash_t \<Rightarrow> bool action" where
  "erase a k s =
     (Inr (map_of (fields_of s a) k \<noteq> None),
      update_obj a (\<lambda>ob. ob\<lparr> o_lookup := (o_lookup ob)(k := None), o_fields := map_erase k (o_fields ob) \<rparr>) s)"

definition clear :: "addr \<Rightarrow> unit action" where
  "clear a s =
     (Inr (), update_obj a (\<lambda>ob. ob\<lparr> o_fields := from_bound index_limit (o_fields ob), o_lookup := (\<lambda>_. None) \<rparr>) s)"

text \<open>\<open>addField\<close> and \<open>addMethod\<close>: an existing key is kept.\<close>

definition add_field :: "addr \<Rightarrow> hash_t \<Rightarrow> addr field \<Rightarrow> bool action" where
  "add_field a k f s =
     (case map_of (fields_of s a) k of
        None \<Rightarrow> (Inr True, set_lookup a k True (set_field a k f s))
      | Some _ \<Rightarrow> (Inr False, s))"

definition add_method :: "addr \<Rightarrow> hash_t \<Rightarrow> meth \<Rightarrow> bool action" where
  "add_method a k m s =
     (Inr (map_of (o_methods (obj_at s a)) k = None),
      update_obj a (\<lambda>ob. ob\<lparr> o_methods := map_emplace k m (o_methods ob) \<rparr>) s)"

section \<open>Cloning\<close>

text \<open>
  \<open>clone_ptr\<close> with \<open>clone_into\<close>: a fresh object with the same fields, methods, userdata and
  factory and an empty pointer cache; every non-null nested pointer is then replaced by its own
  clone. The fuel is the nesting depth; on a cyclic object graph the recursion of the code does
  not end either.
\<close>

fun clone_fuel :: "nat \<Rightarrow> addr \<Rightarrow> addr action"
  and clone_fields :: "nat \<Rightarrow> addr \<Rightarrow> addr field smap \<Rightarrow> unit action" where
  "clone_fuel 0 a s = (Inl Fuel_exhausted, s)"
| "clone_fuel (Suc fuel) a s =
     bindA (alloc ((obj_at s a)\<lparr> o_lookup := (\<lambda>_. None) \<rparr>)) (\<lambda>b.
       bindA (clone_fields fuel b (fields_of s a)) (\<lambda>_. retA b)) s"
| "clone_fields fuel b [] s = (Inr (), s)"
| "clone_fields fuel b ((k, f) # kvs) s =
     (case f_base f of
        PtrV (Some q) \<Rightarrow>
          bindA (clone_fuel fuel q) (\<lambda>q' s1.
            clone_fields fuel b kvs (set_field b k (f\<lparr> f_base := PtrV (Some q') \<rparr>) s1)) s
      | _ \<Rightarrow> clone_fields fuel b kvs s)"

definition clone_ptr :: "addr \<Rightarrow> addr action" where
  "clone_ptr a s = clone_fuel (Suc (length (heap s))) a s"

section \<open>The prototype chain\<close>

text \<open>\<open>resolveNamespace\<close>: an absent namespace is stored as the global one.\<close>

definition resolve_namespace :: "addr \<Rightarrow> hash_t action" where
  "resolve_namespace a s =
     (case map_of (fields_of s a) NAMESPACE of
        Some f \<Rightarrow> (case f_base f of
            KeyV ns \<Rightarrow> (Inr ns, s)
          | _ \<Rightarrow> bindA (assign_at a NAMESPACE (KeyV 0)) (\<lambda>_. retA 0) s)
      | None \<Rightarrow> bindA (assign_at a NAMESPACE (KeyV 0)) (\<lambda>_. retA 0) (set_field a NAMESPACE mono_field s))"

text \<open>An inherited default: a nested object is cloned so that instances do not share it.\<close>

definition inherit_field :: "addr \<Rightarrow> hash_t \<Rightarrow> addr field \<Rightarrow> unit action" where
  "inherit_field a name inherited =
     (case f_base inherited of
        PtrV (Some q) \<Rightarrow> bindA (clone_ptr q) (\<lambda>q' s.
          (Inr (), update_obj a (\<lambda>ob. ob\<lparr> o_fields :=
             map_emplace name (inherited\<lparr> f_base := PtrV (Some q') \<rparr>) (o_fields ob) \<rparr>) s))
      | _ \<Rightarrow> (\<lambda>s. (Inr (), update_obj a (\<lambda>ob. ob\<lparr> o_fields := map_emplace name inherited (o_fields ob) \<rparr>) s)))"

text \<open>
  The walk over the registered classes. A chain without a cycle visits each class of the
  collection at most once, so \<open>length col\<close> steps are enough; on a cycle the code does not return
  (\<open>Fuel_exhausted\<close>).
\<close>

fun walk_fields :: "nat \<Rightarrow> addr \<Rightarrow> class_table \<Rightarrow> hash_t \<Rightarrow> hash_t \<Rightarrow> unit action" where
  "walk_fields fuel a col class_key name s =
     (case map_of col class_key of
        None \<Rightarrow> (Inr (), s)
      | Some klass \<Rightarrow> (case fuel of
            0 \<Rightarrow> (Inl Fuel_exhausted, s)
          | Suc fuel' \<Rightarrow> (case map_of (fields_of s klass) name of
                Some f \<Rightarrow> inherit_field a name f s
              | None \<Rightarrow> bindA (as_key klass PARENT) (\<lambda>parent. walk_fields fuel' a col parent name) s)))"

declare walk_fields.simps [simp del]

text \<open>The end of \<open>findField\<close>: cache what \<open>fields_\<close> now holds, or the confirmed miss.\<close>

definition cache_result :: "addr \<Rightarrow> hash_t \<Rightarrow> bool action" where
  "cache_result a name s =
     (case map_of (fields_of s a) name of
        Some _ \<Rightarrow> (Inr True, case o_lookup (obj_at s a) name of None \<Rightarrow> set_lookup a name True s | Some _ \<Rightarrow> s)
      | None \<Rightarrow> (Inr False, set_lookup a name False s))"

text \<open>
  \<open>findField\<close>: \<open>True\<close> stands for the pointer to \<open>fields_[name]\<close>, \<open>False\<close> for \<open>nullptr\<close>.
\<close>

definition find_field :: "addr \<Rightarrow> hash_t \<Rightarrow> bool action" where
  "find_field a name s =
     (case o_lookup (obj_at s a) name of
        Some hit \<Rightarrow> (Inr hit, s)
      | None \<Rightarrow> (case map_of (fields_of s a) name of
            Some _ \<Rightarrow> (Inr True, set_lookup a name True s)
          | None \<Rightarrow>
              bindA (resolve_namespace a) (\<lambda>ns s1.
                case map_of (registry s1) ns of
                  None \<Rightarrow> cache_result a name s1
                | Some col \<Rightarrow>
                    bindA (as_key_const a CLASS) (\<lambda>class_key.
                      bindA (walk_fields (length col) a col class_key name) (\<lambda>_. cache_result a name)) s1) s))"

text \<open>\<open>operator[](key_t)\<close>: the field found, or a new empty one.\<close>

definition index_key :: "addr \<Rightarrow> hash_t \<Rightarrow> unit action" where
  "index_key a name =
     bindA (find_field a name) (\<lambda>hit s.
       if hit then (Inr (), s) else (Inr (), set_lookup a name True (fields_index a name s)))"

text \<open>\<open>dynamic::get_as<key_t>(k)\<close>: the default key when the field is absent.\<close>

definition get_as_key :: "addr \<Rightarrow> hash_t \<Rightarrow> hash_t action" where
  "get_as_key a k =
     bindA (find_field a k) (\<lambda>hit s.
       if \<not> hit then (Inr 0, s)
       else (case map_of (fields_of s a) k of
               Some f \<Rightarrow> (cast_key (f_base f), s)
             | None \<Rightarrow> (Inl Invalid_type, s)))"

section \<open>Methods, classes and calls\<close>

fun walk_methods :: "nat \<Rightarrow> addr \<Rightarrow> class_table \<Rightarrow> hash_t \<Rightarrow> hash_t \<Rightarrow> unit action" where
  "walk_methods fuel a col class_key name s =
     (case map_of col class_key of
        None \<Rightarrow> (Inr (), s)
      | Some klass \<Rightarrow> (case fuel of
            0 \<Rightarrow> (Inl Fuel_exhausted, s)
          | Suc fuel' \<Rightarrow> (case map_of (o_methods (obj_at s klass)) name of
                Some m \<Rightarrow> (Inr (), update_obj a (\<lambda>ob. ob\<lparr> o_methods := map_emplace name m (o_methods ob) \<rparr>) s)
              | None \<Rightarrow> bindA (as_key klass PARENT) (\<lambda>parent. walk_methods fuel' a col parent name) s)))"

declare walk_methods.simps [simp del]

text \<open>\<open>findMethod\<close>: the inherited method object is shared, not copied.\<close>

definition find_method :: "addr \<Rightarrow> hash_t \<Rightarrow> meth option action" where
  "find_method a name s =
     (case map_of (o_methods (obj_at s a)) name of
        Some m \<Rightarrow> (Inr (Some m), s)
      | None \<Rightarrow>
          bindA (resolve_namespace a) (\<lambda>ns s1.
            let found = (\<lambda>s2. (Inr (map_of (o_methods (obj_at s2 a)) name), s2))
            in case map_of (registry s1) ns of
                 None \<Rightarrow> found s1
               | Some col \<Rightarrow>
                   bindA (as_key_const a CLASS) (\<lambda>class_key.
                     bindA (walk_methods (length col) a col class_key name) (\<lambda>_. found)) s1) s)"

text \<open>\<open>findClass\<close>: the prototype of the named ancestor (or of the class itself).\<close>

fun walk_classes :: "nat \<Rightarrow> class_table \<Rightarrow> hash_t \<Rightarrow> hash_t \<Rightarrow> addr option action" where
  "walk_classes fuel col klass name s =
     (case map_of col klass of
        None \<Rightarrow> (Inr None, s)
      | Some p \<Rightarrow>
          if klass = name then (Inr (Some p), s)
          else (case fuel of
                  0 \<Rightarrow> (Inl Fuel_exhausted, s)
                | Suc fuel' \<Rightarrow> bindA (as_key p PARENT) (\<lambda>parent. walk_classes fuel' col parent name) s))"

declare walk_classes.simps [simp del]

definition find_class :: "addr \<Rightarrow> hash_t \<Rightarrow> addr option action" where
  "find_class a name =
     bindA (resolve_namespace a) (\<lambda>ns s.
       case map_of (registry s) ns of
         None \<Rightarrow> (Inr None, s)
       | Some col \<Rightarrow> bindA (as_key_const a CLASS) (\<lambda>klass. walk_classes (length col) col klass name) s)"

definition NAME_KEY :: hash_t where
  "NAME_KEY = key ''__name''"

definition PARAMS_KEY :: hash_t where
  "PARAMS_KEY = key ''__params''"

text \<open>
  \<open>call\<close>; the application's callables are the parameter \<open>invoke\<close> (method, self, params), which
  returns the address of the result object.
\<close>

definition new_dynamic :: "hash_t \<Rightarrow> addr field smap \<Rightarrow> addr action" where
  "new_dynamic klass m s =
     (case construct klass m None of Inl e \<Rightarrow> (Inl e, s) | Inr ob \<Rightarrow> alloc ob s)"

definition assign_key :: "addr \<Rightarrow> hash_t \<Rightarrow> addr field_base \<Rightarrow> unit action" where
  "assign_key a k v = bindA (index_key a k) (\<lambda>_. assign_at a k v)"

text \<open>The method a call runs and the parameters it gets: the fallback receives name and parameters.\<close>

definition resolve_call :: "addr \<Rightarrow> hash_t \<Rightarrow> addr \<Rightarrow> (meth \<times> addr) action" where
  "resolve_call self name params =
     bindA (find_method self name) (\<lambda>m. case m of
         Some m' \<Rightarrow> retA (m', params)
       | None \<Rightarrow> bindA (find_method self CALL_FALLBACK) (\<lambda>fb. case fb of
             None \<Rightarrow> throwA Method_not_found
           | Some fb' \<Rightarrow>
               bindA (new_dynamic 0 []) (\<lambda>wrapper.
               bindA (assign_key wrapper NAME_KEY (KeyV name)) (\<lambda>_.
               bindA (clone_ptr params) (\<lambda>p.
               bindA (assign_key wrapper PARAMS_KEY (PtrV (Some p))) (\<lambda>_.
               retA (fb', wrapper)))))))"

definition call :: "(meth \<Rightarrow> addr \<Rightarrow> addr \<Rightarrow> addr action) \<Rightarrow> addr \<Rightarrow> hash_t \<Rightarrow> addr \<Rightarrow> addr action" where
  "call invoke self name params = bindA (resolve_call self name params) (\<lambda>(m, p). invoke m self p)"

text \<open>\<open>instantiate\<close> and \<open>create_instance\<close>; factories are the parameter \<open>factory_fn\<close>.\<close>

definition instantiate_obj :: "hash_t \<Rightarrow> hash_t \<Rightarrow> obj" where
  "instantiate_obj ns klass =
     (let m = map_put CLASS (plain_field (KeyV klass)) []
      in blank_obj (if ns \<noteq> 0 then map_put NAMESPACE (plain_field (KeyV ns)) m else m))"

definition create_object :: "(nat \<Rightarrow> addr option action) \<Rightarrow> hash_t \<Rightarrow> hash_t \<Rightarrow> addr option action" where
  "create_object factory_fn ns klass s =
     (case map_of (registry s) ns of
        None \<Rightarrow> (Inr None, s)
      | Some col \<Rightarrow> (case map_of col klass of
            None \<Rightarrow> (Inr None, s)
          | Some p \<Rightarrow> (case o_factory (obj_at s p) of
                Some f \<Rightarrow> factory_fn f s
              | None \<Rightarrow> bindA (alloc (instantiate_obj ns klass)) (\<lambda>a. retA (Some a)) s)))"

section \<open>Registration\<close>

text \<open>The cycle check: the last ancestor reached from the parent.\<close>

fun walk_ancestors :: "nat \<Rightarrow> class_table \<Rightarrow> hash_t \<Rightarrow> hash_t \<Rightarrow> hash_t action" where
  "walk_ancestors fuel col ancestor name s =
     (case map_of col ancestor of
        None \<Rightarrow> (Inr ancestor, s)
      | Some p \<Rightarrow>
          if ancestor = name then (Inr ancestor, s)
          else (case fuel of
                  0 \<Rightarrow> (Inl Fuel_exhausted, s)
                | Suc fuel' \<Rightarrow> bindA (as_key p PARENT) (\<lambda>parent. walk_ancestors fuel' col parent name) s))"

declare walk_ancestors.simps [simp del]

definition registry_index :: "hash_t \<Rightarrow> store \<Rightarrow> class_table \<times> store" where
  "registry_index ns s =
     (case map_of (registry s) ns of
        Some col \<Rightarrow> (col, s)
      | None \<Rightarrow> ([], s\<lparr> registry := map_put ns [] (registry s) \<rparr>))"

definition add_class :: "hash_t \<Rightarrow> addr \<Rightarrow> hash_t \<Rightarrow> bool action" where
  "add_class ns klass parent =
     bindA (as_key klass CLASS) (\<lambda>name.
     bindA (index_pos klass PARENT) (\<lambda>_.
     bindA (assign_at klass PARENT (KeyV parent)) (\<lambda>_.
     bindA (index_pos klass NAMESPACE) (\<lambda>_.
     bindA (assign_at klass NAMESPACE (KeyV ns)) (\<lambda>_ s.
       case registry_index ns s of (col, s1) \<Rightarrow>
         bindA (walk_ancestors (length col) col parent name) (\<lambda>ancestor s2.
           if ancestor = name then (Inr False, s2)
           else (case map_of col name of
                   Some _ \<Rightarrow> (Inr False, s2)
                 | None \<Rightarrow> (Inr True, s2\<lparr> registry := map_put ns (map_put name klass col) (registry s2) \<rparr>))) s1)))))"

text \<open>The overloads that attach class attributes and a factory first.\<close>

definition add_class_attrs :: "hash_t \<Rightarrow> addr \<Rightarrow> hash_t \<Rightarrow> attribute list \<Rightarrow> bool action" where
  "add_class_attrs ns klass parent attrs =
     (if attrs = [] then add_class ns klass parent
      else bindA (index_pos klass CLASS) (\<lambda>_ s.
        let f = (case map_of (fields_of s klass) CLASS of Some f \<Rightarrow> f | None \<Rightarrow> mono_field)
        in add_class ns klass parent (set_field klass CLASS (fold add_attribute attrs f) s)))"

definition add_class_factory :: "hash_t \<Rightarrow> addr \<Rightarrow> hash_t \<Rightarrow> nat \<Rightarrow> bool action" where
  "add_class_factory ns klass parent factory s =
     add_class ns klass parent (update_obj klass (\<lambda>ob. ob\<lparr> o_factory := Some factory \<rparr>) s)"

end
