(* ===== verification/Object_Inv.thy ===== *)
theory Object_Inv
  imports Object
begin

text \<open>
  The invariant of the object heap: field maps are sorted, every pointer (nested object,
  registered prototype) is allocated, and the pointer cache of every object agrees with its
  fields. Every operation preserves it, whether it returns or throws.
\<close>

section \<open>The invariant\<close>

definition ptr_ok :: "nat \<Rightarrow> addr field \<Rightarrow> bool" where
  "ptr_ok n f = (case f_base f of PtrV (Some q) \<Rightarrow> q < n | _ \<Rightarrow> True)"

text \<open>No dangling pointer, no miss recorded for a key that is present.\<close>

definition cache_ok :: "obj \<Rightarrow> bool" where
  "cache_ok ob \<longleftrightarrow>
     (\<forall>k. o_lookup ob k = Some True \<longrightarrow> map_of (o_fields ob) k \<noteq> None) \<and>
     (\<forall>k. o_lookup ob k = Some False \<longrightarrow> map_of (o_fields ob) k = None) \<and>
     o_lookup ob NAMESPACE \<noteq> Some False"

definition obj_ok :: "nat \<Rightarrow> obj \<Rightarrow> bool" where
  "obj_ok n ob \<longleftrightarrow> sorted_map (o_fields ob) \<and> (\<forall>(k, f) \<in> set (o_fields ob). ptr_ok n f) \<and> cache_ok ob"

definition registry_ok :: "nat \<Rightarrow> class_table smap \<Rightarrow> bool" where
  "registry_ok n reg \<longleftrightarrow> sorted_map reg \<and>
     (\<forall>(ns, col) \<in> set reg. sorted_map col \<and> (\<forall>(k, p) \<in> set col. p < n))"

definition store_ok :: "store \<Rightarrow> bool" where
  "store_ok s \<longleftrightarrow> (\<forall>ob \<in> set (heap s). obj_ok (length (heap s)) ob) \<and>
     registry_ok (length (heap s)) (registry s)"

definition valid :: "addr set \<Rightarrow> store \<Rightarrow> bool" where
  "valid A s \<longleftrightarrow> (\<forall>a \<in> A. a < length (heap s))"

text \<open>An action that keeps the invariant, started where the addresses of \<open>A\<close> are allocated.\<close>

definition keeps :: "addr set \<Rightarrow> 'a action \<Rightarrow> ('a \<Rightarrow> addr set) \<Rightarrow> bool" where
  "keeps A m B \<longleftrightarrow>
     (\<forall>s r s'. store_ok s \<longrightarrow> valid A s \<longrightarrow> m s = (r, s') \<longrightarrow>
        store_ok s' \<and> length (heap s) \<le> length (heap s') \<and>
        (\<forall>x. r = Inr x \<longrightarrow> valid (B x) s'))"

lemma valid_simps [simp]:
  "valid {} s" "valid (insert a A) s \<longleftrightarrow> a < length (heap s) \<and> valid A s"
  "valid (A \<union> B) s \<longleftrightarrow> valid A s \<and> valid B s"
  by (auto simp: valid_def)

lemma valid_mono: "valid A s \<Longrightarrow> length (heap s) \<le> length (heap s') \<Longrightarrow> valid A s'"
  by (auto simp: valid_def)

lemma ptr_ok_mono: "ptr_ok n f \<Longrightarrow> n \<le> m \<Longrightarrow> ptr_ok m f"
  by (auto simp: ptr_ok_def split: field_base.splits option.splits)

lemma obj_ok_mono: "obj_ok n ob \<Longrightarrow> n \<le> m \<Longrightarrow> obj_ok m ob"
  using ptr_ok_mono by (fastforce simp: obj_ok_def)

lemma registry_ok_mono: "registry_ok n reg \<Longrightarrow> n \<le> m \<Longrightarrow> registry_ok m reg"
  by (fastforce simp: registry_ok_def)

lemma keepsD:
  assumes "keeps A m B" and "store_ok s" and "valid A s" and "m s = (r, s')"
  shows "store_ok s'" and "length (heap s) \<le> length (heap s')" and "r = Inr x \<Longrightarrow> valid (B x) s'"
  using assms by (auto simp: keeps_def)

lemma keeps_bind:
  assumes "keeps A m B" and "\<And>x. keeps (A \<union> B x) (f x) C"
  shows "keeps A (bindA m f) C"
  unfolding keeps_def
proof (intro allI impI)
  fix s r s'
  assume s: "store_ok s" "valid A s" and run: "bindA m f s = (r, s')"
  obtain r1 s1 where m: "m s = (r1, s1)" by fastforce
  note k = keepsD [OF assms(1) s m]
  show "store_ok s' \<and> length (heap s) \<le> length (heap s') \<and> (\<forall>x. r = Inr x \<longrightarrow> valid (C x) s')"
  proof (cases r1)
    case (Inl e)
    then show ?thesis using run k by (auto simp: bindA_def m)
  next
    case (Inr x)
    then have f: "f x s1 = (r, s')" using run by (simp add: bindA_def m)
    have "valid (A \<union> B x) s1" using k(2,3) Inr s(2) valid_mono by auto
    from keepsD [OF assms(2) k(1) this f] k(2) show ?thesis by auto
  qed
qed

lemma keeps_ret: "(\<And>s. valid A s \<Longrightarrow> valid (B x) s) \<Longrightarrow> keeps A (retA x) B"
  by (simp add: keeps_def retA_def)

lemma keeps_throw: "keeps A (throwA e) B"
  by (simp add: keeps_def throwA_def)

lemma keeps_weaken:
  assumes "keeps A m B" and "A \<subseteq> A'" and "\<And>x s. valid (B x) s \<Longrightarrow> valid A' s \<Longrightarrow> valid (C x) s"
  shows "keeps A' m C"
  unfolding keeps_def
proof (intro allI impI)
  fix s r s'
  assume s: "store_ok s" "valid A' s" and run: "m s = (r, s')"
  have "valid A s" using s(2) assms(2) by (auto simp: valid_def)
  from keepsD [OF assms(1) s(1) this run] assms(3) valid_mono [OF s(2)]
  show "store_ok s' \<and> length (heap s) \<le> length (heap s') \<and> (\<forall>x. r = Inr x \<longrightarrow> valid (C x) s')"
    by auto
qed

section \<open>Elementary updates\<close>

lemma heap_update_obj [simp]:
  "length (heap (update_obj a f s)) = length (heap s)" "registry (update_obj a f s) = registry s"
  by (simp_all add: update_obj_def)

lemma obj_at_update [simp]:
  "a < length (heap s) \<Longrightarrow> obj_at (update_obj a f s) b = (if b = a then f (obj_at s a) else obj_at s b)"
  by (simp add: update_obj_def)

lemma store_okD: "store_ok s \<Longrightarrow> a < length (heap s) \<Longrightarrow> obj_ok (length (heap s)) (obj_at s a)"
  by (simp add: store_ok_def)

lemma store_ok_update:
  assumes "store_ok s" and "a < length (heap s)" and "obj_ok (length (heap s)) (f (obj_at s a))"
  shows "store_ok (update_obj a f s)"
  using assms set_update_subset_insert [of "heap s" a "f (obj_at s a)"]
  by (auto simp: store_ok_def update_obj_def)

lemma map_put_mem: "(k', v') \<in> set (map_put k v m) \<Longrightarrow> (k', v') = (k, v) \<or> (k', v') \<in> set m"
  by (induction k v m rule: map_put.induct) (auto split: if_splits)

lemma map_emplace_mem: "(k', v') \<in> set (map_emplace k v m) \<Longrightarrow> (k', v') = (k, v) \<or> (k', v') \<in> set m"
  using map_put_mem by (fastforce simp: map_emplace_def split: option.splits)

lemma obj_ok_put:
  assumes "obj_ok n ob" and "ptr_ok n f" and "o_lookup ob k \<noteq> Some False"
  shows "obj_ok n (ob\<lparr> o_fields := map_put k f (o_fields ob) \<rparr>)"
  using assms map_put_mem [of _ _ k f "o_fields ob"]
  by (fastforce simp: obj_ok_def cache_ok_def)

lemma obj_ok_lookup:
  assumes "obj_ok n ob" and "b = (map_of (o_fields ob) k \<noteq> None)" and "k = NAMESPACE \<longrightarrow> b"
  shows "obj_ok n (ob\<lparr> o_lookup := (o_lookup ob)(k \<mapsto> b) \<rparr>)"
  using assms by (auto simp: obj_ok_def cache_ok_def)

lemma ptr_ok_plain [simp]: "ptr_ok n (plain_field (KeyV k))" "ptr_ok n mono_field"
  by (simp_all add: ptr_ok_def plain_field_def mono_field_def)

lemma obj_ok_field: "obj_ok n ob \<Longrightarrow> map_of (o_fields ob) k = Some f \<Longrightarrow> ptr_ok n f"
  by (auto simp: obj_ok_def dest: map_of_SomeD)

text \<open>\<open>fields_[k]\<close> followed by the caching of the pointer.\<close>

definition touch :: "addr \<Rightarrow> hash_t \<Rightarrow> store \<Rightarrow> store" where
  "touch a k s = set_lookup a k True (fields_index a k s)"

lemma touch_eq:
  assumes "a < length (heap s)"
  shows "touch a k s = update_obj a (\<lambda>ob. ob\<lparr> o_fields := map_emplace k mono_field (o_fields ob),
     o_lookup := (o_lookup ob)(k \<mapsto> True) \<rparr>) s"
  using assms
  by (auto simp: touch_def set_lookup_def fields_index_def set_field_def map_emplace_def update_obj_def
      split: option.splits)

lemma store_ok_touch: "store_ok s \<Longrightarrow> a < length (heap s) \<Longrightarrow> store_ok (touch a k s)"
proof -
  assume s: "store_ok s" "a < length (heap s)"
  have "obj_ok (length (heap s)) ((obj_at s a)\<lparr> o_fields := map_emplace k mono_field (o_fields (obj_at s a)),
     o_lookup := (o_lookup (obj_at s a))(k \<mapsto> True) \<rparr>)"
    using store_okD [OF s] map_emplace_mem [of _ _ k mono_field "fields_of s a"]
    by (fastforce simp: obj_ok_def cache_ok_def map_of_map_emplace split: option.splits)
  then show ?thesis using s by (simp add: touch_eq store_ok_update)
qed

lemma touch_simps [simp]:
  "length (heap (touch a k s)) = length (heap s)" "registry (touch a k s) = registry s"
  by (auto simp: touch_def set_lookup_def fields_index_def set_field_def split: option.splits)

lemma touch_lookup: "a < length (heap s) \<Longrightarrow> o_lookup (obj_at (touch a k s) a) k = Some True"
  by (simp add: touch_eq)

section \<open>Every operation keeps the invariant\<close>

lemma keepsI:
  assumes "\<And>s r s'. store_ok s \<Longrightarrow> valid A s \<Longrightarrow> m s = (r, s') \<Longrightarrow>
     store_ok s' \<and> length (heap s) \<le> length (heap s') \<and> (\<forall>x. r = Inr x \<longrightarrow> valid (B x) s')"
  shows "keeps A m B"
  using assms by (auto simp: keeps_def)

lemma keepsI_same:
  assumes "\<And>s r s'. store_ok s \<Longrightarrow> valid A s \<Longrightarrow> m s = (r, s') \<Longrightarrow>
     store_ok s' \<and> length (heap s') = length (heap s)"
  shows "keeps A m (\<lambda>_. {})"
  using assms by (auto simp: keeps_def)

lemma keeps_index_pos: "keeps {a} (index_pos a k) (\<lambda>_. {})"
  by (rule keepsI) (auto simp: index_pos_def touch_def [symmetric] store_ok_touch)

lemma field_assign_value:
  "field_assign f v = Inr f' \<Longrightarrow> f_base f' = v \<or> (\<exists>n. f_base f' = Int32V n)"
  by (cases v) (auto simp: field_assign_def split: if_split_asm option.split_asm sum.split_asm)

lemma field_assign_ptr: "field_assign f v = Inr f' \<Longrightarrow> ptr_ok n (plain_field v) \<Longrightarrow> ptr_ok n f'"
  using field_assign_value [of f v f'] by (auto simp: ptr_ok_def plain_field_def)

lemma store_ok_set_field:
  assumes "store_ok s" and "a < length (heap s)" and "ptr_ok (length (heap s)) f"
    and "o_lookup (obj_at s a) k \<noteq> Some False"
  shows "store_ok (set_field a k f s)"
  unfolding set_field_def
  using assms by (intro store_ok_update obj_ok_put store_okD) auto

lemma assign_at_ok:
  assumes "store_ok s" and "a < length (heap s)" and "ptr_ok (length (heap s)) (plain_field v)"
    and "assign_at a k v s = (r, s')"
  shows "store_ok s' \<and> length (heap s) = length (heap s') \<and> registry s' = registry s"
proof (cases "map_of (fields_of s a) k")
  case None
  then show ?thesis using assms by (auto simp: assign_at_def)
next
  case (Some f)
  note ok = store_okD [OF assms(1,2)]
  have "o_lookup (obj_at s a) k \<noteq> Some False" using ok Some by (auto simp: obj_ok_def cache_ok_def)
  then have "store_ok (set_field a k f' s)" if "field_assign f v = Inr f'" for f'
    using assms(1,2) field_assign_ptr [OF that assms(3)] by (intro store_ok_set_field) auto
  then show ?thesis
    using assms(1,4) Some by (auto simp: assign_at_def set_field_def split: sum.splits)
qed

definition ptrs_of :: "addr field_base \<Rightarrow> addr set" where
  "ptrs_of v = (case v of PtrV (Some q) \<Rightarrow> {q} | _ \<Rightarrow> {})"

lemma valid_ptrs: "valid (ptrs_of (f_base f)) s \<longleftrightarrow> ptr_ok (length (heap s)) f"
  by (auto simp: ptrs_of_def ptr_ok_def split: field_base.split option.split)

lemma ptrs_of_key [simp]: "ptrs_of (KeyV k) = {}" "ptrs_of (PtrV (Some q)) = {q}"
  by (simp_all add: ptrs_of_def)

lemma keeps_assign_at: "keeps (insert a (ptrs_of v)) (assign_at a k v) (\<lambda>_. {})"
proof (rule keepsI_same)
  fix s r s'
  assume s: "store_ok s" "valid (insert a (ptrs_of v)) s" "assign_at a k v s = (r, s')"
  then have "ptr_ok (length (heap s)) (plain_field v)"
    using valid_ptrs [of "plain_field v" s] by (simp add: plain_field_def)
  with s show "store_ok s' \<and> length (heap s') = length (heap s)"
    using assign_at_ok [of s a v k r s'] by simp
qed

lemma as_key_touch:
  "as_key a k s = (let s1 = touch a k s in
     case map_of (fields_of s1 a) k of
       Some f \<Rightarrow> (case field_as TKey (KeyV 0) f of
           Inr f' \<Rightarrow> (case f_base f' of KeyV h \<Rightarrow> (Inr h, set_field a k f' s1) | _ \<Rightarrow> (Inl Invalid_type, s1))
         | Inl e \<Rightarrow> (Inl e, s1))
     | None \<Rightarrow> (Inl Invalid_type, s1))"
  by (simp add: as_key_def touch_def)

lemma as_key_ok:
  assumes "store_ok s" and "a < length (heap s)" and "as_key a k s = (r, s')"
  shows "store_ok s' \<and> length (heap s') = length (heap s) \<and> registry s' = registry s"
proof -
  let ?s1 = "touch a k s"
  have s1: "store_ok ?s1" "a < length (heap ?s1)" using assms(1,2) by (simp_all add: store_ok_touch)
  have "store_ok (set_field a k f' ?s1)" if "f_base f' = KeyV h" for f' h
    using s1 that assms(2) by (intro store_ok_set_field) (auto simp: ptr_ok_def touch_lookup)
  then show ?thesis
    using assms(3) s1
    by (auto simp: as_key_touch Let_def set_field_def split: option.splits sum.splits field_base.splits)
qed

lemma keeps_as_key: "keeps {a} (as_key a k) (\<lambda>_. {})"
proof (rule keepsI_same)
  fix s r s'
  assume "store_ok s" "valid {a} s" "as_key a k s = (r, s')"
  then show "store_ok s' \<and> length (heap s') = length (heap s)"
    using as_key_ok [of s a k r s'] by simp
qed

lemma keeps_as_key_const: "keeps {a} (as_key_const a k) (\<lambda>_. {})"
  by (simp add: as_key_const_def keeps_as_key)

lemma store_ok_alloc:
  assumes "store_ok s" and "obj_ok (Suc (length (heap s))) ob"
  shows "store_ok (s\<lparr> heap := heap s @ [ob] \<rparr>)"
proof -
  have "obj_ok (Suc (length (heap s))) x" if "x \<in> set (heap s)" for x
    by (rule obj_ok_mono [of "length (heap s)"]) (use assms(1) that in \<open>auto simp: store_ok_def\<close>)
  moreover have "registry_ok (Suc (length (heap s))) (registry s)"
    by (rule registry_ok_mono [of "length (heap s)"]) (use assms(1) in \<open>auto simp: store_ok_def\<close>)
  ultimately show ?thesis using assms(2) by (simp add: store_ok_def)
qed

lemma keeps_alloc: "obj_ok 0 ob \<Longrightarrow> keeps A (alloc ob) (\<lambda>a. {a})"
proof (rule keepsI)
  fix s r s'
  assume ob: "obj_ok 0 ob" and s: "store_ok s" "alloc ob s = (r, s')"
  have "obj_ok (Suc (length (heap s))) ob" using ob by (rule obj_ok_mono) simp
  from store_ok_alloc [OF s(1) this]
  show "store_ok s' \<and> length (heap s) \<le> length (heap s') \<and> (\<forall>x. r = Inr x \<longrightarrow> valid {x} s')"
    using s(2) by (auto simp: alloc_def)
qed

text \<open>
  Cloning writes only to objects it allocates: the objects that existed before, and the
  registry, are untouched.
\<close>

definition extends :: "store \<Rightarrow> store \<Rightarrow> bool" where
  "extends s s' \<longleftrightarrow> length (heap s) \<le> length (heap s') \<and> registry s' = registry s \<and>
     (\<forall>c < length (heap s). obj_at s' c = obj_at s c)"

lemma extends_refl [simp]: "extends s s"
  by (simp add: extends_def)

lemma extends_trans: "extends s s' \<Longrightarrow> extends s' s'' \<Longrightarrow> extends s s''"
  by (auto simp: extends_def)

lemma extends_set_field:
  "extends s s' \<Longrightarrow> length (heap s) \<le> b \<Longrightarrow> b < length (heap s') \<Longrightarrow> extends s (set_field b k f s')"
  by (auto simp: extends_def set_field_def)

lemma clone_fields_skip:
  "\<not> (\<exists>q. f_base f = PtrV (Some q)) \<Longrightarrow> clone_fields fuel b ((k, f) # kvs) s = clone_fields fuel b kvs s"
  by (auto split: field_base.split option.split)

text \<open>What a clone started in \<open>s\<close> has done, and what cloning the nested objects of \<open>b\<close> has done.\<close>

definition cloned :: "store \<Rightarrow> addr result \<Rightarrow> store \<Rightarrow> bool" where
  "cloned s r s' \<longleftrightarrow> store_ok s' \<and> extends s s' \<and>
     (\<forall>b. r = Inr b \<longrightarrow> length (heap s) \<le> b \<and> b < length (heap s'))"

definition extends_but :: "addr \<Rightarrow> store \<Rightarrow> store \<Rightarrow> bool" where
  "extends_but b s s' \<longleftrightarrow> length (heap s) \<le> length (heap s') \<and> registry s' = registry s \<and>
     (\<forall>c < length (heap s). c \<noteq> b \<longrightarrow> obj_at s' c = obj_at s c)"

lemma clone_fields_keeps:
  assumes IH: "\<And>a s r s'. store_ok s \<Longrightarrow> a < length (heap s) \<Longrightarrow> clone_fuel fuel a s = (r, s') \<Longrightarrow> cloned s r s'"
    and "store_ok s" and "b < length (heap s)" and "\<forall>(k, f) \<in> set kvs. ptr_ok (length (heap s)) f"
    and "o_lookup (obj_at s b) = (\<lambda>_. None)" and "clone_fields fuel b kvs s = (r', s')"
  shows "store_ok s' \<and> extends_but b s s'"
  using assms(2-)
proof (induction kvs arbitrary: s)
  case Nil
  then show ?case by (simp add: extends_but_def)
next
  case (Cons kf kvs)
  obtain k f where kf: "kf = (k, f)" by fastforce
  show ?case
  proof (cases "\<exists>q. f_base f = PtrV (Some q)")
    case False
    then have "clone_fields fuel b kvs s = (r', s')"
      using Cons.prems(5) clone_fields_skip [of f fuel b k kvs s] by (simp only: kf) simp
    then show ?thesis using Cons.prems(1-4) by (intro Cons.IH) (auto simp: kf)
  next
    case True
    then obtain q where q: "f_base f = PtrV (Some q)" by blast
    obtain r1 s1 where cl: "clone_fuel fuel q s = (r1, s1)" by fastforce
    have "q < length (heap s)" using Cons.prems(3) q by (auto simp: kf ptr_ok_def)
    then have c: "cloned s r1 s1" using IH Cons.prems(1) cl by blast
    then have b: "b < length (heap s1)" "obj_at s1 b = obj_at s b"
      using Cons.prems(2) by (auto simp: cloned_def extends_def)
    show ?thesis
    proof (cases r1)
      case (Inl e)
      then have "s' = s1" using Cons.prems(5) by (simp add: kf q bindA_def cl)
      then show ?thesis using c by (auto simp: cloned_def extends_def extends_but_def)
    next
      case (Inr q')
      let ?s2 = "set_field b k (f\<lparr> f_base := PtrV (Some q') \<rparr>) s1"
      have run: "clone_fields fuel b kvs ?s2 = (r', s')"
        using Cons.prems(5) by (simp add: kf q bindA_def cl Inr)
      have s2: "store_ok ?s2"
        using c Inr b Cons.prems(4) by (intro store_ok_set_field) (auto simp: cloned_def ptr_ok_def)
      have "\<forall>(k, f) \<in> set kvs. ptr_ok (length (heap ?s2)) f"
        using Cons.prems(3) c ptr_ok_mono [of "length (heap s)"]
        by (fastforce simp: cloned_def extends_def set_field_def)
      then have "store_ok s' \<and> extends_but b ?s2 s'"
        using b Cons.prems(4) by (intro Cons.IH s2 run) (simp_all add: set_field_def)
      then show ?thesis using c b by (auto simp: cloned_def extends_def extends_but_def set_field_def)
    qed
  qed
qed

lemma clone_keeps:
  "store_ok s \<Longrightarrow> a < length (heap s) \<Longrightarrow> clone_fuel fuel a s = (r, s') \<Longrightarrow> cloned s r s'"
proof (induction fuel arbitrary: a s r s')
  case 0
  then show ?case by (auto simp: cloned_def)
next
  case (Suc fuel)
  let ?b = "length (heap s)"
  let ?ob = "(obj_at s a)\<lparr> o_lookup := (\<lambda>_. None) \<rparr>"
  let ?s1 = "s\<lparr> heap := heap s @ [?ob] \<rparr>"
  have al: "alloc ?ob s = (Inr ?b, ?s1)" by (simp add: alloc_def)
  have ok: "obj_ok ?b (obj_at s a)" using Suc.prems(1,2) by (rule store_okD)
  then have "obj_ok ?b ?ob" by (simp add: obj_ok_def cache_ok_def)
  then have "obj_ok (Suc ?b) ?ob" by (rule obj_ok_mono) simp
  then have s1: "store_ok ?s1" using Suc.prems(1) by (rule store_ok_alloc [rotated])
  obtain r1 s2 where cf: "clone_fields fuel ?b (fields_of s a) ?s1 = (r1, s2)" by fastforce
  have res: "s' = s2 \<and> (\<forall>b. r = Inr b \<longrightarrow> b = ?b)"
    using Suc.prems(3) by (auto simp: bindA_def al cf retA_def split: sum.splits)
  have ptrs: "\<forall>(k, f) \<in> set (fields_of s a). ptr_ok (length (heap ?s1)) f"
    using ok ptr_ok_mono [of ?b] by (fastforce simp: obj_ok_def)
  have "store_ok s2 \<and> extends_but ?b ?s1 s2"
    by (rule clone_fields_keeps [OF Suc.IH s1 _ ptrs _ cf]) simp_all
  then show ?case using res by (auto simp: cloned_def extends_def extends_but_def nth_append)
qed

lemma cloned_store:
  assumes "store_ok s" and "a < length (heap s)" and "clone_ptr a s = (r, s')"
  shows "cloned s r s'"
  by (rule clone_keeps [OF assms(1,2)]) (use assms(3) in \<open>simp only: clone_ptr_def\<close>)

lemma keeps_clone_ptr: "keeps {a} (clone_ptr a) (\<lambda>b. {b})"
proof (rule keepsI)
  fix s r s'
  assume "store_ok s" "valid {a} s" "clone_ptr a s = (r, s')"
  then have "cloned s r s'" by (intro cloned_store) auto
  then show "store_ok s' \<and> length (heap s) \<le> length (heap s') \<and> (\<forall>x. r = Inr x \<longrightarrow> valid {x} s')"
    by (auto simp: cloned_def extends_def)
qed

lemma keeps_resolve_namespace: "keeps {a} (resolve_namespace a) (\<lambda>_. {})"
proof -
  have set: "keeps {a} (bindA (assign_at a NAMESPACE (KeyV 0)) (\<lambda>_. retA 0)) (\<lambda>_. {})"
    using keeps_assign_at [of a "KeyV 0"] by (intro keeps_bind) (auto intro: keeps_ret)
  show ?thesis
  proof (rule keepsI)
    fix s r s'
    assume s: "store_ok s" "valid {a} s" and run: "resolve_namespace a s = (r, s')"
    have "o_lookup (obj_at s a) NAMESPACE \<noteq> Some False"
      using store_okD [OF s(1), of a] s(2) by (auto simp: obj_ok_def cache_ok_def)
    then have s1: "store_ok (set_field a NAMESPACE mono_field s)"
      using s by (intro store_ok_set_field) auto
    have v1: "valid {a} (set_field a NAMESPACE mono_field s)" using s(2) by (simp add: set_field_def)
    show "store_ok s' \<and> length (heap s) \<le> length (heap s') \<and> (\<forall>x. r = Inr x \<longrightarrow> valid {} s')"
      using run s keepsD(1,2) [OF set s] keepsD(1,2) [OF set s1 v1]
      by (auto simp: resolve_namespace_def set_field_def split: option.splits field_base.split_asm)
  qed
qed

text \<open>
  No miss is recorded for \<open>name\<close> in \<open>a\<close>: the state in which an inherited value is installed.
  (\<open>NAMESPACE\<close> is always present by then.)
\<close>

definition no_miss :: "addr \<Rightarrow> hash_t \<Rightarrow> store \<Rightarrow> bool" where
  "no_miss a name s \<longleftrightarrow> o_lookup (obj_at s a) name \<noteq> Some False \<and>
     (name = NAMESPACE \<longrightarrow> map_of (fields_of s a) name \<noteq> None)"

lemma no_miss_touch: "b < length (heap s) \<Longrightarrow> no_miss a name s \<Longrightarrow> no_miss a name (touch b k s)"
  by (auto simp: no_miss_def touch_eq map_of_map_emplace split: option.split)

lemma no_miss_set_field: "b < length (heap s) \<Longrightarrow> no_miss a name s \<Longrightarrow> no_miss a name (set_field b k f s)"
  by (auto simp: no_miss_def set_field_def)

lemma no_miss_as_key:
  assumes "as_key b k s = (r, s')" and "b < length (heap s)" and "no_miss a name s"
  shows "no_miss a name s'"
  using assms no_miss_touch [OF assms(2,3), of k]
  by (auto simp: as_key_touch Let_def intro!: no_miss_set_field split: option.splits sum.splits field_base.split_asm)

lemma no_miss_as_key_const:
  "as_key_const b k s = (r, s') \<Longrightarrow> b < length (heap s) \<Longrightarrow> no_miss a name s \<Longrightarrow> no_miss a name s'"
  using no_miss_as_key by (simp add: as_key_const_def)

lemma obj_ok_emplace:
  assumes "obj_ok n ob" and "ptr_ok n f" and "o_lookup ob k \<noteq> Some False"
  shows "obj_ok n (ob\<lparr> o_fields := map_emplace k f (o_fields ob) \<rparr>)"
  using assms obj_ok_put [OF assms] by (simp add: map_emplace_def split: option.split)

lemma inherit_field_ok:
  assumes "store_ok s" and "a < length (heap s)" and "ptr_ok (length (heap s)) f" and "no_miss a name s"
    and "inherit_field a name f s = (r, s')"
  shows "store_ok s' \<and> length (heap s) \<le> length (heap s') \<and> no_miss a name s'"
proof (cases "\<exists>q. f_base f = PtrV (Some q)")
  case True
  then obtain q where q: "f_base f = PtrV (Some q)" by blast
  then have "q < length (heap s)" using assms(3) by (simp add: ptr_ok_def)
  obtain r1 s1 where cl: "clone_ptr q s = (r1, s1)" by fastforce
  have c: "cloned s r1 s1" by (rule cloned_store [OF assms(1) _ cl]) fact
  show ?thesis
  proof (cases r1)
    case (Inl e)
    then show ?thesis using assms(2,4,5) c
      by (auto simp: inherit_field_def q bindA_def cl cloned_def extends_def no_miss_def)
  next
    case (Inr q')
    have a: "a < length (heap s1)" "obj_at s1 a = obj_at s a" using c assms(2) by (auto simp: cloned_def extends_def)
    have "store_ok (update_obj a (\<lambda>ob. ob\<lparr> o_fields :=
        map_emplace name (f\<lparr> f_base := PtrV (Some q') \<rparr>) (o_fields ob) \<rparr>) s1)"
      using c Inr a assms(4)
      by (intro store_ok_update obj_ok_emplace store_okD) (auto simp: cloned_def ptr_ok_def no_miss_def)
    then show ?thesis using assms(4,5) c a
      by (auto simp: inherit_field_def q bindA_def cl Inr cloned_def extends_def no_miss_def map_of_map_emplace)
  qed
next
  case False
  then have "s' = update_obj a (\<lambda>ob. ob\<lparr> o_fields := map_emplace name f (o_fields ob) \<rparr>) s"
    using assms(5) by (auto simp: inherit_field_def split: field_base.split_asm option.split_asm)
  moreover have "store_ok (update_obj a (\<lambda>ob. ob\<lparr> o_fields := map_emplace name f (o_fields ob) \<rparr>) s)"
    using assms by (intro store_ok_update obj_ok_emplace store_okD) (auto simp: no_miss_def)
  ultimately show ?thesis using assms(2,4) by (auto simp: no_miss_def map_of_map_emplace)
qed

definition col_ok :: "nat \<Rightarrow> class_table \<Rightarrow> bool" where
  "col_ok n col \<longleftrightarrow> (\<forall>(k, p) \<in> set col. p < n)"

lemma col_okD: "col_ok n col \<Longrightarrow> map_of col k = Some p \<Longrightarrow> p < n"
  by (auto simp: col_ok_def dest: map_of_SomeD)

lemma col_ok_registry: "store_ok s \<Longrightarrow> map_of (registry s) ns = Some col \<Longrightarrow> col_ok (length (heap s)) col"
  by (auto simp: store_ok_def registry_ok_def col_ok_def dest!: map_of_SomeD)

lemma walk_fields_ok:
  assumes "store_ok s" and "a < length (heap s)" and "col_ok (length (heap s)) col" and "no_miss a name s"
    and "walk_fields fuel a col c name s = (r, s')"
  shows "store_ok s' \<and> length (heap s) \<le> length (heap s') \<and> no_miss a name s'"
  using assms
proof (induction fuel arbitrary: c s)
  case 0
  then show ?case by (auto simp: walk_fields.simps split: option.splits)
next
  case (Suc fuel)
  show ?case
  proof (cases "map_of col c")
    case None
    then show ?thesis using Suc.prems by (simp add: walk_fields.simps)
  next
    case (Some p)
    then have p: "p < length (heap s)" by (rule col_okD [OF Suc.prems(3)])
    show ?thesis
    proof (cases "map_of (fields_of s p) name")
      case (Some f)
      then have "ptr_ok (length (heap s)) f" by (rule obj_ok_field [OF store_okD [OF Suc.prems(1) p]])
      then show ?thesis using Suc.prems Some \<open>map_of col c = Some p\<close>
        by (intro inherit_field_ok) (simp_all add: walk_fields.simps)
    next
      case None
      obtain r1 s1 where k: "as_key p PARENT s = (r1, s1)" by fastforce
      note ok = as_key_ok [OF Suc.prems(1) p k]
      show ?thesis
      proof (cases r1)
        case (Inl e)
        then show ?thesis using Suc.prems(4,5) ok None no_miss_as_key [OF k p] \<open>map_of col c = Some p\<close>
          by (simp add: walk_fields.simps [of "Suc fuel"] bindA_def k)
      next
        case (Inr parent)
        then have "walk_fields fuel a col parent name s1 = (r, s')"
          using Suc.prems(5) None \<open>map_of col c = Some p\<close>
          by (simp add: walk_fields.simps [of "Suc fuel"] bindA_def k)
        then have "store_ok s' \<and> length (heap s1) \<le> length (heap s') \<and> no_miss a name s'"
          using Suc.prems ok no_miss_as_key [OF k p] by (intro Suc.IH) simp_all
        then show ?thesis using ok by simp
      qed
    qed
  qed
qed

lemma cache_result_ok:
  assumes "store_ok s" and "a < length (heap s)" and "no_miss a name s"
    and "cache_result a name s = (r, s')"
  shows "store_ok s' \<and> length (heap s') = length (heap s)"
proof -
  have "store_ok (set_lookup a name b s)" if "b = (map_of (fields_of s a) name \<noteq> None)" for b
    unfolding set_lookup_def using assms that
    by (intro store_ok_update obj_ok_lookup store_okD) (auto simp: no_miss_def)
  then show ?thesis using assms(1,4)
    by (auto simp: cache_result_def set_lookup_def split: option.splits)
qed

lemma keeps_index_key_tail:
  assumes "store_ok s" and "a < length (heap s)"
  shows "store_ok (set_lookup a name True (fields_index a name s))"
  using store_ok_touch [OF assms] by (simp add: touch_def)

lemma resolve_namespace_effect:
  assumes "resolve_namespace a s = (r, s')" and "a < length (heap s)"
  shows "o_lookup (obj_at s' b) = o_lookup (obj_at s b)"
    and "r = Inr ns \<Longrightarrow> map_of (fields_of s' a) NAMESPACE \<noteq> None"
  using assms
  by (auto simp: resolve_namespace_def assign_at_def bindA_def retA_def set_field_def
      split: option.splits field_base.split_asm sum.split_asm)

lemma resolve_namespace_no_miss:
  assumes "resolve_namespace a s = (Inr ns, s')" and "a < length (heap s)"
    and "o_lookup (obj_at s a) name \<noteq> Some False"
  shows "no_miss a name s'"
  using resolve_namespace_effect [OF assms(1,2)] assms(3) by (auto simp: no_miss_def)

lemma find_field_ok:
  assumes "store_ok s" and "a < length (heap s)" and "find_field a name s = (r, s')"
  shows "store_ok s' \<and> length (heap s) \<le> length (heap s')"
proof (cases "o_lookup (obj_at s a) name")
  case (Some hit)
  then show ?thesis using assms by (simp add: find_field_def)
next
  case None
  show ?thesis
  proof (cases "map_of (fields_of s a) name")
    case (Some f)
    have "store_ok (set_lookup a name True s)"
      unfolding set_lookup_def using assms Some
      by (intro store_ok_update obj_ok_lookup store_okD) auto
    then show ?thesis using assms(3) None Some by (auto simp: find_field_def set_lookup_def)
  next
    case absent: None
    obtain r1 s1 where res: "resolve_namespace a s = (r1, s1)" by fastforce
    note ok1 = keepsD(1,2) [OF keeps_resolve_namespace assms(1) _ res]
    show ?thesis
    proof (cases r1)
      case (Inl e)
      then show ?thesis using assms ok1 None absent by (auto simp: find_field_def bindA_def res)
    next
      case (Inr ns)
      have nm1: "no_miss a name s1" using resolve_namespace_no_miss res Inr assms(2) None by simp
      have a1: "a < length (heap s1)" "store_ok s1" using ok1 assms(2) by auto
      show ?thesis
      proof (cases "map_of (registry s1) ns")
        case none: None
        then have "cache_result a name s1 = (r, s')"
          using assms(3) None absent by (simp add: find_field_def bindA_def res Inr)
        from cache_result_ok [OF a1(2,1) nm1 this] ok1 assms(2) show ?thesis by simp
      next
        case (Some col)
        obtain r2 s2 where c: "as_key_const a CLASS s1 = (r2, s2)" by fastforce
        have len2: "store_ok s2" "length (heap s2) = length (heap s1)"
          using as_key_ok [OF a1(2,1)] c by (simp_all add: as_key_const_def)
        have nm2: "no_miss a name s2" using no_miss_as_key_const c a1(1) nm1 .
        show ?thesis
        proof (cases r2)
          case (Inl e)
          then show ?thesis using assms ok1 None absent len2
            by (auto simp: find_field_def bindA_def res Inr Some c)
        next
          case inr2: (Inr class_key)
          have col: "col_ok (length (heap s2)) col" using col_ok_registry a1(2) Some len2 by simp
          obtain r3 s3 where w: "walk_fields (length col) a col class_key name s2 = (r3, s3)" by fastforce
          note ok3 = walk_fields_ok [OF len2(1) _ col nm2 w]
          have run: "(case r3 of Inl e \<Rightarrow> (Inl e, s3) | Inr _ \<Rightarrow> cache_result a name s3) = (r, s')"
            using assms(3) None absent
            by (simp add: find_field_def bindA_def res Inr Some c inr2 w split: sum.splits)
          have "store_ok s3" "a < length (heap s3)" "no_miss a name s3" using ok3 a1(1) len2 by auto
          then have "store_ok s' \<and> length (heap s') = length (heap s3)"
            using run cache_result_ok [of s3 a name r s'] by (auto split: sum.splits)
          then show ?thesis using ok1 ok3 len2 a1 assms(2) by auto
        qed
      qed
    qed
  qed
qed

lemma keeps_find_field: "keeps {a} (find_field a name) (\<lambda>_. {})"
  by (rule keepsI) (use find_field_ok in auto)

text \<open>A store that differs in a way no operation of the invariant sees.\<close>

lemma keeps_pure: "(\<And>s r s'. m s = (r, s') \<Longrightarrow> valid A s \<Longrightarrow> s' = s \<and> (\<forall>x. r = Inr x \<longrightarrow> valid (B x) s)) \<Longrightarrow> keeps A m B"
  by (rule keepsI) (metis order_refl)

lemma obj_ok_other [simp]:
  "obj_ok n (ob\<lparr> o_methods := ms \<rparr>) = obj_ok n ob"
  "obj_ok n (ob\<lparr> o_factory := fac \<rparr>) = obj_ok n ob"
  by (simp_all add: obj_ok_def cache_ok_def)

lemma store_ok_methods:
  assumes "store_ok s" and "a < length (heap s)"
  shows "store_ok (update_obj a (\<lambda>ob. ob\<lparr> o_methods := g ob \<rparr>) s)"
  using assms by (intro store_ok_update) (simp_all add: store_okD)

lemma keeps_index_key: "keeps {a} (index_key a name) (\<lambda>_. {})"
  unfolding index_key_def
proof (rule keeps_bind [OF keeps_find_field])
  fix hit
  show "keeps ({a} \<union> {}) (\<lambda>s. if hit then (Inr (), s) else (Inr (), set_lookup a name True (fields_index a name s))) (\<lambda>_. {})"
    by (rule keepsI) (auto simp: touch_def [symmetric] store_ok_touch split: if_splits)
qed

lemma keeps_get_as_key: "keeps {a} (get_as_key a k) (\<lambda>_. {})"
  unfolding get_as_key_def
proof (rule keeps_bind [OF keeps_find_field])
  fix hit
  show "keeps ({a} \<union> {}) (\<lambda>s. if \<not> hit then (Inr 0, s) else
      (case map_of (fields_of s a) k of Some f \<Rightarrow> (cast_key (f_base f), s) | None \<Rightarrow> (Inl Invalid_type, s)))
    (\<lambda>_. {})"
    by (rule keeps_pure) (auto split: option.splits if_splits)
qed

lemma keeps_assign_key: "keeps (insert a (ptrs_of v)) (assign_key a k v) (\<lambda>_. {})"
  unfolding assign_key_def
proof (rule keeps_bind)
  show "keeps (insert a (ptrs_of v)) (index_key a k) (\<lambda>_. {})"
    by (rule keeps_weaken [OF keeps_index_key]) auto
qed (simp add: keeps_assign_at)

lemma map_erase_mem: "x \<in> set (map_erase k m) \<Longrightarrow> x \<in> set m"
  by (auto simp: map_erase_def)

lemma keeps_erase: "keeps {a} (erase a k) (\<lambda>_. {})"
proof (rule keepsI_same)
  fix s r s'
  assume s: "store_ok s" "valid {a} s" "erase a k s = (r, s')"
  have "store_ok (update_obj a (\<lambda>ob. ob\<lparr> o_lookup := (o_lookup ob)(k := None),
      o_fields := map_erase k (o_fields ob) \<rparr>) s)"
    using s store_okD [OF s(1), of a]
    by (intro store_ok_update) (auto simp: obj_ok_def cache_ok_def map_of_map_erase dest: map_erase_mem)
  then show "store_ok s' \<and> length (heap s') = length (heap s)" using s by (auto simp: erase_def)
qed

lemma sorted_from_bound: "sorted_map m \<Longrightarrow> sorted_map (from_bound k m)"
  unfolding from_bound_def by (metis map_append sorted_wrt_append takeWhile_dropWhile_id)

lemma from_bound_mem: "x \<in> set (from_bound k m) \<Longrightarrow> x \<in> set m"
  unfolding from_bound_def by (rule set_dropWhileD)

lemma keeps_clear: "keeps {a} (clear a) (\<lambda>_. {})"
proof (rule keepsI_same)
  fix s r s'
  assume s: "store_ok s" "valid {a} s" "clear a s = (r, s')"
  have "store_ok (update_obj a (\<lambda>ob. ob\<lparr> o_fields := from_bound index_limit (o_fields ob),
      o_lookup := (\<lambda>_. None) \<rparr>) s)"
    using s store_okD [OF s(1), of a]
    by (intro store_ok_update) (auto simp: obj_ok_def cache_ok_def sorted_from_bound dest: from_bound_mem)
  then show "store_ok s' \<and> length (heap s') = length (heap s)" using s by (auto simp: clear_def)
qed

text \<open>
  \<open>addField\<close> writes a new key straight into \<open>fields_\<close> and overwrites the cached miss.
\<close>

lemma keeps_add_field: "keeps (insert a (ptrs_of (f_base f))) (add_field a k f) (\<lambda>_. {})"
proof (rule keepsI_same)
  fix s r s'
  assume s: "store_ok s" "valid (insert a (ptrs_of (f_base f))) s" "add_field a k f s = (r, s')"
  then have "ptr_ok (length (heap s)) f" using valid_ptrs by simp
  then have "obj_ok (length (heap s)) ((obj_at s a)\<lparr> o_fields := map_put k f (fields_of s a),
     o_lookup := (o_lookup (obj_at s a))(k \<mapsto> True) \<rparr>)"
    using s store_okD [OF s(1), of a] map_put_mem [of _ _ k f "fields_of s a"]
    by (fastforce simp: obj_ok_def cache_ok_def)
  then have "store_ok (update_obj a (\<lambda>ob. ob\<lparr> o_fields := map_put k f (o_fields ob),
     o_lookup := (o_lookup ob)(k \<mapsto> True) \<rparr>) s)"
    using s by (intro store_ok_update) auto
  moreover have "set_lookup a k True (set_field a k f s) = update_obj a (\<lambda>ob. ob\<lparr> o_fields := map_put k f (o_fields ob),
     o_lookup := (o_lookup ob)(k \<mapsto> True) \<rparr>) s"
    using s(2) by (simp add: set_lookup_def set_field_def update_obj_def)
  ultimately show "store_ok s' \<and> length (heap s') = length (heap s)"
    using s by (auto simp: add_field_def set_lookup_def set_field_def split: option.splits)
qed

lemma keeps_add_method: "keeps {a} (add_method a k m) (\<lambda>_. {})"
  by (rule keepsI_same) (auto simp: add_method_def store_ok_methods)

lemma walk_methods_ok:
  assumes "store_ok s" and "a < length (heap s)" and "col_ok (length (heap s)) col"
    and "walk_methods fuel a col c name s = (r, s')"
  shows "store_ok s' \<and> length (heap s) \<le> length (heap s')"
  using assms
proof (induction fuel arbitrary: c s)
  case 0
  then show ?case by (auto simp: walk_methods.simps split: option.splits)
next
  case (Suc fuel)
  show ?case
  proof (cases "map_of col c")
    case None
    then show ?thesis using Suc.prems by (simp add: walk_methods.simps)
  next
    case (Some p)
    then have p: "p < length (heap s)" by (rule col_okD [OF Suc.prems(3)])
    obtain r1 s1 where k: "as_key p PARENT s = (r1, s1)" by fastforce
    note ok = as_key_ok [OF Suc.prems(1) p k]
    have "walk_methods fuel a col parent name s1 = (r, s') \<Longrightarrow> store_ok s' \<and> length (heap s1) \<le> length (heap s')"
      for parent using Suc.prems ok by (intro Suc.IH) simp_all
    then show ?thesis using Suc.prems ok Some
      by (auto simp: walk_methods.simps [of "Suc fuel"] bindA_def k store_ok_methods
          split: option.splits sum.splits)
  qed
qed

lemma walk_classes_ok:
  assumes "store_ok s" and "col_ok (length (heap s)) col" and "walk_classes fuel col c name s = (r, s')"
  shows "store_ok s' \<and> length (heap s) \<le> length (heap s') \<and> (\<forall>p. r = Inr (Some p) \<longrightarrow> p < length (heap s'))"
  using assms
proof (induction fuel arbitrary: c s)
  case 0
  then show ?case by (auto simp: walk_classes.simps split: option.split_asm if_split_asm dest: col_okD)
next
  case (Suc fuel)
  show ?case
  proof (cases "map_of col c")
    case None
    then show ?thesis using Suc.prems by (auto simp: walk_classes.simps)
  next
    case (Some p)
    then have p: "p < length (heap s)" by (rule col_okD [OF Suc.prems(2)])
    obtain r1 s1 where k: "as_key p PARENT s = (r1, s1)" by fastforce
    note ok = as_key_ok [OF Suc.prems(1) p k]
    have "walk_classes fuel col parent name s1 = (r, s') \<Longrightarrow>
       store_ok s' \<and> length (heap s1) \<le> length (heap s') \<and> (\<forall>p. r = Inr (Some p) \<longrightarrow> p < length (heap s'))"
      for parent using Suc.prems ok by (intro Suc.IH) simp_all
    moreover have "(if c = name then (Inr (Some p), s) else
        (case r1 of Inl e \<Rightarrow> (Inl e, s1) | Inr parent \<Rightarrow> walk_classes fuel col parent name s1)) = (r, s')"
      using Suc.prems(3) by (simp add: walk_classes.simps [of "Suc fuel"] Some bindA_def k cong: if_cong)
    ultimately show ?thesis using Suc.prems(1) ok p by (auto split: if_split_asm sum.split_asm)
  qed
qed

lemma walk_ancestors_ok:
  assumes "store_ok s" and "col_ok (length (heap s)) col" and "walk_ancestors fuel col c name s = (r, s')"
  shows "store_ok s' \<and> length (heap s') = length (heap s) \<and> registry s' = registry s"
  using assms
proof (induction fuel arbitrary: c s)
  case 0
  then show ?case by (auto simp: walk_ancestors.simps split: option.splits if_splits)
next
  case (Suc fuel)
  show ?case
  proof (cases "map_of col c")
    case None
    then show ?thesis using Suc.prems by (auto simp: walk_ancestors.simps)
  next
    case (Some p)
    then have p: "p < length (heap s)" by (rule col_okD [OF Suc.prems(2)])
    obtain r1 s1 where k: "as_key p PARENT s = (r1, s1)" by fastforce
    note ok = as_key_ok [OF Suc.prems(1) p k]
    have "walk_ancestors fuel col parent name s1 = (r, s') \<Longrightarrow>
       store_ok s' \<and> length (heap s') = length (heap s1) \<and> registry s' = registry s1"
      for parent using Suc.prems ok by (intro Suc.IH) simp_all
    then show ?thesis using Suc.prems ok Some
      by (auto simp: walk_ancestors.simps [of "Suc fuel"] bindA_def k split: if_splits sum.splits)
  qed
qed

lemma find_method_ok:
  assumes "store_ok s" and "a < length (heap s)" and "find_method a name s = (r, s')"
  shows "store_ok s' \<and> length (heap s) \<le> length (heap s')"
proof (cases "map_of (o_methods (obj_at s a)) name")
  case (Some m)
  then show ?thesis using assms by (simp add: find_method_def)
next
  case None
  let ?found = "\<lambda>s2. (Inr (map_of (o_methods (obj_at s2 a)) name), s2)"
  have walk: "keeps {a} (\<lambda>s. case map_of (registry s) ns of None \<Rightarrow> ?found s
      | Some col \<Rightarrow> bindA (as_key_const a CLASS) (\<lambda>c. bindA (walk_methods (length col) a col c name) (\<lambda>_. ?found)) s)
      (\<lambda>_. {})" for ns
  proof (rule keepsI)
    fix s r s'
    assume s: "store_ok s" "valid {a} s" and
      run: "(case map_of (registry s) ns of None \<Rightarrow> ?found s
      | Some col \<Rightarrow> bindA (as_key_const a CLASS) (\<lambda>c. bindA (walk_methods (length col) a col c name) (\<lambda>_. ?found)) s) = (r, s')"
    show "store_ok s' \<and> length (heap s) \<le> length (heap s') \<and> (\<forall>x. r = Inr x \<longrightarrow> valid {} s')"
    proof (cases "map_of (registry s) ns")
      case None
      then show ?thesis using run s by simp
    next
      case (Some col)
      obtain r1 s1 where k: "as_key_const a CLASS s = (r1, s1)" by fastforce
      note ok = keepsD(1,2) [OF keeps_as_key_const s k]
      have col: "col_ok (length (heap s1)) col"
        using col_ok_registry [OF s(1) Some] ok(2) by (auto simp: col_ok_def)
      have w: "walk_methods (length col) a col c name s1 = (r2, s2) \<Longrightarrow>
          store_ok s2 \<and> length (heap s1) \<le> length (heap s2)" for c r2 s2
        by (rule walk_methods_ok [OF ok(1) _ col]) (use ok(2) s(2) in auto)
      show ?thesis
      proof (cases r1)
        case (Inl e)
        then show ?thesis using run ok by (auto simp: Some bindA_def k)
      next
        case (Inr c)
        obtain r2 s2 where r2: "walk_methods (length col) a col c name s1 = (r2, s2)" by fastforce
        have "s' = s2" using run by (auto simp: Some bindA_def k Inr r2 split: sum.splits)
        then show ?thesis using w [OF r2] ok by simp
      qed
    qed
  qed
  have "keeps {a} (bindA (resolve_namespace a) (\<lambda>ns s. case map_of (registry s) ns of None \<Rightarrow> ?found s
      | Some col \<Rightarrow> bindA (as_key_const a CLASS) (\<lambda>c. bindA (walk_methods (length col) a col c name) (\<lambda>_. ?found)) s))
      (\<lambda>_. {})"
    by (rule keeps_bind [OF keeps_resolve_namespace]) (use walk in simp)
  from keepsD(1,2) [OF this assms(1)] assms(2,3) None show ?thesis
    unfolding find_method_def Let_def by simp
qed

lemma keeps_find_method: "keeps {a} (find_method a name) (\<lambda>_. {})"
  by (rule keepsI) (use find_method_ok in auto)

lemma keeps_find_class: "keeps {a} (find_class a name) (\<lambda>p. case p of Some q \<Rightarrow> {q} | None \<Rightarrow> {})"
  unfolding find_class_def
proof (rule keeps_bind [OF keeps_resolve_namespace])
  fix ns
  show "keeps ({a} \<union> {}) (\<lambda>s. case map_of (registry s) ns of None \<Rightarrow> (Inr None, s)
     | Some col \<Rightarrow> bindA (as_key_const a CLASS) (\<lambda>klass. walk_classes (length col) col klass name) s)
     (\<lambda>p. case p of Some q \<Rightarrow> {q} | None \<Rightarrow> {})"
  proof (rule keepsI)
    fix s r s'
    assume s: "store_ok s" "valid ({a} \<union> {}) s" and
      run: "(case map_of (registry s) ns of None \<Rightarrow> (Inr None, s)
     | Some col \<Rightarrow> bindA (as_key_const a CLASS) (\<lambda>klass. walk_classes (length col) col klass name) s) = (r, s')"
    show "store_ok s' \<and> length (heap s) \<le> length (heap s') \<and>
       (\<forall>x. r = Inr x \<longrightarrow> valid (case x of Some q \<Rightarrow> {q} | None \<Rightarrow> {}) s')"
    proof (cases "map_of (registry s) ns")
      case None
      then show ?thesis using run s by auto
    next
      case (Some col)
      obtain r1 s1 where k: "as_key_const a CLASS s = (r1, s1)" by fastforce
      have v: "valid {a} s" using s(2) by simp
      note ok = keepsD(1,2) [OF keeps_as_key_const s(1) v k]
      have col: "col_ok (length (heap s1)) col"
        using col_ok_registry [OF s(1) Some] ok(2) by (auto simp: col_ok_def)
      show ?thesis
        using run ok walk_classes_ok [OF ok(1) col]
        by (fastforce simp: Some bindA_def k split: sum.splits option.splits)
    qed
  qed
qed

lemma construct_fields:
  assumes "construct klass m ud = Inr ob"
  shows "\<exists>f. o_fields ob = map_put CLASS f m \<and> ptr_ok 0 f \<and> o_lookup ob = (\<lambda>_. None)"
proof -
  have "ptr_ok 0 f'" if "field_assign f (KeyV klass) = Inr f'" for f f' :: "addr field"
    using field_assign_ptr [OF that] by simp
  then show ?thesis using assms by (auto simp: construct_def blank_obj_def split: sum.splits)
qed

lemma keeps_new_dynamic: "keeps A (new_dynamic klass []) (\<lambda>a. {a})"
proof (cases "construct klass [] None :: obj result")
  case (Inl e)
  then show ?thesis by (simp add: new_dynamic_def keeps_def)
next
  case (Inr ob)
  then have "obj_ok 0 ob" using construct_fields [OF Inr] by (auto simp: obj_ok_def cache_ok_def)
  moreover have "new_dynamic klass [] = alloc ob" by (rule ext) (simp add: new_dynamic_def Inr)
  ultimately show ?thesis using keeps_alloc [of ob A] by simp
qed

lemma keeps_resolve_call: "keeps {self, params} (resolve_call self name params) (\<lambda>(m, p). {p})"
  unfolding resolve_call_def
proof (rule keeps_bind)
  show "keeps {self, params} (find_method self name) (\<lambda>_. {})"
    by (rule keeps_weaken [OF keeps_find_method]) auto
  fix m
  let ?wrap = "\<lambda>fb'. bindA (new_dynamic 0 []) (\<lambda>w. bindA (assign_key w NAME_KEY (KeyV name)) (\<lambda>_.
         bindA (clone_ptr params) (\<lambda>p. bindA (assign_key w PARAMS_KEY (PtrV (Some p))) (\<lambda>_.
         retA (fb', w)))))"
  have fallback: "keeps ({self, params} \<union> {}) (bindA (find_method self CALL_FALLBACK) (\<lambda>fb. case fb of
      None \<Rightarrow> throwA Method_not_found | Some fb' \<Rightarrow> ?wrap fb')) (\<lambda>(m, p). {p})"
  proof (rule keeps_bind)
    show "keeps ({self, params} \<union> {}) (find_method self CALL_FALLBACK) (\<lambda>_. {})"
      by (rule keeps_weaken [OF keeps_find_method]) auto
    fix fb
    show "keeps ({self, params} \<union> {} \<union> {}) (case fb of None \<Rightarrow> throwA Method_not_found | Some fb' \<Rightarrow> ?wrap fb')
      (\<lambda>(m, p). {p})"
    proof (cases fb)
      case None
      then show ?thesis by (simp add: keeps_throw)
    next
      case (Some fb')
      have 1: "keeps ({self, params} \<union> {} \<union> {} \<union> {w}) (assign_key w NAME_KEY (KeyV name)) (\<lambda>_. {})" for w
        by (rule keeps_weaken [OF keeps_assign_key]) auto
      have 2: "keeps ({self, params} \<union> {} \<union> {} \<union> {w} \<union> {}) (clone_ptr params) (\<lambda>p. {p})" for w
        by (rule keeps_weaken [OF keeps_clone_ptr]) auto
      have 3: "keeps ({self, params} \<union> {} \<union> {} \<union> {w} \<union> {} \<union> {p}) (assign_key w PARAMS_KEY (PtrV (Some p))) (\<lambda>_. {})" for w p
        by (rule keeps_weaken [OF keeps_assign_key]) auto
      show ?thesis unfolding Some option.case
        by (intro keeps_bind [OF keeps_new_dynamic] keeps_bind [OF 1] keeps_bind [OF 2] keeps_bind [OF 3] keeps_ret) auto
    qed
  qed
  show "keeps ({self, params} \<union> {}) (case m of Some m' \<Rightarrow> retA (m', params)
     | None \<Rightarrow> bindA (find_method self CALL_FALLBACK) (\<lambda>fb. case fb of None \<Rightarrow> throwA Method_not_found
      | Some fb' \<Rightarrow> ?wrap fb')) (\<lambda>(m, p). {p})"
    using fallback by (cases m) (auto intro: keeps_ret)
qed

lemma keeps_call:
  assumes "\<And>m p. keeps {self, p} (invoke m self p) (\<lambda>a. {a})"
  shows "keeps {self, params} (call invoke self name params) (\<lambda>a. {a})"
  unfolding call_def
proof (rule keeps_bind [OF keeps_resolve_call])
  fix mp :: "meth \<times> addr"
  obtain m p where [simp]: "mp = (m, p)" by fastforce
  show "keeps ({self, params} \<union> (case mp of (m, p) \<Rightarrow> {p})) (case mp of (m, p) \<Rightarrow> invoke m self p) (\<lambda>a. {a})"
    using keeps_weaken [OF assms] by simp
qed

abbreviation option_set :: "addr option \<Rightarrow> addr set" where
  "option_set p \<equiv> (case p of Some q \<Rightarrow> {q} | None \<Rightarrow> {})"

lemma keeps_create_object:
  assumes "\<And>i. keeps {} (factory_fn i) option_set"
  shows "keeps {} (create_object factory_fn ns klass) option_set"
proof -
  have "obj_ok 0 (instantiate_obj ns klass)"
    by (auto simp: instantiate_obj_def Let_def blank_obj_def obj_ok_def cache_ok_def ptr_ok_def
        plain_field_def dest!: map_put_mem)
  then have new: "keeps {} (bindA (alloc (instantiate_obj ns klass)) (\<lambda>a. retA (Some a))) option_set"
    by (intro keeps_bind [OF keeps_alloc]) (auto intro: keeps_ret)
  show ?thesis
  proof (rule keepsI)
    fix s r s'
    assume s: "store_ok s" "valid {} s" "create_object factory_fn ns klass s = (r, s')"
    have none: "keeps {} (retA None) option_set" by (rule keeps_ret) simp
    have "\<exists>m. keeps {} m option_set \<and> create_object factory_fn ns klass s = m s"
      using new none assms by (auto simp: create_object_def retA_def split: option.split)
    then show "store_ok s' \<and> length (heap s) \<le> length (heap s') \<and> (\<forall>x. r = Inr x \<longrightarrow> valid (option_set x) s')"
      using s by (metis keepsD)
  qed
qed

text \<open>The last part of \<open>addClass\<close>: the cycle check and the insertion.\<close>

definition register :: "hash_t \<Rightarrow> addr \<Rightarrow> hash_t \<Rightarrow> hash_t \<Rightarrow> bool action" where
  "register ns klass parent name s =
     (case registry_index ns s of (col, s1) \<Rightarrow>
       bindA (walk_ancestors (length col) col parent name) (\<lambda>ancestor s2.
         if ancestor = name then (Inr False, s2)
         else (case map_of col name of
                 Some _ \<Rightarrow> (Inr False, s2)
               | None \<Rightarrow> (Inr True, s2\<lparr> registry := map_put ns (map_put name klass col) (registry s2) \<rparr>))) s1)"

lemma add_class_eq:
  "add_class ns klass parent =
     bindA (as_key klass CLASS) (\<lambda>name.
     bindA (index_pos klass PARENT) (\<lambda>_.
     bindA (assign_at klass PARENT (KeyV parent)) (\<lambda>_.
     bindA (index_pos klass NAMESPACE) (\<lambda>_.
     bindA (assign_at klass NAMESPACE (KeyV ns)) (\<lambda>_. register ns klass parent name)))))"
  by (simp add: add_class_def register_def [abs_def])

lemma registry_index_ok:
  assumes "store_ok s" and "registry_index ns s = (col, s1)"
  shows "store_ok s1 \<and> heap s1 = heap s \<and> sorted_map col \<and> col_ok (length (heap s)) col \<and>
    map_of (registry s1) ns = Some col"
proof (cases "map_of (registry s) ns")
  case (Some c)
  then have "s1 = s" "col = c" using assms(2) by (simp_all add: registry_index_def)
  then show ?thesis using assms(1) Some map_of_SomeD [OF Some]
    by (auto simp: store_ok_def registry_ok_def col_ok_def)
next
  case None
  then have "s1 = s\<lparr> registry := map_put ns [] (registry s) \<rparr>" "col = []"
    using assms(2) by (simp_all add: registry_index_def)
  moreover have "registry_ok n (map_put ns [] reg)" if "registry_ok n reg" for n reg
    using that map_put_mem [of _ _ ns "[]" reg] by (fastforce simp: registry_ok_def)
  ultimately show ?thesis using assms(1) by (simp add: store_ok_def col_ok_def)
qed

lemma keeps_register: "keeps {klass} (register ns klass parent name) (\<lambda>_. {})"
proof (rule keepsI)
  fix s r s'
  assume s: "store_ok s" "valid {klass} s" and run: "register ns klass parent name s = (r, s')"
  obtain col s1 where idx: "registry_index ns s = (col, s1)" by fastforce
  note ok1 = registry_index_ok [OF s(1) idx]
  obtain r2 s2 where w: "walk_ancestors (length col) col parent name s1 = (r2, s2)" by fastforce
  have ok2: "store_ok s2 \<and> length (heap s2) = length (heap s1) \<and> registry s2 = registry s1"
    by (rule walk_ancestors_ok [OF _ _ w]) (use ok1 in simp_all)
  have "registry_ok n (map_put ns (map_put name klass col) reg)"
    if "registry_ok n reg" "klass < n" "col_ok n col" for n reg
    using that ok1 map_put_mem [of _ _ ns "map_put name klass col" reg] map_put_mem [of _ _ name klass col]
    by (fastforce simp: registry_ok_def col_ok_def)
  then have "registry_ok (length (heap s2)) (map_put ns (map_put name klass col) (registry s2))"
    using ok1 ok2 s(2) by (auto simp: store_ok_def)
  then have "store_ok (s2\<lparr> registry := map_put ns (map_put name klass col) (registry s2) \<rparr>)"
    using conjunct1 [OF ok2] unfolding store_ok_def by simp
  moreover have "s' = s2 \<or> s' = s2\<lparr> registry := map_put ns (map_put name klass col) (registry s2) \<rparr>"
    using run by (auto simp: register_def idx bindA_def w split: sum.splits if_splits option.splits)
  ultimately show "store_ok s' \<and> length (heap s) \<le> length (heap s') \<and> (\<forall>x. r = Inr x \<longrightarrow> valid {} s')"
    using ok1 ok2 by auto
qed

lemma keeps_add_class: "keeps {klass} (add_class ns klass parent) (\<lambda>_. {})"
  unfolding add_class_eq
  using keeps_assign_at [of klass "KeyV parent" PARENT] keeps_assign_at [of klass "KeyV ns" NAMESPACE]
  by (intro keeps_bind [OF keeps_as_key] keeps_bind [OF keeps_index_pos] keeps_bind)
     (auto intro: keeps_index_pos keeps_register)

lemma keeps_add_class_attrs: "keeps {klass} (add_class_attrs ns klass parent attrs) (\<lambda>_. {})"
proof (cases "attrs = []")
  case True
  then show ?thesis by (simp add: add_class_attrs_def keeps_add_class)
next
  case False
  have base: "f_base (fold add_attribute attrs f) = f_base f" for f :: "addr field"
    by (induction attrs arbitrary: f) (simp_all add: add_attribute_def)
  show ?thesis
  proof (rule keepsI)
    fix s r s'
    assume s: "store_ok s" "valid {klass} s" and run: "add_class_attrs ns klass parent attrs s = (r, s')"
    let ?s1 = "touch klass CLASS s"
    let ?f = "case map_of (fields_of ?s1 klass) CLASS of Some f \<Rightarrow> f | None \<Rightarrow> mono_field"
    let ?s2 = "set_field klass CLASS (fold add_attribute attrs ?f) ?s1"
    have s1: "store_ok ?s1" "klass < length (heap ?s1)" using s by (simp_all add: store_ok_touch)
    have "ptr_ok (length (heap ?s1)) ?f"
      using obj_ok_field [OF store_okD [OF s1]] by (auto split: option.split)
    then have "ptr_ok (length (heap ?s1)) (fold add_attribute attrs ?f)" by (simp add: ptr_ok_def base)
    then have s2: "store_ok ?s2"
      using s s1 by (intro store_ok_set_field) (simp_all add: touch_lookup)
    have v2: "valid {klass} ?s2" using s(2) by (simp add: set_field_def)
    have "add_class ns klass parent ?s2 = (r, s')"
      using run False by (simp add: add_class_attrs_def bindA_def index_pos_def touch_def Let_def)
    from keepsD [OF keeps_add_class s2 v2 this]
    show "store_ok s' \<and> length (heap s) \<le> length (heap s') \<and> (\<forall>x. r = Inr x \<longrightarrow> valid {} s')"
      by (simp add: set_field_def)
  qed
qed

lemma keeps_add_class_factory: "keeps {klass} (add_class_factory ns klass parent factory) (\<lambda>_. {})"
proof (rule keepsI)
  fix s r s'
  assume s: "store_ok s" "valid {klass} s" and run: "add_class_factory ns klass parent factory s = (r, s')"
  let ?s1 = "update_obj klass (\<lambda>ob. ob\<lparr> o_factory := Some factory \<rparr>) s"
  have "store_ok ?s1" "valid {klass} ?s1"
    using s by (auto intro!: store_ok_update store_okD)
  from keepsD [OF keeps_add_class this, of ns parent r s'] run
  show "store_ok s' \<and> length (heap s) \<le> length (heap s') \<and> (\<forall>x. r = Inr x \<longrightarrow> valid {} s')"
    by (simp add: add_class_factory_def)
qed

section \<open>Reachable stores\<close>

text \<open>The public operations, with the arguments a client passes.\<close>

datatype op =
    New_op hash_t
  | Assign_op addr hash_t "addr field_base"
  | Index_op addr hash_t
  | As_key_op addr hash_t
  | Find_op addr hash_t
  | Add_field_op addr hash_t "addr field"
  | Add_method_op addr hash_t meth
  | Erase_op addr hash_t
  | Clear_op addr
  | Clone_op addr
  | Find_method_op addr hash_t
  | Find_class_op addr hash_t
  | Instance_op hash_t hash_t
  | Add_class_op hash_t addr hash_t "attribute list"
  | Add_factory_op hash_t addr hash_t nat

text \<open>The objects a call mentions.\<close>

fun op_addrs :: "op \<Rightarrow> addr set" where
  "op_addrs (New_op c) = {}"
| "op_addrs (Assign_op a k v) = insert a (ptrs_of v)"
| "op_addrs (Index_op a k) = {a}"
| "op_addrs (As_key_op a k) = {a}"
| "op_addrs (Find_op a k) = {a}"
| "op_addrs (Add_field_op a k f) = insert a (ptrs_of (f_base f))"
| "op_addrs (Add_method_op a k m) = {a}"
| "op_addrs (Erase_op a k) = {a}"
| "op_addrs (Clear_op a) = {a}"
| "op_addrs (Clone_op a) = {a}"
| "op_addrs (Find_method_op a k) = {a}"
| "op_addrs (Find_class_op a k) = {a}"
| "op_addrs (Instance_op ns c) = {}"
| "op_addrs (Add_class_op ns a p attrs) = {a}"
| "op_addrs (Add_factory_op ns a p i) = {a}"

definition ignore :: "'a action \<Rightarrow> unit action" where
  "ignore m = bindA m (\<lambda>_. retA ())"

fun run_op :: "(nat \<Rightarrow> addr option action) \<Rightarrow> op \<Rightarrow> unit action" where
  "run_op factory_fn (New_op c) = ignore (new_dynamic c [])"
| "run_op factory_fn (Assign_op a k v) = assign_key a k v"
| "run_op factory_fn (Index_op a k) = index_pos a k"
| "run_op factory_fn (As_key_op a k) = ignore (as_key a k)"
| "run_op factory_fn (Find_op a k) = ignore (find_field a k)"
| "run_op factory_fn (Add_field_op a k f) = ignore (add_field a k f)"
| "run_op factory_fn (Add_method_op a k m) = ignore (add_method a k m)"
| "run_op factory_fn (Erase_op a k) = ignore (erase a k)"
| "run_op factory_fn (Clear_op a) = clear a"
| "run_op factory_fn (Clone_op a) = ignore (clone_ptr a)"
| "run_op factory_fn (Find_method_op a k) = ignore (find_method a k)"
| "run_op factory_fn (Find_class_op a k) = ignore (find_class a k)"
| "run_op factory_fn (Instance_op ns c) = ignore (create_object factory_fn ns c)"
| "run_op factory_fn (Add_class_op ns a p attrs) = ignore (add_class_attrs ns a p attrs)"
| "run_op factory_fn (Add_factory_op ns a p i) = ignore (add_class_factory ns a p i)"

definition empty_store :: store where
  "empty_store = \<lparr> heap = [], registry = [] \<rparr>"

inductive reachable :: "(nat \<Rightarrow> addr option action) \<Rightarrow> store \<Rightarrow> bool" for factory_fn where
  start: "reachable factory_fn empty_store"
| step: "reachable factory_fn s \<Longrightarrow> valid (op_addrs op) s \<Longrightarrow> run_op factory_fn op s = (r, s') \<Longrightarrow>
     reachable factory_fn s'"

lemma keeps_ignore: "keeps A m B \<Longrightarrow> keeps A (ignore m) (\<lambda>_. {})"
  unfolding ignore_def by (rule keeps_bind) (auto intro: keeps_ret)

lemmas keeps_ops = keeps_new_dynamic keeps_assign_key keeps_index_pos keeps_as_key keeps_find_field
  keeps_add_field keeps_add_method keeps_erase keeps_clear keeps_clone_ptr keeps_find_method
  keeps_find_class keeps_create_object keeps_add_class_attrs keeps_add_class_factory

lemma keeps_run_op:
  assumes "\<And>i. keeps {} (factory_fn i) option_set"
  shows "keeps (op_addrs op) (run_op factory_fn op) (\<lambda>_. {})"
  by (cases op) (auto intro!: keeps_ignore intro: keeps_ops assms)



end
