(* ===== verification/Codec.thy ===== *)
theory Codec
  imports Constants Serializer Values
begin

text \<open>
  The standard wire format of \<open>src/bison/bison_object.hpp\<close>: \<open>field::serialize\<close>,
  \<open>dynamic::serialize\<close> and the deserializers over both backends. Nested objects are owned by
  the field that holds them once deserialized, so the values of the codec are trees: a
  \<open>dynamic\<close> is its sorted field map, a \<open>dynamic_ptr\<close> is null or a tree.
\<close>

section \<open>Trees\<close>

datatype dyn = Dyn (dyn_fields: "(hash_t \<times> dyn field_base) list")

type_synonym dvalue = "dyn field_base"

text \<open>The constructor \<open>dynamic(klass, fields)\<close>: the class key is stored in the map.\<close>

definition dyn_new :: "hash_t \<Rightarrow> dvalue smap \<Rightarrow> dvalue smap" where
  "dyn_new klass m = map_put CLASS (KeyV klass) m"

section \<open>The encoder\<close>

abbreviation value_size :: "dvalue \<Rightarrow> nat" where
  "value_size \<equiv> size_field_base size"

abbreviation entries_size :: "(hash_t \<times> dvalue) list \<Rightarrow> nat" where
  "entries_size \<equiv> size_list (size_prod (\<lambda>_. 0) value_size)"

function field_serialize :: "host \<Rightarrow> dvalue \<Rightarrow> buffer"
  and dynamic_serialize :: "host \<Rightarrow> dyn \<Rightarrow> buffer"
  and entries_serialize :: "host \<Rightarrow> (hash_t \<times> dvalue) list \<Rightarrow> buffer" where
  "field_serialize h v = tag_of (type_of v) # (case v of
       Monostate \<Rightarrow> []
     | HashV w \<Rightarrow> write_u32 w
     | KeyV w \<Rightarrow> write_u32 w
     | BoolV b \<Rightarrow> write_bool b
     | Int32V w \<Rightarrow> write_u32 w
     | FloatV w \<Rightarrow> write_u32 w
     | PtrV p \<Rightarrow>
         (case p of None \<Rightarrow> write_bool False | Some d \<Rightarrow> write_bool True @ dynamic_serialize h d)
     | StringV s \<Rightarrow> write_string s
     | VecBoolV bs \<Rightarrow> write_vec_bool bs
     | VecInt32V ws \<Rightarrow> write_vec32 h ws
     | VecFloatV ws \<Rightarrow> write_vec32 h ws
     | VecByteV bs \<Rightarrow> write_vec8 bs)"
| "dynamic_serialize h (Dyn kvs) = write_varint (of_nat (length kvs)) @ entries_serialize h kvs"
| "entries_serialize h [] = []"
| "entries_serialize h ((k, v) # kvs) = write_u32 k @ field_serialize h v @ entries_serialize h kvs"
  by pat_completeness auto

termination
  by (relation "measure (case_sum (\<lambda>(h, v). value_size v)
        (case_sum (\<lambda>(h, d). size d) (\<lambda>(h, kvs). entries_size kvs)))") auto

section \<open>The registry as the decoder sees it\<close>

text \<open>
  A registered class: the fields of its prototype and, when \<open>addClass\<close> was given a factory, the
  field map of the objects that factory returns (application code, a datum of the model).
\<close>

record class_info =
  ci_fields :: "dvalue smap"
  ci_factory :: "dvalue smap option"

type_synonym class_map = "class_info smap"
type_synonym ns_map = "class_map smap"

text \<open>\<open>dynamic::instantiate(ns, klass)\<close>.\<close>

definition instantiate :: "hash_t \<Rightarrow> hash_t \<Rightarrow> dvalue smap" where
  "instantiate ns klass =
     (let obj = dyn_new klass []
      in if ns \<noteq> 0 then map_put NAMESPACE (KeyV ns) obj else obj)"

text \<open>\<open>dynamic::create_instance\<close>: a null pointer when the class is not registered.\<close>

definition create_instance :: "ns_map \<Rightarrow> hash_t \<Rightarrow> hash_t \<Rightarrow> dvalue smap option" where
  "create_instance reg ns klass =
     (case map_of reg ns of
        None \<Rightarrow> None
      | Some col \<Rightarrow> (case map_of col klass of
            None \<Rightarrow> None
          | Some ci \<Rightarrow> (case ci_factory ci of
                Some made \<Rightarrow> Some made
              | None \<Rightarrow> Some (instantiate ns klass))))"

section \<open>The decoder\<close>

text \<open>
  \<open>field::deserialize\<close>: the switch on the tag. The call of \<open>deserialize_instance\<close> for a non-null
  nested object is the argument \<open>nested\<close>.
\<close>

definition field_switch :: "backend \<Rightarrow> dyn reader \<Rightarrow> dvalue reader" where
  "field_switch io nested =
     seqR (b_u8 io) (\<lambda>type.
       if type = tag_of TMonostate then retR Monostate
       else if type = tag_of THash then seqR (b_u32 io) (\<lambda>w. retR (HashV w))
       else if type = tag_of TKey then seqR (b_u32 io) (\<lambda>w. retR (KeyV w))
       else if type = tag_of TBool then seqR (b_bool io) (\<lambda>b. retR (BoolV b))
       else if type = tag_of TInt32 then seqR (b_u32 io) (\<lambda>w. retR (Int32V w))
       else if type = tag_of TFloat then seqR (b_u32 io) (\<lambda>w. retR (FloatV w))
       else if type = tag_of TPtr then
         seqR (b_bool io) (\<lambda>present.
           if \<not> present then retR (PtrV None) else seqR nested (\<lambda>d. retR (PtrV (Some d))))
       else if type = tag_of TString then seqR (b_string io) (\<lambda>s. retR (StringV s))
       else if type = tag_of TVecBool then seqR (b_vec_bool io) (\<lambda>v. retR (VecBoolV v))
       else if type = tag_of TVecInt32 then seqR (b_vec32 io) (\<lambda>v. retR (VecInt32V v))
       else if type = tag_of TVecFloat then seqR (b_vec32 io) (\<lambda>v. retR (VecFloatV v))
       else if type = tag_of TVecByte then seqR (b_vec8 io) (\<lambda>v. retR (VecByteV v))
       else throwR Not_implemented)"

text \<open>The loop of \<open>dynamic::deserialize\<close>: \<open>dyn.fields_[key] = field::deserialize(in)\<close>.\<close>

fun entries_loop :: "backend \<Rightarrow> dvalue reader \<Rightarrow> nat \<Rightarrow> dvalue smap \<Rightarrow> dvalue smap reader" where
  "entries_loop io rd 0 m = retR m"
| "entries_loop io rd (Suc n) m =
     seqR (b_u32 io) (\<lambda>key. seqR rd (\<lambda>v. entries_loop io rd n (map_put key v m)))"

definition dynamic_body :: "backend \<Rightarrow> dvalue reader \<Rightarrow> dvalue smap reader" where
  "dynamic_body io rd =
     seqR (b_varint io) (\<lambda>count. entries_loop io rd (unat count) (dyn_new 0 []))"

text \<open>
  What \<open>deserialize_instance\<close> does after \<open>dynamic::deserialize\<close>: \<open>get_as<key_t>(NAMESPACE)\<close> (an
  absent namespace is resolved to the global one and stored; if the global collection exists the
  class walk that follows reads \<open>CLASS\<close> with \<open>as<key_t>\<close>, which makes an empty field the key 0), \<open>get_as<key_t>(CLASS)\<close>, and the overlay of
  the decoded fields on the instance.
\<close>

definition lookup_namespace :: "ns_map \<Rightarrow> dvalue smap \<Rightarrow> (hash_t \<times> dvalue smap) result" where
  "lookup_namespace reg m =
     (case map_of m NAMESPACE of
        Some v \<Rightarrow> (case cast_key v of Inl e \<Rightarrow> Inl e | Inr ns \<Rightarrow> Inr (ns, m))
      | None \<Rightarrow>
          (let m' = map_put NAMESPACE (KeyV 0) m
           in if map_of reg 0 = None then Inr (0, m')
              else (case map_of m' CLASS of
                  None \<Rightarrow> Inr (0, map_put CLASS (KeyV 0) m')
                | Some v \<Rightarrow> (case v of
                      KeyV klass \<Rightarrow> Inr (0, m')
                    | Monostate \<Rightarrow> Inr (0, map_put CLASS (KeyV 0) m')
                    | _ \<Rightarrow> Inl Invalid_type))))"

definition lookup_class :: "dvalue smap \<Rightarrow> hash_t result" where
  "lookup_class m = (case map_of m CLASS of Some v \<Rightarrow> cast_key v | None \<Rightarrow> Inr 0)"

definition finish_instance :: "ns_map \<Rightarrow> dvalue smap \<Rightarrow> dyn result" where
  "finish_instance reg m =
     (case lookup_namespace reg m of
        Inl e \<Rightarrow> Inl e
      | Inr (ns, m') \<Rightarrow> (case lookup_class m' of
            Inl e \<Rightarrow> Inl e
          | Inr klass \<Rightarrow> (case create_instance reg ns klass of
                None \<Rightarrow> Inr (Dyn m')
              | Some made \<Rightarrow> Inr (Dyn (fold (\<lambda>(k, v). map_put k v) m' made)))))"

definition instance_body :: "backend \<Rightarrow> ns_map \<Rightarrow> dvalue reader \<Rightarrow> dyn reader" where
  "instance_body io reg rd =
     seqR (dynamic_body io rd) (\<lambda>m bs. case finish_instance reg m of
        Inl e \<Rightarrow> Inl e | Inr d \<Rightarrow> Inr (d, bs))"

text \<open>
  The recursion of \<open>field::deserialize\<close> through \<open>deserialize_instance\<close>, with the nesting depth as
  fuel; a nested object costs at least the byte of its tag, so the length of the input is
  enough (\<open>fuel_irrelevant\<close> below).
\<close>

fun field_deserialize_fuel :: "nat \<Rightarrow> backend \<Rightarrow> ns_map \<Rightarrow> dvalue reader" where
  "field_deserialize_fuel 0 io reg = field_switch io (throwR Fuel_exhausted)"
| "field_deserialize_fuel (Suc fuel) io reg =
     field_switch io (instance_body io reg (field_deserialize_fuel fuel io reg))"

definition field_deserialize :: "backend \<Rightarrow> ns_map \<Rightarrow> dvalue reader" where
  "field_deserialize io reg bs = field_deserialize_fuel (length bs) io reg bs"

definition dynamic_deserialize :: "backend \<Rightarrow> ns_map \<Rightarrow> dvalue smap reader" where
  "dynamic_deserialize io reg bs =
     dynamic_body io (field_deserialize_fuel (length bs) io reg) bs"

definition deserialize_instance :: "backend \<Rightarrow> ns_map \<Rightarrow> dyn reader" where
  "deserialize_instance io reg bs =
     instance_body io reg (field_deserialize_fuel (length bs) io reg) bs"

section \<open>The fuel is enough\<close>

lemma instance_body_eq:
  "instance_body io reg rd =
     seqR (dynamic_body io rd)
       (\<lambda>m. case finish_instance reg m of Inl e \<Rightarrow> throwR e | Inr d \<Rightarrow> retR d)"
  by (rule ext) (auto simp: instance_body_def seqR_def split: sum.splits)

lemma cast_key_no_fuel: "cast_key v \<noteq> Inl Fuel_exhausted"
  by (cases v) (simp_all add: cast_key_def)

lemma lookup_namespace_no_fuel: "lookup_namespace reg m \<noteq> Inl Fuel_exhausted"
  using cast_key_no_fuel
  by (auto simp: lookup_namespace_def Let_def split: option.splits sum.splits field_base.split_asm)

lemma lookup_class_no_fuel: "lookup_class m \<noteq> Inl Fuel_exhausted"
  using cast_key_no_fuel by (auto simp: lookup_class_def split: option.splits)

lemma finish_instance_no_fuel: "finish_instance reg m \<noteq> Inl Fuel_exhausted"
  using lookup_namespace_no_fuel lookup_class_no_fuel
  by (auto simp: finish_instance_def split: option.splits sum.splits)

context bounded_backend
begin

lemmas shrinks_ops = plain_ops [THEN plain_shrinks]
lemmas fuel_ops = plain_ops [THEN plain_fuel]

lemma shrinks_entries_loop: "shrinks rd \<Longrightarrow> shrinks (entries_loop io rd n m)"
  by (induction n arbitrary: m)
     (auto intro!: shrinks_intros shrinks_ops)

lemma shrinks_dynamic_body: "shrinks rd \<Longrightarrow> shrinks (dynamic_body io rd)"
  unfolding dynamic_body_def
  by (intro shrinks_seqR shrinks_ops shrinks_entries_loop)

lemma shrinks_instance_body: "shrinks rd \<Longrightarrow> shrinks (instance_body io reg rd)"
  unfolding instance_body_eq
  by (intro shrinks_seqR shrinks_dynamic_body)
     (auto split: sum.splits intro: shrinks_intros)

lemma shrinks_field_switch: "shrinks nested \<Longrightarrow> shrinks (field_switch io nested)"
  unfolding field_switch_def
  by (intro shrinks_seqR shrinks_ops)
     (auto intro!: shrinks_intros shrinks_ops)

lemma shrinks_field_fuel: "shrinks (field_deserialize_fuel fuel io reg)"
  by (induction fuel)
     (auto intro!: shrinks_field_switch shrinks_throwR shrinks_instance_body)

lemma fuel_entries_loop:
  "fuel_ok k rd \<Longrightarrow> shrinks rd \<Longrightarrow> fuel_ok k (entries_loop io rd n m)"
  by (induction n arbitrary: m)
     (auto intro!: fuel_ok_retR fuel_ok_seqR fuel_ops shrinks_ops)

lemma fuel_dynamic_body: "fuel_ok k rd \<Longrightarrow> shrinks rd \<Longrightarrow> fuel_ok k (dynamic_body io rd)"
  unfolding dynamic_body_def
  by (intro fuel_ok_seqR fuel_ops shrinks_ops fuel_entries_loop)

lemma fuel_instance_body: "fuel_ok k rd \<Longrightarrow> shrinks rd \<Longrightarrow> fuel_ok k (instance_body io reg rd)"
  unfolding instance_body_eq
  using finish_instance_no_fuel [of reg]
  by (intro fuel_ok_seqR fuel_dynamic_body shrinks_dynamic_body)
     (auto split: sum.splits intro: fuel_ok_retR simp: fuel_ok_def)

lemma field_switch_tag:
  assumes "b_u8 io bs = Inr (tag, rest)"
  shows "\<exists>body. plain_reader body \<and>
     (\<forall>nested. field_switch io nested bs =
        (if tag = tag_of TPtr
         then seqR (b_bool io) (\<lambda>present. if \<not> present then retR (PtrV None)
                else seqR nested (\<lambda>d. retR (PtrV (Some d)))) rest
         else body rest))"
proof -
  have thr: "plain_reader (throwR Not_implemented :: dvalue reader)"
    by (simp add: plain_reader_def shrinks_throwR fuel_ok_def)
  have "plain_reader (if tag = 0 then retR Monostate
    else if tag = 1 then seqR (b_u32 io) (\<lambda>w. retR (HashV w))
    else if tag = 2 then seqR (b_u32 io) (\<lambda>w. retR (KeyV w))
    else if tag = 3 then seqR (b_bool io) (\<lambda>b. retR (BoolV b))
    else if tag = 4 then seqR (b_u32 io) (\<lambda>w. retR (Int32V w))
    else if tag = 5 then seqR (b_u32 io) (\<lambda>w. retR (FloatV w))
    else if tag = 7 then seqR (b_string io) (\<lambda>s. retR (StringV s))
    else if tag = 8 then seqR (b_vec_bool io) (\<lambda>v. retR (VecBoolV v))
    else if tag = 9 then seqR (b_vec32 io) (\<lambda>v. retR (VecInt32V v))
    else if tag = 10 then seqR (b_vec32 io) (\<lambda>v. retR (VecFloatV v))
    else if tag = 11 then seqR (b_vec8 io) (\<lambda>v. retR (VecByteV v))
    else throwR Not_implemented :: dvalue reader)" (is "plain_reader ?body")
    by (auto intro!: plain_retR plain_seqR plain_ops thr)
  then show ?thesis
    by (intro exI [of _ ?body]) (auto simp: field_switch_def assms)
qed

lemma fuel_field_switch:
  assumes "fuel_ok (n - 1) nested" and "n = 0 \<longrightarrow> nested = throwR Fuel_exhausted"
    and "0 < n \<longrightarrow> shrinks nested"
  shows "fuel_ok n (field_switch io nested)"
  unfolding fuel_ok_def
proof (intro allI impI)
  fix bs :: buffer
  assume len: "length bs \<le> n"
  show "field_switch io nested bs \<noteq> Inl Fuel_exhausted"
  proof (cases "b_u8 io bs")
    case (Inl e)
    then show ?thesis
      using fuel_okD [OF plain_fuel [OF plain_u8] order_refl, of bs] by (simp add: field_switch_def)
  next
    case (Inr r)
    obtain tag rest where r: "b_u8 io bs = Inr (tag, rest)" using Inr by (cases r) auto
    obtain body where body: "plain_reader body" and eq: "\<And>nested. field_switch io nested bs =
        (if tag = tag_of TPtr
         then seqR (b_bool io) (\<lambda>present. if \<not> present then retR (PtrV None)
                else seqR nested (\<lambda>d. retR (PtrV (Some d)))) rest
         else body rest)"
      using field_switch_tag [OF r] by blast
    show ?thesis
    proof (cases "tag = tag_of TPtr")
      case False
      then show ?thesis
        using fuel_okD [OF plain_fuel [OF body] order_refl, of rest] by (auto simp: eq)
    next
      case True
      then have lt: "length rest < length bs" using u8_consumes [OF r] by simp
      then have n: "length rest \<le> n - 1" "0 < n" using len by linarith+
      have "fuel_ok (n - 1) (seqR (b_bool io) (\<lambda>present. if \<not> present then retR (PtrV None)
          else seqR nested (\<lambda>d. retR (PtrV (Some d)))))"
        using assms(1,3) n(2)
        by (auto intro!: fuel_ok_seqR fuel_ok_retR fuel_ops shrinks_ops)
      then show ?thesis using True fuel_okD n(1) by (auto simp: eq)
    qed
  qed
qed

lemma fuel_field: "fuel_ok fuel (field_deserialize_fuel fuel io reg)"
proof (induction fuel)
  case 0
  have "field_switch io (throwR Fuel_exhausted) [] \<noteq> Inl Fuel_exhausted"
  proof (cases "b_u8 io []")
    case (Inl e)
    then show ?thesis
      using fuel_okD [OF plain_fuel [OF plain_u8] order_refl, of "[]"] by (simp add: field_switch_def)
  next
    case (Inr r)
    then obtain tag rest where "b_u8 io [] = Inr (tag, rest)" by (cases r) auto
    moreover from this have "tag = 0" using u8_consumes by fastforce
    ultimately show ?thesis by (simp add: field_switch_def)
  qed
  then show ?case by (simp add: fuel_ok_def)
next
  case (Suc fuel)
  then show ?case
    by (auto intro!: fuel_field_switch fuel_instance_body shrinks_instance_body shrinks_field_fuel)
qed

end

context bounded_backend
begin

lemma agree_entries_loop:
  "agree k rd rd' \<Longrightarrow> shrinks rd \<Longrightarrow> agree k (entries_loop io rd n m) (entries_loop io rd' n m)"
  by (induction n arbitrary: m) (auto intro!: agree_seqR agree_refl shrinks_ops)

lemma agree_instance_body:
  "agree k rd rd' \<Longrightarrow> shrinks rd \<Longrightarrow> agree k (instance_body io reg rd) (instance_body io reg rd')"
  unfolding instance_body_eq dynamic_body_def
  by (intro agree_seqR agree_refl agree_entries_loop shrinks_seqR shrinks_ops shrinks_entries_loop)

lemma agree_field_switch:
  assumes "0 < n \<Longrightarrow> agree (n - 1) nested nested'"
  shows "agree n (field_switch io nested) (field_switch io nested')"
  unfolding agree_def
proof (intro allI impI)
  fix bs :: buffer
  assume len: "length bs \<le> n"
  show "field_switch io nested bs = field_switch io nested' bs"
  proof (cases "b_u8 io bs")
    case (Inl e)
    then show ?thesis by (simp add: field_switch_def)
  next
    case (Inr r)
    obtain tag rest where r: "b_u8 io bs = Inr (tag, rest)" using Inr by (cases r) auto
    obtain body where eq: "\<And>nested. field_switch io nested bs =
        (if tag = tag_of TPtr
         then seqR (b_bool io) (\<lambda>present. if \<not> present then retR (PtrV None)
                else seqR nested (\<lambda>d. retR (PtrV (Some d)))) rest
         else body rest)"
      using field_switch_tag [OF r] by blast
    show ?thesis
    proof (cases "tag = tag_of TPtr")
      case True
      then have lt: "length rest < length bs" using u8_consumes [OF r] by simp
      then have n: "length rest \<le> n - 1" "0 < n" using len by linarith+
      have "agree (n - 1)
          (seqR (b_bool io) (\<lambda>present. if \<not> present then retR (PtrV None)
             else seqR nested (\<lambda>d. retR (PtrV (Some d)))))
          (seqR (b_bool io) (\<lambda>present. if \<not> present then retR (PtrV None)
             else seqR nested' (\<lambda>d. retR (PtrV (Some d)))))"
        using assms [OF n(2)]
        by (intro agree_seqR agree_refl shrinks_ops)
           (auto simp: agree_def seqR_def)
      then show ?thesis using True agreeD n(1) by (auto simp: eq)
    qed (simp add: eq)
  qed
qed

lemma fuel_irrelevant:
  "n \<le> f \<Longrightarrow> n \<le> f' \<Longrightarrow>
   agree n (field_deserialize_fuel f io reg) (field_deserialize_fuel f' io reg)"
proof (induction n arbitrary: f f')
  case 0
  show ?case by (cases f; cases f') (auto intro!: agree_field_switch)
next
  case (Suc n)
  then obtain g g' where f: "f = Suc g" "f' = Suc g'" by (meson Suc_le_D)
  have "agree n (field_deserialize_fuel g io reg) (field_deserialize_fuel g' io reg)"
    using Suc f by simp
  then show ?case
    unfolding f
    by (auto intro!: agree_field_switch agree_instance_body shrinks_field_fuel)
qed

lemma field_fuel_eq: "length bs \<le> f \<Longrightarrow> field_deserialize_fuel f io reg bs = field_deserialize io reg bs"
  using agreeD [OF fuel_irrelevant [of "length bs" f "length bs" reg]]
  by (simp add: field_deserialize_def)

lemma agree_field: "agree n (field_deserialize_fuel n io reg) (field_deserialize io reg)"
  by (simp add: agree_def field_fuel_eq)

text \<open>The recursion equations of the sources, without fuel.\<close>

lemma dynamic_deserialize_eq:
  "dynamic_deserialize io reg bs = dynamic_body io (field_deserialize io reg) bs"
  unfolding dynamic_deserialize_def dynamic_body_def
  by (rule agreeD [where n = "length bs"])
     (auto intro!: agree_seqR agree_refl agree_entries_loop shrinks_ops agree_field shrinks_field_fuel)

lemma deserialize_instance_eq:
  "deserialize_instance io reg bs = instance_body io reg (field_deserialize io reg) bs"
  unfolding deserialize_instance_def
  by (rule agreeD [where n = "length bs"])
     (auto intro!: agree_instance_body agree_field shrinks_field_fuel)

lemma field_deserialize_eq:
  "field_deserialize io reg bs = field_switch io (deserialize_instance io reg) bs"
proof -
  have "agree (length bs) (field_switch io (instance_body io reg (field_deserialize_fuel (length bs) io reg)))
      (field_switch io (deserialize_instance io reg))"
  proof (rule agree_field_switch)
    show "agree (length bs - 1) (instance_body io reg (field_deserialize_fuel (length bs) io reg))
        (deserialize_instance io reg)"
      unfolding agree_def
    proof (intro allI impI)
      fix cs :: buffer
      assume "length cs \<le> length bs - 1"
      then have "length cs \<le> length bs" by linarith
      then have "agree (length cs) (field_deserialize_fuel (length bs) io reg) (field_deserialize io reg)"
        by (simp add: agree_def field_fuel_eq)
      then show "instance_body io reg (field_deserialize_fuel (length bs) io reg) cs
          = deserialize_instance io reg cs"
        unfolding deserialize_instance_eq
        by (intro agreeD [OF agree_instance_body] shrinks_field_fuel) auto
    qed
  qed
  then show ?thesis
    using field_fuel_eq [of bs "Suc (length bs)" reg] by (simp add: agree_def)
qed

lemma deserialize_terminates:
  "field_deserialize io reg bs \<noteq> Inl Fuel_exhausted"
  using fuel_okD [OF fuel_field order_refl] by (simp add: field_deserialize_def)

end

text \<open>
  C17: decoding always returns: over both backends, on any bytes and with any registry, the
  decoder satisfies the recursion equations of the sources (field, object and instance
  mutually recursive, without bound) and never runs out of the fuel of its definition.
\<close>

theorem deserialize_total:
  "field_deserialize (deserializer md) reg bs =
     field_switch (deserializer md) (deserialize_instance (deserializer md) reg) bs \<and>
   deserialize_instance (deserializer md) reg bs =
     instance_body (deserializer md) reg (field_deserialize (deserializer md) reg) bs \<and>
   field_deserialize (deserializer md) reg bs \<noteq> Inl Fuel_exhausted"
  using any_backend.field_deserialize_eq any_backend.deserialize_instance_eq
    any_backend.deserialize_terminates by blast

section \<open>What a round trip does\<close>

text \<open>
  The effect of writing a value and reading it back, stated on trees: every nested object goes
  through \<open>finish_instance\<close>, innermost first and in field order.
\<close>

function reload_value :: "ns_map \<Rightarrow> dvalue \<Rightarrow> dvalue result"
  and reload_object :: "ns_map \<Rightarrow> dyn \<Rightarrow> dyn result"
  and reload_entries :: "ns_map \<Rightarrow> (hash_t \<times> dvalue) list \<Rightarrow> dvalue smap \<Rightarrow> dvalue smap result" where
  "reload_value reg v = (case v of
       PtrV p \<Rightarrow> (case p of
           None \<Rightarrow> Inr (PtrV None)
         | Some d \<Rightarrow> (case reload_object reg d of Inl e \<Rightarrow> Inl e | Inr d' \<Rightarrow> Inr (PtrV (Some d'))))
     | _ \<Rightarrow> Inr v)"
| "reload_object reg (Dyn kvs) =
     (case reload_entries reg kvs (dyn_new 0 []) of Inl e \<Rightarrow> Inl e | Inr m \<Rightarrow> finish_instance reg m)"
| "reload_entries reg [] m = Inr m"
| "reload_entries reg ((k, v) # kvs) m =
     (case reload_value reg v of Inl e \<Rightarrow> Inl e | Inr v' \<Rightarrow> reload_entries reg kvs (map_put k v' m))"
  by pat_completeness auto

termination
  by (relation "measure (case_sum (\<lambda>(reg, v). value_size v)
        (case_sum (\<lambda>(reg, d). size d) (\<lambda>(reg, kvs, m). entries_size kvs)))") auto

text \<open>A condition on every value and every field map of a tree.\<close>

function tree_all :: "(dvalue \<Rightarrow> bool) \<Rightarrow> (dvalue smap \<Rightarrow> bool) \<Rightarrow> dvalue \<Rightarrow> bool"
  and object_all :: "(dvalue \<Rightarrow> bool) \<Rightarrow> (dvalue smap \<Rightarrow> bool) \<Rightarrow> dyn \<Rightarrow> bool"
  and entries_all :: "(dvalue \<Rightarrow> bool) \<Rightarrow> (dvalue smap \<Rightarrow> bool) \<Rightarrow> (hash_t \<times> dvalue) list \<Rightarrow> bool" where
  "tree_all P Q v \<longleftrightarrow> P v \<and>
     (case v of PtrV p \<Rightarrow> (case p of None \<Rightarrow> True | Some d \<Rightarrow> object_all P Q d) | _ \<Rightarrow> True)"
| "object_all P Q (Dyn kvs) \<longleftrightarrow> Q kvs \<and> entries_all P Q kvs"
| "entries_all P Q [] \<longleftrightarrow> True"
| "entries_all P Q ((k, v) # kvs) \<longleftrightarrow> tree_all P Q v \<and> entries_all P Q kvs"
  by pat_completeness auto

termination
  by (relation "measure (case_sum (\<lambda>(P, Q, v). value_size v)
        (case_sum (\<lambda>(P, Q, d). size d) (\<lambda>(P, Q, kvs). entries_size kvs)))") auto

declare field_serialize.simps [simp del] reload_value.simps [simp del] tree_all.simps [simp del]

lemma entries_all_iff: "entries_all P Q kvs \<longleftrightarrow> (\<forall>(k, v) \<in> set kvs. tree_all P Q v)"
  by (induction kvs) auto

text \<open>Every container of the tree has a size a 64-bit count can hold.\<close>

definition payload_fits :: "dvalue \<Rightarrow> bool" where
  "payload_fits v = (case v of
       StringV s \<Rightarrow> fits (length s)
     | VecBoolV bs \<Rightarrow> fits (length bs)
     | VecInt32V ws \<Rightarrow> fits (length ws)
     | VecFloatV ws \<Rightarrow> fits (length ws)
     | VecByteV bs \<Rightarrow> fits (length bs)
     | _ \<Rightarrow> True)"

abbreviation map_fits :: "dvalue smap \<Rightarrow> bool" where
  "map_fits kvs \<equiv> fits (length kvs)"

definition value_fits :: "dvalue \<Rightarrow> bool" where
  "value_fits = tree_all payload_fits map_fits"

lemmas fits_simps = value_fits_def payload_fits_def

text \<open>
  A field map a reader can return: sorted, with the class key the constructor stores, and
  unchanged by \<open>finish_instance\<close>.
\<close>

definition settled_map :: "ns_map \<Rightarrow> dvalue smap \<Rightarrow> bool" where
  "settled_map reg kvs \<longleftrightarrow>
     sorted_map kvs \<and> CLASS \<in> fst ` set kvs \<and> finish_instance reg kvs = Inr (Dyn kvs)"

definition wf_value :: "ns_map \<Rightarrow> dvalue \<Rightarrow> bool" where
  "wf_value reg = tree_all payload_fits (\<lambda>kvs. map_fits kvs \<and> settled_map reg kvs)"

definition wf_object :: "ns_map \<Rightarrow> dvalue smap \<Rightarrow> bool" where
  "wf_object reg kvs \<longleftrightarrow> sorted_map kvs \<and> CLASS \<in> fst ` set kvs \<and> (\<forall>(k, v) \<in> set kvs. wf_value reg v)"

lemma tree_all_mono:
  "\<lbrakk>\<And>v. P v \<Longrightarrow> P' v; \<And>kvs. Q kvs \<Longrightarrow> Q' kvs\<rbrakk> \<Longrightarrow> tree_all P Q v \<Longrightarrow> tree_all P' Q' v"
  "\<lbrakk>\<And>v. P v \<Longrightarrow> P' v; \<And>kvs. Q kvs \<Longrightarrow> Q' kvs\<rbrakk> \<Longrightarrow> object_all P Q d \<Longrightarrow> object_all P' Q' d"
  "\<lbrakk>\<And>v. P v \<Longrightarrow> P' v; \<And>kvs. Q kvs \<Longrightarrow> Q' kvs\<rbrakk> \<Longrightarrow> entries_all P Q kvs \<Longrightarrow> entries_all P' Q' kvs"
proof (induction P Q v and P Q d and P Q kvs rule: tree_all_object_all_entries_all.induct)
  case (1 P Q v)
  then show ?case
    by (auto simp: tree_all.simps split: field_base.splits option.splits)
qed auto

lemma wf_value_fits: "wf_value reg v \<Longrightarrow> value_fits v"
  unfolding wf_value_def value_fits_def by (erule tree_all_mono(1) [rotated 2]) auto

context wire_backend
begin

lemma switch_leaf:
  assumes "\<And>d. v \<noteq> PtrV (Some d)" and "payload_fits v"
  shows "field_switch io nested (field_serialize h v @ rest) = Inr (v, rest)"
proof -
  have wb: "write_bool b = [if b then 1 else 0]" for b by (simp add: write_bool_def)
  have wu: "write_u32 w = be32 w" for w by (simp add: write_u32_def)
  have b0: "b_bool io (0 # cs) = Inr (False, cs)" for cs using bool [of False] by simp
  show ?thesis
    using assms
    by (cases v)
       (auto simp: field_switch_def field_serialize.simps u8 u32 bool string vec_bool vec32 vec8
          payload_fits_def wb wu b0 seqR_def retR_def split: option.splits)
qed

lemma switch_nested:
  "field_switch io nested (field_serialize h (PtrV (Some d)) @ rest)
   = seqR nested (\<lambda>d. retR (PtrV (Some d))) (dynamic_serialize h d @ rest)"
proof -
  have "b_bool io (1 # cs) = Inr (True, cs)" for cs using bool [of True] by simp
  then show ?thesis
    by (simp add: field_switch_def field_serialize.simps u8 write_bool_def seqR_def)
qed

end

context bounded_backend
begin

lemma entries_loop_Suc:
  "entries_loop io rd (Suc n) m (write_u32 k @ bs)
   = seqR rd (\<lambda>v. entries_loop io rd n (map_put k v m)) bs"
  by (simp add: write_u32_def u32)

lemma decode_encode:
  "value_fits v \<Longrightarrow> field_deserialize io reg (field_serialize h v @ rest) =
     (case reload_value reg v of Inl e \<Rightarrow> Inl e | Inr v' \<Rightarrow> Inr (v', rest))"
  "object_all payload_fits map_fits d \<Longrightarrow>
   deserialize_instance io reg (dynamic_serialize h d @ rest) =
     (case reload_object reg d of Inl e \<Rightarrow> Inl e | Inr d' \<Rightarrow> Inr (d', rest))"
  "entries_all payload_fits map_fits kvs \<Longrightarrow>
   entries_loop io (field_deserialize io reg) (length kvs) m (entries_serialize h kvs @ rest) =
     (case reload_entries reg kvs m of Inl e \<Rightarrow> Inl e | Inr m' \<Rightarrow> Inr (m', rest))"
proof (induction reg v and reg d and reg kvs m arbitrary: rest and rest and rest
    rule: reload_value_reload_object_reload_entries.induct)
  case (1 reg v)
  show ?case
  proof (cases "\<exists>d. v = PtrV (Some d)")
    case False
    then have "field_deserialize io reg (field_serialize h v @ rest) = Inr (v, rest)"
      using 1(2) by (subst field_deserialize_eq)
        (auto intro!: switch_leaf simp: value_fits_def tree_all.simps)
    moreover have "reload_value reg v = Inr v"
      using False by (auto simp: reload_value.simps split: field_base.splits option.splits)
    ultimately show ?thesis by simp
  next
    case True
    then obtain d where v: "v = PtrV (Some d)" by blast
    have "object_all payload_fits map_fits d"
      using 1(2) by (simp add: v value_fits_def tree_all.simps)
    from 1(1) [OF v refl this] show ?thesis
      by (subst field_deserialize_eq)
         (simp add: v switch_nested seqR_def reload_value.simps split: sum.splits)
  qed
next
  case (2 reg kvs)
  then have fits: "fits (length kvs)" and all: "entries_all payload_fits map_fits kvs" by simp_all
  have "dynamic_body io (field_deserialize io reg) (dynamic_serialize h (Dyn kvs) @ rest)
      = (case reload_entries reg kvs (dyn_new 0 []) of Inl e \<Rightarrow> Inl e | Inr m \<Rightarrow> Inr (m, rest))"
    using 2(1) [OF all, of rest] by (simp add: dynamic_body_def varint seqR_def unat_count [OF fits])
  then show ?case
    by (simp add: deserialize_instance_eq instance_body_def seqR_def split: sum.splits)
next
  case (3 reg m)
  then show ?case by simp
next
  case (4 reg k v kvs m)
  then have "value_fits v" and all: "entries_all payload_fits map_fits kvs"
    by (simp_all add: value_fits_def)
  from 4(1) [OF this(1)] have rd: "field_deserialize io reg (field_serialize h v @ cs)
      = (case reload_value reg v of Inl e \<Rightarrow> Inl e | Inr v' \<Rightarrow> Inr (v', cs))" for cs .
  show ?case
  proof (cases "reload_value reg v")
    case (Inl e)
    then show ?thesis by (simp add: entries_loop_Suc rd seqR_def del: entries_loop.simps)
  next
    case (Inr v')
    then show ?thesis
      using 4(2) [OF Inr all] by (simp add: entries_loop_Suc rd seqR_def del: entries_loop.simps)
  qed
qed

end

lemma reload_settled:
  "wf_value reg v \<Longrightarrow> reload_value reg v = Inr v"
  "object_all payload_fits (\<lambda>kvs. map_fits kvs \<and> settled_map reg kvs) d \<Longrightarrow>
   reload_object reg d = Inr d"
  "entries_all payload_fits (\<lambda>kvs. map_fits kvs \<and> settled_map reg kvs) kvs \<Longrightarrow>
   reload_entries reg kvs m = Inr (put_all kvs m)"
proof (induction reg v and reg d and reg kvs m
    rule: reload_value_reload_object_reload_entries.induct)
  case (1 reg v)
  then show ?case
    by (auto simp: reload_value.simps wf_value_def tree_all.simps split: field_base.splits option.splits)
next
  case (2 reg kvs)
  then have "settled_map reg kvs" by simp
  then have "put_all kvs (dyn_new 0 []) = kvs" "finish_instance reg kvs = Inr (Dyn kvs)"
    by (simp_all add: settled_map_def dyn_new_def put_all_absorb)
  then show ?case using 2 by simp
next
  case (4 reg k v kvs m)
  then show ?case by (simp add: wf_value_def)
qed simp

section \<open>Round trips\<close>

text \<open>
  C2: writing any value and reading it back, over either backend, yields exactly the value that
  reloading its tree yields (each nested object given its namespace, created through the
  registry and overlaid), leaves the following bytes unread, and fails exactly when that
  reloading fails.
\<close>

theorem codec_functional_spec:
  assumes "value_fits v"
  shows "field_deserialize (deserializer md) reg (field_serialize h v @ rest) =
    (case reload_value reg v of Inl e \<Rightarrow> Inl e | Inr v' \<Rightarrow> Inr (v', rest))"
  by (rule any_backend.decode_encode(1) [OF assms])

theorem codec_functional_spec_witness:
  "field_deserialize (deserializer In_buffer) [] (field_serialize Little_endian (PtrV (Some (Dyn [(7, BoolV True)]))) @ [9]) =
    (case reload_value [] (PtrV (Some (Dyn [(7, BoolV True)]))) of Inl e \<Rightarrow> Inl e | Inr v' \<Rightarrow> Inr (v', [9]))"
  by (rule codec_functional_spec) (simp add: fits_simps tree_all.simps fits_def)

lemma dynamic_roundtrip:
  assumes "wf_object reg kvs" and "fits (length kvs)"
  shows "dynamic_deserialize (deserializer md) reg (dynamic_serialize h (Dyn kvs) @ rest) = Inr (kvs, rest)"
proof -
  have all: "entries_all payload_fits (\<lambda>kvs. map_fits kvs \<and> settled_map reg kvs) kvs"
    using assms(1) by (auto simp: wf_object_def wf_value_def entries_all_iff)
  then have "entries_all payload_fits map_fits kvs"
    by (rule tree_all_mono(3) [rotated 2]) auto
  from any_backend.decode_encode(3) [OF this, of md reg "dyn_new 0 []" h rest]
  have "entries_loop (deserializer md) (field_deserialize (deserializer md) reg) (length kvs)
      (dyn_new 0 []) (entries_serialize h kvs @ rest) = Inr (put_all kvs (dyn_new 0 []), rest)"
    by (simp add: reload_settled(3) [OF all])
  moreover have "put_all kvs (dyn_new 0 []) = kvs"
    using assms(1) by (simp add: wf_object_def dyn_new_def put_all_absorb)
  ultimately show ?thesis
    using assms(2)
    by (simp add: any_backend.dynamic_deserialize_eq dynamic_body_def any_backend.varint seqR_def)
qed


lemma CLASS_NAMESPACE_PARENT: "CLASS \<noteq> NAMESPACE" "CLASS \<noteq> PARENT" "NAMESPACE \<noteq> PARENT"
  by code_simp+

lemma reserved_keys: "CLASS = 2617691381" "PARENT = 3839686795" "NAMESPACE = 3196942990"
  by code_simp+

definition sample_object :: "dvalue smap" where
  "sample_object =
     [(0, PtrV (Some (Dyn [(CLASS, KeyV 0), (NAMESPACE, KeyV 0)]))),
      (1, VecInt32V [1, 2]), (CLASS, KeyV 5)]"

lemmas settled_eval =
  wf_value_def wf_object_def tree_all.simps payload_fits_def fits_def settled_map_def
  finish_instance_def lookup_namespace_def lookup_class_def create_instance_def cast_key_def
  reserved_keys

lemma sample_object_wf: "wf_object [] sample_object"
  by (simp add: sample_object_def settled_eval)


section \<open>What is decoded is settled\<close>

text \<open>
  Decoding puts a value into the form in which it survives further round trips. The hypothesis
  on the registry is that the objects made by application factories are themselves well formed.
\<close>

definition wf_registry :: "ns_map \<Rightarrow> bool" where
  "wf_registry reg \<longleftrightarrow>
     (\<forall>(ns, col) \<in> set reg. \<forall>(klass, ci) \<in> set col.
        case ci_factory ci of None \<Rightarrow> True
        | Some made \<Rightarrow> sorted_map made \<and> (\<forall>(k, v) \<in> set made. wf_value reg v))"

lemma wf_value_leaf: "(\<And>d. v \<noteq> PtrV (Some d)) \<Longrightarrow> wf_value reg v = payload_fits v"
  by (auto simp: wf_value_def tree_all.simps split: field_base.splits option.splits)

lemma wf_value_KeyV [simp]: "wf_value reg (KeyV k)"
  by (simp add: wf_value_leaf payload_fits_def)

lemma map_put_entries: "(k', v') \<in> set (map_put k v m) \<Longrightarrow> (k', v') = (k, v) \<or> (k', v') \<in> set m"
  by (induction k v m rule: map_put.induct) (auto split: if_splits)

lemma put_all_entries: "(k, v) \<in> set (put_all kvs m) \<Longrightarrow> (k, v) \<in> set kvs \<or> (k, v) \<in> set m"
proof (induction kvs arbitrary: m)
  case (Cons kv kvs)
  obtain k' v' where kv: "kv = (k', v')" by fastforce
  show ?case using Cons.IH [of "map_put k' v' m"] Cons.prems map_put_entries [of k v k' v' m]
    by (auto simp: kv)
qed simp

lemma wf_object_put: "wf_object reg m \<Longrightarrow> wf_value reg v \<Longrightarrow> wf_object reg (map_put k v m)"
  using map_put_entries by (fastforce simp: wf_object_def)

lemma wf_object_new: "wf_object reg (dyn_new 0 [])"
  by (simp add: wf_object_def dyn_new_def)

lemma instantiate_wf: "wf_object reg (instantiate ns klass)"
proof -
  have "wf_object reg (dyn_new klass [])" by (simp add: wf_object_def dyn_new_def)
  then show ?thesis by (simp add: instantiate_def Let_def wf_object_put)
qed

lemma create_instance_wf:
  assumes "wf_registry reg" and "create_instance reg ns klass = Some made"
  shows "sorted_map made \<and> (\<forall>(k, v) \<in> set made. wf_value reg v)"
proof -
  obtain col ci where col: "(ns, col) \<in> set reg" and ci: "(klass, ci) \<in> set col"
    and made: "made = (case ci_factory ci of Some made \<Rightarrow> made | None \<Rightarrow> instantiate ns klass)"
    using assms(2) by (auto simp: create_instance_def split: option.splits dest!: map_of_SomeD)
  show ?thesis
  proof (cases "ci_factory ci")
    case None
    then show ?thesis using made instantiate_wf [of reg ns klass] by (simp add: wf_object_def)
  next
    case (Some made')
    have "case ci_factory ci of None \<Rightarrow> True
        | Some made \<Rightarrow> sorted_map made \<and> (\<forall>(k, v) \<in> set made. wf_value reg v)"
      using assms(1) col ci unfolding wf_registry_def by blast
    then show ?thesis by (simp add: made Some)
  qed
qed

lemma finish_instance_settled:
  assumes "wf_registry reg" and "wf_object reg m" and "finish_instance reg m = Inr (Dyn x)"
  shows "wf_object reg x \<and> settled_map reg x"
proof -
  obtain ns m' klass where ns: "lookup_namespace reg m = Inr (ns, m')"
    and klass: "lookup_class m' = Inr klass"
    and x: "x = (case create_instance reg ns klass of None \<Rightarrow> m' | Some made \<Rightarrow> put_all m' made)"
    using assms(3) by (auto simp: finish_instance_def split: sum.splits option.splits)
  have m': "wf_object reg m'" "map_of m' NAMESPACE = Some (KeyV ns)"
    using ns assms(2)
    by (auto simp: lookup_namespace_def cast_key_def Let_def wf_object_put
        split: option.splits sum.splits field_base.splits if_splits)
  have made: "sorted_map made \<and> (\<forall>(k, v) \<in> set made. wf_value reg v)"
    if "create_instance reg ns klass = Some made" for made
    using create_instance_wf [OF assms(1) that] .
  have sm': "sorted_map m'" using m'(1) by (simp add: wf_object_def)
  have "CLASS \<in> dom (map_of m')" using m'(1) by (simp add: wf_object_def dom_map_of_conv_image_fst)
  then obtain cv where cv: "map_of m' CLASS = Some cv" by blast
  have x_of: "map_of x = (case create_instance reg ns klass of None \<Rightarrow> map_of m'
      | Some made \<Rightarrow> map_of made ++ map_of m')"
    using x map_of_put_all [OF sorted_map_distinct [OF sm']] by (auto split: option.splits)
  have wf: "wf_object reg x"
  proof (cases "create_instance reg ns klass")
    case None
    then show ?thesis using m' x by simp
  next
    case (Some made)
    have "CLASS \<in> dom (map_of x)"
      using m'(1) by (auto simp: x_of Some wf_object_def dom_map_of_conv_image_fst)
    moreover have "wf_value reg v" if "(k, v) \<in> set x" for k v
      using put_all_entries [of k v m' made] that made [OF Some] m'(1)
      by (auto simp: x Some wf_object_def)
    ultimately show ?thesis
      using made [OF Some] by (auto simp: wf_object_def x Some sorted_put_all dom_map_of_conv_image_fst)
  qed
  have "lookup_namespace reg x = Inr (ns, x)"
    using m'(2) by (auto simp: lookup_namespace_def x_of cast_key_def split: option.splits)
  moreover have "lookup_class x = Inr klass"
    using klass by (auto simp: lookup_class_def x_of cv map_add_def split: option.splits)
  moreover have "put_all x made = x" if c: "create_instance reg ns klass = Some made" for made
  proof (rule put_all_absorb)
    show "sorted_map x" using wf by (simp add: wf_object_def)
    have "dom (map_of made) \<subseteq> dom (map_of x)" by (auto simp: x_of c)
    then show "fst ` set made \<subseteq> fst ` set x" by (simp add: dom_map_of_conv_image_fst)
  qed (use made [OF c] in simp)
  ultimately have "finish_instance reg x = Inr (Dyn x)"
    by (auto simp: finish_instance_def split: option.splits)
  then show ?thesis using wf by (simp add: settled_map_def wf_object_def)
qed

lemma wf_object_node:
  assumes "wf_object reg x" and "settled_map reg x"
  shows "wf_value reg (PtrV (Some (Dyn x)))"
proof -
  have "fits (length x)" using assms(1) length_smap [of x] by (simp add: fits_def wf_object_def)
  then show ?thesis
    using assms
    by (simp add: wf_value_def tree_all.simps payload_fits_def entries_all_iff wf_object_def)
qed

context sized_backend
begin

lemma ensures_entries_loop:
  assumes "ensures (wf_value reg) rd"
  shows "wf_object reg m \<Longrightarrow> ensures (wf_object reg) (entries_loop io rd n m)"
  by (induction n arbitrary: m)
     (auto intro!: ensures_retR ensures_seqR [OF ensures_True] ensures_seqR [OF assms] wf_object_put)

lemma ensures_instance_body:
  assumes "wf_registry reg" and "ensures (wf_value reg) rd"
  shows "ensures (\<lambda>d. wf_value reg (PtrV (Some d))) (instance_body io reg rd)"
proof -
  have "ensures (wf_object reg) (dynamic_body io rd)"
    unfolding dynamic_body_def
    by (intro ensures_seqR [OF ensures_True] ensures_entries_loop assms wf_object_new)
  moreover have "wf_value reg (PtrV (Some d))" if "wf_object reg m" "finish_instance reg m = Inr d" for m d
    using finish_instance_settled [OF assms(1) that(1), of "dyn_fields d"] that(2)
      wf_object_node [of reg "dyn_fields d"]
    by simp
  ultimately show ?thesis
    unfolding instance_body_eq
    by (auto intro!: ensures_seqR ensures_throwR ensures_retR split: sum.splits)
qed

lemma ensures_field_switch:
  assumes "ensures (\<lambda>d. wf_value reg (PtrV (Some d))) nested"
  shows "ensures (wf_value reg) (field_switch io nested)"
proof -
  have l: "ensures (wf_value reg) (seqR (b_string io) (\<lambda>s. retR (StringV s)))"
    "ensures (wf_value reg) (seqR (b_vec_bool io) (\<lambda>s. retR (VecBoolV s)))"
    "ensures (wf_value reg) (seqR (b_vec32 io) (\<lambda>s. retR (VecInt32V s)))"
    "ensures (wf_value reg) (seqR (b_vec32 io) (\<lambda>s. retR (VecFloatV s)))"
    "ensures (wf_value reg) (seqR (b_vec8 io) (\<lambda>s. retR (VecByteV s)))"
    by (rule ensures_seqR, rule sized_string sized_vec_bool sized_vec32 sized_vec8,
        rule ensures_retR, simp add: wf_value_leaf payload_fits_def)+
  have n: "ensures (wf_value reg) (seqR nested (\<lambda>d. retR (PtrV (Some d))))"
    by (rule ensures_seqR [OF assms]) (rule ensures_retR)
  show ?thesis
    unfolding field_switch_def
    by (rule ensures_seqR [OF ensures_True])
       (auto intro!: l n ensures_throwR ensures_retR ensures_seqR [OF ensures_True]
          simp: wf_value_leaf payload_fits_def)
qed

lemma ensures_field_fuel:
  "wf_registry reg \<Longrightarrow> ensures (wf_value reg) (field_deserialize_fuel fuel io reg)"
  by (induction fuel)
     (auto intro!: ensures_field_switch ensures_throwR ensures_instance_body)

lemma decoded_wf:
  "wf_registry reg \<Longrightarrow> field_deserialize io reg bs = Inr (v, rest) \<Longrightarrow> wf_value reg v"
  unfolding field_deserialize_def by (rule ensuresD [OF ensures_field_fuel])

lemma decoded_object_wf:
  "wf_registry reg \<Longrightarrow> dynamic_deserialize io reg bs = Inr (m, rest) \<Longrightarrow> wf_object reg m"
  unfolding dynamic_deserialize_def dynamic_body_def
  by (rule ensuresD [OF ensures_seqR [OF ensures_True ensures_entries_loop]])
     (auto intro: ensures_field_fuel wf_object_new)

end

text \<open>
  An object that was decoded, from any bytes whatever, survives every further round trip
  unchanged: sending on what was received never alters it.
\<close>

theorem decoded_object_stable:
  assumes "wf_registry reg" and "dynamic_deserialize (deserializer md) reg bs = Inr (m, rest)"
  shows "dynamic_deserialize (deserializer md') reg (dynamic_serialize h (Dyn m) @ rest') = Inr (m, rest')"
proof -
  have wf: "wf_object reg m" by (rule any_backend.decoded_object_wf [OF assms])
  then have "fits (length m)" using length_smap [of m] by (simp add: fits_def wf_object_def)
  with wf show ?thesis by (rule dynamic_roundtrip)
qed

definition sample_registry :: ns_map where
  "sample_registry =
     [(0, [(5, \<lparr> ci_fields = [(PARENT, KeyV 0)], ci_factory = Some [(1, BoolV False)] \<rparr>)])]"

lemma sample_registry_wf: "wf_registry sample_registry"
  by (simp add: wf_registry_def sample_registry_def wf_value_leaf payload_fits_def)

lemma sample_decodes:
  "dynamic_deserialize (deserializer In_buffer) sample_registry [1, 0, 0, 0, 3, 3, 1]
   = Inr ([(3, BoolV True), (CLASS, KeyV 0)], [])"
  by code_simp

theorem decoded_object_stable_witness:
  "dynamic_deserialize (deserializer In_stream) sample_registry
     (dynamic_serialize Big_endian (Dyn [(3, BoolV True), (CLASS, KeyV 0)]) @ [])
   = Inr ([(3, BoolV True), (CLASS, KeyV 0)], [])"
  by (rule decoded_object_stable [OF sample_registry_wf sample_decodes])

section \<open>Truncation and prefixes\<close>

lemma local_entries_loop:
  "local_reader rd \<Longrightarrow> local_reader (entries_loop buffer_deserializer rd n m)"
  by (induction n arbitrary: m) (auto intro!: local_intros buffer_backend_local)

lemma local_dynamic_body: "local_reader rd \<Longrightarrow> local_reader (dynamic_body buffer_deserializer rd)"
  unfolding dynamic_body_def by (intro local_seqR buffer_backend_local local_entries_loop)

lemma local_instance_body: "local_reader rd \<Longrightarrow> local_reader (instance_body buffer_deserializer reg rd)"
  unfolding instance_body_eq
  by (auto intro!: local_intros local_dynamic_body split: sum.splits)

lemma local_field_switch: "local_reader nested \<Longrightarrow> local_reader (field_switch buffer_deserializer nested)"
  unfolding field_switch_def by (auto intro!: local_intros buffer_backend_local)

lemma local_field_fuel: "local_reader (field_deserialize_fuel fuel buffer_deserializer reg)"
  by (induction fuel) (auto intro!: local_field_switch local_throwR local_instance_body)

lemma local_field_deserialize: "local_reader (field_deserialize buffer_deserializer reg)"
proof (rule local_readerI)
  fix bs ext rest :: buffer and v
  assume r: "field_deserialize buffer_deserializer reg bs = Inr (v, rest)"
  then show "\<exists>p. bs = p @ rest"
    unfolding field_deserialize_def by (rule local_reader_suffix [OF local_field_fuel])
  have "field_deserialize_fuel (length (bs @ ext)) buffer_deserializer reg bs = Inr (v, rest)"
    using r buffer_backend.field_fuel_eq [of bs "length (bs @ ext)" reg] by simp
  from local_reader_extend [OF local_field_fuel this, of ext]
  show "field_deserialize buffer_deserializer reg (bs @ ext) = Inr (v, rest @ ext)"
    by (simp only: field_deserialize_def)
qed

interpretation field_codec: local_codec "field_serialize h" "field_deserialize buffer_deserializer reg"
  "wf_value reg"
proof unfold_locales
  show "field_deserialize buffer_deserializer reg (field_serialize h x @ rest) = Inr (x, rest)"
    if "wf_value reg x" for x rest
    using buffer_backend.decode_encode(1) [OF wf_value_fits [OF that], of reg h rest]
      reload_settled(1) [OF that] by simp
qed (rule local_field_deserialize)

text \<open>
  Every proper prefix of an encoded field is rejected by the buffer deserializer, wherever
  it is cut.
\<close>

theorem truncated_field_rejected:
  assumes "wf_value reg v" and "n < length (field_serialize h v)"
  shows "\<not> is_ok (field_deserialize buffer_deserializer reg (take n (field_serialize h v)))"
  using field_codec.truncation_fails [OF assms] by (auto simp: is_ok.simps)

theorem truncated_field_rejected_witness:
  "\<not> is_ok (field_deserialize buffer_deserializer [] (take 5 (field_serialize Little_endian (StringV ''hello''))))"
  by (rule truncated_field_rejected)
     (simp_all add: wf_value_leaf payload_fits_def fits_def field_serialize.simps write_string_def
       write_varint_unfold)

text \<open>
  The encoding is injective on well-formed fields and no encoding is a proper prefix of
  another, so concatenated fields can only be split in one way.
\<close>

theorem field_encoding_unique:
  assumes "wf_value reg v" and "wf_value reg w"
    and "field_serialize h v @ r = field_serialize h w @ s"
  shows "v = w \<and> r = s"
  by (rule field_codec.enc_prefix_free [OF assms])

theorem field_encoding_unique_witness:
  "(Int32V 1 :: dvalue) = Int32V 1 \<and> ([7] :: buffer) = [7]"
  by (rule field_encoding_unique [where reg = "[]" and h = Little_endian])
     (simp_all add: wf_value_leaf payload_fits_def)

section \<open>The stream deserializer accepts what the buffer deserializer accepts\<close>

lemma covers_field_switch:
  assumes "backend_covers io' io" and "covers nested' nested"
  shows "covers (field_switch io' nested') (field_switch io nested)"
  unfolding field_switch_def
  using assms by (auto simp: backend_covers_def intro!: covers_intros)

lemma covers_entries_loop:
  assumes "backend_covers io' io" and "covers rd' rd"
  shows "covers (entries_loop io' rd' n m) (entries_loop io rd n m)"
  using assms by (induction n arbitrary: m) (auto simp: backend_covers_def intro!: covers_intros)

lemma covers_instance_body:
  assumes "backend_covers io' io" and "covers rd' rd"
  shows "covers (instance_body io' reg rd') (instance_body io reg rd)"
  unfolding instance_body_eq dynamic_body_def
  using assms covers_entries_loop [OF assms]
  by (auto simp: backend_covers_def intro!: covers_seqR covers_refl)

lemma covers_field_fuel:
  assumes "backend_covers io' io"
  shows "covers (field_deserialize_fuel fuel io' reg) (field_deserialize_fuel fuel io reg)"
  by (induction fuel)
     (auto intro!: covers_field_switch assms covers_instance_body covers_refl)

text \<open>
  Whatever bytes the buffer deserializer accepts, the stream deserializer accepts with the
  same value and the same bytes left over.
\<close>

theorem stream_reads_what_buffer_reads:
  assumes "field_deserialize buffer_deserializer reg bs = Inr (v, rest)"
  shows "field_deserialize stream_deserializer reg bs = Inr (v, rest)"
  using covers_field_fuel [OF stream_covers_buffer, of "length bs" reg] assms
  unfolding field_deserialize_def by (rule coversD)

theorem stream_reads_what_buffer_reads_witness:
  "field_deserialize stream_deserializer [] [4, 0, 0, 0, 9, 0xFF] = Inr (Int32V 9, [0xFF])"
proof (rule stream_reads_what_buffer_reads)
  show "field_deserialize buffer_deserializer [] [4, 0, 0, 0, 9, 0xFF] = Inr (Int32V 9, [0xFF])"
    by code_simp
qed

end
