(* ===== verification/Payload.thy ===== *)
theory Payload
  imports Object_Inv Codec
begin

text \<open>
  Between the two views of an object: the tree that travels on the wire (\<open>Codec\<close>) and the objects
  on the heap (\<open>Object\<close>) that the server's handlers and the application's methods work on. \<open>load\<close>
  is what \<open>deserialize\<close> leaves in memory, \<open>dump\<close> what \<open>serialize\<close> reads from it.
\<close>

section \<open>From the wire to the heap\<close>

function load_value :: "dvalue \<Rightarrow> store \<Rightarrow> addr field_base \<times> store"
  and load_dyn :: "dyn \<Rightarrow> store \<Rightarrow> addr \<times> store"
  and load_fields :: "(hash_t \<times> dvalue) list \<Rightarrow> store \<Rightarrow> addr field smap \<times> store" where
  "load_value v s = (case v of
       PtrV (Some d) \<Rightarrow> (case load_dyn d s of (a, s') \<Rightarrow> (PtrV (Some a), s'))
     | _ \<Rightarrow> (map_field_base (\<lambda>_. 0) v, s))"
| "load_dyn (Dyn kvs) s = (case load_fields kvs s of
       (m, s') \<Rightarrow> (length (heap s'), s'\<lparr> heap := heap s' @ [blank_obj (put_all m [])] \<rparr>))"
| "load_fields [] s = ([], s)"
| "load_fields ((k, v) # kvs) s = (case load_value v s of
       (v', s1) \<Rightarrow> (case load_fields kvs s1 of (m, s2) \<Rightarrow> ((k, plain_field v') # m, s2)))"
  by pat_completeness auto

termination
  by (relation "measure (case_sum (\<lambda>(v, s). value_size v)
        (case_sum (\<lambda>(d, s). size d) (\<lambda>(kvs, s). entries_size kvs)))") auto

declare load_value.simps [simp del]

definition load :: "dvalue smap \<Rightarrow> addr action" where
  "load m s = (case load_dyn (Dyn m) s of (a, s') \<Rightarrow> (Inr a, s'))"

section \<open>From the heap to the wire\<close>

text \<open>
  The writer's recursion over nested objects; the fuel is the nesting depth, and \<open>length (heap s)\<close>
  suffices on an acyclic object (on a cyclic one the code does not return either).
\<close>

definition dump_value :: "(addr \<Rightarrow> dvalue smap result) \<Rightarrow> addr field_base \<Rightarrow> dvalue result" where
  "dump_value rec v =
     (case v of
        PtrV (Some q) \<Rightarrow> (case rec q of Inl e \<Rightarrow> Inl e | Inr m \<Rightarrow> Inr (PtrV (Some (Dyn m))))
      | _ \<Rightarrow> Inr (map_field_base (\<lambda>_. Dyn []) v))"

fun dump_fields :: "(addr \<Rightarrow> dvalue smap result) \<Rightarrow> addr field smap \<Rightarrow> dvalue smap result" where
  "dump_fields rec [] = Inr []"
| "dump_fields rec ((k, f) # kvs) =
     (case dump_value rec (f_base f) of
        Inl e \<Rightarrow> Inl e
      | Inr v \<Rightarrow> (case dump_fields rec kvs of Inl e \<Rightarrow> Inl e | Inr m \<Rightarrow> Inr ((k, v) # m)))"

primrec dump_fuel :: "nat \<Rightarrow> store \<Rightarrow> addr \<Rightarrow> dvalue smap result" where
  "dump_fuel 0 s a = Inl Fuel_exhausted"
| "dump_fuel (Suc fuel) s a = dump_fields (dump_fuel fuel s) (fields_of s a)"

definition dump :: "addr \<Rightarrow> dvalue smap action" where
  "dump a s = (dump_fuel (Suc (length (heap s))) s a, s)"

section \<open>The two are inverse\<close>

text \<open>Loading only adds objects.\<close>

definition grows :: "store \<Rightarrow> store \<Rightarrow> bool" where
  "grows s s' \<longleftrightarrow> registry s' = registry s \<and> (\<exists>new. heap s' = heap s @ new)"

lemma grows_refl [simp]: "grows s s"
  by (simp add: grows_def)

lemma grows_trans: "grows s s' \<Longrightarrow> grows s' s'' \<Longrightarrow> grows s s''"
  by (auto simp: grows_def)

lemma grows_length: "grows s s' \<Longrightarrow> length (heap s) \<le> length (heap s')"
  by (auto simp: grows_def)

lemma grows_snoc: "grows s s' \<Longrightarrow> grows s (s'\<lparr> heap := heap s' @ [ob] \<rparr>)"
  by (auto simp: grows_def)

lemma load_grows:
  "load_value v s = (x, s') \<Longrightarrow> grows s s'"
  "load_dyn d s = (a, s') \<Longrightarrow> grows s s'"
  "load_fields kvs s = (m, s') \<Longrightarrow> grows s s'"
proof (induction v s and d s and kvs s arbitrary: x s' and a s' and m s' rule: load_value_load_dyn_load_fields.induct)
  case (1 v s)
  then show ?case by (auto simp: load_value.simps [of v] split: field_base.splits option.splits prod.splits)
next
  case (2 kvs s)
  then show ?case by (auto split: prod.splits intro: grows_snoc)
next
  case (3 s)
  then show ?case by simp
next
  case (4 k v kvs s)
  then show ?case by (fastforce split: prod.splits intro: grows_trans)
qed

text \<open>Reading needs only the objects reached, and more fuel changes nothing.\<close>

definition heap_closed :: "store \<Rightarrow> bool" where
  "heap_closed s \<longleftrightarrow> (\<forall>ob \<in> set (heap s). \<forall>(k, f) \<in> set (o_fields ob). ptr_ok (length (heap s)) f)"

lemma store_ok_closed: "store_ok s \<Longrightarrow> heap_closed s"
  by (auto simp: store_ok_def heap_closed_def obj_ok_def)

lemma dump_value_mono:
  "dump_value rec v = Inr x \<Longrightarrow> (\<And>q y. q \<in> ptrs_of v \<Longrightarrow> rec q = Inr y \<Longrightarrow> rec' q = Inr y) \<Longrightarrow>
   dump_value rec' v = Inr x"
  by (auto simp: dump_value_def ptrs_of_def split: field_base.splits option.splits sum.splits)

lemma dump_fields_mono:
  "dump_fields rec m = Inr kvs \<Longrightarrow>
   (\<And>k f q y. (k, f) \<in> set m \<Longrightarrow> q \<in> ptrs_of (f_base f) \<Longrightarrow> rec q = Inr y \<Longrightarrow> rec' q = Inr y) \<Longrightarrow>
   dump_fields rec' m = Inr kvs"
proof (induction m arbitrary: kvs)
  case Nil
  then show ?case by simp
next
  case (Cons kf m)
  obtain k f where kf: "kf = (k, f)" by fastforce
  obtain v where v: "dump_value rec (f_base f) = Inr v" using Cons.prems(1) by (auto simp: kf split: sum.splits)
  obtain rest where rest: "dump_fields rec m = Inr rest" "kvs = (k, v) # rest"
    using Cons.prems(1) v by (auto simp: kf split: sum.splits)
  have "dump_value rec' (f_base f) = Inr v"
    by (rule dump_value_mono [OF v]) (use Cons.prems(2) kf in auto)
  moreover have "dump_fields rec' m = Inr rest"
    by (rule Cons.IH [OF rest(1)]) (use Cons.prems(2) in auto)
  ultimately show ?case by (simp add: kf rest(2))
qed

lemma dump_fuel_mono: "dump_fuel n s a = Inr x \<Longrightarrow> n \<le> n' \<Longrightarrow> dump_fuel n' s a = Inr x"
proof (induction n arbitrary: n' a x)
  case 0
  then show ?case by simp
next
  case (Suc n)
  obtain n0 where n': "n' = Suc n0" "n \<le> n0" using Suc.prems(2) by (cases n') auto
  have "dump_fields (dump_fuel n s) (fields_of s a) = Inr x" using Suc.prems(1) by simp
  then have "dump_fields (dump_fuel n0 s) (fields_of s a) = Inr x"
    by (rule dump_fields_mono) (rule Suc.IH [OF _ n'(2)])
  then show ?case by (simp add: n'(1))
qed

lemma dump_fuel_grows:
  assumes "grows s s'" and "heap_closed s"
  shows "a < length (heap s) \<Longrightarrow> dump_fuel fuel s' a = dump_fuel fuel s a"
proof (induction fuel arbitrary: a)
  case 0
  then show ?case by simp
next
  case (Suc fuel)
  have same: "fields_of s' a = fields_of s a" using assms(1) Suc.prems by (auto simp: grows_def nth_append)
  have ok: "\<forall>(k, f) \<in> set (fields_of s a). ptr_ok (length (heap s)) f" using assms(2) Suc.prems by (auto simp: heap_closed_def)
  have "dump_fields (dump_fuel fuel s') m = dump_fields (dump_fuel fuel s) m"
    if "\<forall>(k, f) \<in> set m. ptr_ok (length (heap s)) f" for m
    using that
  proof (induction m)
    case Nil
    then show ?case by simp
  next
    case (Cons kf m)
    obtain k f where kf: "kf = (k, f)" by fastforce
    have "dump_value (dump_fuel fuel s') (f_base f) = dump_value (dump_fuel fuel s) (f_base f)"
      using Cons.prems Suc.IH by (auto simp: kf dump_value_def ptr_ok_def split: field_base.splits option.splits)
    then show ?case using Cons by (auto simp: kf split: sum.split)
  qed
  from this [OF ok] show ?case by (simp add: same)
qed

lemma dump_later:
  assumes "heap_closed s" and "grows s s'" and "q < length (heap s)" and "dump_fuel n s q = Inr x" and "n \<le> n'"
  shows "dump_fuel n' s' q = Inr x"
  using dump_fuel_mono [OF _ assms(5), of s' q x] dump_fuel_grows [OF assms(2,1,3), of n] assms(4) by simp

lemma ptr_ok_ptrs: "ptr_ok n f \<longleftrightarrow> (\<forall>q \<in> ptrs_of (f_base f). q < n)"
  by (auto simp: ptr_ok_def ptrs_of_def split: field_base.splits option.splits)

lemma map_field_base_back:
  "\<forall>d. v \<noteq> PtrV (Some d) \<Longrightarrow> dump_value rec (map_field_base (\<lambda>_. 0) v) = Inr v"
  "\<forall>d. v \<noteq> PtrV (Some d) \<Longrightarrow> ptrs_of (map_field_base (\<lambda>_. 0) v) = {}"
  by (cases v; auto simp: dump_value_def ptrs_of_def split: option.splits; fail)+

text \<open>The trees whose every field map is in key order, as decoding leaves them.\<close>

abbreviation ordered :: "dvalue \<Rightarrow> bool" where
  "ordered \<equiv> tree_all (\<lambda>_. True) sorted_map"

lemma load_fields_keys: "load_fields kvs s = (m, s') \<Longrightarrow> map fst m = map fst kvs"
proof (induction kvs arbitrary: s m)
  case Nil
  then show ?case by simp
next
  case (Cons kv kvs)
  then show ?case by (cases kv) (auto split: prod.splits)
qed

lemma load_dump:
  "load_value v s = (x, s') \<Longrightarrow> heap_closed s \<Longrightarrow> ordered v \<Longrightarrow>
     heap_closed s' \<and> (\<forall>q \<in> ptrs_of x. q < length (heap s')) \<and>
     dump_value (dump_fuel (length (heap s')) s') x = Inr v"
  "load_dyn d s = (a, s') \<Longrightarrow> heap_closed s \<Longrightarrow> object_all (\<lambda>_. True) sorted_map d \<Longrightarrow>
     heap_closed s' \<and> a < length (heap s') \<and>
     (\<exists>kvs. d = Dyn kvs \<and> dump_fuel (length (heap s')) s' a = Inr kvs)"
  "load_fields kvs s = (m, s') \<Longrightarrow> heap_closed s \<Longrightarrow> entries_all (\<lambda>_. True) sorted_map kvs \<Longrightarrow>
     heap_closed s' \<and> (\<forall>(k, f) \<in> set m. ptr_ok (length (heap s')) f) \<and>
     dump_fields (dump_fuel (length (heap s')) s') m = Inr kvs"
proof (induction v s and d s and kvs s arbitrary: x s' and a s' and m s' rule: load_value_load_dyn_load_fields.induct)
  case (1 v s)
  show ?case
  proof (cases "\<exists>d. v = PtrV (Some d)")
    case True
    then obtain d where d: "v = PtrV (Some d)" by blast
    then obtain a where a: "load_dyn d s = (a, s')" "x = PtrV (Some a)"
      using "1.prems"(1) by (auto simp: load_value.simps split: prod.splits)
    have "object_all (\<lambda>_. True) sorted_map d" using "1.prems"(3) by (simp add: d tree_all.simps)
    from "1.IH" [OF d refl a(1) "1.prems"(2) this] show ?thesis by (auto simp: a(2) d dump_value_def)
  next
    case False
    then have "x = map_field_base (\<lambda>_. 0) v" "s' = s"
      using "1.prems"(1) by (auto simp: load_value.simps [of v] split: field_base.splits option.splits)
    then show ?thesis using map_field_base_back [of v] False "1.prems"(2) by auto
  qed
next
  case (2 kvs s)
  obtain m s1 where m: "load_fields kvs s = (m, s1)" by fastforce
  have sm: "sorted_map m" using "2.prems"(3) load_fields_keys [OF m] by simp
  have pa: "put_all m [] = m" by (rule put_all_absorb) (use sm in simp_all)
  have a: "a = length (heap s1)" "s' = s1\<lparr> heap := heap s1 @ [blank_obj m] \<rparr>" using "2.prems"(1) by (auto simp: m pa)
  have IH: "heap_closed s1" "\<forall>(k, f) \<in> set m. ptr_ok (length (heap s1)) f"
      "dump_fields (dump_fuel (length (heap s1)) s1) m = Inr kvs"
    using "2.IH" [OF m "2.prems"(2)] "2.prems"(3) by auto
  have g: "grows s1 s'" unfolding a(2) by (rule grows_snoc) simp
  have later: "dump_fuel (length (heap s1)) s' q = Inr y"
    if "(k, f) \<in> set m" "q \<in> ptrs_of (f_base f)" "dump_fuel (length (heap s1)) s1 q = Inr y" for k f q y
    by (rule dump_later [OF IH(1) g _ that(3)]) (use that(1,2) IH(2) in \<open>auto simp: ptr_ok_ptrs\<close>)
  have "dump_fields (dump_fuel (length (heap s1)) s') m = Inr kvs"
    by (rule dump_fields_mono [OF IH(3)]) (rule later)
  moreover have "heap_closed s'"
    using IH(1,2) by (fastforce simp: a(2) heap_closed_def blank_obj_def ptr_ok_ptrs)
  ultimately show ?case by (simp add: a blank_obj_def)
next
  case (3 s)
  then show ?case by simp
next
  case (4 k v kvs s)
  obtain v' s1 where v': "load_value v s = (v', s1)" by fastforce
  obtain m' where m': "load_fields kvs s1 = (m', s')" "m = (k, plain_field v') # m'"
    using "4.prems"(1) by (auto simp: v' split: prod.splits)
  have V: "heap_closed s1" "\<forall>q \<in> ptrs_of v'. q < length (heap s1)" "dump_value (dump_fuel (length (heap s1)) s1) v' = Inr v"
    using "4.IH"(1) [OF v' "4.prems"(2)] "4.prems"(3) by auto
  have M: "heap_closed s'" "\<forall>(k, f) \<in> set m'. ptr_ok (length (heap s')) f"
      "dump_fields (dump_fuel (length (heap s')) s') m' = Inr kvs"
    using "4.IH"(2) [OF v' [symmetric] m'(1) V(1)] "4.prems"(3) by auto
  have g: "grows s1 s'" by (rule load_grows(3) [OF m'(1)])
  have "dump_value (dump_fuel (length (heap s')) s') v' = Inr v"
    by (rule dump_value_mono [OF V(3)]) (use dump_later [OF V(1) g _ _ grows_length [OF g]] V(2) in blast)
  then show ?case using M V(2) grows_length [OF g] by (auto simp: m'(2) plain_field_def ptr_ok_ptrs)
qed

text \<open>
  An object read from the wire into memory and written back gives the tree that was read,
  nested objects included, in any store.
\<close>

theorem payload_roundtrip:
  assumes "store_ok s" and "load m s = (Inr a, s')" and "object_all (\<lambda>_. True) sorted_map (Dyn m)"
  shows "dump a s' = (Inr m, s')"
proof -
  have l: "load_dyn (Dyn m) s = (a, s')" using assms(2) by (simp add: load_def split: prod.splits)
  have "dump_fuel (length (heap s')) s' a = Inr m"
    using load_dump(2) [OF l store_ok_closed [OF assms(1)] assms(3)] by auto
  then show ?thesis unfolding dump_def by (simp only: dump_fuel_mono [OF _ le_SucI [OF order_refl]])
qed

theorem payload_roundtrip_witness:
  "\<exists>a s'. load [(3, PtrV (Some (Dyn [(1, BoolV True)]))), (CLASS, KeyV 7)] empty_store = (Inr a, s') \<and>
     dump a s' = (Inr [(3, PtrV (Some (Dyn [(1, BoolV True)]))), (CLASS, KeyV 7)], s')"
proof -
  let ?m = "[(3, PtrV (Some (Dyn [(1, BoolV True)]))), (CLASS, KeyV 7)] :: dvalue smap"
  obtain a s' where "load_dyn (Dyn ?m) empty_store = (a, s')" by fastforce
  then have l: "load ?m empty_store = (Inr a, s')" by (simp add: load_def)
  have "store_ok empty_store" by (simp add: store_ok_def empty_store_def registry_ok_def)
  moreover have "object_all (\<lambda>_. True) sorted_map (Dyn ?m)" by (simp add: tree_all.simps token_values)
  ultimately have "dump a s' = (Inr ?m, s')" using payload_roundtrip [OF _ l] by simp
  with l show ?thesis by blast
qed

section \<open>Loading keeps the store sound\<close>

lemma put_all_set: "x \<in> set (put_all m m0) \<Longrightarrow> x \<in> set m \<or> x \<in> set m0" for m :: "'v smap"
proof (induction m arbitrary: m0)
  case Nil
  then show ?case by simp
next
  case (Cons kv m)
  obtain k v where kv: "kv = (k, v)" by fastforce
  from Cons.IH [of "map_put k v m0"] Cons.prems have "x \<in> set m \<or> x \<in> set (map_put k v m0)" by (simp add: kv)
  then show ?case using map_put_mem [of "fst x" "snd x" k v m0] by (auto simp: kv)
qed

lemma load_ok:
  "load_value v s = (x, s') \<Longrightarrow> store_ok s \<Longrightarrow> store_ok s' \<and> length (heap s) \<le> length (heap s') \<and> valid (ptrs_of x) s'"
  "load_dyn d s = (a, s') \<Longrightarrow> store_ok s \<Longrightarrow> store_ok s' \<and> length (heap s) \<le> length (heap s') \<and> valid {a} s'"
  "load_fields kvs s = (m, s') \<Longrightarrow> store_ok s \<Longrightarrow> store_ok s' \<and> length (heap s) \<le> length (heap s') \<and>
     (\<forall>(k, f) \<in> set m. ptr_ok (length (heap s')) f)"
proof (induction v s and d s and kvs s arbitrary: x s' and a s' and m s' rule: load_value_load_dyn_load_fields.induct)
  case (1 v s)
  show ?case
  proof (cases "\<exists>d. v = PtrV (Some d)")
    case True
    then obtain d where d: "v = PtrV (Some d)" by blast
    then obtain a where a: "load_dyn d s = (a, s')" "x = PtrV (Some a)"
      using "1.prems"(1) by (auto simp: load_value.simps split: prod.splits)
    from "1.IH" [OF d refl a(1) "1.prems"(2)] show ?thesis by (simp add: a(2))
  next
    case False
    then have "x = map_field_base (\<lambda>_. 0) v" "s' = s"
      using "1.prems"(1) by (auto simp: load_value.simps [of v] split: field_base.splits option.splits)
    then show ?thesis using map_field_base_back(2) [of v] False "1.prems"(2) by (simp add: valid_def)
  qed
next
  case (2 kvs s)
  obtain m s1 where m: "load_fields kvs s = (m, s1)" by fastforce
  have IH: "store_ok s1" "length (heap s) \<le> length (heap s1)" "\<forall>(k, f) \<in> set m. ptr_ok (length (heap s1)) f"
    using "2.IH" [OF m "2.prems"(2)] by auto
  have "\<forall>(k, f) \<in> set (put_all m []). ptr_ok (length (heap s1)) f"
    using IH(3) put_all_set [of _ m "[]"] by fastforce
  then have "obj_ok (length (heap s1)) (blank_obj (put_all m []))"
    by (simp add: obj_ok_def blank_obj_def cache_ok_def sorted_put_all)
  then have "obj_ok (Suc (length (heap s1))) (blank_obj (put_all m []))" by (rule obj_ok_mono) simp
  from store_ok_alloc [OF IH(1) this] show ?case using IH(2) "2.prems"(1) by (auto simp: m)
next
  case (3 s)
  then show ?case by simp
next
  case (4 k v kvs s)
  obtain v' s1 where v': "load_value v s = (v', s1)" by fastforce
  obtain m' where m': "load_fields kvs s1 = (m', s')" "m = (k, plain_field v') # m'"
    using "4.prems"(1) by (auto simp: v' split: prod.splits)
  have V: "store_ok s1" "length (heap s) \<le> length (heap s1)" "valid (ptrs_of v') s1"
    using "4.IH"(1) [OF v' "4.prems"(2)] by auto
  have M: "store_ok s'" "length (heap s1) \<le> length (heap s')" "\<forall>(k, f) \<in> set m'. ptr_ok (length (heap s')) f"
    using "4.IH"(2) [OF v' [symmetric] m'(1) V(1)] by auto
  show ?case using M V valid_mono [OF V(3) M(2)]
    by (auto simp: m'(2) plain_field_def ptr_ok_ptrs valid_def)
qed

lemma keeps_load: "keeps A (load m) (\<lambda>a. {a})"
  unfolding keeps_def load_def
proof (intro allI impI)
  fix s r s' assume s: "store_ok s" and run: "(case load_dyn (Dyn m) s of (a, s') \<Rightarrow> (Inr a, s')) = (r, s')"
  obtain a s1 where l: "load_dyn (Dyn m) s = (a, s1)" by fastforce
  from load_ok(2) [OF l s] run
  show "store_ok s' \<and> length (heap s) \<le> length (heap s') \<and> (\<forall>x. r = Inr x \<longrightarrow> valid {x} s')"
    by (auto simp: l simp del: load_dyn.simps)
qed

lemma keeps_dump: "keeps A (dump a) (\<lambda>_. {})"
  by (simp add: keeps_def dump_def)

end
