(* ===== verification/Rmi_Describe.thy ===== *)
theory Rmi_Describe
  imports Payload
begin

text \<open>
  The metadata requests of the RMI server (\<open>handle_describe\<close>, \<open>handle_dictionary\<close>, \<open>handle_help\<close> of
  \<open>src/rmi/server/server.cpp\<close>): what they put into the response object. The registry's two maps are
  unordered in the code; the model lists them in key order, one of the orders the code may show.
\<close>

section \<open>Attributes\<close>

fun find_display :: "attribute list \<Rightarrow> string option" where
  "find_display [] = None"
| "find_display (a # as) = (case a of DisplayName t \<Rightarrow> Some t | _ \<Rightarrow> find_display as)"

fun find_description :: "attribute list \<Rightarrow> string option" where
  "find_description [] = None"
| "find_description (a # as) = (case a of Description t \<Rightarrow> Some t | _ \<Rightarrow> find_description as)"

fun find_category :: "attribute list \<Rightarrow> string option" where
  "find_category [] = None"
| "find_category (a # as) = (case a of Category t \<Rightarrow> Some t | _ \<Rightarrow> find_category as)"

fun find_obsolete :: "attribute list \<Rightarrow> string option" where
  "find_obsolete [] = None"
| "find_obsolete (a # as) = (case a of Obsolete t \<Rightarrow> Some t | _ \<Rightarrow> find_obsolete as)"

definition is_required :: "attribute list \<Rightarrow> bool" where
  "is_required as \<longleftrightarrow> Required \<in> set as"

text \<open>The attributes written as fields of a description, in the order of the writes.\<close>

definition attr_writes :: "attribute list \<Rightarrow> (hash_t \<times> addr field_base) list" where
  "attr_writes as =
     (case find_display as of Some t \<Rightarrow> [(FIELD_DISPLAY_NAME, StringV t)] | None \<Rightarrow> []) @
     (case find_description as of Some t \<Rightarrow> [(FIELD_DESCRIPTION, StringV t)] | None \<Rightarrow> []) @
     (case find_category as of Some t \<Rightarrow> [(FIELD_CATEGORY, StringV t)] | None \<Rightarrow> []) @
     (case find_obsolete as of
        Some t \<Rightarrow> (FIELD_OBSOLETE, BoolV True) # (if t \<noteq> [] then [(FIELD_OBSOLETE_MESSAGE, StringV t)] else [])
      | None \<Rightarrow> []) @
     (if is_required as then [(FIELD_REQUIRED, BoolV True)] else [])"

fun each :: "('x \<Rightarrow> unit action) \<Rightarrow> 'x list \<Rightarrow> unit action" where
  "each f [] = retA ()"
| "each f (x # xs) = bindA (f x) (\<lambda>_. each f xs)"

text \<open>\<open>apply_attrs\<close>, true when it wrote something; \<open>apply_method_attrs\<close> writes the same.\<close>

definition apply_attrs :: "addr \<Rightarrow> attribute list \<Rightarrow> bool action" where
  "apply_attrs desc as =
     bindA (each (\<lambda>(k, v). assign_key desc k v) (attr_writes as)) (\<lambda>_. retA (attr_writes as \<noteq> []))"

definition apply_method_attrs :: "addr \<Rightarrow> attribute list \<Rightarrow> bool action" where
  "apply_method_attrs desc as =
     bindA (each (\<lambda>(k, v). assign_key desc k v) (attr_writes as))
       (\<lambda>_. retA (\<exists>(k, v) \<in> set (attr_writes as). k \<noteq> FIELD_REQUIRED))"

section \<open>Describe\<close>

definition field_at :: "addr \<Rightarrow> hash_t \<Rightarrow> store \<Rightarrow> addr field" where
  "field_at a k s = (case map_of (fields_of s a) k of Some f \<Rightarrow> f | None \<Rightarrow> mono_field)"

text \<open>\<open>proto->findField(CLASS)\<close> and the attributes found there.\<close>

definition class_attrs :: "addr \<Rightarrow> attribute list option action" where
  "class_attrs proto =
     bindA (find_field proto CLASS) (\<lambda>hit s.
       (Inr (if hit then Some (f_attrs (field_at proto CLASS s)) else None), s))"

definition describe_class_attrs :: "addr \<Rightarrow> addr \<Rightarrow> unit action" where
  "describe_class_attrs desc proto =
     bindA (class_attrs proto) (\<lambda>as. case as of
         None \<Rightarrow> retA ()
       | Some as' \<Rightarrow> bindA (apply_attrs desc as') (\<lambda>_. retA ()))"

text \<open>Copying a whole field, \<open>resp[k] = v\<close>.\<close>

definition copy_field :: "addr \<Rightarrow> hash_t \<Rightarrow> addr field \<Rightarrow> unit action" where
  "copy_field a k f = bindA (index_key a k) (\<lambda>_ s. (Inr (), set_field a k f s))"

text \<open>The classes of all namespaces but \<open>"__envelope"\<close>.\<close>

definition listed_classes :: "store \<Rightarrow> (hash_t \<times> addr) list" where
  "listed_classes s = filter (\<lambda>(klass, _). klass \<noteq> CLASS_ENVELOPE) (concat (map snd (registry s)))"

fun describe_all :: "addr \<Rightarrow> hash_t \<Rightarrow> (hash_t \<times> addr) list \<Rightarrow> unit action" where
  "describe_all resp idx [] = retA ()"
| "describe_all resp idx ((klass, proto) # classes) =
     bindA (new_dynamic 0 []) (\<lambda>desc.
     bindA (assign_key desc FIELD_KLASS (KeyV klass)) (\<lambda>_.
     bindA (describe_class_attrs desc proto) (\<lambda>_.
     bindA (index_pos resp idx) (\<lambda>_.
     bindA (assign_at resp idx (PtrV (Some desc))) (\<lambda>_.
     describe_all resp (idx + 1) classes)))))"

definition internal_key :: "hash_t \<Rightarrow> bool" where
  "internal_key k \<longleftrightarrow> k = CLASS \<or> k = PARENT \<or> k = NAMESPACE"

text \<open>
  The fields of the prototype go into the response, their attributes into a second object; the
  result tells whether any field has one.
\<close>

fun describe_fields :: "addr \<Rightarrow> addr \<Rightarrow> bool \<Rightarrow> (hash_t \<times> addr field) list \<Rightarrow> bool action" where
  "describe_fields resp meta any [] = retA any"
| "describe_fields resp meta any ((k, v) # kvs) =
     bindA (copy_field resp k v) (\<lambda>_.
       if internal_key k then describe_fields resp meta any kvs
       else bindA (new_dynamic 0 []) (\<lambda>fmeta.
            bindA (apply_attrs fmeta (f_attrs v)) (\<lambda>applied.
              if applied then
                bindA (assign_key meta k (PtrV (Some fmeta))) (\<lambda>_. describe_fields resp meta True kvs)
              else describe_fields resp meta any kvs)))"

definition describe_method :: "addr \<Rightarrow> hash_t \<times> meth \<Rightarrow> unit action" where
  "describe_method meta km =
     bindA (new_dynamic 0 []) (\<lambda>mmeta.
     bindA (apply_method_attrs mmeta (m_attrs (snd km))) (\<lambda>_.
     assign_key meta (fst km) (PtrV (Some mmeta))))"

definition describe_class :: "addr \<Rightarrow> hash_t \<Rightarrow> addr \<Rightarrow> unit action" where
  "describe_class resp requested proto =
     bindA (assign_key resp FIELD_KLASS (KeyV requested)) (\<lambda>_.
     bindA (describe_class_attrs resp proto) (\<lambda>_.
     bindA (new_dynamic 0 []) (\<lambda>fields_meta.
     bindA (\<lambda>s. describe_fields resp fields_meta False (fields_of s proto) s) (\<lambda>has_field_meta.
     bindA (if has_field_meta then assign_key resp FIELD_FIELDS (PtrV (Some fields_meta)) else retA ()) (\<lambda>_.
     bindA (new_dynamic 0 []) (\<lambda>methods_meta.
     bindA (\<lambda>s. each (describe_method methods_meta) (o_methods (obj_at s proto)) s) (\<lambda>_ s.
       if o_methods (obj_at s proto) \<noteq> [] then assign_key resp FIELD_METHODS (PtrV (Some methods_meta)) s
       else retA () s)))))))"

text \<open>The first namespace that has the class.\<close>

fun search_class :: "class_table smap \<Rightarrow> hash_t \<Rightarrow> addr option" where
  "search_class [] klass = None"
| "search_class ((ns, col) # nss) klass =
     (case map_of col klass of Some p \<Rightarrow> Some p | None \<Rightarrow> search_class nss klass)"

text \<open>\<open>None\<close>: the class is unknown and an error response is due.\<close>

definition describe :: "hash_t \<Rightarrow> addr option action" where
  "describe requested =
     bindA (new_dynamic 0 []) (\<lambda>resp s.
       if requested = 0 then
         bindA (describe_all resp 0 (listed_classes s)) (\<lambda>_. retA (Some resp)) s
       else (case search_class (registry s) requested of
           None \<Rightarrow> (Inr None, s)
         | Some proto \<Rightarrow> bindA (describe_class resp requested proto) (\<lambda>_. retA (Some resp)) s))"

section \<open>The dictionary of display names\<close>

definition name_entry :: "addr \<Rightarrow> hash_t \<Rightarrow> attribute list \<Rightarrow> unit action" where
  "name_entry dict k as = (case find_display as of Some t \<Rightarrow> assign_key dict k (StringV t) | None \<Rightarrow> retA ())"

definition name_fields :: "addr \<Rightarrow> addr option \<Rightarrow> unit action" where
  "name_fields dict spec =
     (case spec of
        None \<Rightarrow> retA ()
      | Some d \<Rightarrow> (\<lambda>s. each (\<lambda>(k, f). name_entry dict k (f_attrs f)) (fields_of s d) s))"

definition dictionary_class :: "addr \<Rightarrow> hash_t \<times> addr \<Rightarrow> unit action" where
  "dictionary_class dict kp =
     bindA (class_attrs (snd kp)) (\<lambda>as.
     bindA (case as of Some as' \<Rightarrow> name_entry dict (fst kp) as' | None \<Rightarrow> retA ()) (\<lambda>_.
     bindA (\<lambda>s. each (\<lambda>(k, f). if internal_key k then retA () else name_entry dict k (f_attrs f))
              (fields_of s (snd kp)) s) (\<lambda>_ s.
       each (\<lambda>(k, m). bindA (name_entry dict k (m_attrs m)) (\<lambda>_.
           bindA (name_fields dict (m_input m)) (\<lambda>_. name_fields dict (m_output m))))
         (o_methods (obj_at s (snd kp))) s)))"

definition dictionary :: "addr action" where
  "dictionary =
     bindA (new_dynamic 0 []) (\<lambda>dict.
     bindA (\<lambda>s. each (dictionary_class dict) (listed_classes s) s) (\<lambda>_. retA dict))"

section \<open>Help\<close>

definition newline :: string where
  "newline = [CHR 0x0A]"

definition help_line :: "string \<Rightarrow> attribute list \<Rightarrow> string" where
  "help_line indent as =
     (case find_display as of
        None \<Rightarrow> []
      | Some t \<Rightarrow> indent @ t @
          (case find_description as of Some d \<Rightarrow> '' -- '' @ d | None \<Rightarrow> []) @ newline)"

text \<open>A group of lines under its heading, which appears only when there is a line.\<close>

definition help_group :: "string \<Rightarrow> attribute list list \<Rightarrow> string" where
  "help_group heading items =
     (case filter (\<lambda>as. find_display as \<noteq> None) items of
        [] \<Rightarrow> []
      | shown \<Rightarrow> ''    '' @ heading @ newline @ concat (map (help_line ''      '') shown))"

definition help_class :: "addr \<Rightarrow> string action" where
  "help_class proto =
     bindA (class_attrs proto) (\<lambda>as s.
       (Inr (case as of
            None \<Rightarrow> []
          | Some as' \<Rightarrow>
              if find_display as' = None then []
              else help_line ''  '' as' @
                help_group ''Fields:'' (map (\<lambda>kf. f_attrs (snd kf)) (filter (\<lambda>kf. \<not> internal_key (fst kf)) (fields_of s proto))) @
                help_group ''Methods:'' (map (\<lambda>km. m_attrs (snd km)) (o_methods (obj_at s proto)))), s))"

fun help_classes :: "(hash_t \<times> addr) list \<Rightarrow> string action" where
  "help_classes [] = retA []"
| "help_classes ((klass, proto) # classes) =
     bindA (help_class proto) (\<lambda>here. bindA (help_classes classes) (\<lambda>more. retA (here @ more)))"

definition help_text :: "string \<Rightarrow> string action" where
  "help_text preamble s =
     bindA (help_classes (listed_classes s)) (\<lambda>body.
       retA ((if preamble \<noteq> [] then preamble @ newline @ newline else []) @
         ''Registered classes:'' @ newline @ body)) s"

definition help_response :: "string \<Rightarrow> addr action" where
  "help_response preamble =
     bindA (help_text preamble) (\<lambda>text.
     bindA (new_dynamic 0 []) (\<lambda>resp.
     bindA (assign_key resp FIELD_DESCRIPTION (StringV text)) (\<lambda>_. retA resp)))"

section \<open>The metadata requests keep the object store sound\<close>

lemma keeps_state:
  assumes "\<And>s. store_ok s \<Longrightarrow> valid A s \<Longrightarrow> \<exists>A'. valid A' s \<and> keeps A' (f s) B"
  shows "keeps A (\<lambda>s. f s s) B"
  unfolding keeps_def
proof (intro allI impI)
  fix s r s' assume s: "store_ok s" "valid A s" "f s s = (r, s')"
  obtain A' where A': "valid A' s" "keeps A' (f s) B" using assms [OF s(1,2)] by blast
  show "store_ok s' \<and> length (heap s) \<le> length (heap s') \<and> (\<forall>x. r = Inr x \<longrightarrow> valid (B x) s')"
    using keepsD [OF A'(2) s(1) A'(1) s(3)] by blast
qed

lemma keeps_each: "(\<And>x. x \<in> set xs \<Longrightarrow> keeps A (f x) (\<lambda>_. {})) \<Longrightarrow> keeps A (each f xs) (\<lambda>_. {})"
  by (induction xs) (auto intro!: keeps_ret keeps_bind [where B = "\<lambda>_. {}"])

lemma keeps_if: "(b \<Longrightarrow> keeps A m B) \<Longrightarrow> (\<not> b \<Longrightarrow> keeps A m' B) \<Longrightarrow> keeps A (if b then m else m') B"
  by simp

lemma keeps_sub: "keeps A m B \<Longrightarrow> A \<subseteq> A' \<Longrightarrow> keeps A' m B"
  by (rule keeps_weaken) auto

lemma keeps_assign_plain: "a \<in> A \<Longrightarrow> ptrs_of v \<subseteq> A \<Longrightarrow> keeps A (assign_key a k v) (\<lambda>_. {})"
  by (rule keeps_sub [OF keeps_assign_key]) auto

lemma keeps_assign_ptr: "a \<in> A \<Longrightarrow> q \<in> A \<Longrightarrow> keeps A (assign_key a k (PtrV (Some q))) (\<lambda>_. {})"
  by (rule keeps_assign_plain) auto

lemma ptrs_of_plain [simp]: "ptrs_of (StringV t) = {}" "ptrs_of (BoolV b) = {}" "ptrs_of (Int32V i) = {}"
  by (simp_all add: ptrs_of_def)

lemma attr_writes_ptrs: "kv \<in> set (attr_writes as) \<Longrightarrow> ptrs_of (snd kv) = {}"
proof -
  have "\<forall>kv \<in> set (attr_writes as). ptrs_of (snd kv) = {}"
    by (auto simp: attr_writes_def split: option.split)
  then show "kv \<in> set (attr_writes as) \<Longrightarrow> ptrs_of (snd kv) = {}" by blast
qed

lemma keeps_attr_writes: "desc \<in> A \<Longrightarrow> keeps A (each (\<lambda>(k, v). assign_key desc k v) (attr_writes as)) (\<lambda>_. {})"
proof (rule keeps_each)
  fix kv assume d: "desc \<in> A" and kv: "kv \<in> set (attr_writes as)"
  have "keeps A (assign_key desc (fst kv) (snd kv)) (\<lambda>_. {})"
    by (rule keeps_assign_plain [OF d]) (simp add: attr_writes_ptrs [OF kv])
  then show "keeps A (case kv of (k, v) \<Rightarrow> assign_key desc k v) (\<lambda>_. {})" by (simp add: case_prod_unfold)
qed

lemma keeps_apply_attrs: "desc \<in> A \<Longrightarrow> keeps A (apply_attrs desc as) (\<lambda>_. {})"
  "desc \<in> A \<Longrightarrow> keeps A (apply_method_attrs desc as) (\<lambda>_. {})"
  unfolding apply_attrs_def apply_method_attrs_def
  by (intro keeps_bind [OF keeps_attr_writes] keeps_ret; simp)+

lemma keeps_read: "keeps A (\<lambda>s. (Inr (f s), s)) (\<lambda>_. {})"
  by (simp add: keeps_def)

lemma keeps_class_attrs: "proto \<in> A \<Longrightarrow> keeps A (class_attrs proto) (\<lambda>_. {})"
  unfolding class_attrs_def by (intro keeps_bind [OF keeps_sub [OF keeps_find_field]] keeps_read) auto

lemma keeps_describe_class_attrs: "desc \<in> A \<Longrightarrow> proto \<in> A \<Longrightarrow> keeps A (describe_class_attrs desc proto) (\<lambda>_. {})"
  unfolding describe_class_attrs_def
  by (intro keeps_bind [OF keeps_class_attrs])
     (auto intro!: keeps_ret keeps_bind [OF keeps_apply_attrs(1)] split: option.split)

text \<open>After a hit, and after \<open>operator[]\<close>, the field is there.\<close>

lemma fields_of_set_lookup [simp]: "fields_of (set_lookup a k b s) c = fields_of s c"
  by (cases "c = a"; cases "a < length (heap s)") (simp_all add: set_lookup_def update_obj_def list_update_beyond)

lemma cache_result_hit: "cache_result a k s = (Inr True, s') \<Longrightarrow> map_of (fields_of s' a) k \<noteq> None"
  by (auto simp: cache_result_def split: option.splits)

lemma find_field_hit:
  assumes "store_ok s" and "a < length (heap s)" and "find_field a k s = (Inr True, s')"
  shows "map_of (fields_of s' a) k \<noteq> None"
proof -
  have c: "cache_ok (obj_at s a)" using assms(1,2) by (auto simp: store_ok_def obj_ok_def)
  show ?thesis
  proof (cases "o_lookup (obj_at s a) k")
    case (Some hit)
    then show ?thesis using assms(3) c by (auto simp: find_field_def cache_ok_def)
  next
    case None
    show ?thesis
    proof (cases "map_of (fields_of s a) k")
      case (Some f)
      then show ?thesis using assms(3) None by (auto simp: find_field_def)
    next
      case absent: None
      have "\<exists>s1. cache_result a k s1 = (Inr True, s')"
        using assms(3) None absent
        by (auto simp: find_field_def bindA_def split: option.splits prod.splits sum.splits)
      then show ?thesis using cache_result_hit by blast
    qed
  qed
qed

lemma index_key_present:
  assumes "store_ok s" and "a < length (heap s)" and "index_key a k s = (Inr u, s')"
  shows "map_of (fields_of s' a) k \<noteq> None"
proof -
  obtain hit s1 where f: "find_field a k s = (Inr hit, s1)"
    using assms(3) by (auto simp: index_key_def bindA_def split: prod.splits sum.splits)
  have len: "a < length (heap s1)" using keepsD(2) [OF keeps_find_field assms(1) _ f] assms(2) by simp
  show ?thesis
  proof (cases hit)
    case True
    then show ?thesis using assms(3) f find_field_hit [OF assms(1,2)] by (auto simp: index_key_def bindA_def)
  next
    case False
    then have "s' = set_lookup a k True (fields_index a k s1)" using assms(3) f by (simp add: index_key_def bindA_def)
    then show ?thesis using len by (auto simp: fields_index_def set_field_def split: option.split)
  qed
qed

text \<open>A field of an object of a sound store may be copied into another object.\<close>

lemma keeps_set_after_index:
  "keeps (insert a (ptrs_of (f_base f))) (copy_field a k f) (\<lambda>_. {})"
  unfolding keeps_def
proof (intro allI impI)
  fix s r s' assume s: "store_ok s" "valid (insert a (ptrs_of (f_base f))) s" and run: "copy_field a k f s = (r, s')"
  obtain r1 s1 where i: "index_key a k s = (r1, s1)" by fastforce
  have va: "valid {a} s" using s(2) by simp
  note d = keepsD [OF keeps_index_key s(1) va i]
  show "store_ok s' \<and> length (heap s) \<le> length (heap s') \<and> (\<forall>x. r = Inr x \<longrightarrow> valid {} s')"
  proof (cases r1)
    case (Inl e)
    then show ?thesis using run d by (auto simp: copy_field_def bindA_def i)
  next
    case (Inr u)
    then have s': "s' = set_field a k f s1" using run by (auto simp: copy_field_def bindA_def i)
    have a1: "a < length (heap s1)" using va d(2) by simp
    have "map_of (fields_of s1 a) k \<noteq> None" using index_key_present [OF s(1) _ i [unfolded Inr]] va by simp
    then have "o_lookup (obj_at s1 a) k \<noteq> Some False"
      using d(1) a1 by (auto simp: store_ok_def obj_ok_def cache_ok_def)
    moreover have "ptr_ok (length (heap s1)) f" using s(2) by (intro ptr_ok_mono [OF _ d(2)]) (simp add: valid_ptrs)
    ultimately have "store_ok (set_field a k f s1)" by (intro store_ok_set_field d(1) a1)
    then show ?thesis using d(2) by (simp add: s' set_field_def update_obj_def)
  qed
qed

lemma keeps_copy_field: "a \<in> A \<Longrightarrow> ptrs_of (f_base f) \<subseteq> A \<Longrightarrow> keeps A (copy_field a k f) (\<lambda>_. {})"
  by (rule keeps_sub [OF keeps_set_after_index]) auto

lemma keeps_new: "keeps A (new_dynamic klass []) (\<lambda>a. {a})"
  by (rule keeps_new_dynamic)

lemma fields_ptrs:
  "store_ok s \<Longrightarrow> p < length (heap s) \<Longrightarrow> kf \<in> set (fields_of s p) \<Longrightarrow> valid (ptrs_of (f_base (snd kf))) s"
proof -
  assume "store_ok s" and "p < length (heap s)" and kf: "kf \<in> set (fields_of s p)"
  then have "obj_ok (length (heap s)) (obj_at s p)" by (intro store_okD)
  then show "valid (ptrs_of (f_base (snd kf))) s" using kf by (cases kf) (auto simp: obj_ok_def valid_ptrs)
qed

lemma fields_ptrs_all:
  "store_ok s \<Longrightarrow> p < length (heap s) \<Longrightarrow> valid (\<Union>kf \<in> set (fields_of s p). ptrs_of (f_base (snd kf))) s"
  using fields_ptrs by (fastforce simp: valid_def)

lemma listed_valid: "store_ok s \<Longrightarrow> valid (snd ` set (listed_classes s)) s"
  by (fastforce simp: store_ok_def registry_ok_def listed_classes_def valid_def)

lemma keeps_describe_all:
  "resp \<in> A \<Longrightarrow> snd ` set classes \<subseteq> A \<Longrightarrow> keeps A (describe_all resp idx classes) (\<lambda>_. {})"
proof (induction classes arbitrary: A idx)
  case Nil
  then show ?case by (simp add: keeps_ret)
next
  case (Cons kp classes)
  obtain klass proto where kp: "kp = (klass, proto)" by fastforce
  show ?case unfolding kp describe_all.simps
  proof (rule keeps_bind [OF keeps_new], rule keeps_bind)
    fix desc
    show "keeps (A \<union> {desc}) (assign_key desc FIELD_KLASS (KeyV klass)) (\<lambda>_. {})" by (rule keeps_assign_plain) auto
    show "keeps (A \<union> {desc} \<union> {}) (bindA (describe_class_attrs desc proto) (\<lambda>_. bindA (index_pos resp idx) (\<lambda>_.
        bindA (assign_at resp idx (PtrV (Some desc))) (\<lambda>_. describe_all resp (idx + 1) classes)))) (\<lambda>_. {})"
    proof (rule keeps_bind [OF keeps_describe_class_attrs], goal_cases)
      case 3
      have i: "keeps A' (index_pos resp idx) (\<lambda>_. {})" if "resp \<in> A'" for A'
        by (rule keeps_sub [OF keeps_index_pos]) (use that in auto)
      have as: "keeps A' (assign_at resp idx (PtrV (Some desc))) (\<lambda>_. {})" if "resp \<in> A'" "desc \<in> A'" for A'
        by (rule keeps_sub [OF keeps_assign_at]) (use that in auto)
      show ?case using Cons.prems
        by (intro keeps_bind [OF i] keeps_bind [OF as] Cons.IH) auto
    qed (use Cons.prems kp in auto)
  qed
qed

lemma keeps_describe_fields:
  "resp \<in> A \<Longrightarrow> meta \<in> A \<Longrightarrow> (\<Union>kf \<in> set kvs. ptrs_of (f_base (snd kf))) \<subseteq> A \<Longrightarrow>
   keeps A (describe_fields resp meta any kvs) (\<lambda>_. {})"
proof (induction kvs arbitrary: A any)
  case Nil
  then show ?case by (simp add: keeps_ret)
next
  case (Cons kf kvs)
  obtain k f where kf: "kf = (k, f)" by fastforce
  have c: "keeps A (copy_field resp k f) (\<lambda>_. {})" by (rule keeps_copy_field) (use Cons.prems kf in auto)
  have rest: "keeps A' (describe_fields resp meta b kvs) (\<lambda>_. {})" if "A \<subseteq> A'" for A' b
    by (rule Cons.IH) (use Cons.prems that in auto)
  have tail: "keeps (A \<union> {} \<union> {fmeta}) (bindA (apply_attrs fmeta (f_attrs f)) (\<lambda>applied.
      if applied then bindA (assign_key meta k (PtrV (Some fmeta))) (\<lambda>_. describe_fields resp meta True kvs)
      else describe_fields resp meta any kvs)) (\<lambda>_. {})" for fmeta
  proof (rule keeps_bind [OF keeps_apply_attrs(1)])
    fix applied
    have as: "keeps (A \<union> {} \<union> {fmeta} \<union> {}) (assign_key meta k (PtrV (Some fmeta))) (\<lambda>_. {})"
      by (rule keeps_assign_ptr) (use Cons.prems in auto)
    show "keeps (A \<union> {} \<union> {fmeta} \<union> {}) (if applied
        then bindA (assign_key meta k (PtrV (Some fmeta))) (\<lambda>_. describe_fields resp meta True kvs)
        else describe_fields resp meta any kvs) (\<lambda>_. {})"
      by (intro keeps_if keeps_bind [OF as] rest) auto
  qed simp
  show ?case unfolding kf describe_fields.simps
    by (intro keeps_bind [OF c] keeps_if keeps_bind [OF keeps_new] tail rest) auto
qed

lemma keeps_describe_method: "meta \<in> A \<Longrightarrow> keeps A (describe_method meta km) (\<lambda>_. {})"
  unfolding describe_method_def
  by (intro keeps_bind [OF keeps_new] keeps_bind [OF keeps_apply_attrs(2)] keeps_assign_ptr) auto

lemma keeps_each_state:
  assumes "\<And>x. keeps A (f x) (\<lambda>_. {})"
  shows "keeps A (\<lambda>s. each f (g s) s) (\<lambda>_. {})"
proof (rule keeps_state [where f = "\<lambda>s. each f (g s)"])
  fix s assume s: "valid A s"
  have "keeps A (each f (g s)) (\<lambda>_. {})" by (rule keeps_each) (rule assms)
  with s show "\<exists>A'. valid A' s \<and> keeps A' (each f (g s)) (\<lambda>_. {})" by blast
qed

lemma keeps_describe_class:
  assumes "resp \<in> A" and "proto \<in> A"
  shows "keeps A (describe_class resp requested proto) (\<lambda>_. {})"
proof -
  have fields: "keeps A' (\<lambda>s. describe_fields resp meta False (fields_of s proto) s) (\<lambda>_. {})"
    if "resp \<in> A'" "meta \<in> A'" "proto \<in> A'" for A' meta
  proof (rule keeps_state [where f = "\<lambda>s. describe_fields resp meta False (fields_of s proto)"])
    fix s assume s: "store_ok s" "valid A' s"
    let ?P = "\<Union>kf \<in> set (fields_of s proto). ptrs_of (f_base (snd kf))"
    have "valid (A' \<union> ?P) s" using fields_ptrs_all [OF s(1)] s(2) that(3) by (auto simp: valid_def)
    moreover have "keeps (A' \<union> ?P) (describe_fields resp meta False (fields_of s proto)) (\<lambda>_. {})"
      by (rule keeps_describe_fields) (use that in auto)
    ultimately show "\<exists>A''. valid A'' s \<and> keeps A'' (describe_fields resp meta False (fields_of s proto)) (\<lambda>_. {})" by blast
  qed
  have methods: "keeps A' (\<lambda>s. each (describe_method meta) (o_methods (obj_at s proto)) s) (\<lambda>_. {})" if "meta \<in> A'" for A' meta
    by (rule keeps_each_state) (rule keeps_describe_method [OF that])
  have last: "keeps A' (\<lambda>s. if o_methods (obj_at s proto) \<noteq> [] then assign_key resp FIELD_METHODS (PtrV (Some meta)) s
      else retA () s) (\<lambda>_. {})" if "resp \<in> A'" "meta \<in> A'" for A' meta
  proof -
    have "keeps A' (\<lambda>s. (if o_methods (obj_at s proto) \<noteq> [] then assign_key resp FIELD_METHODS (PtrV (Some meta))
        else retA ()) s) (\<lambda>_. {})"
    proof (rule keeps_state [where f = "\<lambda>s. if o_methods (obj_at s proto) \<noteq> []
          then assign_key resp FIELD_METHODS (PtrV (Some meta)) else retA ()"])
      fix s assume "store_ok s" "valid A' s"
      moreover have "keeps A' (if o_methods (obj_at s proto) \<noteq> [] then assign_key resp FIELD_METHODS (PtrV (Some meta))
          else retA ()) (\<lambda>_. {})"
        by (intro keeps_if keeps_assign_ptr keeps_ret) (use that in auto)
      ultimately show "\<exists>A''. valid A'' s \<and> keeps A'' (if o_methods (obj_at s proto) \<noteq> []
          then assign_key resp FIELD_METHODS (PtrV (Some meta)) else retA ()) (\<lambda>_. {})" by blast
    qed
    then show ?thesis by (simp only: if_distribR)
  qed
  have k: "keeps A (assign_key resp FIELD_KLASS (KeyV requested)) (\<lambda>_. {})" by (rule keeps_assign_plain) (use assms in auto)
  have opt: "keeps A' (if b then assign_key resp FIELD_FIELDS (PtrV (Some meta)) else retA ()) (\<lambda>_. {})"
    if "resp \<in> A'" "meta \<in> A'" for A' b meta
    by (intro keeps_if keeps_assign_ptr keeps_ret) (use that in auto)
  show ?thesis unfolding describe_class_def
  proof (rule keeps_bind [OF k], rule keeps_bind)
    show "keeps (A \<union> {}) (describe_class_attrs resp proto) (\<lambda>_. {})"
      by (rule keeps_describe_class_attrs) (use assms in auto)
    show "keeps (A \<union> {} \<union> {}) (bindA (new_dynamic 0 []) (\<lambda>fields_meta.
       bindA (\<lambda>s. describe_fields resp fields_meta False (fields_of s proto) s) (\<lambda>has_field_meta.
       bindA (if has_field_meta then assign_key resp FIELD_FIELDS (PtrV (Some fields_meta)) else retA ()) (\<lambda>_.
       bindA (new_dynamic 0 []) (\<lambda>methods_meta.
       bindA (\<lambda>s. each (describe_method methods_meta) (o_methods (obj_at s proto)) s) (\<lambda>_ s.
         if o_methods (obj_at s proto) \<noteq> [] then assign_key resp FIELD_METHODS (PtrV (Some methods_meta)) s
         else retA () s)))))) (\<lambda>_. {})"
    proof (rule keeps_bind [OF keeps_new], rule keeps_bind)
      fix fm
      let ?A = "A \<union> {} \<union> {} \<union> {fm}"
      show "keeps ?A (\<lambda>s. describe_fields resp fm False (fields_of s proto) s) (\<lambda>_. {})"
        by (rule fields) (use assms in auto)
      show "keeps (?A \<union> {}) (bindA (if b then assign_key resp FIELD_FIELDS (PtrV (Some fm)) else retA ()) (\<lambda>_.
       bindA (new_dynamic 0 []) (\<lambda>methods_meta.
       bindA (\<lambda>s. each (describe_method methods_meta) (o_methods (obj_at s proto)) s) (\<lambda>_ s.
         if o_methods (obj_at s proto) \<noteq> [] then assign_key resp FIELD_METHODS (PtrV (Some methods_meta)) s
         else retA () s)))) (\<lambda>_. {})" for b
      proof (rule keeps_bind)
        show "keeps (?A \<union> {}) (if b then assign_key resp FIELD_FIELDS (PtrV (Some fm)) else retA ()) (\<lambda>_. {})"
          by (rule opt) (use assms in auto)
        show "keeps (?A \<union> {} \<union> {}) (bindA (new_dynamic 0 []) (\<lambda>methods_meta.
          bindA (\<lambda>s. each (describe_method methods_meta) (o_methods (obj_at s proto)) s) (\<lambda>_ s.
            if o_methods (obj_at s proto) \<noteq> [] then assign_key resp FIELD_METHODS (PtrV (Some methods_meta)) s
            else retA () s))) (\<lambda>_. {})"
          by (rule keeps_bind [OF keeps_new], rule keeps_bind, rule methods, simp, rule last) (use assms in auto)
      qed
    qed
  qed
qed

lemma search_class_valid:
  assumes "store_ok s" and "search_class (registry s) klass = Some p"
  shows "p < length (heap s)"
proof -
  have "search_class nss klass = Some p \<Longrightarrow> \<exists>(ns, col) \<in> set nss. (klass, p) \<in> set col" for nss
    by (induction nss klass rule: search_class.induct) (auto split: option.splits dest: map_of_SomeD)
  then show ?thesis using assms by (fastforce simp: store_ok_def registry_ok_def)
qed

lemma keeps_describe: "keeps A (describe requested) option_set"
  unfolding describe_def
proof (rule keeps_bind [OF keeps_new])
  fix resp
  let ?f = "\<lambda>s. if requested = 0 then bindA (describe_all resp 0 (listed_classes s)) (\<lambda>_. retA (Some resp))
     else (case search_class (registry s) requested of None \<Rightarrow> retA None
       | Some proto \<Rightarrow> bindA (describe_class resp requested proto) (\<lambda>_. retA (Some resp)))"
  have "keeps (A \<union> {resp}) (\<lambda>s. ?f s s) option_set"
  proof (rule keeps_state [where f = ?f])
    fix s assume s: "store_ok s" "valid (A \<union> {resp}) s"
    have all: "keeps (A \<union> {resp} \<union> snd ` set (listed_classes s)) (describe_all resp 0 (listed_classes s)) (\<lambda>_. {})"
      by (rule keeps_describe_all) auto
    show "\<exists>A'. valid A' s \<and> keeps A' (?f s) option_set"
    proof (cases "search_class (registry s) requested")
      case None
      have "keeps (A \<union> {resp} \<union> snd ` set (listed_classes s)) (?f s) option_set"
        unfolding None option.case by (intro keeps_if keeps_bind [OF all] keeps_ret) auto
      then show ?thesis using s listed_valid [OF s(1)] by (intro exI conjI) auto
    next
      case (Some proto)
      have one: "keeps (A \<union> {resp} \<union> snd ` set (listed_classes s) \<union> {proto}) (describe_class resp requested proto) (\<lambda>_. {})"
        by (rule keeps_describe_class) auto
      have "keeps (A \<union> {resp} \<union> snd ` set (listed_classes s) \<union> {proto}) (?f s) option_set"
        unfolding Some option.case by (intro keeps_if keeps_bind [OF keeps_sub [OF all]] keeps_bind [OF one] keeps_ret) auto
      then show ?thesis using s listed_valid [OF s(1)] search_class_valid [OF s(1) Some] by (intro exI conjI) auto
    qed
  qed
  moreover have "(\<lambda>s. ?f s s) = (\<lambda>s. if requested = 0 then
         bindA (describe_all resp 0 (listed_classes s)) (\<lambda>_. retA (Some resp)) s
       else (case search_class (registry s) requested of
           None \<Rightarrow> (Inr None, s)
         | Some proto \<Rightarrow> bindA (describe_class resp requested proto) (\<lambda>_. retA (Some resp)) s))"
    by (auto simp: fun_eq_iff retA_def split: option.split)
  ultimately show "keeps (A \<union> {resp}) (\<lambda>s. if requested = 0 then
         bindA (describe_all resp 0 (listed_classes s)) (\<lambda>_. retA (Some resp)) s
       else (case search_class (registry s) requested of
           None \<Rightarrow> (Inr None, s)
         | Some proto \<Rightarrow> bindA (describe_class resp requested proto) (\<lambda>_. retA (Some resp)) s)) option_set" by simp
qed

lemma keeps_name_entry: "dict \<in> A \<Longrightarrow> keeps A (name_entry dict k as) (\<lambda>_. {})"
  by (auto simp: name_entry_def intro!: keeps_assign_plain keeps_ret split: option.split)

lemma keeps_dictionary_class: "dict \<in> A \<Longrightarrow> snd kp \<in> A \<Longrightarrow> keeps A (dictionary_class dict kp) (\<lambda>_. {})"
proof -
  assume d: "dict \<in> A" and p: "snd kp \<in> A"
  have opt: "keeps A' (case as of Some as' \<Rightarrow> name_entry dict (fst kp) as' | None \<Rightarrow> retA ()) (\<lambda>_. {})" if "dict \<in> A'" for A' as
    using that by (auto intro: keeps_name_entry keeps_ret split: option.split)
  have nf: "keeps A' (name_fields dict spec) (\<lambda>_. {})" if "dict \<in> A'" for A' spec
  proof (cases spec)
    case None
    then show ?thesis by (simp add: name_fields_def keeps_ret)
  next
    case (Some d)
    have "keeps A' (case kf of (k, f) \<Rightarrow> name_entry dict k (f_attrs f)) (\<lambda>_. {})" for kf :: "hash_t \<times> addr field"
      using that by (cases kf) (simp add: keeps_name_entry)
    then show ?thesis unfolding name_fields_def Some option.case by (rule keeps_each_state)
  qed
  have one: "keeps A' (case km of (k, m) \<Rightarrow> bindA (name_entry dict k (m_attrs m)) (\<lambda>_.
           bindA (name_fields dict (m_input m)) (\<lambda>_. name_fields dict (m_output m)))) (\<lambda>_. {})" if "dict \<in> A'" for A' km
  proof -
    obtain k m where km: "km = (k, m)" by fastforce
    show ?thesis unfolding km prod.case
      by (intro keeps_bind [OF keeps_name_entry] keeps_bind [OF nf] nf) (use that in auto)
  qed
  have fs: "keeps A' (\<lambda>s. each (\<lambda>(k, f). if internal_key k then retA () else name_entry dict k (f_attrs f))
      (fields_of s (snd kp)) s) (\<lambda>_. {})" if "dict \<in> A'" for A'
  proof (rule keeps_each_state)
    fix kf :: "hash_t \<times> addr field"
    show "keeps A' (case kf of (k, f) \<Rightarrow> if internal_key k then retA () else name_entry dict k (f_attrs f)) (\<lambda>_. {})"
      using that by (cases kf) (simp add: keeps_ret keeps_name_entry)
  qed
  show ?thesis unfolding dictionary_class_def
    by (intro keeps_bind [OF keeps_class_attrs] keeps_bind [OF opt] keeps_bind [OF fs] keeps_each_state one) (use d p in auto)
qed

lemma keeps_dictionary: "keeps A dictionary (\<lambda>a. {a})"
  unfolding dictionary_def
proof (rule keeps_bind [OF keeps_new], rule keeps_bind)
  fix dict
  show "keeps (A \<union> {dict}) (\<lambda>s. each (dictionary_class dict) (listed_classes s) s) (\<lambda>_. {})"
  proof (rule keeps_state [where f = "\<lambda>s. each (dictionary_class dict) (listed_classes s)"])
    fix s assume s: "store_ok s" "valid (A \<union> {dict}) s"
    have "keeps (A \<union> {dict} \<union> snd ` set (listed_classes s)) (each (dictionary_class dict) (listed_classes s)) (\<lambda>_. {})"
      by (rule keeps_each) (auto intro!: keeps_dictionary_class)
    then show "\<exists>A'. valid A' s \<and> keeps A' (each (dictionary_class dict) (listed_classes s)) (\<lambda>_. {})"
      using s listed_valid [OF s(1)] by (intro exI conjI) auto
  qed
qed (rule keeps_ret; simp)

lemma keeps_help_classes: "snd ` set classes \<subseteq> A \<Longrightarrow> keeps A (help_classes classes) (\<lambda>_. {})"
proof (induction classes arbitrary: A)
  case Nil
  then show ?case by (simp add: keeps_ret)
next
  case (Cons kp classes)
  obtain k p where kp: "kp = (k, p)" by fastforce
  have here: "keeps A (help_class p) (\<lambda>_. {})"
    unfolding help_class_def by (intro keeps_bind [OF keeps_class_attrs] keeps_read) (use Cons.prems kp in auto)
  have rest: "keeps (A \<union> {}) (help_classes classes) (\<lambda>_. {})" by (rule Cons.IH) (use Cons.prems in auto)
  show ?case unfolding kp help_classes.simps
    by (intro keeps_bind [OF here] keeps_bind [OF rest] keeps_ret) auto
qed

lemma keeps_help: "keeps A (help_response preamble) (\<lambda>a. {a})"
  unfolding help_response_def
proof (rule keeps_bind)
  show "keeps A (help_text preamble) (\<lambda>_. {})"
    unfolding help_text_def [abs_def]
  proof (rule keeps_state [where f = "\<lambda>s. bindA (help_classes (listed_classes s)) (\<lambda>body.
       retA ((if preamble \<noteq> [] then preamble @ newline @ newline else []) @ ''Registered classes:'' @ newline @ body))"])
    fix s assume s: "store_ok s" "valid A s"
    have h: "keeps (A \<union> snd ` set (listed_classes s)) (help_classes (listed_classes s)) (\<lambda>_. {})"
      by (rule keeps_help_classes) auto
    have "keeps (A \<union> snd ` set (listed_classes s)) (bindA (help_classes (listed_classes s)) (\<lambda>body.
       retA ((if preamble \<noteq> [] then preamble @ newline @ newline else []) @ ''Registered classes:'' @ newline @ body))) (\<lambda>_. {})"
      by (intro keeps_bind [OF h] keeps_ret) auto
    then show "\<exists>A'. valid A' s \<and> keeps A' (bindA (help_classes (listed_classes s)) (\<lambda>body.
       retA ((if preamble \<noteq> [] then preamble @ newline @ newline else []) @ ''Registered classes:'' @ newline @ body))) (\<lambda>_. {})"
      using s listed_valid [OF s(1)] by (intro exI conjI) auto
  qed
  show "keeps (A \<union> {}) (bindA (new_dynamic 0 []) (\<lambda>resp.
      bindA (assign_key resp FIELD_DESCRIPTION (StringV t)) (\<lambda>_. retA resp))) (\<lambda>a. {a})" for t
    by (intro keeps_bind [OF keeps_new] keeps_bind [OF keeps_assign_plain] keeps_ret) auto
qed

end
