(* ===== verification/Schema.thy ===== *)
theory Schema
  imports Codec
begin

text \<open>
  The schema mode of the object codec (\<open>serializeWithSchema\<close> and \<open>deserializeWithSchema\<close> of
  \<open>src/bison/bison_object.hpp\<close>): only values are written, in the field order of the registered
  classes along the prototype chain, an absent value as the default of the class.

  The registry holds the prototypes as \<open>addClass\<close> leaves them, so each carries its \<open>PARENT\<close> key.
\<close>

section \<open>Reading the class of an object\<close>

text \<open>\<open>as<key_t>(k)\<close> on a field map: an absent or empty field becomes the key 0.\<close>

definition tree_as_key :: "hash_t \<Rightarrow> dvalue smap \<Rightarrow> (hash_t \<times> dvalue smap) result" where
  "tree_as_key k m =
     (case map_of m k of
        None \<Rightarrow> Inr (0, map_put k (KeyV 0) m)
      | Some v \<Rightarrow> (case v of
            KeyV w \<Rightarrow> Inr (w, m)
          | Monostate \<Rightarrow> Inr (0, map_put k (KeyV 0) m)
          | _ \<Rightarrow> Inl Invalid_type))"

text \<open>\<open>resolveNamespace\<close>: absent or empty means global; another type cannot be overwritten.\<close>

definition tree_namespace :: "dvalue smap \<Rightarrow> (hash_t \<times> dvalue smap) result" where
  "tree_namespace m =
     (case map_of m NAMESPACE of
        None \<Rightarrow> Inr (0, map_put NAMESPACE (KeyV 0) m)
      | Some v \<Rightarrow> (case v of
            KeyV ns \<Rightarrow> Inr (ns, m)
          | Monostate \<Rightarrow> Inr (0, map_put NAMESPACE (KeyV 0) m)
          | _ \<Rightarrow> Inl Invalid_type))"

text \<open>\<open>it->second->as<key_t>(PARENT)\<close> on a prototype.\<close>

definition parent_of :: "class_info \<Rightarrow> hash_t result" where
  "parent_of ci = (case tree_as_key PARENT (ci_fields ci) of Inl e \<Rightarrow> Inl e | Inr (p, _) \<Rightarrow> Inr p)"

section \<open>The schema writer and reader\<close>

definition value_or_default :: "dvalue smap \<Rightarrow> hash_t \<times> dvalue \<Rightarrow> dvalue" where
  "value_or_default m kd = (case map_of m (fst kd) of Some v \<Rightarrow> v | None \<Rightarrow> snd kd)"

text \<open>
  The loops over the chain. A chain without a cycle visits each class of the collection at most
  once, so \<open>length col\<close> is fuel enough (\<open>chain_length\<close> below).
\<close>

fun schema_write :: "host \<Rightarrow> nat \<Rightarrow> class_map \<Rightarrow> dvalue smap \<Rightarrow> hash_t \<Rightarrow> buffer result" where
  "schema_write h fuel col m klass =
     (case map_of col klass of
        None \<Rightarrow> Inr []
      | Some ci \<Rightarrow> (case fuel of
            0 \<Rightarrow> Inl Fuel_exhausted
          | Suc fuel' \<Rightarrow>
              (let here = concat (map (\<lambda>kd. field_serialize h (value_or_default m kd)) (ci_fields ci))
               in case parent_of ci of
                    Inl e \<Rightarrow> Inl e
                  | Inr parent \<Rightarrow> (case schema_write h fuel' col m parent of
                        Inl e \<Rightarrow> Inl e | Inr bs \<Rightarrow> Inr (here @ bs)))))"

fun read_fields :: "dvalue reader \<Rightarrow> hash_t list \<Rightarrow> dvalue smap \<Rightarrow> dvalue smap reader" where
  "read_fields rd [] m = retR m"
| "read_fields rd (k # ks) m = seqR rd (\<lambda>v. read_fields rd ks (map_put k v m))"

fun schema_read :: "dvalue reader \<Rightarrow> nat \<Rightarrow> class_map \<Rightarrow> hash_t \<Rightarrow> dvalue smap \<Rightarrow> dvalue smap reader" where
  "schema_read rd fuel col klass m =
     (case map_of col klass of
        None \<Rightarrow> retR m
      | Some ci \<Rightarrow> (case fuel of
            0 \<Rightarrow> throwR Fuel_exhausted
          | Suc fuel' \<Rightarrow> seqR (read_fields rd (map fst (ci_fields ci)) m) (\<lambda>m'.
              case parent_of ci of
                Inl e \<Rightarrow> throwR e
              | Inr parent \<Rightarrow> schema_read rd fuel' col parent m')))"

declare schema_write.simps [simp del] schema_read.simps [simp del]

text \<open>\<open>serializeWithSchema\<close>: the bytes, and the object with its namespace made explicit.\<close>

definition serialize_with_schema :: "host \<Rightarrow> ns_map \<Rightarrow> dvalue smap \<Rightarrow> (buffer \<times> dvalue smap) result" where
  "serialize_with_schema h reg m =
     (case tree_as_key CLASS m of
        Inl e \<Rightarrow> Inl e
      | Inr (klass, m1) \<Rightarrow> (case tree_namespace m1 of
            Inl e \<Rightarrow> Inl e
          | Inr (ns, m2) \<Rightarrow>
              (let head = write_u32 ns @ write_u32 klass
               in case map_of reg ns of
                    None \<Rightarrow> Inr (head, m2)
                  | Some col \<Rightarrow> (case schema_write h (length col) col m2 klass of
                        Inl e \<Rightarrow> Inl e | Inr bs \<Rightarrow> Inr (head @ bs, m2)))))"

definition deserialize_with_schema :: "backend \<Rightarrow> ns_map \<Rightarrow> dvalue smap reader" where
  "deserialize_with_schema io reg =
     seqR (b_u32 io) (\<lambda>ns. seqR (b_u32 io) (\<lambda>klass.
       case map_of reg ns of
         None \<Rightarrow> retR (dyn_new 0 [])
       | Some col \<Rightarrow> schema_read (field_deserialize io reg) (length col) col klass (dyn_new 0 [])))"

section \<open>The chain\<close>

text \<open>The fields of the classes along the chain, in writing order, with the class defaults.\<close>

inductive chain :: "class_map \<Rightarrow> hash_t \<Rightarrow> hash_t list \<Rightarrow> (hash_t \<times> dvalue) list \<Rightarrow> bool" for col where
  chain_end: "map_of col klass = None \<Longrightarrow> chain col klass [] []"
| chain_step: "map_of col klass = Some ci \<Longrightarrow> parent_of ci = Inr parent \<Longrightarrow> chain col parent ks es \<Longrightarrow>
     chain col klass (klass # ks) (ci_fields ci @ es)"

inductive_cases chain_cases: "chain col klass ks es"

lemma chain_Some:
  "chain col klass ks es \<Longrightarrow> map_of col klass = Some ci \<Longrightarrow>
   \<exists>parent ks' es'. parent_of ci = Inr parent \<and> chain col parent ks' es' \<and>
     ks = klass # ks' \<and> es = ci_fields ci @ es'"
  by (erule chain_cases) auto

lemma chain_None: "chain col klass ks es \<Longrightarrow> map_of col klass = None \<Longrightarrow> ks = [] \<and> es = []"
  by (erule chain_cases) auto

lemma chain_unique: "chain col klass ks es \<Longrightarrow> chain col klass ks' es' \<Longrightarrow> ks' = ks \<and> es' = es"
proof (induction arbitrary: ks' es' rule: chain.induct)
  case (chain_end klass)
  then show ?case using chain_None by blast
next
  case (chain_step klass ci parent ks es)
  obtain p ks1 es1 where s: "parent_of ci = Inr p" "chain col p ks1 es1" "ks' = klass # ks1" "es' = ci_fields ci @ es1"
    using chain_Some [OF chain_step.prems chain_step.hyps(1)] by blast
  have "ks1 = ks \<and> es1 = es" using s(1,2) chain_step.hyps(2) by (intro chain_step.IH) simp
  then show ?case using s by simp
qed

lemma chain_suffix:
  "chain col klass ks es \<Longrightarrow> k \<in> set ks \<Longrightarrow> \<exists>ks' es'. chain col k ks' es' \<and> length ks' \<le> length ks"
proof (induction rule: chain.induct)
  case (chain_step klass ci parent ks es)
  note here = chain.chain_step [OF chain_step.hyps]
  show ?case
  proof (cases "k = klass")
    case True
    then show ?thesis using here by blast
  next
    case False
    then obtain ks' es' where "chain col k ks' es'" "length ks' \<le> length ks"
      using chain_step.IH chain_step.prems by auto
    then show ?thesis by (intro exI [of _ ks'] exI [of _ es']) simp
  qed
qed simp

text \<open>A chain that ends repeats no class, so it is no longer than the collection.\<close>

lemma chain_distinct: "chain col klass ks es \<Longrightarrow> distinct ks \<and> set ks \<subseteq> dom (map_of col)"
proof (induction rule: chain.induct)
  case (chain_step klass ci parent ks es)
  have "klass \<notin> set ks"
  proof
    assume "klass \<in> set ks"
    then obtain ks' es' where c: "chain col klass ks' es'" "length ks' \<le> length ks"
      using chain_suffix [OF chain_step.hyps(3)] by blast
    then show False using chain_unique [OF chain.chain_step [OF chain_step.hyps] c(1)] by auto
  qed
  then show ?case using chain_step by auto
qed simp

lemma chain_length: "chain col klass ks es \<Longrightarrow> length ks \<le> length col"
proof -
  assume "chain col klass ks es"
  then have "distinct ks" "set ks \<subseteq> fst ` set col"
    using chain_distinct by (auto simp: dom_map_of_conv_image_fst)
  then show ?thesis
    by (metis card_image_le card_length card_mono distinct_card finite_imageI finite_set le_trans)
qed

section \<open>Round trip\<close>

text \<open>What is written for an object, and what the reader makes of it.\<close>

definition written :: "dvalue smap \<Rightarrow> (hash_t \<times> dvalue) list \<Rightarrow> (hash_t \<times> dvalue) list" where
  "written m es = map (\<lambda>kd. (fst kd, value_or_default m kd)) es"

lemma written_simps [simp]:
  "written m [] = []" "written m (es @ fs) = written m es @ written m fs"
  "map fst (written m es) = map fst es"
  by (simp_all add: written_def comp_def)

lemma schema_write_chain:
  "chain col klass ks es \<Longrightarrow> length ks \<le> fuel \<Longrightarrow>
   schema_write h fuel col m klass = Inr (concat (map (\<lambda>(k, v). field_serialize h v) (written m es)))"
proof (induction arbitrary: fuel rule: chain.induct)
  case (chain_end klass)
  then show ?case by (simp add: schema_write.simps)
next
  case (chain_step klass ci parent ks es)
  then obtain fuel' where f: "fuel = Suc fuel'" "length ks \<le> fuel'" by (cases fuel) auto
  show ?case using chain_step.hyps chain_step.IH [OF f(2)]
    by (simp add: schema_write.simps [of h "Suc fuel'"] f(1) Let_def written_def comp_def)
qed

lemma read_fields_append:
  "read_fields rd (ks @ ks') m bs = seqR (read_fields rd ks m) (read_fields rd ks') bs"
proof (induction ks arbitrary: m bs)
  case Nil
  then show ?case by (simp add: seqR_def)
next
  case (Cons k ks)
  then show ?case by (simp add: seqR_def split: sum.splits prod.splits)
qed

lemma schema_read_chain:
  "chain col klass ks es \<Longrightarrow> length ks \<le> fuel \<Longrightarrow>
   schema_read rd fuel col klass m bs = read_fields rd (map fst es) m bs"
proof (induction arbitrary: fuel m bs rule: chain.induct)
  case (chain_end klass)
  then show ?case by (simp add: schema_read.simps)
next
  case (chain_step klass ci parent ks es)
  then obtain fuel' where f: "fuel = Suc fuel'" "length ks \<le> fuel'" by (cases fuel) auto
  show ?case using chain_step.hyps chain_step.IH [OF f(2)]
    by (simp add: schema_read.simps [of rd "Suc fuel'"] f(1) read_fields_append seqR_def split: sum.splits)
qed

lemma read_fields_written:
  assumes "\<And>v rest. v \<in> snd ` set es \<Longrightarrow> rd (enc v @ rest) = Inr (v, rest)"
  shows "read_fields rd (map fst es) m (concat (map (\<lambda>(k, v). enc v) es) @ rest) = Inr (put_all es m, rest)"
  using assms
proof (induction es arbitrary: m)
  case Nil
  then show ?case by simp
next
  case (Cons e es)
  obtain k v where e: "e = (k, v)" by fastforce
  have "rd (enc v @ concat (map (\<lambda>(k, v). enc v) es) @ rest) = Inr (v, concat (map (\<lambda>(k, v). enc v) es) @ rest)"
    using Cons.prems by (simp add: e)
  moreover have "read_fields rd (map fst es) (map_put k v m) (concat (map (\<lambda>(k, v). enc v) es) @ rest) =
      Inr (put_all es (map_put k v m), rest)"
    using Cons.prems by (intro Cons.IH) simp
  ultimately show ?case by (simp add: e)
qed

text \<open>
  Both directions of the schema mode, for an object whose class chain ends: the object's
  namespace is resolved, then every field of the chain carries the object's value or the
  class's default, and the reader collects exactly these, later classes overwriting earlier ones.
\<close>

lemma schema_roundtrip_chain:
  assumes cls: "tree_as_key CLASS m = Inr (klass, m1)" and ns: "tree_namespace m1 = Inr (ns, m2)"
    and col: "map_of reg ns = Some col" and ch: "chain col klass ks es"
    and wf: "\<forall>v \<in> snd ` set (written m2 es). wf_value reg v"
  shows "\<exists>bs. serialize_with_schema h reg m = Inr (bs, m2) \<and>
     deserialize_with_schema (deserializer md) reg (bs @ rest) = Inr (put_all (written m2 es) (dyn_new 0 []), rest)"
proof -
  let ?body = "concat (map (\<lambda>(k, v). field_serialize h v) (written m2 es))"
  have len: "length ks \<le> length col" using ch by (rule chain_length)
  have ser: "serialize_with_schema h reg m = Inr (write_u32 ns @ write_u32 klass @ ?body, m2)"
    using cls ns col schema_write_chain [OF ch len, of h m2]
    by (simp add: serialize_with_schema_def Let_def)
  have field: "field_deserialize (deserializer md) reg (field_serialize h v @ r) = Inr (v, r)"
    if "v \<in> snd ` set (written m2 es)" for v r
  proof -
    have "wf_value reg v" using that wf by blast
    from any_backend.decode_encode(1) [OF wf_value_fits [OF this], of md reg h r] reload_settled(1) [OF this]
    show ?thesis by simp
  qed
  have "read_fields (field_deserialize (deserializer md) reg) (map fst (written m2 es)) (dyn_new 0 []) (?body @ rest) =
      Inr (put_all (written m2 es) (dyn_new 0 []), rest)"
    by (rule read_fields_written [OF field])
  then have "deserialize_with_schema (deserializer md) reg (write_u32 ns @ write_u32 klass @ ?body @ rest) =
      Inr (put_all (written m2 es) (dyn_new 0 []), rest)"
    using col schema_read_chain [OF ch len]
    by (simp add: deserialize_with_schema_def write_u32_def any_backend.u32 seqR_def)
  with ser show ?thesis by (intro exI conjI) (auto simp: append_assoc)
qed

lemma chain_prototype:
  "chain col klass ks es \<Longrightarrow> k \<in> set ks \<Longrightarrow> \<exists>ci. map_of col k = Some ci \<and> set (ci_fields ci) \<subseteq> set es"
  by (induction rule: chain.induct) auto

lemma map_of_put_all_rev: "map_of (put_all kvs m) = map_of m ++ map_of (rev kvs)"
proof (induction kvs arbitrary: m)
  case (Cons kv kvs)
  then show ?case by (cases kv) (simp add: map_add_upd_left map_add_def fun_eq_iff split: option.splits)
qed simp

lemma map_of_written_rev:
  "map_of (rev (written m es)) k =
     (case map_of m k of Some v \<Rightarrow> if k \<in> fst ` set es then Some v else None | None \<Rightarrow> map_of (rev es) k)"
proof -
  have "map_of (map (\<lambda>kd. (fst kd, value_or_default m kd)) fs) k =
     (case map_of m k of Some v \<Rightarrow> if k \<in> fst ` set fs then Some v else None | None \<Rightarrow> map_of fs k)" for fs
    by (induction fs) (auto simp: value_or_default_def split: option.splits)
  from this [of "rev es", unfolded set_rev] show ?thesis by (simp add: written_def rev_map)
qed


text \<open>
  A child class \<open>20\<close> that overrides the default its parent \<open>10\<close> gives to field 1; the prototypes
  are as \<open>addClass\<close> leaves them.
\<close>

definition override_registry :: ns_map where
  "override_registry = [(0,
     [(10, \<lparr> ci_fields = [(1, Int32V 100), (CLASS, KeyV 10), (PARENT, KeyV 0), (NAMESPACE, KeyV 0)], ci_factory = None \<rparr>),
      (20, \<lparr> ci_fields = [(1, Int32V 200), (CLASS, KeyV 20), (PARENT, KeyV 10), (NAMESPACE, KeyV 0)], ci_factory = None \<rparr>)])]"

definition override_classes :: class_map where
  "override_classes = the (map_of override_registry 0)"

lemma override_chain:
  "chain override_classes 20 [20, 10]
     [(1, Int32V 200), (CLASS, KeyV 20), (PARENT, KeyV 10), (NAMESPACE, KeyV 0),
      (1, Int32V 100), (CLASS, KeyV 10), (PARENT, KeyV 0), (NAMESPACE, KeyV 0)]"
proof -
  have e: "chain override_classes 0 [] []"
    by (rule chain_end) (simp add: override_classes_def override_registry_def)
  have p: "chain override_classes 10 [10] [(1, Int32V 100), (CLASS, KeyV 10), (PARENT, KeyV 0), (NAMESPACE, KeyV 0)]"
    using chain_step [OF _ _ e, of 10 "\<lparr> ci_fields = [(1, Int32V 100), (CLASS, KeyV 10), (PARENT, KeyV 0), (NAMESPACE, KeyV 0)], ci_factory = None \<rparr>"]
    by (simp add: override_classes_def override_registry_def parent_of_def tree_as_key_def reserved_keys)
  show ?thesis
    using chain_step [OF _ _ p, of 20 "\<lparr> ci_fields = [(1, Int32V 200), (CLASS, KeyV 20), (PARENT, KeyV 10), (NAMESPACE, KeyV 0)], ci_factory = None \<rparr>"]
    by (simp add: override_classes_def override_registry_def parent_of_def tree_as_key_def reserved_keys)
qed


end
