(* ===== verification/Envelope.thy ===== *)
theory Envelope
  imports Schema
begin

text \<open>
  The RMI envelope: \<open>src/rmi/shared/envelope.cpp\<close> over the schemas of \<open>src/rmi/shared/schemas.hpp\<close>.
  Objects are field maps (an object that has cached no miss); the registered classes carry no
  attributes on the envelope's fields.
\<close>

section \<open>Access to the fields of an object value\<close>

definition bindE :: "'a result \<Rightarrow> ('a \<Rightarrow> 'b result) \<Rightarrow> 'b result" where
  "bindE r f = (case r of Inl e \<Rightarrow> Inl e | Inr x \<Rightarrow> f x)"

lemma bindE_simps [simp]: "bindE (Inr x) f = f x" "bindE (Inl e) f = Inl e"
  by (simp_all add: bindE_def)

text \<open>The prototype walk of \<open>findField\<close>: the field of the nearest class declaring it.\<close>

fun tree_walk :: "nat \<Rightarrow> class_map \<Rightarrow> hash_t \<Rightarrow> hash_t \<Rightarrow> dvalue option result" where
  "tree_walk fuel col klass name =
     (case map_of col klass of
        None \<Rightarrow> Inr None
      | Some ci \<Rightarrow> (case fuel of
            0 \<Rightarrow> Inl Fuel_exhausted
          | Suc fuel' \<Rightarrow> (case map_of (ci_fields ci) name of
                Some v \<Rightarrow> Inr (Some v)
              | None \<Rightarrow> bindE (parent_of ci) (\<lambda>parent. tree_walk fuel' col parent name))))"

declare tree_walk.simps [simp del]

text \<open>\<open>findField\<close>: whether the field is found, and the object with what was inherited.\<close>

definition tree_find :: "ns_map \<Rightarrow> hash_t \<Rightarrow> dvalue smap \<Rightarrow> (bool \<times> dvalue smap) result" where
  "tree_find reg name m =
     (case map_of m name of
        Some _ \<Rightarrow> Inr (True, m)
      | None \<Rightarrow> bindE (tree_namespace m) (\<lambda>(ns, m1).
          case map_of reg ns of
            None \<Rightarrow> Inr (map_of m1 name \<noteq> None, m1)
          | Some col \<Rightarrow> bindE (tree_as_key CLASS m1) (\<lambda>(klass, m2).
              bindE (tree_walk (length col) col klass name) (\<lambda>r. case r of
                None \<Rightarrow> Inr (map_of m2 name \<noteq> None, m2)
              | Some v \<Rightarrow> Inr (True, map_emplace name v m2)))))"

text \<open>\<open>operator[](key_t)\<close>, and assignment of a value through it.\<close>

definition tree_index :: "ns_map \<Rightarrow> hash_t \<Rightarrow> dvalue smap \<Rightarrow> dvalue smap result" where
  "tree_index reg name m =
     bindE (tree_find reg name m) (\<lambda>(hit, m'). Inr (if hit then m' else map_put name Monostate m'))"

definition tree_value :: "dvalue smap \<Rightarrow> hash_t \<Rightarrow> dvalue" where
  "tree_value m k = (case map_of m k of Some v \<Rightarrow> v | None \<Rightarrow> Monostate)"

definition tree_set :: "ns_map \<Rightarrow> hash_t \<Rightarrow> dvalue \<Rightarrow> dvalue smap \<Rightarrow> dvalue smap result" where
  "tree_set reg name v m =
     bindE (tree_index reg name m) (\<lambda>m'.
       bindE (field_assign (plain_field (tree_value m' name)) v) (\<lambda>f. Inr (map_put name (f_base f) m')))"

fun set_all :: "ns_map \<Rightarrow> (hash_t \<times> dvalue) list \<Rightarrow> dvalue smap \<Rightarrow> dvalue smap result" where
  "set_all reg [] m = Inr m"
| "set_all reg ((k, v) # kvs) m = bindE (tree_set reg k v m) (set_all reg kvs)"

text \<open>\<open>obj[k] = field\<close>: the whole field is copied, whatever the type of the old one.\<close>

fun copy_fields :: "ns_map \<Rightarrow> (hash_t \<times> dvalue) list \<Rightarrow> dvalue smap \<Rightarrow> dvalue smap result" where
  "copy_fields reg [] m = Inr m"
| "copy_fields reg ((k, v) # kvs) m =
     (if k = CLASS then copy_fields reg kvs m
      else bindE (tree_index reg k m) (\<lambda>m'. copy_fields reg kvs (map_put k v m')))"

text \<open>Reading a field: \<open>decoded.x = out[k]\<close> converts, \<open>out[k].as<buffer>()\<close> does not.\<close>

definition tree_get :: "ns_map \<Rightarrow> hash_t \<Rightarrow> (dvalue \<Rightarrow> 'a result) \<Rightarrow> dvalue smap \<Rightarrow> ('a \<times> dvalue smap) result" where
  "tree_get reg k conv m =
     bindE (tree_index reg k m) (\<lambda>m'. bindE (conv (tree_value m' k)) (\<lambda>x. Inr (x, m')))"

definition as_bytes :: "dvalue \<Rightarrow> buffer result" where
  "as_bytes v = (case v of VecByteV bs \<Rightarrow> Inr bs | Monostate \<Rightarrow> Inr [] | _ \<Rightarrow> Inl Invalid_type)"

section \<open>Schemas\<close>

text \<open>The prototypes \<open>register_all_schemas\<close> puts into the global namespace.\<close>

definition registered_schema :: "hash_t \<Rightarrow> (hash_t \<times> dvalue) list \<Rightarrow> dvalue smap" where
  "registered_schema klass kvs =
     map_put NAMESPACE (KeyV 0) (map_put PARENT (KeyV 0) (dyn_new klass (put_all kvs [])))"

definition error_schema :: "dvalue smap" where
  "error_schema = registered_schema CLASS_ERROR
     [(FIELD_ERROR_CODE, KeyV 0), (FIELD_ERROR_MESSAGE, StringV []), (FIELD_ERROR_DETAILS, PtrV None)]"

definition envelope_schema :: "dvalue smap" where
  "envelope_schema = registered_schema CLASS_ENVELOPE
     [(FIELD_VERSION, Int32V 1), (FIELD_KIND, KeyV 0), (FIELD_OP, KeyV 0), (FIELD_REQUEST_ID, KeyV 0),
      (FIELD_OBJECT_ID, KeyV 0), (FIELD_GROUP, KeyV 0), (FIELD_PAYLOAD, VecByteV []),
      (FIELD_ERROR, VecByteV []), (FIELD_WITH_SCHEMA, BoolV False), (FIELD_ONEWAY, BoolV False)]"

definition register_all_schemas :: "ns_map \<Rightarrow> ns_map" where
  "register_all_schemas reg =
     (let col = (case map_of reg 0 of Some col \<Rightarrow> col | None \<Rightarrow> []);
          add = (\<lambda>k fs. map_emplace k \<lparr> ci_fields = fs, ci_factory = None \<rparr>)
      in map_put 0 (add CLASS_ENVELOPE envelope_schema (add CLASS_ERROR error_schema col)) reg)"

section \<open>The envelope\<close>

record envelope =
  env_version :: u32
  env_kind :: hash_t
  env_op :: hash_t
  env_request_id :: hash_t
  env_object_id :: hash_t
  env_group :: hash_t
  env_payload :: "dvalue smap"
  env_error :: "dvalue smap"
  env_with_schema :: bool
  env_oneway :: bool

definition new_envelope :: envelope where
  "new_envelope = \<lparr> env_version = PROTOCOL_VERSION, env_kind = 0, env_op = 0, env_request_id = 0,
     env_object_id = 0, env_group = 0, env_payload = dyn_new 0 [], env_error = dyn_new 0 [],
     env_with_schema = False, env_oneway = False \<rparr>"

definition normalize_error_payload :: "ns_map \<Rightarrow> dvalue smap \<Rightarrow> dvalue smap result" where
  "normalize_error_payload reg err = copy_fields reg err (dyn_new CLASS_ERROR [])"

definition encode_payload :: "host \<Rightarrow> ns_map \<Rightarrow> envelope \<Rightarrow> buffer result" where
  "encode_payload h reg e =
     (if env_with_schema e
      then bindE (serialize_with_schema h reg (env_payload e)) (\<lambda>(bs, _). Inr bs)
      else Inr (dynamic_serialize h (Dyn (env_payload e))))"

text \<open>\<open>envelope::encode\<close>; an error is present when \<open>findField(FIELD_ERROR_CODE)\<close> finds one.\<close>

definition encode :: "host \<Rightarrow> ns_map \<Rightarrow> envelope \<Rightarrow> buffer result" where
  "encode h reg e =
     bindE (encode_payload h reg e) (\<lambda>buf.
     bindE (set_all reg
        [(FIELD_VERSION, Int32V (env_version e)), (FIELD_KIND, KeyV (env_kind e)), (FIELD_OP, KeyV (env_op e)),
         (FIELD_REQUEST_ID, KeyV (env_request_id e)), (FIELD_OBJECT_ID, KeyV (env_object_id e)),
         (FIELD_GROUP, KeyV (env_group e)), (FIELD_WITH_SCHEMA, BoolV (env_with_schema e)),
         (FIELD_PAYLOAD, VecByteV buf)] (dyn_new CLASS_ENVELOPE [])) (\<lambda>env.
     bindE (bindE (tree_find reg FIELD_ERROR_CODE (env_error e)) (\<lambda>(hit, err).
        if hit then
          bindE (normalize_error_payload reg err) (\<lambda>norm.
          bindE (serialize_with_schema h reg norm) (\<lambda>(error_buffer, _).
            set_all reg [(FIELD_ERROR, VecByteV error_buffer)] env))
        else Inr env)) (\<lambda>env1.
     bindE (set_all reg [(FIELD_ONEWAY, BoolV (env_oneway e))] env1) (\<lambda>env2.
     bindE (serialize_with_schema h reg env2) (\<lambda>(out, _). Inr out)))))"

definition decode_fields :: "ns_map \<Rightarrow> dvalue smap \<Rightarrow> (envelope \<times> dvalue smap) result" where
  "decode_fields reg out0 =
     bindE (tree_get reg FIELD_VERSION cast_int32 out0) (\<lambda>(version, out1).
     bindE (tree_get reg FIELD_KIND cast_key out1) (\<lambda>(kind, out2).
     bindE (tree_get reg FIELD_OP cast_key out2) (\<lambda>(op, out3).
     bindE (tree_get reg FIELD_REQUEST_ID cast_key out3) (\<lambda>(request_id, out4).
     bindE (tree_get reg FIELD_OBJECT_ID cast_key out4) (\<lambda>(object_id, out5).
     bindE (tree_get reg FIELD_GROUP cast_key out5) (\<lambda>(group, out6).
     bindE (tree_get reg FIELD_WITH_SCHEMA cast_bool out6) (\<lambda>(with_schema, out7).
     bindE (tree_get reg FIELD_ONEWAY cast_bool out7) (\<lambda>(oneway, out8).
       Inr (\<lparr> env_version = version, env_kind = kind, env_op = op, env_request_id = request_id,
              env_object_id = object_id, env_group = group, env_payload = dyn_new 0 [],
              env_error = dyn_new 0 [], env_with_schema = with_schema, env_oneway = oneway \<rparr>, out8)))))))))"

definition decode :: "ns_map \<Rightarrow> buffer \<Rightarrow> envelope result" where
  "decode reg bytes =
     bindE (deserialize_with_schema buffer_deserializer reg bytes) (\<lambda>(out, _).
     bindE (decode_fields reg out) (\<lambda>(e, out1).
     bindE (tree_get reg FIELD_PAYLOAD as_bytes out1) (\<lambda>(payload_bytes, out2).
     bindE (if env_with_schema e then deserialize_with_schema buffer_deserializer reg payload_bytes
            else dynamic_deserialize buffer_deserializer reg payload_bytes) (\<lambda>(payload, _).
     bindE (tree_get reg FIELD_ERROR as_bytes out2) (\<lambda>(error_bytes, _).
       if error_bytes = [] then Inr (e\<lparr> env_payload := payload \<rparr>)
       else bindE (deserialize_with_schema buffer_deserializer reg error_bytes) (\<lambda>(err, _).
         Inr (e\<lparr> env_payload := payload, env_error := err \<rparr>)))))))"

section \<open>Envelopes survive the wire\<close>

lemma error_schema_eq:
  "error_schema =
     [(FIELD_ERROR_MESSAGE, StringV []), (CLASS, KeyV CLASS_ERROR), (FIELD_ERROR_DETAILS, PtrV None),
      (FIELD_ERROR_CODE, KeyV 0), (NAMESPACE, KeyV 0), (PARENT, KeyV 0)]"
  by (simp add: error_schema_def registered_schema_def dyn_new_def token_values)

lemma envelope_schema_eq:
  "envelope_schema =
     [(FIELD_WITH_SCHEMA, BoolV False), (FIELD_OBJECT_ID, KeyV 0), (CLASS, KeyV CLASS_ENVELOPE),
      (FIELD_OP, KeyV 0), (FIELD_KIND, KeyV 0), (FIELD_GROUP, KeyV 0), (FIELD_REQUEST_ID, KeyV 0),
      (NAMESPACE, KeyV 0), (FIELD_PAYLOAD, VecByteV []), (FIELD_ONEWAY, BoolV False),
      (FIELD_VERSION, Int32V 1), (PARENT, KeyV 0), (FIELD_ERROR, VecByteV [])]"
  by (simp add: envelope_schema_def registered_schema_def dyn_new_def token_values)

text \<open>A registry in which the schemas are registered and the key 0 names no class.\<close>

definition schemas_registered :: "ns_map \<Rightarrow> bool" where
  "schemas_registered reg \<longleftrightarrow> (\<exists>col. map_of reg 0 = Some col \<and> map_of col 0 = None \<and>
     map_of col CLASS_ENVELOPE = Some \<lparr> ci_fields = envelope_schema, ci_factory = None \<rparr> \<and>
     map_of col CLASS_ERROR = Some \<lparr> ci_fields = error_schema, ci_factory = None \<rparr>)"

lemma register_all_schemas_registered: "schemas_registered (register_all_schemas [])"
  by (simp add: schemas_registered_def register_all_schemas_def Let_def map_of_map_emplace token_values)

text \<open>An object of a root class of the global namespace, under construction.\<close>

definition root_class :: "ns_map \<Rightarrow> hash_t \<Rightarrow> dvalue smap \<Rightarrow> bool" where
  "root_class reg klass schema \<longleftrightarrow> (\<exists>col. map_of reg 0 = Some col \<and> map_of col 0 = None \<and>
     map_of col klass = Some \<lparr> ci_fields = schema, ci_factory = None \<rparr> \<and>
     map_of schema PARENT = Some (KeyV 0) \<and> map_of schema CLASS = Some (KeyV klass) \<and>
     map_of schema NAMESPACE = Some (KeyV 0))"

lemma envelope_root: "schemas_registered reg \<Longrightarrow> root_class reg CLASS_ENVELOPE envelope_schema"
  by (auto simp: schemas_registered_def root_class_def envelope_schema_eq token_values)

lemma error_root: "schemas_registered reg \<Longrightarrow> root_class reg CLASS_ERROR error_schema"
  by (auto simp: schemas_registered_def root_class_def error_schema_eq token_values)

lemma root_chain:
  assumes "root_class reg klass schema"
  obtains col where "map_of reg 0 = Some col" "chain col klass [klass] schema"
proof -
  obtain col where col: "map_of reg 0 = Some col" "map_of col 0 = None"
      "map_of col klass = Some \<lparr> ci_fields = schema, ci_factory = None \<rparr>"
      "map_of schema PARENT = Some (KeyV 0)"
    using assms by (auto simp: root_class_def)
  have "chain col klass (klass # []) (ci_fields \<lparr> ci_fields = schema, ci_factory = None \<rparr> @ [])"
    by (rule chain_step [OF col(3) _ chain_end [OF col(2)]]) (simp add: parent_of_def tree_as_key_def col(4))
  with col(1) show ?thesis using that by simp
qed

definition building :: "hash_t \<Rightarrow> dvalue smap \<Rightarrow> bool" where
  "building klass m \<longleftrightarrow> map_of m CLASS = Some (KeyV klass) \<and>
     (map_of m NAMESPACE = None \<or> map_of m NAMESPACE = Some (KeyV 0))"

definition put_namespace :: "dvalue smap \<Rightarrow> dvalue smap" where
  "put_namespace m = (if map_of m NAMESPACE = None then map_put NAMESPACE (KeyV 0) m else m)"

lemma building_namespace:
  assumes "building klass m"
  shows "tree_namespace m = Inr (0, put_namespace m)"
    and "map_of (put_namespace m) = (map_of m)(NAMESPACE \<mapsto> KeyV 0)"
  using assms by (auto simp: building_def put_namespace_def tree_namespace_def)

lemma tree_find_new:
  assumes root: "root_class reg klass schema" and m: "building klass m" and k: "map_of m k = None"
    and d: "map_of schema k = Some d"
  shows "tree_find reg k m = Inr (True, map_emplace k d (put_namespace m))"
proof -
  obtain col where col: "map_of reg 0 = Some col"
      "map_of col klass = Some \<lparr> ci_fields = schema, ci_factory = None \<rparr>"
    using root by (auto simp: root_class_def)
  note ns = building_namespace [OF m]
  have as: "tree_as_key CLASS (put_namespace m) = Inr (klass, put_namespace m)"
    using m CLASS_NAMESPACE_PARENT by (auto simp: tree_as_key_def building_def ns(2))
  obtain n where n: "length col = Suc n" using col(2) by (cases col) auto
  have w: "tree_walk (length col) col klass k = Inr (Some d)"
    by (simp add: tree_walk.simps n col(2) d)
  show ?thesis
    unfolding tree_find_def k ns(1) by (simp only: option.case bindE_simps prod.case col(1) as w)
qed

lemma tree_set_new:
  assumes root: "root_class reg klass schema" and m: "building klass m" and k: "map_of m k = None" "k \<noteq> NAMESPACE"
    and d: "map_of schema k = Some d" "type_of d = type_of v"
  shows "\<exists>m'. tree_set reg k v m = Inr m' \<and> building klass m' \<and>
    map_of m' = (map_of m)(NAMESPACE \<mapsto> KeyV 0, k \<mapsto> v)"
proof -
  have kC: "k \<noteq> CLASS" using m k by (auto simp: building_def)
  let ?m1 = "put_namespace m"
  note m1 = building_namespace(2) [OF m]
  have m1k: "map_of ?m1 k = None" using k by (simp add: m1)
  then have old: "map_of (map_emplace k d ?m1) k = Some d" by (simp only: map_of_map_emplace) simp
  have "tree_set reg k v m = Inr (map_put k v (map_emplace k d ?m1))"
    using d by (simp add: tree_set_def tree_index_def tree_find_new [OF root m k(1) d(1)] tree_value_def old
        field_assign_def plain_field_def field_is_def)
  moreover have new: "map_of (map_put k v (map_emplace k d ?m1)) = (map_of m)(NAMESPACE \<mapsto> KeyV 0, k \<mapsto> v)"
    using m1k by (simp add: map_of_map_emplace m1)
  moreover have "building klass (map_put k v (map_emplace k d ?m1))"
    unfolding building_def new using m kC k(2) CLASS_NAMESPACE_PARENT by (auto simp: building_def)
  ultimately show ?thesis by blast
qed

text \<open>Setting several fresh fields, each with a value of its schema type.\<close>

definition typed_by :: "dvalue smap \<Rightarrow> hash_t \<times> dvalue \<Rightarrow> bool" where
  "typed_by schema kv \<longleftrightarrow> fst kv \<noteq> NAMESPACE \<and>
     (\<exists>d. map_of schema (fst kv) = Some d \<and> type_of d = type_of (snd kv))"

lemma set_all_new:
  assumes "root_class reg klass schema" and "building klass m" and "map_of m NAMESPACE = Some (KeyV 0)"
    and "distinct (map fst kvs)" and "\<forall>kv \<in> set kvs. map_of m (fst kv) = None \<and> typed_by schema kv"
  shows "\<exists>m'. set_all reg kvs m = Inr m' \<and> building klass m' \<and> map_of m' = map_of m ++ map_of kvs"
  using assms(2-)
proof (induction kvs arbitrary: m)
  case Nil
  then show ?case by simp
next
  case (Cons kv kvs)
  obtain k v where kv: "kv = (k, v)" by fastforce
  obtain d where d: "map_of schema k = Some d" "type_of d = type_of v" and kn: "k \<noteq> NAMESPACE"
    using Cons.prems(4) by (auto simp: kv typed_by_def)
  have k: "map_of m k = None" using Cons.prems(4) by (simp add: kv)
  from tree_set_new [OF assms(1) Cons.prems(1) k kn d]
  obtain m1 where m1: "tree_set reg k v m = Inr m1" "building klass m1"
      "map_of m1 = (map_of m)(NAMESPACE \<mapsto> KeyV 0, k \<mapsto> v)" by blast
  have m1': "map_of m1 = (map_of m)(k \<mapsto> v)" using m1(3) Cons.prems(2) by (simp add: fun_upd_idem)
  have "\<exists>m'. set_all reg kvs m1 = Inr m' \<and> building klass m' \<and> map_of m' = map_of m1 ++ map_of kvs"
    using Cons.prems m1(2) kn by (intro Cons.IH) (auto simp: kv m1')
  then obtain m' where m': "set_all reg kvs m1 = Inr m'" "building klass m'" "map_of m' = map_of m1 ++ map_of kvs"
    by blast
  have "k \<notin> dom (map_of kvs)" using Cons.prems(3) by (simp add: kv dom_map_of_conv_image_fst)
  then have "map_of m' = map_of m ++ map_of (kv # kvs)"
    unfolding m'(3) m1' kv by (auto simp: fun_eq_iff map_add_def split: option.splits)
  moreover have "set_all reg (kv # kvs) m = Inr m'" by (simp add: kv m1(1) m'(1))
  ultimately show ?case using m'(2) by blast
qed

text \<open>
  A root-class object of which every written value has the form a reader returns arrives with
  exactly the written fields.
\<close>

lemma root_roundtrip:
  assumes root: "root_class reg klass schema" and m: "building klass m" "map_of m NAMESPACE = Some (KeyV 0)"
    and wf: "\<forall>v \<in> snd ` set (written m schema). wf_value reg v"
  shows "\<exists>bs. serialize_with_schema h reg m = Inr (bs, m) \<and>
     deserialize_with_schema (deserializer md) reg (bs @ rest) = Inr (put_all (written m schema) (dyn_new 0 []), rest)"
proof -
  obtain col where col: "map_of reg 0 = Some col" "chain col klass [klass] schema"
    using root_chain [OF root] by blast
  have "tree_as_key CLASS m = Inr (klass, m)" using m by (simp add: tree_as_key_def building_def)
  moreover have "tree_namespace m = Inr (0, m)" using m by (simp add: tree_namespace_def)
  ultimately show ?thesis using schema_roundtrip_chain [OF _ _ col wf] by blast
qed

lemma building_new: "building klass (dyn_new klass [])"
  using CLASS_NAMESPACE_PARENT by (simp add: building_def dyn_new_def)

lemma set_all_start:
  assumes "root_class reg klass schema" and "kvs \<noteq> []" and "distinct (map fst kvs)"
    and "\<forall>kv \<in> set kvs. fst kv \<noteq> CLASS \<and> typed_by schema kv"
  shows "\<exists>m'. set_all reg kvs (dyn_new klass []) = Inr m' \<and> building klass m' \<and>
    map_of m' = [CLASS \<mapsto> KeyV klass, NAMESPACE \<mapsto> KeyV 0] ++ map_of kvs"
proof -
  obtain k v rest where kvs: "kvs = (k, v) # rest" using assms(2) by (cases kvs) auto
  have kC: "k \<noteq> CLASS" and kn: "k \<noteq> NAMESPACE" using assms(4) by (auto simp: kvs typed_by_def)
  obtain d where d: "map_of schema k = Some d" "type_of d = type_of v"
    using assms(4) by (auto simp: kvs typed_by_def)
  have "map_of (dyn_new klass []) k = None" using kC by (simp add: dyn_new_def)
  from tree_set_new [OF assms(1) building_new this kn d]
  obtain m1 where m1: "tree_set reg k v (dyn_new klass []) = Inr m1" "building klass m1"
      "map_of m1 = [CLASS \<mapsto> KeyV klass, NAMESPACE \<mapsto> KeyV 0, k \<mapsto> v]"
    by (auto simp: dyn_new_def)
  have "\<exists>m'. set_all reg rest m1 = Inr m' \<and> building klass m' \<and> map_of m' = map_of m1 ++ map_of rest"
    by (rule set_all_new [OF assms(1) m1(2)])
       (use assms(3,4) kn in \<open>auto simp: kvs m1(3) typed_by_def image_iff\<close>)
  then obtain m' where m': "set_all reg rest m1 = Inr m'" "building klass m'" "map_of m' = map_of m1 ++ map_of rest"
    by blast
  have "k \<notin> dom (map_of rest)" using assms(3) by (simp add: kvs dom_map_of_conv_image_fst)
  then have "map_of m' = [CLASS \<mapsto> KeyV klass, NAMESPACE \<mapsto> KeyV 0] ++ map_of kvs"
    unfolding m'(3) m1(3) kvs by (auto simp: fun_eq_iff map_add_def split: option.splits)
  moreover have "set_all reg kvs (dyn_new klass []) = Inr m'" by (simp add: kvs m1(1) m'(1))
  ultimately show ?thesis using m'(2) by blast
qed

lemma tree_get_present: "map_of m k = Some v \<Longrightarrow> tree_get reg k conv m = bindE (conv v) (\<lambda>x. Inr (x, m))"
  by (simp add: tree_get_def tree_index_def tree_find_def tree_value_def)

text \<open>An object of class 0 without the field has no error code.\<close>

lemma no_error_found:
  assumes "schemas_registered reg"
  shows "\<exists>m'. tree_find reg FIELD_ERROR_CODE (dyn_new 0 []) = Inr (False, m')"
proof -
  obtain col where col: "map_of reg 0 = Some col" "map_of col 0 = None"
    using assms by (auto simp: schemas_registered_def)
  have "tree_walk (length col) col 0 FIELD_ERROR_CODE = Inr None" by (simp add: tree_walk.simps col)
  then show ?thesis
    using col by (simp add: tree_find_def dyn_new_def tree_namespace_def tree_as_key_def token_values)
qed

text \<open>The fields \<open>encode\<close> sets, whatever stands for the error buffer, and what comes out.\<close>

definition head_fields :: "envelope \<Rightarrow> buffer \<Rightarrow> (hash_t \<times> dvalue) list" where
  "head_fields e buf =
     [(FIELD_VERSION, Int32V (env_version e)), (FIELD_KIND, KeyV (env_kind e)), (FIELD_OP, KeyV (env_op e)),
      (FIELD_REQUEST_ID, KeyV (env_request_id e)), (FIELD_OBJECT_ID, KeyV (env_object_id e)),
      (FIELD_GROUP, KeyV (env_group e)), (FIELD_WITH_SCHEMA, BoolV (env_with_schema e)),
      (FIELD_PAYLOAD, VecByteV buf)]"

definition wire_fields :: "envelope \<Rightarrow> buffer \<Rightarrow> buffer \<Rightarrow> dvalue smap" where
  "wire_fields e buf err =
     [(FIELD_WITH_SCHEMA, BoolV (env_with_schema e)), (FIELD_OBJECT_ID, KeyV (env_object_id e)),
      (CLASS, KeyV CLASS_ENVELOPE), (FIELD_OP, KeyV (env_op e)), (FIELD_KIND, KeyV (env_kind e)),
      (FIELD_GROUP, KeyV (env_group e)), (FIELD_REQUEST_ID, KeyV (env_request_id e)),
      (NAMESPACE, KeyV 0), (FIELD_PAYLOAD, VecByteV buf), (FIELD_ONEWAY, BoolV (env_oneway e)),
      (FIELD_VERSION, Int32V (env_version e)), (PARENT, KeyV 0), (FIELD_ERROR, VecByteV err)]"

definition env_map :: "envelope \<Rightarrow> buffer \<Rightarrow> hash_t \<Rightarrow> dvalue option" where
  "env_map e buf = [CLASS \<mapsto> KeyV CLASS_ENVELOPE, NAMESPACE \<mapsto> KeyV 0] ++ map_of (head_fields e buf)"

lemma head_fields_typed:
  "distinct (map fst (head_fields e buf))" "head_fields e buf \<noteq> []"
  "\<forall>kv \<in> set (head_fields e buf). fst kv \<noteq> CLASS \<and> typed_by envelope_schema kv"
  by (simp_all add: head_fields_def typed_by_def envelope_schema_eq token_values)

lemma written_wire:
  assumes "map_of m = (env_map e buf)(FIELD_ONEWAY \<mapsto> BoolV (env_oneway e))"
  shows "put_all (written m envelope_schema) (dyn_new 0 []) = wire_fields e buf []"
  by (simp add: written_def value_or_default_def envelope_schema_eq assms env_map_def head_fields_def
      wire_fields_def dyn_new_def token_values)

lemma written_wire_error:
  assumes "map_of m = (env_map e buf)(FIELD_ERROR \<mapsto> VecByteV err, FIELD_ONEWAY \<mapsto> BoolV (env_oneway e))"
  shows "put_all (written m envelope_schema) (dyn_new 0 []) = wire_fields e buf err"
  by (simp add: written_def value_or_default_def envelope_schema_eq assms env_map_def head_fields_def
      wire_fields_def dyn_new_def token_values)

lemma wire_get:
  "map_of (wire_fields e buf err) FIELD_VERSION = Some (Int32V (env_version e))"
  "map_of (wire_fields e buf err) FIELD_KIND = Some (KeyV (env_kind e))"
  "map_of (wire_fields e buf err) FIELD_OP = Some (KeyV (env_op e))"
  "map_of (wire_fields e buf err) FIELD_REQUEST_ID = Some (KeyV (env_request_id e))"
  "map_of (wire_fields e buf err) FIELD_OBJECT_ID = Some (KeyV (env_object_id e))"
  "map_of (wire_fields e buf err) FIELD_GROUP = Some (KeyV (env_group e))"
  "map_of (wire_fields e buf err) FIELD_WITH_SCHEMA = Some (BoolV (env_with_schema e))"
  "map_of (wire_fields e buf err) FIELD_ONEWAY = Some (BoolV (env_oneway e))"
  "map_of (wire_fields e buf err) FIELD_PAYLOAD = Some (VecByteV buf)"
  "map_of (wire_fields e buf err) FIELD_ERROR = Some (VecByteV err)"
  by (simp_all add: wire_fields_def token_values)

lemmas wire_read = wire_get [THEN tree_get_present]

lemma decode_wire:
  assumes "deserialize_with_schema buffer_deserializer reg bytes = Inr (wire_fields e buf err, rest)"
  shows "decode reg bytes =
     bindE (if env_with_schema e then deserialize_with_schema buffer_deserializer reg buf
            else dynamic_deserialize buffer_deserializer reg buf) (\<lambda>(payload, _).
       if err = [] then Inr (e\<lparr> env_payload := payload, env_error := dyn_new 0 [] \<rparr>)
       else bindE (deserialize_with_schema buffer_deserializer reg err) (\<lambda>(er, _).
         Inr (e\<lparr> env_payload := payload, env_error := er \<rparr>)))"
  by (cases e)
     (simp add: decode_def assms decode_fields_def wire_read cast_int32_def cast_key_def cast_bool_def as_bytes_def
       split: prod.split cong: if_cong)

lemma wf_value_scalar [simp]:
  "wf_value reg (KeyV k)" "wf_value reg (BoolV b)" "wf_value reg (Int32V i)"
  "wf_value reg (PtrV None)"
  "wf_value reg (VecByteV bs) = fits (length bs)" "wf_value reg (StringV s) = fits (length s)"
  by (simp_all add: wf_value_def tree_all.simps payload_fits_def)

lemma written_wf:
  assumes "\<forall>v \<in> ran (map_of m). wf_value reg v" and "\<forall>v \<in> snd ` set es. wf_value reg v"
  shows "\<forall>v \<in> snd ` set (written m es). wf_value reg v"
  using assms by (fastforce simp: written_def value_or_default_def ran_def split: option.splits)

lemma env_map_wf:
  assumes "fits (length buf)"
  shows "\<forall>v \<in> ran (env_map e buf). wf_value reg v"
proof -
  show ?thesis
  proof
    fix v assume "v \<in> ran (env_map e buf)"
    then obtain k where "env_map e buf k = Some v" by (auto simp: ran_def)
    then have "map_of (head_fields e buf) k = Some v \<or> v = KeyV CLASS_ENVELOPE \<or> v = KeyV 0"
      by (auto simp: env_map_def map_add_Some_iff split: if_splits)
    then have "(k, v) \<in> set (head_fields e buf) \<or> v = KeyV CLASS_ENVELOPE \<or> v = KeyV 0"
      using map_of_SomeD by fast
    then show "wf_value reg v" using assms by (auto simp: head_fields_def)
  qed
qed

lemma fits_0 [simp]: "fits 0"
  by (simp add: fits_def)

lemma envelope_schema_wf: "\<forall>v \<in> snd ` set envelope_schema. wf_value reg v"
  by (simp add: envelope_schema_eq)

lemma wire_envelope:
  assumes "schemas_registered reg" and "\<not> env_with_schema e" and "env_error e = dyn_new 0 []"
    and "wf_object reg (env_payload e)" and "fits (length (env_payload e))"
    and "fits (length (dynamic_serialize h (Dyn (env_payload e))))"
  shows "bindE (encode h reg e) (decode reg) = Inr e"
proof -
  define buf where "buf = dynamic_serialize h (Dyn (env_payload e))"
  note root = envelope_root [OF assms(1)]
  obtain m0 where m0: "set_all reg (head_fields e buf) (dyn_new CLASS_ENVELOPE []) = Inr m0"
      "building CLASS_ENVELOPE m0" "map_of m0 = env_map e buf"
    using set_all_start [OF root head_fields_typed(2,1,3), of e buf] by (auto simp: env_map_def)
  have free: "env_map e buf NAMESPACE = Some (KeyV 0)" "env_map e buf FIELD_ONEWAY = None" "NAMESPACE \<noteq> FIELD_ONEWAY"
    by (simp_all add: env_map_def head_fields_def token_values)
  have ty: "typed_by envelope_schema (FIELD_ONEWAY, BoolV (env_oneway e))"
    by (simp add: typed_by_def envelope_schema_eq token_values)
  have "\<exists>m1. set_all reg [(FIELD_ONEWAY, BoolV (env_oneway e))] m0 = Inr m1 \<and> building CLASS_ENVELOPE m1 \<and>
      map_of m1 = map_of m0 ++ map_of [(FIELD_ONEWAY, BoolV (env_oneway e))]"
    by (rule set_all_new [OF root m0(2)]) (use free ty in \<open>simp_all add: m0(3)\<close>)
  then obtain m1 where m1: "set_all reg [(FIELD_ONEWAY, BoolV (env_oneway e))] m0 = Inr m1"
      "building CLASS_ENVELOPE m1" "map_of m1 = (env_map e buf)(FIELD_ONEWAY \<mapsto> BoolV (env_oneway e))"
    by (auto simp: m0(3))
  have ns: "map_of m1 NAMESPACE = Some (KeyV 0)" using free by (simp add: m1(3))
  have "\<forall>v \<in> ran (map_of m1). wf_value reg v"
    using env_map_wf [OF assms(6)] free(2) by (auto simp: m1(3) buf_def)
  then have "\<forall>v \<in> snd ` set (written m1 envelope_schema). wf_value reg v"
    by (rule written_wf) (rule envelope_schema_wf)
  from root_roundtrip [OF root m1(2) ns this, of h In_buffer "[]"]
  obtain bs where bs: "serialize_with_schema h reg m1 = Inr (bs, m1)"
      "deserialize_with_schema buffer_deserializer reg bs = Inr (wire_fields e buf [], [])"
    by (auto simp: written_wire [OF m1(3)])
  obtain m' where nf: "tree_find reg FIELD_ERROR_CODE (dyn_new 0 []) = Inr (False, m')"
    using no_error_found [OF assms(1)] by blast
  have "encode h reg e = Inr bs"
    using m0(1) m1(1) bs(1) nf assms(2,3)
    by (simp add: encode_def encode_payload_def head_fields_def buf_def)
  moreover have "dynamic_deserialize buffer_deserializer reg buf = Inr (env_payload e, [])"
    using dynamic_roundtrip [OF assms(4,5), of In_buffer h "[]"] by (simp add: buf_def)
  ultimately show ?thesis
    using decode_wire [OF bs(2)] assms(2,3) by simp
qed



section \<open>Errors survive the wire\<close>

text \<open>The error payload \<open>send_error\<close> builds, and the value it has.\<close>

definition make_error :: "ns_map \<Rightarrow> hash_t \<Rightarrow> string \<Rightarrow> dvalue smap result" where
  "make_error reg code msg =
     set_all reg [(FIELD_ERROR_CODE, KeyV code), (FIELD_ERROR_MESSAGE, StringV msg)] (dyn_new CLASS_ERROR [])"

definition error_object :: "hash_t \<Rightarrow> string \<Rightarrow> dvalue smap" where
  "error_object code msg =
     [(FIELD_ERROR_MESSAGE, StringV msg), (CLASS, KeyV CLASS_ERROR), (FIELD_ERROR_CODE, KeyV code), (NAMESPACE, KeyV 0)]"

definition received_error :: "hash_t \<Rightarrow> string \<Rightarrow> dvalue smap" where
  "received_error code msg =
     [(FIELD_ERROR_MESSAGE, StringV msg), (CLASS, KeyV CLASS_ERROR), (FIELD_ERROR_DETAILS, PtrV None),
      (FIELD_ERROR_CODE, KeyV code), (NAMESPACE, KeyV 0), (PARENT, KeyV 0)]"

lemma make_error_eq:
  assumes "schemas_registered reg"
  shows "make_error reg code msg = Inr (error_object code msg)"
proof -
  note find = tree_find_new [OF error_root [OF assms]]
  let ?m1 = "[(CLASS, KeyV CLASS_ERROR), (FIELD_ERROR_CODE, KeyV code), (NAMESPACE, KeyV 0)]"
  have s1: "tree_set reg FIELD_ERROR_CODE (KeyV code) (dyn_new CLASS_ERROR []) = Inr ?m1"
    using find [OF building_new, of FIELD_ERROR_CODE "KeyV 0"]
    by (simp add: tree_set_def tree_index_def tree_value_def dyn_new_def error_schema_eq put_namespace_def
        map_emplace_def field_assign_def plain_field_def field_is_def token_values)
  have b: "building CLASS_ERROR ?m1" by (simp add: building_def token_values)
  have s2: "tree_set reg FIELD_ERROR_MESSAGE (StringV msg) ?m1 = Inr (error_object code msg)"
    using find [OF b, of FIELD_ERROR_MESSAGE "StringV []"]
    by (simp add: tree_set_def tree_index_def tree_value_def error_object_def error_schema_eq put_namespace_def
        map_emplace_def field_assign_def plain_field_def field_is_def token_values)
  show ?thesis by (simp add: make_error_def s1 s2)
qed

lemma normalize_error_object:
  assumes "schemas_registered reg"
  shows "normalize_error_payload reg (error_object code msg) = Inr (error_object code msg)"
proof -
  note find = tree_find_new [OF error_root [OF assms]]
  let ?m1 = "[(FIELD_ERROR_MESSAGE, StringV msg), (CLASS, KeyV CLASS_ERROR), (NAMESPACE, KeyV 0)]"
  have s1: "bindE (tree_index reg FIELD_ERROR_MESSAGE (dyn_new CLASS_ERROR []))
      (\<lambda>m'. Inr (map_put FIELD_ERROR_MESSAGE (StringV msg) m')) = Inr ?m1"
    using find [OF building_new, of FIELD_ERROR_MESSAGE "StringV []"]
    by (simp add: tree_index_def dyn_new_def error_schema_eq put_namespace_def map_emplace_def token_values)
  then obtain m0 where m0: "tree_index reg FIELD_ERROR_MESSAGE (dyn_new CLASS_ERROR []) = Inr m0"
      "map_put FIELD_ERROR_MESSAGE (StringV msg) m0 = ?m1"
    by (auto simp: bindE_def split: sum.splits)
  have b: "building CLASS_ERROR ?m1" by (simp add: building_def token_values)
  have "bindE (tree_index reg FIELD_ERROR_CODE ?m1)
      (\<lambda>m'. Inr (map_put FIELD_ERROR_CODE (KeyV code) m')) = Inr (error_object code msg)"
    using find [OF b, of FIELD_ERROR_CODE "KeyV 0"]
    by (simp add: tree_index_def error_object_def error_schema_eq put_namespace_def map_emplace_def token_values)
  then obtain m2 where m2: "tree_index reg FIELD_ERROR_CODE ?m1 = Inr m2"
      "map_put FIELD_ERROR_CODE (KeyV code) m2 = error_object code msg"
    by (auto simp: bindE_def split: sum.splits)
  have n: "tree_index reg NAMESPACE (error_object code msg) = Inr (error_object code msg)"
      "map_put NAMESPACE (KeyV 0) (error_object code msg) = error_object code msg"
    by (simp_all add: tree_index_def tree_find_def error_object_def token_values)
  have k: "FIELD_ERROR_MESSAGE \<noteq> CLASS" "FIELD_ERROR_CODE \<noteq> CLASS" "NAMESPACE \<noteq> CLASS" by (simp_all add: token_values)
  have "copy_fields reg [(FIELD_ERROR_MESSAGE, StringV msg), (CLASS, KeyV CLASS_ERROR),
      (FIELD_ERROR_CODE, KeyV code), (NAMESPACE, KeyV 0)] (dyn_new CLASS_ERROR []) = Inr (error_object code msg)"
    by (simp only: copy_fields.simps k if_False if_True bindE_simps m0 m2 n refl)
  then show ?thesis by (simp only: normalize_error_payload_def error_object_def)
qed

text \<open>What a reader has of an error.\<close>

lemma written_error:
  "put_all (written (error_object code msg) error_schema) (dyn_new 0 []) = received_error code msg"
  by (simp add: written_def value_or_default_def error_schema_eq error_object_def received_error_def dyn_new_def
      token_values)

lemma schema_bytes_nonempty:
  assumes "serialize_with_schema h reg m = Inr (bs, m')"
  shows "bs \<noteq> []"
proof -
  have "length (write_u32 w) = 4" for w by (simp add: write_u32_def)
  then have "write_u32 w \<noteq> []" for w by (metis length_0_conv zero_neq_numeral)
  then show ?thesis
    using assms by (auto simp: serialize_with_schema_def Let_def split: sum.splits prod.splits option.splits)
qed

lemma error_bytes:
  assumes "schemas_registered reg" and "fits (length msg)"
  obtains eb where "serialize_with_schema h reg (error_object code msg) = Inr (eb, error_object code msg)"
    "deserialize_with_schema buffer_deserializer reg eb = Inr (received_error code msg, [])" "eb \<noteq> []"
proof -
  have b: "building CLASS_ERROR (error_object code msg)" "map_of (error_object code msg) NAMESPACE = Some (KeyV 0)"
    by (simp_all add: building_def error_object_def token_values)
  have "\<forall>v \<in> snd ` set (written (error_object code msg) error_schema). wf_value reg v"
    using assms(2)
    by (intro written_wf) (auto simp: error_object_def error_schema_eq ran_def split: if_splits)
  from root_roundtrip [OF error_root [OF assms(1)] b this, of h In_buffer "[]"]
  show ?thesis using that schema_bytes_nonempty by (auto simp: written_error)
qed

lemma error_code_found: "tree_find reg FIELD_ERROR_CODE (error_object code msg) = Inr (True, error_object code msg)"
  by (simp add: tree_find_def error_object_def token_values)

text \<open>
  An envelope with an error, as the server's \<open>send_error\<close> builds it, survives the wire: the
  receiver reads the code and the message of the sender, a null \<open>details\<close> pointer, and all other
  parts of the envelope unchanged.
\<close>

theorem error_envelope_roundtrip:
  assumes "schemas_registered reg" and "\<not> env_with_schema e" and "make_error reg code msg = Inr (env_error e)"
    and "wf_object reg (env_payload e)" and "fits (length (env_payload e))"
    and "fits (length (dynamic_serialize h (Dyn (env_payload e))))" and "fits (length msg)"
    and "\<And>eb. serialize_with_schema h reg (env_error e) = Inr (eb, env_error e) \<Longrightarrow> fits (length eb)"
  shows "bindE (encode h reg e) (decode reg) = Inr (e\<lparr> env_error := received_error code msg \<rparr>)"
proof -
  define buf where "buf = dynamic_serialize h (Dyn (env_payload e))"
  note root = envelope_root [OF assms(1)]
  have err: "env_error e = error_object code msg" using assms(3) make_error_eq [OF assms(1)] by simp
  obtain eb where eb: "serialize_with_schema h reg (error_object code msg) = Inr (eb, error_object code msg)"
      "deserialize_with_schema buffer_deserializer reg eb = Inr (received_error code msg, [])" "eb \<noteq> []"
    using error_bytes [OF assms(1,7)] by blast
  have ebf: "fits (length eb)" using assms(8) eb(1) by (simp add: err)
  obtain m0 where m0: "set_all reg (head_fields e buf) (dyn_new CLASS_ENVELOPE []) = Inr m0"
      "building CLASS_ENVELOPE m0" "map_of m0 = env_map e buf"
    using set_all_start [OF root head_fields_typed(2,1,3), of e buf] by (auto simp: env_map_def)
  have free: "env_map e buf NAMESPACE = Some (KeyV 0)" "env_map e buf FIELD_ONEWAY = None"
      "env_map e buf FIELD_ERROR = None" "NAMESPACE \<noteq> FIELD_ONEWAY" "NAMESPACE \<noteq> FIELD_ERROR" "FIELD_ERROR \<noteq> FIELD_ONEWAY"
    by (simp_all add: env_map_def head_fields_def token_values)
  have ty: "typed_by envelope_schema (FIELD_ONEWAY, BoolV (env_oneway e))" "typed_by envelope_schema (FIELD_ERROR, VecByteV eb)"
    by (simp_all add: typed_by_def envelope_schema_eq token_values)
  have "\<exists>m1. set_all reg [(FIELD_ERROR, VecByteV eb)] m0 = Inr m1 \<and> building CLASS_ENVELOPE m1 \<and>
      map_of m1 = map_of m0 ++ map_of [(FIELD_ERROR, VecByteV eb)]"
    by (rule set_all_new [OF root m0(2)]) (use free ty in \<open>simp_all add: m0(3)\<close>)
  then obtain m1 where m1: "set_all reg [(FIELD_ERROR, VecByteV eb)] m0 = Inr m1"
      "building CLASS_ENVELOPE m1" "map_of m1 = (env_map e buf)(FIELD_ERROR \<mapsto> VecByteV eb)"
    by (auto simp: m0(3))
  have "\<exists>m2. set_all reg [(FIELD_ONEWAY, BoolV (env_oneway e))] m1 = Inr m2 \<and> building CLASS_ENVELOPE m2 \<and>
      map_of m2 = map_of m1 ++ map_of [(FIELD_ONEWAY, BoolV (env_oneway e))]"
    by (rule set_all_new [OF root m1(2)]) (use free ty in \<open>simp_all add: m1(3)\<close>)
  then obtain m2 where m2: "set_all reg [(FIELD_ONEWAY, BoolV (env_oneway e))] m1 = Inr m2"
      "building CLASS_ENVELOPE m2"
      "map_of m2 = (env_map e buf)(FIELD_ERROR \<mapsto> VecByteV eb, FIELD_ONEWAY \<mapsto> BoolV (env_oneway e))"
    by (auto simp: m1(3))
  have ns: "map_of m2 NAMESPACE = Some (KeyV 0)" using free by (simp add: m2(3))
  have "\<forall>v \<in> ran (map_of m2). wf_value reg v"
    using env_map_wf [OF assms(6)] ebf free(2,3,6) by (auto simp: m2(3) buf_def)
  then have "\<forall>v \<in> snd ` set (written m2 envelope_schema). wf_value reg v"
    by (rule written_wf) (rule envelope_schema_wf)
  from root_roundtrip [OF root m2(2) ns this, of h In_buffer "[]"]
  obtain bs where bs: "serialize_with_schema h reg m2 = Inr (bs, m2)"
      "deserialize_with_schema buffer_deserializer reg bs = Inr (wire_fields e buf eb, [])"
    by (auto simp: written_wire_error [OF m2(3)])
  have "encode h reg e = Inr bs"
    using m0(1) m1(1) m2(1) bs(1) eb(1) assms(2) error_code_found [of reg code msg]
      normalize_error_object [OF assms(1), of code msg]
    by (simp add: encode_def encode_payload_def head_fields_def buf_def err)
  moreover have "dynamic_deserialize buffer_deserializer reg buf = Inr (env_payload e, [])"
    using dynamic_roundtrip [OF assms(4,5), of In_buffer h "[]"] by (simp add: buf_def)
  ultimately show ?thesis
    using decode_wire [OF bs(2)] assms(2) eb(2,3) by simp
qed

lemma parent_of_error: "parent_of \<lparr> ci_fields = error_schema, ci_factory = None \<rparr> = Inr 0"
  by (simp add: parent_of_def tree_as_key_def error_schema_eq token_values)

lemma error_bytes_small:
  assumes "serialize_with_schema Little_endian (register_all_schemas []) (error_object 7 ''no'') = Inr (eb, m')"
  shows "fits (length eb)"
proof -
  obtain col where col: "map_of (register_all_schemas []) 0 = Some col" "map_of col 0 = None" "length col = 2"
      "map_of col CLASS_ERROR = Some \<lparr> ci_fields = error_schema, ci_factory = None \<rparr>"
    by (simp add: register_all_schemas_def Let_def map_of_map_emplace token_values map_emplace_def)
  have "tree_as_key CLASS (error_object 7 ''no'') = Inr (CLASS_ERROR, error_object 7 ''no'')"
    "tree_namespace (error_object 7 ''no'') = Inr (0, error_object 7 ''no'')"
    by (simp_all add: tree_as_key_def tree_namespace_def error_object_def token_values)
  moreover have "fits (length (write_u32 0) + (length (write_u32 CLASS_ERROR) + length (concat (map
      (\<lambda>kd. field_serialize Little_endian (value_or_default (error_object 7 ''no'') kd)) error_schema))))"
  proof -
    have "length (write_varint 2) \<le> Suc 0" by (simp add: length_write_varint)
    then show ?thesis
      by (simp add: value_or_default_def error_schema_eq error_object_def field_serialize.simps token_values
          write_u32_def write_string_def write_bool_def fits_def)
  qed
  ultimately show ?thesis using assms col
    by (auto simp: serialize_with_schema_def Let_def schema_write.simps parent_of_error numeral_2_eq_2)
qed

theorem error_envelope_roundtrip_witness:
  "bindE (encode Little_endian (register_all_schemas []) (new_envelope\<lparr> env_kind := KIND_RESPONSE, env_error := error_object 7 ''no'' \<rparr>))
     (decode (register_all_schemas [])) =
   Inr (new_envelope\<lparr> env_kind := KIND_RESPONSE, env_error := received_error 7 ''no'' \<rparr>)"
proof -
  let ?e = "new_envelope\<lparr> env_kind := KIND_RESPONSE, env_error := error_object 7 ''no'' \<rparr>"
  have err: "make_error (register_all_schemas []) 7 ''no'' = Inr (env_error ?e)"
    using make_error_eq [OF register_all_schemas_registered] by simp
  have "length (write_varint 1) \<le> Suc 0" by (simp add: length_write_varint)
  then have f: "fits (length (dynamic_serialize Little_endian (Dyn (env_payload ?e))))"
    by (simp add: new_envelope_def dyn_new_def fits_def field_serialize.simps write_u32_def)
  have "bindE (encode Little_endian (register_all_schemas []) ?e) (decode (register_all_schemas [])) =
      Inr (?e\<lparr> env_error := received_error 7 ''no'' \<rparr>)"
    by (rule error_envelope_roundtrip [OF register_all_schemas_registered _ err _ _ f])
       (auto simp: new_envelope_def wf_object_def dyn_new_def fits_def token_values dest: error_bytes_small [simplified])
  then show ?thesis by simp
qed

end
