(* ===== verification/Rmi_Session.thy ===== *)
theory Rmi_Session
  imports Rmi_Describe Envelope
begin

text \<open>
  One session of the RMI server: the context of \<open>src/rmi/server/context.hpp\<close>, the connection it
  answers on, and the actions its handlers are written in. The object store, the class registry and
  the id counter are shared by all sessions; a session is serviced by one thread at a time, under
  the lock of its context.
\<close>

section \<open>State\<close>

text \<open>The unordered maps of the context are listed in key order.\<close>

record session_context =
  session_id :: hash_t
  objects :: "addr smap"
  emits :: bool
  current_group :: hash_t
  groups :: "unit smap smap"

definition new_context :: "hash_t \<Rightarrow> session_context" where
  "new_context sid = \<lparr> session_id = sid, objects = [], emits = False, current_group = 0, groups = [] \<rparr>"

definition put_object :: "hash_t \<Rightarrow> addr \<Rightarrow> session_context \<Rightarrow> session_context" where
  "put_object i a c =
     (let c1 = c\<lparr> objects := map_put i a (objects c) \<rparr>;
          g = current_group c1
      in if g \<noteq> 0
         then c1\<lparr> groups := map_put g (map_put i () (case map_of (groups c1) g of Some ids \<Rightarrow> ids | None \<Rightarrow> [])) (groups c1) \<rparr>
         else c1)"

text \<open>What application code (methods, hooks, the authentication module) can reach.\<close>

record world =
  w_store :: store
  w_ctx :: session_context
  w_ids :: hash_t

text \<open>The connection: the envelopes handed to it, how often \<open>send\<close> was tried, and \<open>close\<close>.\<close>

record session =
  world :: world
  sent :: "envelope list"
  attempts :: nat
  conn_closed :: bool

text \<open>
  The application around the server, the parameter of every definition below: its callables (which
  return the events they emitted), its object factories, the authentication module if one is
  attached, the profiler object if profiling is on, the help text, \<open>what()\<close> of an exception, and
  the exception the \<open>n\<close>-th \<open>send\<close> throws, if it throws.
\<close>

record app =
  a_invoke :: "meth \<Rightarrow> addr \<Rightarrow> addr \<Rightarrow> world \<Rightarrow> addr result \<times> world \<times> (hash_t \<times> hash_t \<times> dvalue smap) list"
  a_factory :: "nat \<Rightarrow> addr option action"
  a_auth :: "(addr \<Rightarrow> world \<Rightarrow> bool result \<times> world) option"
  a_profiler :: "addr option"
  a_help :: string
  a_what :: "exc \<Rightarrow> string"
  a_send :: "nat \<Rightarrow> exc option"

section \<open>Actions\<close>

type_synonym 'a saction = "session \<Rightarrow> 'a result \<times> session"

definition retS :: "'a \<Rightarrow> 'a saction" where
  "retS x s = (Inr x, s)"

definition throwS :: "exc \<Rightarrow> 'a saction" where
  "throwS e s = (Inl e, s)"

definition bindS :: "'a saction \<Rightarrow> ('a \<Rightarrow> 'b saction) \<Rightarrow> 'b saction" where
  "bindS m f s = (case m s of (Inl e, s') \<Rightarrow> (Inl e, s') | (Inr x, s') \<Rightarrow> f x s')"

text \<open>\<open>try ... catch\<close>; running out of fuel is not an exception of the code.\<close>

definition catchS :: "'a saction \<Rightarrow> (exc \<Rightarrow> 'a saction) \<Rightarrow> 'a saction" where
  "catchS m h s = (case m s of (Inl e, s') \<Rightarrow> (if e = Fuel_exhausted then (Inl e, s') else h e s') | (Inr x, s') \<Rightarrow> (Inr x, s'))"

definition swallow :: "'a saction \<Rightarrow> unit saction" where
  "swallow m = catchS (bindS m (\<lambda>_. retS ())) (\<lambda>_. retS ())"

definition liftS :: "'a action \<Rightarrow> 'a saction" where
  "liftS m s = (case m (w_store (world s)) of (r, st) \<Rightarrow> (r, s\<lparr> world := (world s)\<lparr> w_store := st \<rparr> \<rparr>))"

abbreviation ctx_of :: "session \<Rightarrow> session_context" where
  "ctx_of s \<equiv> w_ctx (world s)"

abbreviation store_in :: "session \<Rightarrow> store" where
  "store_in s \<equiv> w_store (world s)"

definition update_ctx :: "(session_context \<Rightarrow> session_context) \<Rightarrow> unit saction" where
  "update_ctx f s = (Inr (), s\<lparr> world := (world s)\<lparr> w_ctx := f (ctx_of s) \<rparr> \<rparr>)"

definition fresh_id :: "hash_t saction" where
  "fresh_id s = (case generate_id (w_ids (world s)) of (i, ids) \<Rightarrow> (Inr i, s\<lparr> world := (world s)\<lparr> w_ids := ids \<rparr> \<rparr>))"

definition conn_send :: "app \<Rightarrow> envelope \<Rightarrow> unit saction" where
  "conn_send app e s =
     (let s1 = s\<lparr> attempts := Suc (attempts s) \<rparr>
      in case a_send app (attempts s) of
           Some ex \<Rightarrow> (Inl ex, s1)
         | None \<Rightarrow> (Inr (), s1\<lparr> sent := sent s1 @ [e] \<rparr>))"

definition conn_close :: "unit saction" where
  "conn_close s = (Inr (), s\<lparr> conn_closed := True \<rparr>)"

section \<open>Events and method calls\<close>

text \<open>The envelope \<open>emit_event\<close> sends; the payload holds the name and the parameters.\<close>

definition event_envelope :: "hash_t \<Rightarrow> dvalue smap \<Rightarrow> envelope" where
  "event_envelope oid payload = new_envelope\<lparr> env_kind := KIND_EVENT, env_op := OP_EVENT, env_object_id := oid,
     env_oneway := True, env_payload := payload \<rparr>"

definition event_payload :: "hash_t \<Rightarrow> dvalue smap \<Rightarrow> dvalue smap action" where
  "event_payload name params =
     bindA (new_dynamic 0 []) (\<lambda>p.
     bindA (assign_key p FIELD_NAME (KeyV name)) (\<lambda>_.
     bindA (load params) (\<lambda>q.
     bindA (assign_key p FIELD_PARAMS (PtrV (Some q))) (\<lambda>_. dump p))))"

definition emit_event :: "app \<Rightarrow> hash_t \<times> hash_t \<times> dvalue smap \<Rightarrow> unit saction" where
  "emit_event app ev =
     bindS (liftS (event_payload (fst (snd ev)) (snd (snd ev)))) (\<lambda>payload.
       conn_send app (event_envelope (fst ev) payload))"

fun eachS :: "('x \<Rightarrow> unit saction) \<Rightarrow> 'x list \<Rightarrow> unit saction" where
  "eachS f [] = retS ()"
| "eachS f (x # xs) = bindS (f x) (\<lambda>_. eachS f xs)"

text \<open>
  \<open>obj->call(name, params)\<close>. The events go out while the method runs; whether one of them failed to
  be sent is for the method to notice, so it only shows in what the method returns.
\<close>

definition call_method :: "app \<Rightarrow> addr \<Rightarrow> hash_t \<Rightarrow> addr \<Rightarrow> addr saction" where
  "call_method app self name params =
     bindS (liftS (resolve_call self name params)) (\<lambda>(m, p) s.
       case a_invoke app m self p (world s) of
         (r, w, evs) \<Rightarrow> (case eachS (\<lambda>ev. swallow (emit_event app ev)) evs (s\<lparr> world := w \<rparr>) of
             (Inl e, s') \<Rightarrow> (Inl e, s')
           | (Inr _, s') \<Rightarrow> (r, s')))"

definition has_method :: "addr \<Rightarrow> hash_t \<Rightarrow> bool saction" where
  "has_method a name = bindS (liftS (find_method a name)) (\<lambda>m. retS (m \<noteq> None))"

definition empty_object :: "addr saction" where
  "empty_object = liftS (new_dynamic 0 [])"

section \<open>Responses\<close>

definition response_to :: "envelope \<Rightarrow> hash_t \<Rightarrow> envelope" where
  "response_to rq op = new_envelope\<lparr> env_kind := KIND_RESPONSE, env_op := op, env_request_id := env_request_id rq,
     env_object_id := env_object_id rq, env_oneway := False \<rparr>"

definition send_response :: "app \<Rightarrow> envelope \<Rightarrow> hash_t \<Rightarrow> addr \<Rightarrow> unit saction" where
  "send_response app rq op payload =
     bindS (liftS (dump payload)) (\<lambda>m. conn_send app ((response_to rq op)\<lparr> env_payload := m \<rparr>))"

definition error_payload :: "hash_t \<Rightarrow> string \<Rightarrow> dvalue smap action" where
  "error_payload code msg =
     bindA (new_dynamic CLASS_ERROR []) (\<lambda>p.
     bindA (assign_key p FIELD_ERROR_CODE (KeyV code)) (\<lambda>_.
     bindA (assign_key p FIELD_ERROR_MESSAGE (StringV msg)) (\<lambda>_. dump p)))"

definition send_error :: "app \<Rightarrow> envelope \<Rightarrow> hash_t \<Rightarrow> hash_t \<Rightarrow> string \<Rightarrow> unit saction" where
  "send_error app rq op code msg =
     bindS (liftS (error_payload code msg)) (\<lambda>m. conn_send app ((response_to rq op)\<lparr> env_error := m \<rparr>))"

end
