(* ===== verification/Rmi_Server.thy ===== *)
theory Rmi_Server
  imports Rmi_Session
begin

text \<open>
  The request handlers of the RMI server, \<open>src/rmi/server/server.cpp\<close>. A request is its decoded
  envelope and the address of its payload object. The overridable hooks have their default bodies;
  the trace output is not modelled.
\<close>

section \<open>Reading the payload\<close>

definition read_key_token :: "addr \<Rightarrow> hash_t \<Rightarrow> hash_t action" where
  "read_key_token a k =
     bindA (find_field a k) (\<lambda>hit s.
       if \<not> hit then (Inl Missing_key_token, s)
       else (case f_base (field_at a k s) of
               KeyV h \<Rightarrow> (Inr h, s)
             | HashV h \<Rightarrow> (Inr h, s)
             | _ \<Rightarrow> (Inl Invalid_key_token, s)))"

text \<open>
  The nested parameters object, or a new empty one. (The code moves its content into a local; the
  payload is not looked at again.)
\<close>

definition params_of :: "addr \<Rightarrow> addr action" where
  "params_of p =
     bindA (new_dynamic 0 []) (\<lambda>empty.
     bindA (index_key p FIELD_PARAMS) (\<lambda>_ s.
       (Inr (case f_base (field_at p FIELD_PARAMS s) of PtrV (Some q) \<Rightarrow> q | _ \<Rightarrow> empty), s)))"

section \<open>Handlers\<close>

definition with_object :: "app \<Rightarrow> envelope \<Rightarrow> hash_t \<Rightarrow> (addr \<Rightarrow> unit saction) \<Rightarrow> unit saction" where
  "with_object app rq op f s =
     (case map_of (objects (ctx_of s)) (env_object_id rq) of
        None \<Rightarrow> send_error app rq op ERR_OBJECT_NOT_FOUND ''Object not found'' s
      | Some a \<Rightarrow> f a s)"

definition respond_empty :: "app \<Rightarrow> envelope \<Rightarrow> hash_t \<Rightarrow> unit saction" where
  "respond_empty app rq op = bindS empty_object (send_response app rq op)"

definition handle_connect :: "app \<Rightarrow> envelope \<Rightarrow> addr \<Rightarrow> unit saction" where
  "handle_connect app rq p =
     bindS (case a_auth app of
              None \<Rightarrow> retS True
            | Some authenticate \<Rightarrow> (\<lambda>s. case authenticate p (world s) of (r, w) \<Rightarrow> (r, s\<lparr> world := w \<rparr>))) (\<lambda>accepted.
       if \<not> accepted then send_error app rq OP_CONNECT ERR_ACCESS_DENIED ''Authentication failed''
       else bindS empty_object (\<lambda>resp.
            bindS (liftS (assign_key resp FIELD_VERSION (Int32V PROTOCOL_VERSION))) (\<lambda>_.
            send_response app rq OP_CONNECT resp)))"

definition handle_describe :: "app \<Rightarrow> envelope \<Rightarrow> addr \<Rightarrow> unit saction" where
  "handle_describe app rq p =
     bindS (liftS (as_key_const p FIELD_KLASS)) (\<lambda>requested.
     bindS (liftS (describe requested)) (\<lambda>r. case r of
         None \<Rightarrow> send_error app rq OP_DESCRIBE ERR_CLASS_NOT_FOUND ''Class not found''
       | Some resp \<Rightarrow> send_response app rq OP_DESCRIBE resp))"

text \<open>\<open>on_check_class\<close> and \<open>on_create_object\<close>.\<close>

definition check_class :: "hash_t \<Rightarrow> hash_t \<Rightarrow> store \<Rightarrow> bool" where
  "check_class ns klass st = (case map_of (registry st) ns of None \<Rightarrow> False | Some col \<Rightarrow> map_of col klass \<noteq> None)"

definition on_create_object :: "app \<Rightarrow> hash_t \<Rightarrow> hash_t \<Rightarrow> addr option action" where
  "on_create_object app ns klass =
     (if a_profiler app \<noteq> None \<and> ns = NS_BISON \<and> klass = CLASS_PROFILER then retA (a_profiler app)
      else create_object (a_factory app) ns klass)"

definition construct_object :: "app \<Rightarrow> addr \<Rightarrow> addr \<Rightarrow> unit saction" where
  "construct_object app obj p =
     bindS (liftS (params_of p)) (\<lambda>params.
     bindS (call_method app obj HOOK_CONSTRUCT params) (\<lambda>_. retS ()))"

text \<open>The end of \<open>handle_instantiate\<close>: the new object is filed and its id returned.\<close>

definition file_object :: "app \<Rightarrow> envelope \<Rightarrow> hash_t \<Rightarrow> addr \<Rightarrow> unit saction" where
  "file_object app rq klass obj =
     bindS fresh_id (\<lambda>oid.
     bindS (update_ctx (put_object oid obj)) (\<lambda>_.
     bindS empty_object (\<lambda>resp.
     bindS (liftS (assign_key resp FIELD_OBJECT_ID (KeyV oid))) (\<lambda>_.
     bindS (liftS (assign_key resp FIELD_KLASS (KeyV klass))) (\<lambda>_.
     send_response app rq OP_INSTANTIATE resp)))))"

text \<open>
  A step of a handler that sends an error and leaves when it throws, and goes on with its result
  otherwise.
\<close>

definition try_else :: "'a saction \<Rightarrow> (exc \<Rightarrow> unit saction) \<Rightarrow> ('a \<Rightarrow> unit saction) \<Rightarrow> unit saction" where
  "try_else m h f s =
     (case m s of
        (Inl e, s') \<Rightarrow> (if e = Fuel_exhausted then (Inl e, s') else h e s')
      | (Inr x, s') \<Rightarrow> f x s')"

text \<open>\<open>handle_instantiate\<close> from the created object on, and from the resolved namespace on.\<close>

definition instantiate_created :: "app \<Rightarrow> envelope \<Rightarrow> addr \<Rightarrow> hash_t \<Rightarrow> addr option \<Rightarrow> unit saction" where
  "instantiate_created app rq p klass created =
     (case created of
        None \<Rightarrow> send_error app rq OP_INSTANTIATE ERR_INTERNAL_ERROR ''on_create_object returned null''
      | Some obj \<Rightarrow>
          bindS (has_method obj HOOK_CONSTRUCT) (\<lambda>hook.
          try_else (if hook then construct_object app obj p else retS ())
            (\<lambda>e. send_error app rq OP_INSTANTIATE ERR_INTERNAL_ERROR (''__construct failed: '' @ a_what app e))
            (\<lambda>_. file_object app rq klass obj)))"

definition instantiate_in :: "app \<Rightarrow> envelope \<Rightarrow> addr \<Rightarrow> hash_t \<Rightarrow> hash_t \<Rightarrow> unit saction" where
  "instantiate_in app rq p klass ns s =
     (if \<not> check_class ns klass (store_in s)
      then send_error app rq OP_INSTANTIATE ERR_CLASS_NOT_FOUND ''Class not registered in requested namespace''
      else try_else (liftS (on_create_object app ns klass))
        (\<lambda>e. send_error app rq OP_INSTANTIATE ERR_INTERNAL_ERROR (a_what app e))
        (instantiate_created app rq p klass)) s"

definition handle_instantiate :: "app \<Rightarrow> envelope \<Rightarrow> addr \<Rightarrow> unit saction" where
  "handle_instantiate app rq p =
     bindS (liftS (as_key_const p FIELD_KLASS)) (\<lambda>klass.
     bindS (liftS (find_field p FIELD_NAMESPACE)) (\<lambda>has_ns.
     try_else (if has_ns then liftS (read_key_token p FIELD_NAMESPACE) else retS 0)
       (\<lambda>e. send_error app rq OP_INSTANTIATE ERR_INVALID_REQUEST (a_what app e))
       (instantiate_in app rq p klass)))"

text \<open>\<open>*obj = std::move(*other)\<close>.\<close>

definition assign_object :: "addr \<Rightarrow> addr \<Rightarrow> unit action" where
  "assign_object a b s = (Inr (), update_obj a (\<lambda>_. (obj_at s b)\<lparr> o_lookup := (\<lambda>_. None) \<rparr>) s)"

definition reset_object :: "addr \<Rightarrow> unit action" where
  "reset_object a =
     bindA (as_key a CLASS) (\<lambda>klass.
     bindA (find_field a NAMESPACE) (\<lambda>hit s.
       let ns = (if hit then (case f_base (field_at a NAMESPACE s) of KeyV n \<Rightarrow> n | _ \<Rightarrow> 0) else 0)
       in (case map_of (registry s) ns of
             Some col \<Rightarrow> (case map_of col klass of
                 Some proto \<Rightarrow> bindA (clone_ptr proto) (assign_object a)
               | None \<Rightarrow> bindA (alloc (instantiate_obj ns klass)) (assign_object a))
           | None \<Rightarrow> bindA (alloc (instantiate_obj 0 klass)) (assign_object a)) s))"

text \<open>A hook whose outcome is ignored.\<close>

definition run_hook :: "app \<Rightarrow> addr \<Rightarrow> hash_t \<Rightarrow> unit saction" where
  "run_hook app a hook =
     bindS (has_method a hook) (\<lambda>b.
       if b then swallow (bindS empty_object (\<lambda>params. call_method app a hook params)) else retS ())"

definition handle_clear :: "app \<Rightarrow> envelope \<Rightarrow> addr \<Rightarrow> unit saction" where
  "handle_clear app rq p =
     with_object app rq OP_CLEAR (\<lambda>a.
       bindS (liftS (reset_object a)) (\<lambda>_.
       bindS (run_hook app a HOOK_CLEAR) (\<lambda>_.
       respond_empty app rq OP_CLEAR)))"

text \<open>\<open>apply_patch\<close>: whole fields are copied, the three internal keys excepted.\<close>

definition apply_patch :: "addr \<Rightarrow> addr \<Rightarrow> unit action" where
  "apply_patch obj patch s =
     each (\<lambda>(k, v). if internal_key k then retA () else copy_field obj k v) (fields_of s patch) s"

definition handle_set :: "app \<Rightarrow> envelope \<Rightarrow> addr \<Rightarrow> unit saction" where
  "handle_set app rq p =
     with_object app rq OP_SET (\<lambda>obj.
       bindS (has_method obj HOOK_SETTER) (\<lambda>hook.
       try_else (if hook then call_method app obj HOOK_SETTER p else retS p)
         (\<lambda>e. send_error app rq OP_SET ERR_INTERNAL_ERROR (''__setter failed: '' @ a_what app e))
         (\<lambda>patch.
           bindS (liftS (apply_patch obj patch)) (\<lambda>_.
           respond_empty app rq OP_SET))))"

text \<open>The projection: which of the requested fields the object has, its own or inherited.\<close>

definition projected_key :: "hash_t \<Rightarrow> bool" where
  "projected_key k \<longleftrightarrow> k \<noteq> CLASS \<and> k \<noteq> PARENT"

definition project_field :: "addr \<Rightarrow> addr \<Rightarrow> hash_t \<Rightarrow> unit action" where
  "project_field obj result k =
     bindA (find_field obj k) (\<lambda>hit s.
       if hit then copy_field result k (field_at obj k s) s else retA () s)"

definition project :: "addr \<Rightarrow> hash_t list \<Rightarrow> addr action" where
  "project obj ks =
     bindA (new_dynamic 0 []) (\<lambda>result.
     bindA (each (project_field obj result) ks) (\<lambda>_. retA result))"

definition handle_get :: "app \<Rightarrow> envelope \<Rightarrow> addr \<Rightarrow> unit saction" where
  "handle_get app rq p =
     with_object app rq OP_GET (\<lambda>obj.
       bindS (\<lambda>s. let ks = filter projected_key (map fst (fields_of (store_in s) p))
                   in liftS (if ks = [] then clone_ptr obj else project obj ks) s) (\<lambda>result.
       bindS (has_method obj HOOK_GETTER) (\<lambda>hook.
       bindS (if hook then catchS (call_method app obj HOOK_GETTER result) (\<lambda>_. retS result) else retS result) (\<lambda>r.
       send_response app rq OP_GET r))))"

definition handle_call :: "app \<Rightarrow> envelope \<Rightarrow> addr \<Rightarrow> unit saction" where
  "handle_call app rq p =
     with_object app rq OP_CALL (\<lambda>obj.
       bindS (liftS (read_key_token p FIELD_NAME)) (\<lambda>name.
       bindS (liftS (params_of p)) (\<lambda>args.
       catchS
         (bindS (call_method app obj name args) (\<lambda>res.
            if \<not> env_oneway rq then send_response app rq OP_CALL res else retS ()))
         (\<lambda>e. if \<not> env_oneway rq then send_error app rq OP_CALL ERR_INTERNAL_ERROR (a_what app e) else retS ()))))"

definition erase_object :: "hash_t \<Rightarrow> session_context \<Rightarrow> session_context" where
  "erase_object i c = c\<lparr> objects := map_erase i (objects c) \<rparr>"

definition handle_destroy :: "app \<Rightarrow> envelope \<Rightarrow> addr \<Rightarrow> unit saction" where
  "handle_destroy app rq p =
     with_object app rq OP_DESTROY (\<lambda>a.
       bindS (run_hook app a HOOK_DESTRUCT) (\<lambda>_.
       bindS (update_ctx (erase_object (env_object_id rq))) (\<lambda>_.
       respond_empty app rq OP_DESTROY)))"

text \<open>One id of a group: an id without an object is skipped.\<close>

definition destroy_member :: "app \<Rightarrow> hash_t \<Rightarrow> unit saction" where
  "destroy_member app i s =
     (case map_of (objects (ctx_of s)) i of
        None \<Rightarrow> (Inr (), s)
      | Some a \<Rightarrow> bindS (run_hook app a HOOK_DESTRUCT) (\<lambda>_. update_ctx (erase_object i)) s)"

definition handle_destroy_group :: "app \<Rightarrow> envelope \<Rightarrow> addr \<Rightarrow> unit saction" where
  "handle_destroy_group app rq p s =
     (case map_of (groups (ctx_of s)) (env_group rq) of
        None \<Rightarrow> respond_empty app rq OP_DESTROY_GROUP s
      | Some ids \<Rightarrow>
          if env_group rq = 0 then respond_empty app rq OP_DESTROY_GROUP s
          else bindS (update_ctx (\<lambda>c. c\<lparr> groups := map_erase (env_group rq) (groups c) \<rparr>)) (\<lambda>_.
               bindS (eachS (destroy_member app) (map fst ids)) (\<lambda>_.
               respond_empty app rq OP_DESTROY_GROUP)) s)"

definition cleanup_context :: "app \<Rightarrow> unit saction" where
  "cleanup_context app s =
     bindS (eachS (\<lambda>(oid, a). run_hook app a HOOK_DESTRUCT) (objects (ctx_of s))) (\<lambda>_.
       update_ctx (\<lambda>c. c\<lparr> objects := [], groups := [], emits := False \<rparr>)) s"

definition handle_disconnect :: "app \<Rightarrow> envelope \<Rightarrow> addr \<Rightarrow> unit saction" where
  "handle_disconnect app rq p =
     bindS (cleanup_context app) (\<lambda>_.
     bindS (swallow (respond_empty app rq OP_DISCONNECT)) (\<lambda>_.
     conn_close))"

definition handle_dictionary :: "app \<Rightarrow> envelope \<Rightarrow> addr \<Rightarrow> unit saction" where
  "handle_dictionary app rq p = bindS (liftS dictionary) (send_response app rq OP_DICTIONARY)"

definition handle_help :: "app \<Rightarrow> envelope \<Rightarrow> addr \<Rightarrow> unit saction" where
  "handle_help app rq p = bindS (liftS (help_response (a_help app))) (send_response app rq OP_HELP)"

section \<open>Dispatch\<close>

text \<open>\<open>handler_map\<close>.\<close>

definition handler_map :: "(hash_t \<times> (app \<Rightarrow> envelope \<Rightarrow> addr \<Rightarrow> unit saction)) list" where
  "handler_map =
     [(OP_CONNECT, handle_connect), (OP_DESCRIBE, handle_describe), (OP_INSTANTIATE, handle_instantiate),
      (OP_CLEAR, handle_clear), (OP_SET, handle_set), (OP_GET, handle_get), (OP_CALL, handle_call),
      (OP_DESTROY, handle_destroy), (OP_DESTROY_GROUP, handle_destroy_group),
      (OP_DISCONNECT, handle_disconnect), (OP_DICTIONARY, handle_dictionary), (OP_HELP, handle_help)]"

definition handle_request :: "app \<Rightarrow> envelope \<Rightarrow> addr \<Rightarrow> unit saction" where
  "handle_request app rq p =
     (if env_op rq = 0
      then send_error app rq OP_CONNECT ERR_INVALID_REQUEST ''Missing operation token''
      else if env_kind rq \<noteq> KIND_REQUEST
      then send_error app rq OP_CONNECT ERR_INVALID_REQUEST ''Unexpected non-request envelope''
      else if env_version rq \<noteq> PROTOCOL_VERSION
      then send_error app rq OP_CONNECT ERR_UNSUPPORTED_VERSION ''Unsupported protocol version''
      else bindS (update_ctx (\<lambda>c. c\<lparr> current_group := env_group rq \<rparr>)) (\<lambda>_.
        case map_of handler_map (env_op rq) of
          Some handler \<Rightarrow> handler app rq p
        | None \<Rightarrow> send_error app rq (env_op rq) ERR_UNKNOWN_OPERATION ''Unknown operation''))"

text \<open>
  \<open>service_session\<close> after \<open>receive\<close>: the argument is what \<open>envelope::decode\<close> made of the frame.
\<close>

definition service_session :: "app \<Rightarrow> envelope result \<Rightarrow> unit saction" where
  "service_session app decoded =
     (case decoded of
        Inl e \<Rightarrow> swallow (send_error app new_envelope OP_CONNECT ERR_INVALID_REQUEST (a_what app e))
      | Inr rq \<Rightarrow> bindS (liftS (load (env_payload rq))) (\<lambda>p.
          catchS (handle_request app rq p)
            (\<lambda>e. swallow (send_error app rq (env_op rq) ERR_INVALID_REQUEST (a_what app e)))))"

definition teardown_session :: "app \<Rightarrow> unit saction" where
  "teardown_session app = cleanup_context app"

text \<open>
  A dispatch worker and one of its sessions over several laps; each element is what arrived in one
  lap (\<open>None\<close> when \<open>receive\<close> timed out). The session ends with its teardown.
\<close>

fun session_laps :: "app \<Rightarrow> envelope result option list \<Rightarrow> unit saction" where
  "session_laps app [] = retS ()"
| "session_laps app (arrival # rest) =
     (\<lambda>s. if conn_closed s then teardown_session app s
          else bindS (case arrival of None \<Rightarrow> retS () | Some decoded \<Rightarrow> service_session app decoded) (\<lambda>_ s1.
            if conn_closed s1 then teardown_session app s1 else session_laps app rest s1) s)"

section \<open>A small server\<close>

text \<open>A server without methods, factories or authentication, on a connection that never fails.\<close>

definition plain_app :: app where
  "plain_app = \<lparr> a_invoke = (\<lambda>m a p w. (Inr a, w, [])), a_factory = (\<lambda>i. retA None), a_auth = None, a_profiler = None,
     a_help = [], a_what = (\<lambda>e. ''error''), a_send = (\<lambda>n. None) \<rparr>"

definition new_session :: "hash_t \<Rightarrow> session" where
  "new_session sid = \<lparr> world = \<lparr> w_store = empty_store, w_ctx = new_context sid, w_ids = 1 \<rparr>,
     sent = [], attempts = 0, conn_closed = False \<rparr>"

lemmas object_eval = bindA_def new_dynamic_def construct_def alloc_def
  assign_key_def index_key_def find_field_def blank_obj_def plain_field_def field_assign_def field_is_def
  resolve_namespace_def assign_at_def retA_def set_field_def update_obj_def mono_field_def cache_result_def
  set_lookup_def fields_index_def dump_def dump_value_def

lemma error_payload_empty:
  "fst (error_payload code msg empty_store) =
     Inr [(FIELD_ERROR_MESSAGE, StringV msg), (CLASS, KeyV CLASS_ERROR), (FIELD_ERROR_CODE, KeyV code), (NAMESPACE, KeyV 0)]"
  by (simp add: error_payload_def empty_store_def object_eval token_values)

lemma no_operation_run:
  assumes "env_op rq = 0"
  obtains s' where "handle_request plain_app rq p (new_session sid) = (Inr (), s')"
proof -
  obtain st where "error_payload ERR_INVALID_REQUEST ''Missing operation token'' empty_store =
      (Inr [(FIELD_ERROR_MESSAGE, StringV ''Missing operation token''), (CLASS, KeyV CLASS_ERROR),
        (FIELD_ERROR_CODE, KeyV ERR_INVALID_REQUEST), (NAMESPACE, KeyV 0)], st)"
    using error_payload_empty by (metis prod.collapse)
  then show ?thesis using that assms
    by (simp add: handle_request_def send_error_def bindS_def liftS_def new_session_def conn_send_def plain_app_def)
qed

end
