(* ===== verification/Context_Effect.thy ===== *)
theory Context_Effect
  imports Rmi_Server
begin

text \<open>
  What a request does to the context of its session, as a relation between the context before and
  after: a reflexive and transitive relation that the application's code keeps is kept by every
  handler that touches the context only through that code.
\<close>

definition effect_in :: "(session_context \<Rightarrow> session_context \<Rightarrow> bool) \<Rightarrow> 'a saction \<Rightarrow> bool" where
  "effect_in R m \<longleftrightarrow> (\<forall>s r s'. m s = (r, s') \<longrightarrow> R (ctx_of s) (ctx_of s'))"

definition well_behaved :: "(session_context \<Rightarrow> session_context \<Rightarrow> bool) \<Rightarrow> app \<Rightarrow> bool" where
  "well_behaved R app \<longleftrightarrow>
     (\<forall>m a p w r w' evs. a_invoke app m a p w = (r, w', evs) \<longrightarrow> R (w_ctx w) (w_ctx w')) \<and>
     (\<forall>auth p w r w'. a_auth app = Some auth \<longrightarrow> auth p w = (r, w') \<longrightarrow> R (w_ctx w) (w_ctx w'))"

lemma effect_inD: "effect_in R m \<Longrightarrow> m s = (r, s') \<Longrightarrow> R (ctx_of s) (ctx_of s')"
  by (auto simp: effect_in_def)

locale context_effect =
  fixes R :: "session_context \<Rightarrow> session_context \<Rightarrow> bool"
  assumes R_refl: "R c c"
    and R_trans: "R c d \<Longrightarrow> R d e \<Longrightarrow> R c e"
begin

lemma resp_ret: "effect_in R (retS x)"
  by (simp add: R_refl effect_in_def retS_def)

lemma resp_lift: "effect_in R (liftS m)"
  by (auto simp: R_refl effect_in_def liftS_def split: prod.splits)

lemma resp_fresh: "effect_in R fresh_id"
  by (auto simp: R_refl effect_in_def fresh_id_def split: prod.splits)

lemma resp_send: "effect_in R (conn_send app e)"
  by (auto simp: R_refl effect_in_def conn_send_def Let_def split: option.splits)

lemma resp_close: "effect_in R conn_close"
  by (simp add: R_refl effect_in_def conn_close_def)

lemma resp_bind: "effect_in R m \<Longrightarrow> (\<And>x. effect_in R (f x)) \<Longrightarrow> effect_in R (bindS m f)"
  unfolding effect_in_def bindS_def by (fastforce split: prod.splits sum.splits intro: R_trans)

lemma resp_catch: "effect_in R m \<Longrightarrow> (\<And>e. effect_in R (h e)) \<Longrightarrow> effect_in R (catchS m h)"
  unfolding effect_in_def catchS_def by (fastforce split: prod.splits sum.splits if_splits intro: R_trans)

lemma resp_try: "effect_in R m \<Longrightarrow> (\<And>e. effect_in R (h e)) \<Longrightarrow> (\<And>x. effect_in R (f x)) \<Longrightarrow> effect_in R (try_else m h f)"
  unfolding effect_in_def try_else_def by (fastforce split: prod.splits sum.splits if_splits intro: R_trans)

lemma resp_swallow: "effect_in R m \<Longrightarrow> effect_in R (swallow m)"
  unfolding swallow_def by (intro resp_catch resp_bind resp_ret)

lemma resp_each: "(\<And>x. effect_in R (f x)) \<Longrightarrow> effect_in R (eachS f xs)"
  by (induction xs) (auto intro: resp_ret resp_bind)

lemma resp_state: "(\<And>s. effect_in R (f s)) \<Longrightarrow> effect_in R (\<lambda>s. f s s)"
  by (auto simp: R_refl effect_in_def)

lemma resp_emit: "effect_in R (emit_event app ev)"
  unfolding emit_event_def by (intro resp_bind resp_lift resp_send)

lemma resp_call:
  assumes "well_behaved R app"
  shows "effect_in R (call_method app self name params)"
  unfolding call_method_def
proof (intro resp_bind resp_lift)
  fix mp :: "meth \<times> addr"
  obtain m p where mp: "mp = (m, p)" by fastforce
  have ev: "effect_in R (eachS (\<lambda>ev. swallow (emit_event app ev)) evs)" for evs
    by (intro resp_each resp_swallow resp_emit)
  show "effect_in R (case mp of (m, p) \<Rightarrow> \<lambda>s. case a_invoke app m self p (world s) of
      (r, w, evs) \<Rightarrow> (case eachS (\<lambda>ev. swallow (emit_event app ev)) evs (s\<lparr> world := w \<rparr>) of
          (Inl e, s') \<Rightarrow> (Inl e, s') | (Inr _, s') \<Rightarrow> (r, s')))"
    unfolding mp prod.case effect_in_def
  proof (intro allI impI)
    fix s r s'
    assume run: "(case a_invoke app m self p (world s) of
      (r, w, evs) \<Rightarrow> (case eachS (\<lambda>ev. swallow (emit_event app ev)) evs (s\<lparr> world := w \<rparr>) of
          (Inl e, s') \<Rightarrow> (Inl e, s') | (Inr _, s') \<Rightarrow> (r, s'))) = (r, s')"
    obtain r0 w evs where i: "a_invoke app m self p (world s) = (r0, w, evs)"
      by (cases "a_invoke app m self p (world s)") auto
    obtain r1 s1 where e: "eachS (\<lambda>ev. swallow (emit_event app ev)) evs (s\<lparr> world := w \<rparr>) = (r1, s1)" by fastforce
    have "s' = s1" using run by (auto simp: i e split: sum.splits)
    moreover have "R (ctx_of s) (w_ctx w)" using assms i unfolding well_behaved_def by blast
    moreover have "R (w_ctx w) (ctx_of s1)" using effect_inD [OF ev e] by simp
    ultimately show "R (ctx_of s) (ctx_of s')" using R_trans by blast
  qed
qed

lemma resp_has_method: "effect_in R (has_method a name)"
  unfolding has_method_def by (intro resp_bind resp_lift resp_ret)

lemma resp_empty_object: "effect_in R empty_object"
  unfolding empty_object_def by (rule resp_lift)

lemma resp_response: "effect_in R (send_response app rq op p)" "effect_in R (send_error app rq op code msg)"
  unfolding send_response_def send_error_def by (intro resp_bind resp_lift resp_send)+

lemma resp_respond_empty: "effect_in R (respond_empty app rq op)"
  unfolding respond_empty_def by (intro resp_bind resp_empty_object resp_response)

lemma resp_if: "(b \<Longrightarrow> effect_in R m) \<Longrightarrow> (\<not> b \<Longrightarrow> effect_in R m') \<Longrightarrow> effect_in R (if b then m else m')"
  by simp

lemmas resp_basics = resp_ret resp_lift resp_fresh resp_has_method resp_empty_object resp_response resp_respond_empty

lemma resp_run_hook: "well_behaved R app \<Longrightarrow> effect_in R (run_hook app a hook)"
  unfolding run_hook_def by (intro resp_bind resp_has_method resp_if resp_swallow resp_empty_object resp_call resp_ret)

lemma resp_with_object: "(\<And>a. effect_in R (f a)) \<Longrightarrow> effect_in R (with_object app rq op f)"
  unfolding effect_in_def with_object_def
  using effect_inD [OF resp_response(2)] by (fastforce split: option.splits)

lemma resp_connect: "well_behaved R app \<Longrightarrow> effect_in R (handle_connect app rq p)"
  unfolding handle_connect_def
proof (rule resp_bind)
  assume n: "well_behaved R app"
  show "effect_in R (case a_auth app of None \<Rightarrow> retS True
      | Some authenticate \<Rightarrow> (\<lambda>s. case authenticate p (world s) of (r, w) \<Rightarrow> (r, s\<lparr> world := w \<rparr>)))"
    using n by (fastforce simp: R_refl effect_in_def retS_def well_behaved_def split: option.splits prod.splits)
qed (auto intro!: resp_bind resp_basics)

lemma resp_describe: "effect_in R (handle_describe app rq p)"
  unfolding handle_describe_def by (intro resp_bind resp_lift) (auto intro: resp_response split: option.split)

lemma resp_clear: "well_behaved R app \<Longrightarrow> effect_in R (handle_clear app rq p)"
  unfolding handle_clear_def by (intro resp_with_object resp_bind resp_lift resp_run_hook resp_respond_empty)

lemma resp_set: "well_behaved R app \<Longrightarrow> effect_in R (handle_set app rq p)"
  unfolding handle_set_def by (intro resp_with_object resp_bind resp_try resp_if resp_basics resp_call)

lemma resp_get:
  assumes "well_behaved R app"
  shows "effect_in R (handle_get app rq p)"
  unfolding handle_get_def Let_def
proof (rule resp_with_object, rule resp_bind)
  fix obj
  show "effect_in R (\<lambda>s. liftS (if filter projected_key (map fst (fields_of (store_in s) p)) = [] then clone_ptr obj
      else project obj (filter projected_key (map fst (fields_of (store_in s) p)))) s)"
    by (rule resp_state) (rule resp_lift)
  show "effect_in R (bindS (has_method obj HOOK_GETTER) (\<lambda>hook.
      bindS (if hook then catchS (call_method app obj HOOK_GETTER result) (\<lambda>_. retS result) else retS result) (\<lambda>r.
      send_response app rq OP_GET r)))" for result
    by (rule resp_bind [OF resp_has_method], rule resp_bind)
       (auto intro: resp_catch resp_call [OF assms] resp_ret resp_response)
qed

lemma resp_call_op: "well_behaved R app \<Longrightarrow> effect_in R (handle_call app rq p)"
  unfolding handle_call_def by (intro resp_with_object resp_bind resp_catch resp_if resp_basics resp_call)

lemma resp_dictionary: "effect_in R (handle_dictionary app rq p)" "effect_in R (handle_help app rq p)"
  unfolding handle_dictionary_def handle_help_def by (intro resp_bind resp_lift resp_response)+

end

end
