(* ===== verification/Rmi_Tables.thy ===== *)
theory Rmi_Tables
  imports Context_Effect
begin

text \<open>
  The object table of a session against its specification: which requests add or remove entries,
  for applications whose methods leave the table alone.
\<close>

section \<open>Actions that leave the context alone\<close>

abbreviation ctx_same :: "'a saction \<Rightarrow> bool" where
  "ctx_same \<equiv> effect_in (=)"

abbreviation neutral :: "app \<Rightarrow> bool" where
  "neutral \<equiv> well_behaved (=)"

interpretation same: context_effect "(=)"
  by unfold_locales simp_all

lemma ctx_sameD: "ctx_same m \<Longrightarrow> m s = (r, s') \<Longrightarrow> ctx_of s' = ctx_of s"
  using effect_inD [of "(=)"] by metis

section \<open>The abstract table\<close>

text \<open>Ids with their objects, and the ids filed under each group.\<close>

record table =
  live :: "hash_t \<Rightarrow> addr option"
  members :: "hash_t \<Rightarrow> hash_t set"

definition table_of :: "session_context \<Rightarrow> table" where
  "table_of c = \<lparr> live = map_of (objects c),
     members = (\<lambda>g. case map_of (groups c) g of None \<Rightarrow> {} | Some ids \<Rightarrow> dom (map_of ids)) \<rparr>"

definition no_table :: table where
  "no_table = \<lparr> live = (\<lambda>_. None), members = (\<lambda>_. {}) \<rparr>"

definition add_entry :: "hash_t \<Rightarrow> hash_t \<Rightarrow> addr \<Rightarrow> table \<Rightarrow> table" where
  "add_entry g i a t = \<lparr> live = (live t)(i \<mapsto> a),
     members = (if g = 0 then members t else (members t)(g := insert i (members t g))) \<rparr>"

definition well_formed_request :: "envelope \<Rightarrow> bool" where
  "well_formed_request rq \<longleftrightarrow> env_op rq \<noteq> 0 \<and> env_kind rq = KIND_REQUEST \<and> env_version rq = PROTOCOL_VERSION"

text \<open>The contract: what a request that is handled does to the table.\<close>

definition table_spec :: "envelope \<Rightarrow> table \<Rightarrow> table \<Rightarrow> bool" where
  "table_spec rq t t' \<longleftrightarrow>
     (if \<not> well_formed_request rq then t' = t
      else if env_op rq = OP_INSTANTIATE then t' = t \<or> (\<exists>i a. t' = add_entry (env_group rq) i a t)
      else if env_op rq = OP_DESTROY then t' = t\<lparr> live := (live t)(env_object_id rq := None) \<rparr>
      else if env_op rq = OP_DESTROY_GROUP \<and> env_group rq \<noteq> 0
        then t' = \<lparr> live = live t |` (- members t (env_group rq)), members = (members t)(env_group rq := {}) \<rparr>
      else if env_op rq = OP_DISCONNECT then t' = no_table
      else t' = t)"

lemma table_put: "table_of (put_object i a c) = add_entry (current_group c) i a (table_of c)"
  by (auto simp: table_of_def put_object_def Let_def add_entry_def fun_eq_iff split: option.split)

lemma table_erase: "table_of (erase_object i c) = (table_of c)\<lparr> live := (live (table_of c))(i := None) \<rparr>"
  by (simp add: table_of_def erase_object_def)

lemma table_group: "table_of (c\<lparr> current_group := g \<rparr>) = table_of c"
  by (simp add: table_of_def)

section \<open>The requests that change the table\<close>

lemma bindS_Inr: "bindS m f s = (Inr x, s') \<Longrightarrow> \<exists>y s1. m s = (Inr y, s1) \<and> f y s1 = (Inr x, s')"
  by (auto simp: bindS_def split: prod.splits sum.splits)

lemma bindS_InrE:
  assumes "bindS m f s = (Inr x, s')"
  obtains y s1 where "m s = (Inr y, s1)" and "f y s1 = (Inr x, s')"
  using bindS_Inr [OF assms] by blast

lemma file_object_ctx:
  assumes "file_object app rq klass obj s = (r, s')"
  shows "\<exists>i. ctx_of s' = put_object i obj (ctx_of s)"
proof -
  obtain i ids where i: "generate_id (w_ids (world s)) = (i, ids)" by fastforce
  let ?s1 = "s\<lparr> world := (world s)\<lparr> w_ids := ids, w_ctx := put_object i obj (ctx_of s) \<rparr> \<rparr>"
  let ?rest = "bindS empty_object (\<lambda>resp.
     bindS (liftS (assign_key resp FIELD_OBJECT_ID (KeyV i))) (\<lambda>_.
     bindS (liftS (assign_key resp FIELD_KLASS (KeyV klass))) (\<lambda>_.
     send_response app rq OP_INSTANTIATE resp)))"
  have run: "?rest ?s1 = (r, s')"
    using assms by (simp add: file_object_def fresh_id_def i bindS_def [of "\<lambda>s. _ s"] bindS_def [of "update_ctx _"] update_ctx_def)
  have "ctx_same ?rest" by (intro same.resp_bind same.resp_basics)
  from ctx_sameD [OF this run] show ?thesis by auto
qed

definition puts :: "session_context \<Rightarrow> session_context \<Rightarrow> bool" where
  "puts c c' \<longleftrightarrow> c' = c \<or> (\<exists>i a. c' = put_object i a c)"

definition ctx_puts :: "'a saction \<Rightarrow> bool" where
  "ctx_puts m \<longleftrightarrow> (\<forall>s r s'. m s = (r, s') \<longrightarrow> puts (ctx_of s) (ctx_of s'))"

lemma puts_refl [simp]: "puts c c"
  by (simp add: puts_def)

lemma puts_same: "ctx_same m \<Longrightarrow> ctx_puts m"
  by (simp add: ctx_puts_def effect_in_def)

lemma puts_file: "ctx_puts (file_object app rq klass obj)"
  unfolding ctx_puts_def puts_def using file_object_ctx by blast

lemma puts_bind: "ctx_same m \<Longrightarrow> (\<And>x. ctx_puts (f x)) \<Longrightarrow> ctx_puts (bindS m f)"
  unfolding ctx_puts_def effect_in_def bindS_def by (fastforce split: prod.splits sum.splits)

lemma puts_try: "ctx_same m \<Longrightarrow> (\<And>e. ctx_same (h e)) \<Longrightarrow> (\<And>x. ctx_puts (f x)) \<Longrightarrow> ctx_puts (try_else m h f)"
  unfolding ctx_puts_def effect_in_def try_else_def by (fastforce split: prod.splits sum.splits if_splits)

lemma puts_if: "(b \<Longrightarrow> ctx_puts m) \<Longrightarrow> (\<not> b \<Longrightarrow> ctx_puts m') \<Longrightarrow> ctx_puts (if b then m else m')"
  by simp

lemma puts_state: "(\<And>s. ctx_puts (f s)) \<Longrightarrow> ctx_puts (\<lambda>s. f s s)"
  by (auto simp: ctx_puts_def)

lemma puts_instantiate:
  assumes "neutral app"
  shows "ctx_puts (handle_instantiate app rq p)"
proof -
  have con: "ctx_same (construct_object app obj p)" for obj
    unfolding construct_object_def by (intro same.resp_bind same.resp_lift same.resp_call [OF assms] same.resp_ret)
  have created: "ctx_puts (instantiate_created app rq p klass created)" for klass created
    unfolding instantiate_created_def
    by (cases created)
       (auto intro!: puts_bind puts_try puts_file same.resp_has_method same.resp_response same.resp_if con same.resp_ret
          intro: puts_same [OF same.resp_response(2)])
  have "ctx_puts (instantiate_in app rq p klass ns)" for klass ns
    unfolding instantiate_in_def [abs_def]
    by (rule puts_state) (intro puts_if puts_try same.resp_lift same.resp_response created puts_same [OF same.resp_response(2)])
  then show ?thesis unfolding handle_instantiate_def
    by (intro puts_bind puts_try same.resp_lift same.resp_response) (auto intro: same.resp_lift same.resp_ret)
qed

lemma destroy_ctx:
  assumes "neutral app" and "handle_destroy app rq p s = (Inr (), s')"
  shows "table_of (ctx_of s') = (table_of (ctx_of s))\<lparr> live := (live (table_of (ctx_of s)))(env_object_id rq := None) \<rparr>"
proof (cases "map_of (objects (ctx_of s)) (env_object_id rq)")
  case None
  then have "send_error app rq OP_DESTROY ERR_OBJECT_NOT_FOUND ''Object not found'' s = (Inr (), s')"
    using assms(2) by (simp add: handle_destroy_def with_object_def)
  then have "ctx_of s' = ctx_of s" by (rule ctx_sameD [OF same.resp_response(2)])
  moreover have "(live (table_of (ctx_of s)))(env_object_id rq := None) = live (table_of (ctx_of s))"
    using None by (auto simp: table_of_def)
  ultimately show ?thesis by simp
next
  case (Some a)
  then have "bindS (run_hook app a HOOK_DESTRUCT) (\<lambda>_. bindS (update_ctx (erase_object (env_object_id rq)))
      (\<lambda>_. respond_empty app rq OP_DESTROY)) s = (Inr (), s')"
    using assms(2) by (simp add: handle_destroy_def with_object_def)
  then obtain s1 s2 where run: "run_hook app a HOOK_DESTRUCT s = (Inr (), s1)"
      "update_ctx (erase_object (env_object_id rq)) s1 = (Inr (), s2)" "respond_empty app rq OP_DESTROY s2 = (Inr (), s')"
    by (auto elim!: bindS_InrE)
  have "ctx_of s1 = ctx_of s" by (rule ctx_sameD [OF same.resp_run_hook [OF assms(1)] run(1)])
  moreover have "ctx_of s2 = erase_object (env_object_id rq) (ctx_of s1)" using run(2) by (auto simp: update_ctx_def)
  moreover have "ctx_of s' = ctx_of s2" by (rule ctx_sameD [OF same.resp_respond_empty run(3)])
  ultimately show ?thesis by (simp add: table_erase)
qed

lemma members_ctx:
  assumes "neutral app" and "eachS (destroy_member app) js s = (Inr (), s')"
  shows "groups (ctx_of s') = groups (ctx_of s) \<and> map_of (objects (ctx_of s')) = map_of (objects (ctx_of s)) |` (- set js)"
  using assms(2)
proof (induction js arbitrary: s)
  case Nil
  then show ?case by (simp add: retS_def)
next
  case (Cons i js)
  obtain s1 where 1: "destroy_member app i s = (Inr (), s1)" "eachS (destroy_member app) js s1 = (Inr (), s')"
    using Cons.prems by (auto elim!: bindS_InrE)
  have step: "groups (ctx_of s1) = groups (ctx_of s) \<and> map_of (objects (ctx_of s1)) = (map_of (objects (ctx_of s)))(i := None)"
  proof (cases "map_of (objects (ctx_of s)) i")
    case None
    then have "s1 = s" using 1(1) by (simp add: destroy_member_def)
    with None show ?thesis by auto
  next
    case (Some a)
    then have "bindS (run_hook app a HOOK_DESTRUCT) (\<lambda>_. update_ctx (erase_object i)) s = (Inr (), s1)"
      using 1(1) by (simp add: destroy_member_def)
    then obtain s0 where 0: "run_hook app a HOOK_DESTRUCT s = (Inr (), s0)" "update_ctx (erase_object i) s0 = (Inr (), s1)"
      by (auto elim!: bindS_InrE)
    have "ctx_of s0 = ctx_of s" by (rule ctx_sameD [OF same.resp_run_hook [OF assms(1)] 0(1)])
    then show ?thesis using 0(2) by (auto simp: update_ctx_def erase_object_def)
  qed
  have "groups (ctx_of s') = groups (ctx_of s1) \<and> map_of (objects (ctx_of s')) = map_of (objects (ctx_of s1)) |` (- set js)"
    using Cons.IH [OF 1(2)] by simp
  with step show ?case by (auto simp: restrict_map_def fun_eq_iff)
qed

lemma destroy_group_ctx:
  assumes "neutral app" and "handle_destroy_group app rq p s = (Inr (), s')" and "env_group rq \<noteq> 0"
  shows "table_of (ctx_of s') =
     \<lparr> live = live (table_of (ctx_of s)) |` (- members (table_of (ctx_of s)) (env_group rq)),
       members = (members (table_of (ctx_of s)))(env_group rq := {}) \<rparr>"
proof (cases "map_of (groups (ctx_of s)) (env_group rq)")
  case None
  then have "respond_empty app rq OP_DESTROY_GROUP s = (Inr (), s')" using assms(2) by (simp add: handle_destroy_group_def)
  then have "ctx_of s' = ctx_of s" by (rule ctx_sameD [OF same.resp_respond_empty])
  then show ?thesis using None by (auto simp: table_of_def fun_eq_iff)
next
  case (Some ids)
  then have "bindS (update_ctx (\<lambda>c. c\<lparr> groups := map_erase (env_group rq) (groups c) \<rparr>)) (\<lambda>_.
      bindS (eachS (destroy_member app) (map fst ids)) (\<lambda>_. respond_empty app rq OP_DESTROY_GROUP)) s = (Inr (), s')"
    using assms(2,3) by (simp add: handle_destroy_group_def)
  then obtain s1 s2 where run: "update_ctx (\<lambda>c. c\<lparr> groups := map_erase (env_group rq) (groups c) \<rparr>) s = (Inr (), s1)"
      "eachS (destroy_member app) (map fst ids) s1 = (Inr (), s2)" "respond_empty app rq OP_DESTROY_GROUP s2 = (Inr (), s')"
    by (auto elim!: bindS_InrE)
  have 1: "ctx_of s1 = (ctx_of s)\<lparr> groups := map_erase (env_group rq) (groups (ctx_of s)) \<rparr>"
    using run(1) by (auto simp: update_ctx_def)
  have 2: "groups (ctx_of s2) = groups (ctx_of s1)"
      "map_of (objects (ctx_of s2)) = map_of (objects (ctx_of s1)) |` (- set (map fst ids))"
    using members_ctx [OF assms(1) run(2)] by auto
  have 3: "ctx_of s' = ctx_of s2" by (rule ctx_sameD [OF same.resp_respond_empty run(3)])
  have "set (map fst ids) = dom (map_of ids)" by (simp add: dom_map_of_conv_image_fst)
  then show ?thesis using 1 2 Some by (auto simp: 3 table_of_def fun_eq_iff)
qed

lemma cleanup_ctx: "cleanup_context app s = (Inr (), s') \<Longrightarrow> objects (ctx_of s') = [] \<and> groups (ctx_of s') = []"
  unfolding cleanup_context_def by (drule bindS_Inr) (auto simp: update_ctx_def)

lemma disconnect_ctx:
  assumes "handle_disconnect app rq p s = (Inr (), s')"
  shows "objects (ctx_of s') = [] \<and> groups (ctx_of s') = [] \<and> conn_closed s'"
proof -
  obtain s1 s2 where run: "cleanup_context app s = (Inr (), s1)" "swallow (respond_empty app rq OP_DISCONNECT) s1 = (Inr (), s2)"
      "conn_close s2 = (Inr (), s')"
    using assms unfolding handle_disconnect_def by (auto elim!: bindS_InrE)
  have "ctx_of s2 = ctx_of s1" by (rule ctx_sameD [OF same.resp_swallow [OF same.resp_respond_empty] run(2)])
  then show ?thesis using cleanup_ctx [OF run(1)] run(3) by (auto simp: conn_close_def)
qed

lemma handler_lookup:
  "map_of handler_map OP_INSTANTIATE = Some handle_instantiate"
  "map_of handler_map OP_DESTROY = Some handle_destroy"
  "map_of handler_map OP_DESTROY_GROUP = Some handle_destroy_group"
  "map_of handler_map OP_DISCONNECT = Some handle_disconnect"
  by (simp_all add: handler_map_def token_values)

lemma op_distinct:
  "OP_DESTROY \<noteq> OP_INSTANTIATE" "OP_DESTROY_GROUP \<noteq> OP_INSTANTIATE" "OP_DESTROY_GROUP \<noteq> OP_DESTROY"
  "OP_DISCONNECT \<noteq> OP_INSTANTIATE" "OP_DISCONNECT \<noteq> OP_DESTROY" "OP_DISCONNECT \<noteq> OP_DESTROY_GROUP"
  by (simp_all add: token_values)

lemma other_handlers_same:
  assumes "neutral app" and "op \<notin> {OP_INSTANTIATE, OP_DESTROY, OP_DESTROY_GROUP, OP_DISCONNECT}"
  shows "ctx_same (case map_of handler_map op of Some handler \<Rightarrow> handler app rq p
        | None \<Rightarrow> send_error app rq op ERR_UNKNOWN_OPERATION ''Unknown operation'')"
proof (cases "map_of handler_map op")
  case None
  then show ?thesis by (simp add: same.resp_response(2))
next
  case (Some handler)
  then have "handler \<in> {handle_connect, handle_describe, handle_clear, handle_set, handle_get, handle_call,
      handle_dictionary, handle_help}"
    using assms(2) by (simp add: handler_map_def split: if_splits)
  then have "ctx_same (handler app rq p)"
    using same.resp_connect [OF assms(1)] same.resp_describe same.resp_clear [OF assms(1)] same.resp_set [OF assms(1)]
      same.resp_get [OF assms(1)] same.resp_call_op [OF assms(1)] same.resp_dictionary by auto
  then show ?thesis by (simp add: Some)
qed

lemma handle_request_table:
  assumes "neutral app" and "handle_request app rq p s = (Inr (), s')"
  shows "table_spec rq (table_of (ctx_of s)) (table_of (ctx_of s'))"
proof (cases "well_formed_request rq")
  case False
  then obtain op code msg where "send_error app rq op code msg s = (Inr (), s')"
    using assms(2) by (auto simp: handle_request_def well_formed_request_def split: if_splits)
  then have "ctx_of s' = ctx_of s" by (rule ctx_sameD [OF same.resp_response(2)])
  then show ?thesis using False by (simp add: table_spec_def)
next
  case True
  let ?g = "s\<lparr> world := (world s)\<lparr> w_ctx := (ctx_of s)\<lparr> current_group := env_group rq \<rparr> \<rparr> \<rparr>"
  have run: "(case map_of handler_map (env_op rq) of
      Some handler \<Rightarrow> handler app rq p
    | None \<Rightarrow> send_error app rq (env_op rq) ERR_UNKNOWN_OPERATION ''Unknown operation'') ?g = (Inr (), s')"
    using True assms(2)
    by (auto simp: handle_request_def well_formed_request_def bindS_def update_ctx_def split: option.splits)
  have unchanged: "table_of (ctx_of s') = table_of (ctx_of s)" if "ctx_same m" "m ?g = (Inr (), s')" for m :: "unit saction"
    using ctx_sameD [OF that] by (simp add: table_group)
  consider "env_op rq = OP_INSTANTIATE" | "env_op rq = OP_DESTROY" | "env_op rq = OP_DESTROY_GROUP"
    | "env_op rq = OP_DISCONNECT"
    | "env_op rq \<notin> {OP_INSTANTIATE, OP_DESTROY, OP_DESTROY_GROUP, OP_DISCONNECT}" by blast
  then show ?thesis
  proof cases
    case 1
    have "handle_instantiate app rq p ?g = (Inr (), s')" using run 1 by (simp add: handler_lookup)
    then have "puts (ctx_of ?g) (ctx_of s')" using puts_instantiate [OF assms(1)] unfolding ctx_puts_def by blast
    then consider "ctx_of s' = ctx_of ?g" | i a where "ctx_of s' = put_object i a (ctx_of ?g)" by (auto simp: puts_def)
    then show ?thesis
    proof cases
      case 1
      then show ?thesis using True \<open>env_op rq = OP_INSTANTIATE\<close> by (simp add: table_spec_def table_group)
    next
      case (2 i a)
      then have "table_of (ctx_of s') = add_entry (env_group rq) i a (table_of (ctx_of s))"
        by (simp add: table_put table_group)
      then show ?thesis using True \<open>env_op rq = OP_INSTANTIATE\<close> unfolding table_spec_def by auto
    qed
  next
    case 2
    have "handle_destroy app rq p ?g = (Inr (), s')" using run 2 by (simp add: handler_lookup)
    from destroy_ctx [OF assms(1) this] show ?thesis using True 2 by (simp add: table_spec_def table_group op_distinct)
  next
    case 3
    have r: "handle_destroy_group app rq p ?g = (Inr (), s')" using run 3 by (simp add: handler_lookup)
    show ?thesis
    proof (cases "env_group rq = 0")
      case True0: True
      then have "respond_empty app rq OP_DESTROY_GROUP ?g = (Inr (), s')"
        using r by (auto simp: handle_destroy_group_def split: option.splits)
      from unchanged [OF same.resp_respond_empty this] show ?thesis using True 3 True0 by (simp add: table_spec_def op_distinct op_distinct [symmetric])
    next
      case False
      from destroy_group_ctx [OF assms(1) r False] show ?thesis using True 3 False by (simp add: table_spec_def table_group op_distinct)
    qed
  next
    case 4
    have "handle_disconnect app rq p ?g = (Inr (), s')" using run 4 by (simp add: handler_lookup)
    from disconnect_ctx [OF this] show ?thesis using True 4 by (simp add: table_spec_def table_of_def no_table_def op_distinct)
  next
    case 5
    from other_handlers_same [OF assms(1) 5]
    have "ctx_same (case map_of handler_map (env_op rq) of Some handler \<Rightarrow> handler app rq p
        | None \<Rightarrow> send_error app rq (env_op rq) ERR_UNKNOWN_OPERATION ''Unknown operation'')" .
    from unchanged [OF this run] show ?thesis using 5 True by (simp add: table_spec_def)
  qed
qed

text \<open>
  C4: As long as the application's methods leave the table alone, every request that is handled
  changes the session's object table exactly as its contract says: only \<open>OP_INSTANTIATE\<close> adds an
  object (one, filed under the request's group), \<open>OP_DESTROY\<close> removes just the object it names,
  \<open>OP_DESTROY_GROUP\<close> just the objects filed under its group, \<open>OP_DISCONNECT\<close> all of them, and every
  other request, a malformed one included, removes and adds nothing.
\<close>

theorem request_refines_table:
  assumes "neutral app" and "handle_request app rq p s = (Inr (), s')"
  shows "table_spec rq (table_of (ctx_of s)) (table_of (ctx_of s'))"
  using assms by (rule handle_request_table)

theorem request_refines_table_witness:
  "\<exists>s'. handle_request plain_app new_envelope 0 (new_session 1) = (Inr (), s') \<and>
     table_spec new_envelope (table_of (new_context 1)) (table_of (ctx_of s'))"
proof -
  have n: "neutral plain_app" by (simp add: well_behaved_def plain_app_def)
  obtain s' where run: "handle_request plain_app new_envelope 0 (new_session 1) = (Inr (), s')"
    by (rule no_operation_run [of new_envelope 0 1]) (simp add: new_envelope_def)
  from request_refines_table [OF n run] run show ?thesis by (auto simp: new_session_def)
qed

text \<open>A disconnect request ends with an empty table on a closed connection, whatever the hooks do.\<close>

lemma disconnect_empties:
  assumes "well_formed_request rq" and "env_op rq = OP_DISCONNECT" and "handle_request app rq p s = (Inr (), s')"
  shows "table_of (ctx_of s') = no_table \<and> conn_closed s'"
proof -
  have "handle_disconnect app rq p (s\<lparr> world := (world s)\<lparr> w_ctx := (ctx_of s)\<lparr> current_group := env_group rq \<rparr> \<rparr> \<rparr>) = (Inr (), s')"
    using assms
    by (auto simp: handle_request_def well_formed_request_def bindS_def update_ctx_def handler_lookup)
  from disconnect_ctx [OF this] show ?thesis by (simp add: table_of_def no_table_def)
qed

text \<open>
  A request on an object id that is not in the table is answered with \<open>ERR_OBJECT_NOT_FOUND\<close> for
  the operation and does nothing else to objects; this includes a one-way call, which thereby gets
  a response although it asked for none.
\<close>

theorem missing_object_error:
  assumes "well_formed_request rq" and "env_op rq \<in> {OP_CLEAR, OP_SET, OP_GET, OP_CALL, OP_DESTROY}"
    and "map_of (objects (ctx_of s)) (env_object_id rq) = None"
  shows "handle_request app rq p s =
    send_error app rq (env_op rq) ERR_OBJECT_NOT_FOUND ''Object not found''
      (s\<lparr> world := (world s)\<lparr> w_ctx := (ctx_of s)\<lparr> current_group := env_group rq \<rparr> \<rparr> \<rparr>)"
proof -
  have lookup: "map_of handler_map OP_CLEAR = Some handle_clear" "map_of handler_map OP_SET = Some handle_set"
      "map_of handler_map OP_GET = Some handle_get" "map_of handler_map OP_CALL = Some handle_call"
      "map_of handler_map OP_DESTROY = Some handle_destroy"
    by (simp_all add: handler_map_def token_values)
  show ?thesis
    using assms
    by (auto simp: handle_request_def well_formed_request_def bindS_def [of "update_ctx _"] update_ctx_def lookup
        handle_clear_def handle_set_def handle_get_def handle_call_def handle_destroy_def with_object_def)
qed

theorem missing_object_error_witness:
  "let rq = new_envelope\<lparr> env_kind := KIND_REQUEST, env_op := OP_CALL, env_object_id := 9, env_oneway := True \<rparr>
   in handle_request plain_app rq 0 (new_session 1) =
     send_error plain_app rq OP_CALL ERR_OBJECT_NOT_FOUND ''Object not found'' (new_session 1)"
proof -
  let ?rq = "new_envelope\<lparr> env_kind := KIND_REQUEST, env_op := OP_CALL, env_object_id := 9, env_oneway := True \<rparr>"
  have "handle_request plain_app ?rq 0 (new_session 1) =
    send_error plain_app ?rq (env_op ?rq) ERR_OBJECT_NOT_FOUND ''Object not found''
      ((new_session 1)\<lparr> world := (world (new_session 1))\<lparr> w_ctx := (ctx_of (new_session 1))\<lparr> current_group := env_group ?rq \<rparr> \<rparr> \<rparr>)"
    by (rule missing_object_error)
       (simp_all add: well_formed_request_def new_envelope_def new_session_def new_context_def token_values)
  then show ?thesis by (simp add: Let_def new_envelope_def new_session_def new_context_def)
qed

text \<open>The group of a request stays current after it: the context does not return to no group.\<close>

lemma group_outlives_request:
  assumes "neutral app" and "well_formed_request rq" and "env_op rq = OP_HELP" and "handle_request app rq p s = (Inr (), s')"
  shows "current_group (ctx_of s') = env_group rq"
proof -
  have l: "map_of handler_map OP_HELP = Some handle_help" by (simp add: handler_map_def token_values)
  have "handle_help app rq p (s\<lparr> world := (world s)\<lparr> w_ctx := (ctx_of s)\<lparr> current_group := env_group rq \<rparr> \<rparr> \<rparr>) = (Inr (), s')"
    using assms(2-) by (auto simp: handle_request_def well_formed_request_def bindS_def [of "update_ctx _"] update_ctx_def l)
  from ctx_sameD [OF same.resp_dictionary(2) this] show ?thesis by simp
qed

end
