(* ===== verification/Rmi_Replies.thy ===== *)
theory Rmi_Replies
  imports Rmi_Server "HOL-Library.Sublist"
begin

text \<open>
  The response discipline of the server: every request is answered at most once, in request order,
  and exactly once where the protocol says so; everything else on the connection is an event.
\<close>

section \<open>Counting responses\<close>

definition responses :: "envelope list \<Rightarrow> envelope list" where
  "responses = filter (\<lambda>e. env_kind e = KIND_RESPONSE)"

lemma responses_append [simp]: "responses (xs @ ys) = responses xs @ responses ys"
  by (simp add: responses_def)

lemma responses_simps [simp]: "responses [] = []"
  by (simp add: responses_def)

text \<open>An action that sends no response.\<close>

definition quiet :: "'a saction \<Rightarrow> bool" where
  "quiet m \<longleftrightarrow> (\<forall>s r s'. m s = (r, s') \<longrightarrow> responses (sent s') = responses (sent s))"

text \<open>
  An action that sends one response to the request when it returns (none is allowed too unless
  \<open>must\<close>) and none when it throws.
\<close>

definition replies :: "bool \<Rightarrow> hash_t \<Rightarrow> 'a saction \<Rightarrow> bool" where
  "replies must i m \<longleftrightarrow> (\<forall>s r s'. m s = (r, s') \<longrightarrow>
     (case r of
        Inl _ \<Rightarrow> responses (sent s') = responses (sent s)
      | Inr _ \<Rightarrow> (\<exists>e. env_request_id e = i \<and> responses (sent s') = responses (sent s) @ [e]) \<or>
          \<not> must \<and> responses (sent s') = responses (sent s)))"

lemma quietD: "quiet m \<Longrightarrow> m s = (r, s') \<Longrightarrow> responses (sent s') = responses (sent s)"
  by (auto simp: quiet_def)

lemma quietI: "(\<And>s r s'. m s = (r, s') \<Longrightarrow> responses (sent s') = responses (sent s)) \<Longrightarrow> quiet m"
  by (auto simp: quiet_def)

lemma quiet_ret [intro]: "quiet (retS x)"
  by (simp add: quiet_def retS_def)

lemma quiet_lift [intro]: "quiet (liftS m)"
  by (auto simp: quiet_def liftS_def split: prod.splits)

lemma quiet_update_ctx [intro]: "quiet (update_ctx f)"
  by (simp add: quiet_def update_ctx_def)

lemma quiet_fresh_id [intro]: "quiet fresh_id"
  by (auto simp: quiet_def fresh_id_def split: prod.splits)

lemma quiet_close [intro]: "quiet conn_close"
  by (simp add: quiet_def conn_close_def)

lemma quiet_bind [intro]: "quiet m \<Longrightarrow> (\<And>x. quiet (f x)) \<Longrightarrow> quiet (bindS m f)"
  unfolding quiet_def bindS_def by (fastforce split: prod.splits sum.splits)

lemma quiet_catch [intro]: "quiet m \<Longrightarrow> (\<And>e. quiet (h e)) \<Longrightarrow> quiet (catchS m h)"
  unfolding quiet_def catchS_def by (fastforce split: prod.splits sum.splits if_splits)

lemma quiet_swallow [intro]: "quiet m \<Longrightarrow> quiet (swallow m)"
  unfolding swallow_def by blast

lemma quiet_each [intro]: "(\<And>x. quiet (f x)) \<Longrightarrow> quiet (eachS f xs)"
  by (induction xs) auto

lemma KIND_EVENT_RESPONSE: "KIND_EVENT \<noteq> KIND_RESPONSE"
  by (simp add: token_values)

lemma quiet_send: "env_kind e \<noteq> KIND_RESPONSE \<Longrightarrow> quiet (conn_send app e)"
  by (auto simp: quiet_def conn_send_def Let_def responses_def split: option.splits)

lemma quiet_emit [intro]: "quiet (emit_event app ev)"
  unfolding emit_event_def
  by (intro quiet_bind quiet_lift quiet_send) (simp add: event_envelope_def KIND_EVENT_RESPONSE)

lemma quiet_call [intro]: "quiet (call_method app self name params)"
  unfolding call_method_def
proof (intro quiet_bind quiet_lift)
  fix mp :: "meth \<times> addr"
  obtain m p where mp: "mp = (m, p)" by fastforce
  have ev: "quiet (eachS (\<lambda>ev. swallow (emit_event app ev)) evs)" for evs by blast
  show "quiet (case mp of (m, p) \<Rightarrow> \<lambda>s. case a_invoke app m self p (world s) of
      (r, w, evs) \<Rightarrow> (case eachS (\<lambda>ev. swallow (emit_event app ev)) evs (s\<lparr> world := w \<rparr>) of
          (Inl e, s') \<Rightarrow> (Inl e, s') | (Inr _, s') \<Rightarrow> (r, s')))"
    unfolding mp prod.case
  proof (rule quietI)
    fix s r s'
    assume run: "(case a_invoke app m self p (world s) of
      (r, w, evs) \<Rightarrow> (case eachS (\<lambda>ev. swallow (emit_event app ev)) evs (s\<lparr> world := w \<rparr>) of
          (Inl e, s') \<Rightarrow> (Inl e, s') | (Inr _, s') \<Rightarrow> (r, s'))) = (r, s')"
    obtain r0 w evs where i: "a_invoke app m self p (world s) = (r0, w, evs)" by (cases "a_invoke app m self p (world s)") auto
    obtain r1 s1 where e: "eachS (\<lambda>ev. swallow (emit_event app ev)) evs (s\<lparr> world := w \<rparr>) = (r1, s1)" by fastforce
    have "s' = s1" using run by (auto simp: i e split: sum.splits)
    then show "responses (sent s') = responses (sent s)" using quietD [OF ev e] by simp
  qed
qed

lemma quiet_has_method [intro]: "quiet (has_method a name)"
  unfolding has_method_def by blast

lemma quiet_empty_object [intro]: "quiet empty_object"
  unfolding empty_object_def by blast

section \<open>Replies\<close>

lemma repliesI:
  assumes "\<And>s e s'. m s = (Inl e, s') \<Longrightarrow> responses (sent s') = responses (sent s)"
    and "\<And>s x s'. m s = (Inr x, s') \<Longrightarrow>
      (\<exists>e. env_request_id e = i \<and> responses (sent s') = responses (sent s) @ [e]) \<or>
      \<not> must \<and> responses (sent s') = responses (sent s)"
  shows "replies must i m"
  unfolding replies_def using assms by (auto split: sum.split)

lemma replies_InlD: "replies must i m \<Longrightarrow> m s = (Inl e, s') \<Longrightarrow> responses (sent s') = responses (sent s)"
  by (fastforce simp: replies_def)

lemma replies_InrD:
  "replies must i m \<Longrightarrow> m s = (Inr x, s') \<Longrightarrow>
   (\<exists>e. env_request_id e = i \<and> responses (sent s') = responses (sent s) @ [e]) \<or>
   \<not> must \<and> responses (sent s') = responses (sent s)"
  by (fastforce simp: replies_def)

lemma replies_weaken: "replies True i m \<Longrightarrow> replies must i m"
  by (rule repliesI) (auto dest: replies_InlD replies_InrD)

lemma quiet_replies: "quiet m \<Longrightarrow> replies False i m"
  by (rule repliesI) (auto dest: quietD)

lemma replies_bind: "quiet m \<Longrightarrow> (\<And>x. replies must i (f x)) \<Longrightarrow> replies must i (bindS m f)"
proof (rule repliesI)
  fix s e s' assume q: "quiet m" and f: "\<And>x. replies must i (f x)" and run: "bindS m f s = (Inl e, s')"
  obtain r1 s1 where m: "m s = (r1, s1)" by fastforce
  show "responses (sent s') = responses (sent s)"
    using run quietD [OF q m] replies_InlD [OF f] by (cases r1) (auto simp: bindS_def m)
next
  fix s x s' assume q: "quiet m" and f: "\<And>x. replies must i (f x)" and run: "bindS m f s = (Inr x, s')"
  obtain r1 s1 where m: "m s = (r1, s1)" by fastforce
  obtain y where y: "r1 = Inr y" "f y s1 = (Inr x, s')" using run by (cases r1) (auto simp: bindS_def m)
  show "(\<exists>e. env_request_id e = i \<and> responses (sent s') = responses (sent s) @ [e]) \<or>
      \<not> must \<and> responses (sent s') = responses (sent s)"
    using replies_InrD [OF f y(2)] quietD [OF q m] by simp
qed

lemma replies_catch: "replies must i m \<Longrightarrow> (\<And>e. replies must i (h e)) \<Longrightarrow> replies must i (catchS m h)"
proof (rule repliesI)
  fix s e s' assume m: "replies must i m" and h: "\<And>e. replies must i (h e)" and run: "catchS m h s = (Inl e, s')"
  obtain r1 s1 where ms: "m s = (r1, s1)" by fastforce
  obtain e1 where r1: "r1 = Inl e1" using run by (cases r1) (auto simp: catchS_def ms)
  show "responses (sent s') = responses (sent s)"
    using run replies_InlD [OF m ms [unfolded r1]] replies_InlD [OF h]
    by (auto simp: catchS_def ms r1 split: if_splits)
next
  fix s x s' assume m: "replies must i m" and h: "\<And>e. replies must i (h e)" and run: "catchS m h s = (Inr x, s')"
  obtain r1 s1 where ms: "m s = (r1, s1)" by fastforce
  show "(\<exists>e. env_request_id e = i \<and> responses (sent s') = responses (sent s) @ [e]) \<or>
      \<not> must \<and> responses (sent s') = responses (sent s)"
  proof (cases r1)
    case (Inl e1)
    then have "h e1 s1 = (Inr x, s')" using run by (auto simp: catchS_def ms split: if_splits)
    from replies_InrD [OF h this] show ?thesis using replies_InlD [OF m ms [unfolded Inl]] by simp
  next
    case (Inr y)
    then have "s1 = s'" using run by (auto simp: catchS_def ms)
    then show ?thesis using replies_InrD [OF m ms [unfolded Inr]] by simp
  qed
qed

lemma replies_try:
  assumes "quiet m" and "\<And>e. replies must i (h e)" and "\<And>x. replies must i (f x)"
  shows "replies must i (try_else m h f)"
proof (rule repliesI)
  fix s e s' assume run: "try_else m h f s = (Inl e, s')"
  obtain r1 s1 where m: "m s = (r1, s1)" by fastforce
  show "responses (sent s') = responses (sent s)"
    using run quietD [OF assms(1) m] replies_InlD [OF assms(2)] replies_InlD [OF assms(3)]
    by (cases r1) (auto simp: try_else_def m split: if_splits)
next
  fix s x s' assume run: "try_else m h f s = (Inr x, s')"
  obtain r1 s1 where m: "m s = (r1, s1)" by fastforce
  have "(\<exists>e. h e s1 = (Inr x, s')) \<or> (\<exists>y. f y s1 = (Inr x, s'))"
    using run by (cases r1) (auto simp: try_else_def m split: if_splits)
  then show "(\<exists>e. env_request_id e = i \<and> responses (sent s') = responses (sent s) @ [e]) \<or>
      \<not> must \<and> responses (sent s') = responses (sent s)"
    using quietD [OF assms(1) m] replies_InrD [OF assms(2)] replies_InrD [OF assms(3)] by metis
qed

lemma replies_state: "(\<And>s. replies must i (f s)) \<Longrightarrow> replies must i (\<lambda>s. f s s)"
  by (auto simp: replies_def)

lemma replies_swallow: "replies True i m \<Longrightarrow> replies False i (swallow m)"
  unfolding swallow_def
proof (rule replies_catch)
  assume m: "replies True i m"
  show "replies False i (bindS m (\<lambda>_. retS ()))"
  proof (rule repliesI)
    fix s e s' assume "bindS m (\<lambda>_. retS ()) s = (Inl e, s')"
    then show "responses (sent s') = responses (sent s)"
      using replies_InlD [OF m] by (auto simp: bindS_def retS_def split: prod.splits sum.splits)
  next
    fix s x s' assume "bindS m (\<lambda>_. retS ()) s = (Inr x, s')"
    then obtain y where "m s = (Inr y, s')" by (auto simp: bindS_def retS_def split: prod.splits sum.splits)
    from replies_InrD [OF m this]
    show "(\<exists>e. env_request_id e = i \<and> responses (sent s') = responses (sent s) @ [e]) \<or>
      \<not> False \<and> responses (sent s') = responses (sent s)" by auto
  qed
  show "replies False i (retS ())" by (rule quiet_replies) (rule quiet_ret)
qed

lemma replies_send:
  "env_kind e = KIND_RESPONSE \<Longrightarrow> env_request_id e = i \<Longrightarrow> replies must i (conn_send app e)"
  by (auto simp: replies_def conn_send_def Let_def responses_def split: option.splits)

lemma replies_response: "replies must (env_request_id rq) (send_response app rq op payload)"
  unfolding send_response_def
  by (intro replies_bind quiet_lift replies_send) (simp_all add: response_to_def)

lemma replies_error: "replies must (env_request_id rq) (send_error app rq op code msg)"
  unfolding send_error_def
  by (intro replies_bind quiet_lift replies_send) (simp_all add: response_to_def)

lemma replies_empty: "replies must (env_request_id rq) (respond_empty app rq op)"
  unfolding respond_empty_def by (intro replies_bind quiet_empty_object replies_response)

lemma replies_with_object:
  "(\<And>a. replies must (env_request_id rq) (f a)) \<Longrightarrow> replies must (env_request_id rq) (with_object app rq op f)"
proof -
  assume f: "\<And>a. replies must (env_request_id rq) (f a)"
  have "replies must (env_request_id rq) (\<lambda>s. (\<lambda>s0. case map_of (objects (ctx_of s0)) (env_object_id rq) of
      None \<Rightarrow> send_error app rq op ERR_OBJECT_NOT_FOUND ''Object not found'' | Some a \<Rightarrow> f a) s s)"
    by (rule replies_state) (auto intro: f replies_error split: option.split)
  also have "(\<lambda>s. (\<lambda>s0. case map_of (objects (ctx_of s0)) (env_object_id rq) of
      None \<Rightarrow> send_error app rq op ERR_OBJECT_NOT_FOUND ''Object not found'' | Some a \<Rightarrow> f a) s s) = with_object app rq op f"
    by (rule ext) (simp add: with_object_def split: option.split)
  finally show ?thesis .
qed

lemmas quiet_basics = quiet_lift quiet_ret quiet_update_ctx quiet_fresh_id quiet_call quiet_has_method quiet_empty_object

lemma quiet_run_hook [intro]: "quiet (run_hook app a hook)"
  unfolding run_hook_def by (intro quiet_bind quiet_has_method) (auto intro!: quiet_swallow quiet_bind quiet_basics)

lemma quiet_state: "(\<And>s. quiet (f s)) \<Longrightarrow> quiet (\<lambda>s. f s s)"
  by (auto simp: quiet_def)

lemma quiet_cleanup: "quiet (cleanup_context app)"
proof -
  have "quiet (\<lambda>s. (\<lambda>s0. bindS (eachS (\<lambda>(oid, a). run_hook app a HOOK_DESTRUCT) (objects (ctx_of s0))) (\<lambda>_.
      update_ctx (\<lambda>c. c\<lparr> objects := [], groups := [], emits := False \<rparr>))) s s)"
    by (rule quiet_state) (auto intro!: quiet_bind quiet_each quiet_update_ctx)
  then show ?thesis by (simp add: cleanup_context_def [abs_def])
qed

section \<open>The handlers\<close>

lemma replies_connect: "replies must (env_request_id rq) (handle_connect app rq p)"
  unfolding handle_connect_def
proof (rule replies_bind)
  show "quiet (case a_auth app of None \<Rightarrow> retS True
      | Some authenticate \<Rightarrow> (\<lambda>s. case authenticate p (world s) of (r, w) \<Rightarrow> (r, s\<lparr> world := w \<rparr>)))"
    by (auto simp: quiet_def retS_def split: option.splits prod.splits)
  show "replies must (env_request_id rq) (if \<not> accepted
      then send_error app rq OP_CONNECT ERR_ACCESS_DENIED ''Authentication failed''
      else bindS empty_object (\<lambda>resp. bindS (liftS (assign_key resp FIELD_VERSION (Int32V PROTOCOL_VERSION))) (\<lambda>_.
        send_response app rq OP_CONNECT resp)))" for accepted
    by (auto intro!: replies_error replies_bind quiet_basics replies_response)
qed

lemma replies_describe: "replies must (env_request_id rq) (handle_describe app rq p)"
  unfolding handle_describe_def
  by (intro replies_bind quiet_lift) (auto intro: replies_error replies_response split: option.split)

lemma replies_file_object: "replies must (env_request_id rq) (file_object app rq klass obj)"
  unfolding file_object_def by (intro replies_bind quiet_basics replies_response)

lemma quiet_construct: "quiet (construct_object app obj p)"
  unfolding construct_object_def by (intro quiet_bind quiet_basics)

lemma replies_if: "(b \<Longrightarrow> replies must i m) \<Longrightarrow> (\<not> b \<Longrightarrow> replies must i m') \<Longrightarrow> replies must i (if b then m else m')"
  by simp

lemma replies_created: "replies must (env_request_id rq) (instantiate_created app rq p klass created)"
  unfolding instantiate_created_def
  by (cases created)
     (auto intro!: replies_error replies_bind replies_try quiet_basics quiet_construct replies_file_object)

lemma replies_instantiate_in: "replies must (env_request_id rq) (instantiate_in app rq p klass ns)"
  unfolding instantiate_in_def [abs_def]
  by (rule replies_state) (intro replies_if replies_error replies_try quiet_lift replies_created)

lemma replies_instantiate: "replies must (env_request_id rq) (handle_instantiate app rq p)"
  unfolding handle_instantiate_def
  by (intro replies_bind replies_try quiet_lift replies_error replies_instantiate_in) (auto intro: quiet_basics)

lemma replies_clear: "replies must (env_request_id rq) (handle_clear app rq p)"
  unfolding handle_clear_def by (intro replies_with_object replies_bind quiet_lift quiet_run_hook replies_empty)

lemma replies_set: "replies must (env_request_id rq) (handle_set app rq p)"
  unfolding handle_set_def
  by (intro replies_with_object replies_bind replies_try replies_error replies_empty quiet_lift quiet_has_method)
     (auto intro: quiet_basics)

lemma replies_get: "replies must (env_request_id rq) (handle_get app rq p)"
  unfolding handle_get_def
proof (intro replies_with_object replies_bind replies_response quiet_has_method)
  show "quiet (\<lambda>s. let ks = filter projected_key (map fst (fields_of (store_in s) p))
      in liftS (if ks = [] then clone_ptr obj else project obj ks) s)" for obj
    unfolding Let_def by (rule quiet_state) (rule quiet_lift)
  show "quiet (if hook then catchS (call_method app obj HOOK_GETTER result) (\<lambda>_. retS result) else retS result)" for hook obj result
    by (auto intro: quiet_catch quiet_basics)
qed

lemma replies_call:
  "must \<longrightarrow> \<not> env_oneway rq \<Longrightarrow> replies must (env_request_id rq) (handle_call app rq p)"
  unfolding handle_call_def
  by (intro replies_with_object replies_bind replies_catch quiet_lift quiet_call)
     (auto intro!: replies_response replies_error intro: quiet_replies [OF quiet_ret])

lemma replies_destroy: "replies must (env_request_id rq) (handle_destroy app rq p)"
  unfolding handle_destroy_def
  by (intro replies_with_object replies_bind quiet_run_hook quiet_update_ctx replies_empty)

lemma quiet_destroy_member: "quiet (destroy_member app i)"
proof (rule quietI)
  fix s r s' assume run: "destroy_member app i s = (r, s')"
  have q: "quiet (bindS (run_hook app a HOOK_DESTRUCT) (\<lambda>_. update_ctx (erase_object i)))" for a by blast
  show "responses (sent s') = responses (sent s)"
    using run quietD [OF q] by (auto simp: destroy_member_def split: option.splits)
qed

lemma replies_destroy_group: "replies must (env_request_id rq) (handle_destroy_group app rq p)"
proof -
  have q: "replies must (env_request_id rq) (bindS (update_ctx f) (\<lambda>_.
      bindS (eachS (destroy_member app) is) (\<lambda>_. respond_empty app rq OP_DESTROY_GROUP)))" for f "is"
    by (intro replies_bind quiet_update_ctx quiet_each quiet_destroy_member replies_empty)
  have "replies must (env_request_id rq) (\<lambda>s. (\<lambda>s0. case map_of (groups (ctx_of s0)) (env_group rq) of
      None \<Rightarrow> respond_empty app rq OP_DESTROY_GROUP
    | Some ids \<Rightarrow> (if env_group rq = 0 then respond_empty app rq OP_DESTROY_GROUP
        else bindS (update_ctx (\<lambda>c. c\<lparr> groups := map_erase (env_group rq) (groups c) \<rparr>)) (\<lambda>_.
             bindS (eachS (destroy_member app) (map fst ids)) (\<lambda>_. respond_empty app rq OP_DESTROY_GROUP)))) s s)"
    by (rule replies_state) (auto intro: replies_empty q split: option.split)
  then show ?thesis
    by (rule back_subst [where P = "replies must (env_request_id rq)"])
       (auto simp: fun_eq_iff handle_destroy_group_def split: option.split)
qed

lemma replies_disconnect: "replies False (env_request_id rq) (handle_disconnect app rq p)"
  unfolding handle_disconnect_def
proof (rule replies_bind [OF quiet_cleanup])
  fix x :: unit
  have sw: "replies False (env_request_id rq) (swallow (respond_empty app rq OP_DISCONNECT))"
    by (rule replies_swallow) (rule replies_empty)
  show "replies False (env_request_id rq) (bindS (swallow (respond_empty app rq OP_DISCONNECT)) (\<lambda>_. conn_close))"
  proof (rule repliesI)
    fix s e s' assume "bindS (swallow (respond_empty app rq OP_DISCONNECT)) (\<lambda>_. conn_close) s = (Inl e, s')"
    then have "swallow (respond_empty app rq OP_DISCONNECT) s = (Inl e, s')"
      by (auto simp: bindS_def conn_close_def split: prod.splits sum.splits)
    from replies_InlD [OF sw this] show "responses (sent s') = responses (sent s)" .
  next
    fix s x s' assume "bindS (swallow (respond_empty app rq OP_DISCONNECT)) (\<lambda>_. conn_close) s = (Inr x, s')"
    then obtain y s1 where "swallow (respond_empty app rq OP_DISCONNECT) s = (Inr y, s1)" "sent s' = sent s1"
      by (auto simp: bindS_def conn_close_def split: prod.splits sum.splits)
    with replies_InrD [OF sw this(1)]
    show "(\<exists>e. env_request_id e = env_request_id rq \<and> responses (sent s') = responses (sent s) @ [e]) \<or>
      \<not> False \<and> responses (sent s') = responses (sent s)" by simp
  qed
qed

lemma replies_dictionary: "replies must (env_request_id rq) (handle_dictionary app rq p)"
  unfolding handle_dictionary_def by (intro replies_bind quiet_lift replies_response)

lemma replies_help: "replies must (env_request_id rq) (handle_help app rq p)"
  unfolding handle_help_def by (intro replies_bind quiet_lift replies_response)

lemmas replies_handlers = replies_connect replies_describe replies_instantiate replies_clear replies_set replies_get
  replies_destroy replies_destroy_group replies_dictionary replies_help

text \<open>The requests that must be answered: all but a one-way call and a disconnect.\<close>

definition answered :: "envelope \<Rightarrow> bool" where
  "answered rq \<longleftrightarrow> \<not> (env_op rq = OP_CALL \<and> env_oneway rq) \<and> env_op rq \<noteq> OP_DISCONNECT"

lemma handler_cases:
  assumes "map_of handler_map (env_op rq) = Some handler"
  shows "replies (answered rq) (env_request_id rq) (handler app rq p)"
proof -
  have ne: "OP_DISCONNECT \<noteq> OP_CALL" by (simp add: token_values)
  have "replies (answered rq) (env_request_id rq) (handle_call app rq p)" if "env_op rq = OP_CALL"
    by (rule replies_call) (use that in \<open>simp add: answered_def\<close>)
  moreover have "replies (answered rq) (env_request_id rq) (handle_disconnect app rq p)" if "env_op rq = OP_DISCONNECT"
    using replies_disconnect [of rq app p] that by (simp add: answered_def)
  ultimately show ?thesis
    using assms replies_handlers unfolding handler_map_def by (auto split: if_splits)
qed

lemma replies_request: "replies (answered rq) (env_request_id rq) (handle_request app rq p)"
  unfolding handle_request_def
  by (intro replies_if replies_error replies_bind quiet_update_ctx)
     (auto intro: replies_error handler_cases split: option.split)

text \<open>
  C11: A request that is handled without an exception is answered by exactly one response, which
  carries the id of the request; one that ends in an exception has not been answered (so that the
  error response of \<open>service_session\<close> is then the only one). Requests that need no answer are a
  one-way call and a disconnect; they too are answered at most once.
\<close>

theorem request_answered_once:
  assumes "handle_request app rq p s = (r, s')"
  shows "case r of
      Inr _ \<Rightarrow> (\<exists>e. responses (sent s') = responses (sent s) @ [e] \<and> env_request_id e = env_request_id rq) \<or>
        \<not> answered rq \<and> responses (sent s') = responses (sent s)
    | Inl _ \<Rightarrow> responses (sent s') = responses (sent s)"
  using assms replies_InrD [OF replies_request] replies_InlD [OF replies_request] by (cases r) fastforce+

theorem request_answered_once_witness:
  "\<exists>s'. handle_request plain_app (new_envelope\<lparr> env_request_id := 5 \<rparr>) 0 (new_session 1) = (Inr (), s') \<and>
     (\<exists>e. responses (sent s') = [e] \<and> env_request_id e = 5)"
proof -
  let ?rq = "new_envelope\<lparr> env_request_id := 5 \<rparr>"
  have a: "answered ?rq" by (simp add: answered_def new_envelope_def token_values)
  obtain s' where run: "handle_request plain_app ?rq 0 (new_session 1) = (Inr (), s')"
    by (rule no_operation_run [of ?rq 0 1]) (simp add: new_envelope_def)
  from request_answered_once [OF run] a run show ?thesis by (auto simp: new_session_def)
qed

section \<open>A whole session\<close>

definition id_of :: "envelope result \<Rightarrow> hash_t" where
  "id_of decoded = (case decoded of Inl _ \<Rightarrow> 0 | Inr rq \<Rightarrow> env_request_id rq)"

lemma replies_service: "replies False (id_of decoded) (service_session app decoded)"
proof (cases decoded)
  case (Inl e)
  have "replies False (env_request_id new_envelope) (service_session app decoded)"
    unfolding service_session_def Inl sum.case by (rule replies_swallow) (rule replies_error)
  then show ?thesis by (simp add: Inl id_of_def new_envelope_def)
next
  case (Inr rq)
  have "replies (answered rq) (env_request_id rq) (handle_request app rq p)" for p by (rule replies_request)
  then have req: "replies False (env_request_id rq) (handle_request app rq p)" for p
    by (cases "answered rq") (auto dest: replies_weaken [where must = False])
  show ?thesis unfolding service_session_def Inr sum.case id_of_def
    by (intro replies_bind quiet_lift replies_catch req replies_swallow replies_error)
qed

text \<open>
  C23: Over a whole session, whatever arrives and whatever the application does, the ids of the
  responses are a subsequence of the ids of the frames received: each frame is answered at most
  once, and in the order of arrival. (An undecodable frame is answered under the id 0.)
\<close>

theorem responses_in_request_order:
  assumes "session_laps app arrivals s = (r, s')"
  shows "\<exists>new. responses (sent s') = responses (sent s) @ new \<and>
    subseq (map env_request_id new) (map id_of (List.map_filter (\<lambda>a. a) arrivals))"
  using assms
proof (induction arrivals arbitrary: s)
  case Nil
  then show ?case by (simp add: retS_def)
next
  case (Cons arrival arrivals)
  let ?serve = "case arrival of None \<Rightarrow> retS () | Some decoded \<Rightarrow> service_session app decoded"
  have td: "quiet (teardown_session app)" by (simp add: teardown_session_def quiet_cleanup)
  show ?case
  proof (cases "conn_closed s")
    case True
    then show ?thesis using Cons.prems quietD [OF td] by (intro exI [of _ "[]"]) simp
  next
    case False
    obtain r1 s1 where 1: "?serve s = (r1, s1)" by fastforce
    have here: "\<exists>new. responses (sent s1) = responses (sent s) @ new \<and>
        subseq (map env_request_id new) (map id_of (List.map_filter (\<lambda>a. a) [arrival]))"
    proof (cases arrival)
      case None
      then show ?thesis using 1 by (simp add: retS_def map_filter_def)
    next
      case (Some decoded)
      then have run: "service_session app decoded s = (r1, s1)" using 1 by simp
      show ?thesis
      proof (cases r1)
        case (Inl e)
        then show ?thesis using replies_InlD [OF replies_service run [unfolded Inl]] by simp
      next
        case (Inr x)
        from replies_InrD [OF replies_service run [unfolded Inr]] show ?thesis
          by (auto simp: Some map_filter_def)
      qed
    qed
    then obtain new1 where new1: "responses (sent s1) = responses (sent s) @ new1"
        "subseq (map env_request_id new1) (map id_of (List.map_filter (\<lambda>a. a) [arrival]))" by blast
    have rest: "\<exists>new. responses (sent s') = responses (sent s1) @ new \<and>
        subseq (map env_request_id new) (map id_of (List.map_filter (\<lambda>a. a) arrivals))"
    proof (cases r1)
      case (Inl e)
      then have "s' = s1" using Cons.prems False 1 by (simp add: bindS_def)
      then show ?thesis by (intro exI [of _ "[]"]) simp
    next
      case (Inr x)
      then have cont: "(if conn_closed s1 then teardown_session app s1 else session_laps app arrivals s1) = (r, s')"
        using Cons.prems False 1 by (simp add: bindS_def)
      show ?thesis
      proof (cases "conn_closed s1")
        case True
        then show ?thesis using cont quietD [OF td] by (intro exI [of _ "[]"]) simp
      next
        case False
        then show ?thesis using cont Cons.IH by simp
      qed
    qed
    then obtain new2 where new2: "responses (sent s') = responses (sent s1) @ new2"
        "subseq (map env_request_id new2) (map id_of (List.map_filter (\<lambda>a. a) arrivals))" by blast
    have "subseq (map env_request_id (new1 @ new2))
        (map id_of (List.map_filter (\<lambda>a. a) [arrival]) @ map id_of (List.map_filter (\<lambda>a. a) arrivals))"
      unfolding map_append by (rule list_emb_append_mono [OF new1(2) new2(2)])
    moreover have "map id_of (List.map_filter (\<lambda>a. a) [arrival]) @ map id_of (List.map_filter (\<lambda>a. a) arrivals) =
        map id_of (List.map_filter (\<lambda>a. a) (arrival # arrivals))"
      by (cases arrival) (simp_all add: map_filter_def)
    ultimately show ?thesis
      by (intro exI [of _ "new1 @ new2"]) (simp add: new1(1) new2(1))
  qed
qed

theorem responses_in_request_order_witness:
  "\<exists>r s'. session_laps plain_app [None, Some (Inl Buffer_underflow)] (new_session 1) = (r, s') \<and>
     (\<exists>new. responses (sent s') = new \<and> subseq (map env_request_id new) [0])"
proof -
  obtain r s' where run: "session_laps plain_app [None, Some (Inl Buffer_underflow)] (new_session 1) = (r, s')"
    by fastforce
  from responses_in_request_order [OF run] run show ?thesis
    by (auto simp: map_filter_def id_of_def new_session_def)
qed

section \<open>Authentication\<close>

text \<open>What depends on the application's authentication module.\<close>

lemma auth_unused:
  "conn_send (app\<lparr> a_auth := auth \<rparr>) = conn_send app"
  "emit_event (app\<lparr> a_auth := auth \<rparr>) = emit_event app"
  "call_method (app\<lparr> a_auth := auth \<rparr>) = call_method app"
  "send_response (app\<lparr> a_auth := auth \<rparr>) = send_response app"
  "send_error (app\<lparr> a_auth := auth \<rparr>) = send_error app"
proof -
  show c: "conn_send (app\<lparr> a_auth := auth \<rparr>) = conn_send app" by (simp add: fun_eq_iff conn_send_def)
  show e: "emit_event (app\<lparr> a_auth := auth \<rparr>) = emit_event app" unfolding emit_event_def [abs_def] c by (rule refl)
  have "a_invoke (app\<lparr> a_auth := auth \<rparr>) = a_invoke app" by simp
  then show "call_method (app\<lparr> a_auth := auth \<rparr>) = call_method app" unfolding call_method_def [abs_def] e by simp
  show "send_response (app\<lparr> a_auth := auth \<rparr>) = send_response app"
    "send_error (app\<lparr> a_auth := auth \<rparr>) = send_error app"
    unfolding send_response_def [abs_def] send_error_def [abs_def] c by (rule refl)+
qed

lemma auth_selectors:
  "a_what (app\<lparr> a_auth := auth \<rparr>) = a_what app"
  "a_help (app\<lparr> a_auth := auth \<rparr>) = a_help app"
  "a_profiler (app\<lparr> a_auth := auth \<rparr>) = a_profiler app"
  "a_factory (app\<lparr> a_auth := auth \<rparr>) = a_factory app"
  by simp_all

lemma auth_unused_helpers:
  "with_object (app\<lparr> a_auth := auth \<rparr>) = with_object app"
  "respond_empty (app\<lparr> a_auth := auth \<rparr>) = respond_empty app"
  "run_hook (app\<lparr> a_auth := auth \<rparr>) = run_hook app"
  "construct_object (app\<lparr> a_auth := auth \<rparr>) = construct_object app"
  "file_object (app\<lparr> a_auth := auth \<rparr>) = file_object app"
  "on_create_object (app\<lparr> a_auth := auth \<rparr>) = on_create_object app"
  unfolding with_object_def [abs_def] respond_empty_def [abs_def] run_hook_def [abs_def] construct_object_def [abs_def]
    file_object_def [abs_def] on_create_object_def [abs_def] auth_unused auth_selectors
  by (rule refl)+

lemma auth_unused_cleanup:
  "destroy_member (app\<lparr> a_auth := auth \<rparr>) = destroy_member app"
  "cleanup_context (app\<lparr> a_auth := auth \<rparr>) = cleanup_context app"
  unfolding destroy_member_def [abs_def] cleanup_context_def [abs_def] auth_unused_helpers by (rule refl)+

lemma auth_unused_instantiate:
  "instantiate_created (app\<lparr> a_auth := auth \<rparr>) = instantiate_created app"
  "instantiate_in (app\<lparr> a_auth := auth \<rparr>) = instantiate_in app"
proof -
  show c: "instantiate_created (app\<lparr> a_auth := auth \<rparr>) = instantiate_created app"
    unfolding instantiate_created_def [abs_def] auth_unused auth_unused_helpers auth_selectors by (rule refl)
  show "instantiate_in (app\<lparr> a_auth := auth \<rparr>) = instantiate_in app"
    unfolding instantiate_in_def [abs_def] auth_unused auth_unused_helpers auth_selectors c by (rule refl)
qed

lemma auth_unused_handlers:
  "handle_describe (app\<lparr> a_auth := auth \<rparr>) = handle_describe app"
  "handle_instantiate (app\<lparr> a_auth := auth \<rparr>) = handle_instantiate app"
  "handle_clear (app\<lparr> a_auth := auth \<rparr>) = handle_clear app"
  "handle_set (app\<lparr> a_auth := auth \<rparr>) = handle_set app"
  "handle_get (app\<lparr> a_auth := auth \<rparr>) = handle_get app"
  "handle_call (app\<lparr> a_auth := auth \<rparr>) = handle_call app"
  "handle_destroy (app\<lparr> a_auth := auth \<rparr>) = handle_destroy app"
  "handle_destroy_group (app\<lparr> a_auth := auth \<rparr>) = handle_destroy_group app"
  "handle_disconnect (app\<lparr> a_auth := auth \<rparr>) = handle_disconnect app"
  "handle_dictionary (app\<lparr> a_auth := auth \<rparr>) = handle_dictionary app"
  "handle_help (app\<lparr> a_auth := auth \<rparr>) = handle_help app"
  unfolding handle_describe_def [abs_def] handle_instantiate_def [abs_def] handle_clear_def [abs_def]
    handle_set_def [abs_def] handle_get_def [abs_def] handle_call_def [abs_def] handle_destroy_def [abs_def]
    handle_destroy_group_def [abs_def] handle_disconnect_def [abs_def] handle_dictionary_def [abs_def]
    handle_help_def [abs_def] auth_unused auth_unused_helpers auth_unused_cleanup
    auth_unused_instantiate auth_selectors
  by (rule refl)+

text \<open>
  The authentication module decides how \<open>OP_CONNECT\<close> is answered and nothing else: every other
  request is handled exactly as if there were no module, whatever it said before. A client that was
  refused, or never sent \<open>OP_CONNECT\<close>, can create and call objects.
\<close>

theorem authentication_not_enforced:
  assumes "env_op rq \<noteq> OP_CONNECT"
  shows "handle_request (app\<lparr> a_auth := auth \<rparr>) rq p = handle_request app rq p"
proof -
  have "map_option (\<lambda>handler. handler (app\<lparr> a_auth := auth \<rparr>) rq p) (map_of handler_map (env_op rq)) =
      map_option (\<lambda>handler. handler app rq p) (map_of handler_map (env_op rq))"
    using assms by (simp add: handler_map_def auth_unused_handlers)
  then have "(case map_of handler_map (env_op rq) of Some handler \<Rightarrow> handler (app\<lparr> a_auth := auth \<rparr>) rq p
        | None \<Rightarrow> send_error app rq (env_op rq) ERR_UNKNOWN_OPERATION ''Unknown operation'') =
      (case map_of handler_map (env_op rq) of Some handler \<Rightarrow> handler app rq p
        | None \<Rightarrow> send_error app rq (env_op rq) ERR_UNKNOWN_OPERATION ''Unknown operation'')"
    by (cases "map_of handler_map (env_op rq)") simp_all
  then show ?thesis unfolding handle_request_def auth_unused by simp
qed

theorem authentication_not_enforced_witness:
  "handle_request (plain_app\<lparr> a_auth := Some (\<lambda>p w. (Inr False, w)) \<rparr>) (new_envelope\<lparr> env_op := OP_INSTANTIATE \<rparr>) 0 =
     handle_request plain_app (new_envelope\<lparr> env_op := OP_INSTANTIATE \<rparr>) 0"
  by (rule authentication_not_enforced) (simp add: token_values)

end
