(* ===== verification/Rmi_Session_Inv.thy ===== *)
theory Rmi_Session_Inv
  imports Rmi_Tables Rmi_Replies
begin

text \<open>
  The invariant of a session: the object store is sound (\<open>Object_Inv\<close>), every object of the table
  exists, the maps are ordered, and no object is filed under the group 0.
\<close>

section \<open>The invariant\<close>

definition context_ok :: "session_context \<Rightarrow> bool" where
  "context_ok c \<longleftrightarrow> sorted_map (objects c) \<and> sorted_map (groups c) \<and> map_of (groups c) 0 = None"

definition world_ok :: "app \<Rightarrow> world \<Rightarrow> bool" where
  "world_ok app w \<longleftrightarrow> store_ok (w_store w) \<and> context_ok (w_ctx w) \<and>
     valid (snd ` set (objects (w_ctx w))) (w_store w) \<and> valid (set_option (a_profiler app)) (w_store w)"

definition heap_size :: "session \<Rightarrow> nat" where
  "heap_size s = length (heap (store_in s))"

text \<open>What is asked of the application: its code keeps the invariant and returns existing objects.\<close>

definition app_ok :: "app \<Rightarrow> bool" where
  "app_ok app \<longleftrightarrow>
     (\<forall>m a p w r w' evs. world_ok app w \<longrightarrow> valid {a, p} (w_store w) \<longrightarrow> a_invoke app m a p w = (r, w', evs) \<longrightarrow>
        world_ok app w' \<and> length (heap (w_store w)) \<le> length (heap (w_store w')) \<and>
        (\<forall>b. r = Inr b \<longrightarrow> valid {b} (w_store w'))) \<and>
     (\<forall>auth p w r w'. a_auth app = Some auth \<longrightarrow> world_ok app w \<longrightarrow> valid {p} (w_store w) \<longrightarrow> auth p w = (r, w') \<longrightarrow>
        world_ok app w' \<and> length (heap (w_store w)) \<le> length (heap (w_store w'))) \<and>
     (\<forall>i. keeps {} (a_factory app i) option_set)"

text \<open>A session action that keeps the invariant where the addresses of \<open>A\<close> exist.\<close>

definition safe :: "app \<Rightarrow> addr set \<Rightarrow> 'a saction \<Rightarrow> ('a \<Rightarrow> addr set) \<Rightarrow> bool" where
  "safe app A m B \<longleftrightarrow>
     (\<forall>s r s'. world_ok app (world s) \<longrightarrow> valid A (store_in s) \<longrightarrow> m s = (r, s') \<longrightarrow>
        world_ok app (world s') \<and> length (heap (store_in s)) \<le> length (heap (store_in s')) \<and>
        (\<forall>x. r = Inr x \<longrightarrow> valid (B x) (store_in s')))"

lemma safeD:
  assumes "safe app A m B" and "world_ok app (world s)" and "valid A (store_in s)" and "m s = (r, s')"
  shows "world_ok app (world s')" and "length (heap (store_in s)) \<le> length (heap (store_in s'))"
    and "r = Inr x \<Longrightarrow> valid (B x) (store_in s')"
  using assms by (auto simp: safe_def)

lemma safeI:
  assumes "\<And>s r s'. world_ok app (world s) \<Longrightarrow> valid A (store_in s) \<Longrightarrow> m s = (r, s') \<Longrightarrow>
     world_ok app (world s') \<and> length (heap (store_in s)) \<le> length (heap (store_in s')) \<and>
     (\<forall>x. r = Inr x \<longrightarrow> valid (B x) (store_in s'))"
  shows "safe app A m B"
  using assms by (auto simp: safe_def)

lemma safe_weaken:
  assumes "safe app A m B" and "A \<subseteq> A'" and "\<And>x. C x \<subseteq> B x \<union> A'"
  shows "safe app A' m C"
proof (rule safeI)
  fix s r s' assume s: "world_ok app (world s)" "valid A' (store_in s)" "m s = (r, s')"
  have A: "valid A (store_in s)" using s(2) assms(2) by (auto simp: valid_def)
  note d = safeD [OF assms(1) s(1) A s(3)]
  have "valid A' (store_in s')" using valid_mono [OF s(2) d(2)] .
  then show "world_ok app (world s') \<and> length (heap (store_in s)) \<le> length (heap (store_in s')) \<and>
      (\<forall>x. r = Inr x \<longrightarrow> valid (C x) (store_in s'))"
    using d assms(3) by (fastforce simp: valid_def)
qed

lemma safe_bind:
  assumes "safe app A m B" and "\<And>x. safe app (A \<union> B x) (f x) C"
  shows "safe app A (bindS m f) C"
proof (rule safeI)
  fix s r s' assume s: "world_ok app (world s)" "valid A (store_in s)" and run: "bindS m f s = (r, s')"
  obtain r1 s1 where m: "m s = (r1, s1)" by fastforce
  note d = safeD [OF assms(1) s m]
  show "world_ok app (world s') \<and> length (heap (store_in s)) \<le> length (heap (store_in s')) \<and>
      (\<forall>x. r = Inr x \<longrightarrow> valid (C x) (store_in s'))"
  proof (cases r1)
    case (Inl e)
    then show ?thesis using run d by (auto simp: bindS_def m)
  next
    case (Inr x)
    have f: "f x s1 = (r, s')" using run by (simp add: bindS_def m Inr)
    have v: "valid (A \<union> B x) (store_in s1)" using valid_mono [OF s(2) d(2)] d(3) [OF Inr] by simp
    note d2 = safeD [OF assms(2) d(1) v f]
    show ?thesis using d(2) d2 by auto
  qed
qed

lemma safe_ret: "B x \<subseteq> A \<Longrightarrow> safe app A (retS x) B"
  by (auto simp: safe_def retS_def valid_def)

lemma safe_try:
  assumes "safe app A m B" and "\<And>e. safe app A (h e) C" and "\<And>x. safe app (A \<union> B x) (f x) C"
  shows "safe app A (try_else m h f) C"
proof (rule safeI)
  fix s r s' assume s: "world_ok app (world s)" "valid A (store_in s)" and run: "try_else m h f s = (r, s')"
  obtain r1 s1 where m: "m s = (r1, s1)" by fastforce
  note d = safeD [OF assms(1) s m]
  have A: "valid A (store_in s1)" using valid_mono [OF s(2) d(2)] .
  show "world_ok app (world s') \<and> length (heap (store_in s)) \<le> length (heap (store_in s')) \<and>
      (\<forall>x. r = Inr x \<longrightarrow> valid (C x) (store_in s'))"
  proof (cases r1)
    case (Inl e)
    show ?thesis
    proof (cases "e = Fuel_exhausted")
      case True
      then show ?thesis using run d by (auto simp: try_else_def m Inl)
    next
      case False
      then have "h e s1 = (r, s')" using run by (simp add: try_else_def m Inl)
      from safeD [OF assms(2) d(1) A this] show ?thesis using d(2) by auto
    qed
  next
    case (Inr x)
    have f: "f x s1 = (r, s')" using run by (simp add: try_else_def m Inr)
    have v: "valid (A \<union> B x) (store_in s1)" using A d(3) [OF Inr] by simp
    from safeD [OF assms(3) d(1) v f] show ?thesis using d(2) by auto
  qed
qed

lemma catch_try: "catchS m h = (\<lambda>s. case m s of (Inl e, s') \<Rightarrow> (if e = Fuel_exhausted then (Inl e, s') else h e s') | (Inr x, s') \<Rightarrow> retS x s')"
  by (auto simp: fun_eq_iff catchS_def retS_def split: prod.splits sum.splits)

lemma safe_catch:
  assumes "safe app A m B" and "\<And>e. safe app A (h e) B"
  shows "safe app A (catchS m h) B"
proof (rule safeI)
  fix s r s' assume s: "world_ok app (world s)" "valid A (store_in s)" and run: "catchS m h s = (r, s')"
  obtain r1 s1 where m: "m s = (r1, s1)" by fastforce
  note d = safeD [OF assms(1) s m]
  have A: "valid A (store_in s1)" using valid_mono [OF s(2) d(2)] .
  show "world_ok app (world s') \<and> length (heap (store_in s)) \<le> length (heap (store_in s')) \<and>
      (\<forall>x. r = Inr x \<longrightarrow> valid (B x) (store_in s'))"
  proof (cases r1)
    case (Inl e)
    show ?thesis
    proof (cases "e = Fuel_exhausted")
      case True
      then show ?thesis using run d by (auto simp: catchS_def m Inl)
    next
      case False
      then have "h e s1 = (r, s')" using run by (simp add: catchS_def m Inl)
      from safeD [OF assms(2) d(1) A this] show ?thesis using d(2) by auto
    qed
  next
    case (Inr x)
    then show ?thesis using run d by (auto simp: catchS_def m)
  qed
qed

lemma safe_swallow: "safe app A m B \<Longrightarrow> safe app A (swallow m) (\<lambda>_. {})"
  unfolding swallow_def by (intro safe_catch safe_bind safe_ret) auto

lemma safe_if: "(b \<Longrightarrow> safe app A m B) \<Longrightarrow> (\<not> b \<Longrightarrow> safe app A m' B) \<Longrightarrow> safe app A (if b then m else m') B"
  by simp

lemma safe_each: "(\<And>x. x \<in> set xs \<Longrightarrow> safe app A (f x) (\<lambda>_. {})) \<Longrightarrow> safe app A (eachS f xs) (\<lambda>_. {})"
  by (induction xs) (auto intro!: safe_ret safe_bind)

lemma safe_lift:
  assumes "keeps A m B"
  shows "safe app A (liftS m) B"
proof (rule safeI)
  fix s r s' assume s: "world_ok app (world s)" "valid A (store_in s)" and run: "liftS m s = (r, s')"
  obtain r1 st where m: "m (store_in s) = (r1, st)" by fastforce
  have ok: "store_ok (store_in s)" using s(1) by (simp add: world_ok_def)
  note d = keepsD [OF assms ok s(2) m]
  have s': "r = r1" "s' = s\<lparr> world := (world s)\<lparr> w_store := st \<rparr> \<rparr>" using run by (auto simp: liftS_def m)
  show "world_ok app (world s') \<and> length (heap (store_in s)) \<le> length (heap (store_in s')) \<and>
      (\<forall>x. r = Inr x \<longrightarrow> valid (B x) (store_in s'))"
    using d s(1) valid_mono [OF _ d(2)] by (auto simp: s' world_ok_def)
qed

lemma safe_sub: "safe app A m B \<Longrightarrow> A \<subseteq> A' \<Longrightarrow> safe app A' m B"
  by (rule safe_weaken) auto

lemma safe_drop: "safe app A m B \<Longrightarrow> A \<subseteq> A' \<Longrightarrow> safe app A' m (\<lambda>_. {})"
  by (rule safe_weaken) auto

lemma safe_state:
  assumes "\<And>s. world_ok app (world s) \<Longrightarrow> valid A (store_in s) \<Longrightarrow> \<exists>A'. valid A' (store_in s) \<and> safe app A' (f s) B"
  shows "safe app A (\<lambda>s. f s s) B"
proof (rule safeI)
  fix s r s' assume s: "world_ok app (world s)" "valid A (store_in s)" "f s s = (r, s')"
  obtain A' where A': "valid A' (store_in s)" "safe app A' (f s) B" using assms [OF s(1,2)] by blast
  from safeD [OF A'(2) s(1) A'(1) s(3)]
  show "world_ok app (world s') \<and> length (heap (store_in s)) \<le> length (heap (store_in s')) \<and>
     (\<forall>x. r = Inr x \<longrightarrow> valid (B x) (store_in s'))" by blast
qed

lemma safe_send: "safe app A (conn_send app' e) (\<lambda>_. {})"
  by (auto simp: safe_def conn_send_def Let_def split: option.splits)

lemma safe_close: "safe app A conn_close (\<lambda>_. {})"
  by (auto simp: safe_def conn_close_def)

lemma safe_fresh: "safe app A fresh_id (\<lambda>_. {})"
  by (auto simp: safe_def fresh_id_def world_ok_def split: prod.splits)

lemma safe_update_ctx:
  assumes "\<And>c. context_ok c \<Longrightarrow> context_ok (g c) \<and> snd ` set (objects (g c)) \<subseteq> snd ` set (objects c) \<union> A"
  shows "safe app A (update_ctx g) (\<lambda>_. {})"
proof (rule safeI)
  fix s r s' assume s: "world_ok app (world s)" "valid A (store_in s)" "update_ctx g s = (r, s')"
  have g: "snd ` set (objects (g (ctx_of s))) \<subseteq> snd ` set (objects (ctx_of s)) \<union> A" "context_ok (g (ctx_of s))"
    using assms s(1) by (auto simp: world_ok_def)
  have "valid (snd ` set (objects (ctx_of s)) \<union> A) (store_in s)" using s(1,2) by (simp add: world_ok_def)
  then have "valid (snd ` set (objects (g (ctx_of s)))) (store_in s)" using g(1) unfolding valid_def by blast
  moreover have "world s' = (world s)\<lparr> w_ctx := g (ctx_of s) \<rparr>" using s(3) by (auto simp: update_ctx_def)
  ultimately have "world_ok app (world s')" using s(1) g(2) by (simp add: world_ok_def)
  moreover have "store_in s' = store_in s" using s(3) by (auto simp: update_ctx_def)
  ultimately show "world_ok app (world s') \<and> length (heap (store_in s)) \<le> length (heap (store_in s')) \<and>
     (\<forall>x. r = Inr x \<longrightarrow> valid {} (store_in s'))" by simp
qed

section \<open>Events, calls, responses\<close>

lemma safe_emit: "safe app A (emit_event app' ev) (\<lambda>_. {})"
proof -
  have "keeps A (event_payload name params) (\<lambda>_. {})" for name params
    unfolding event_payload_def
    by (intro keeps_bind [OF keeps_new] keeps_bind [OF keeps_assign_plain] keeps_bind [OF keeps_load]
        keeps_bind [OF keeps_assign_ptr] keeps_dump) auto
  then show ?thesis unfolding emit_event_def by (intro safe_bind [OF safe_lift] safe_send)
qed

lemma safe_call:
  assumes "app_ok app" and "self \<in> A" and "params \<in> A"
  shows "safe app A (call_method app self name params) (\<lambda>a. {a})"
  unfolding call_method_def
proof (rule safe_bind)
  show "safe app A (liftS (resolve_call self name params)) (\<lambda>(m, p). {p})"
    by (rule safe_lift, rule keeps_sub [OF keeps_resolve_call]) (use assms in auto)
  fix mp :: "meth \<times> addr"
  obtain m p where mp: "mp = (m, p)" by fastforce
  show "safe app (A \<union> (case mp of (m, p) \<Rightarrow> {p})) (case mp of (m, p) \<Rightarrow> \<lambda>s. case a_invoke app m self p (world s) of
      (r, w, evs) \<Rightarrow> (case eachS (\<lambda>ev. swallow (emit_event app ev)) evs (s\<lparr> world := w \<rparr>) of
          (Inl e, s') \<Rightarrow> (Inl e, s') | (Inr _, s') \<Rightarrow> (r, s'))) (\<lambda>a. {a})"
    unfolding mp prod.case
  proof (rule safeI)
    fix s r s'
    assume s: "world_ok app (world s)" "valid (A \<union> {p}) (store_in s)" and run: "(case a_invoke app m self p (world s) of
      (r, w, evs) \<Rightarrow> (case eachS (\<lambda>ev. swallow (emit_event app ev)) evs (s\<lparr> world := w \<rparr>) of
          (Inl e, s') \<Rightarrow> (Inl e, s') | (Inr _, s') \<Rightarrow> (r, s'))) = (r, s')"
    obtain r0 w evs where i: "a_invoke app m self p (world s) = (r0, w, evs)"
      by (cases "a_invoke app m self p (world s)") auto
    have "valid {self, p} (store_in s)" using s(2) assms(2) by (auto simp: valid_def)
    then have w: "world_ok app w" "length (heap (store_in s)) \<le> length (heap (w_store w))"
        "\<forall>b. r0 = Inr b \<longrightarrow> valid {b} (w_store w)"
      using assms(1) s(1) i unfolding app_ok_def by blast+
    obtain r1 s1 where e: "eachS (\<lambda>ev. swallow (emit_event app ev)) evs (s\<lparr> world := w \<rparr>) = (r1, s1)" by fastforce
    have ev: "safe app {} (eachS (\<lambda>ev. swallow (emit_event app ev)) evs) (\<lambda>_. {})"
      by (rule safe_each) (rule safe_swallow [OF safe_emit])
    have sw: "world_ok app (world (s\<lparr> world := w \<rparr>))" "valid {} (store_in (s\<lparr> world := w \<rparr>))" using w(1) by simp_all
    note d = safeD [OF ev sw e]
    have s': "s' = s1" "\<And>x. r = Inr x \<Longrightarrow> r0 = Inr x" using run by (auto simp: i e split: sum.splits)
    have "valid {x} (store_in s1)" if "r = Inr x" for x
      using w(3) s'(2) [OF that] d(2) by (simp add: valid_def)
    then show "world_ok app (world s') \<and> length (heap (store_in s)) \<le> length (heap (store_in s')) \<and>
       (\<forall>x. r = Inr x \<longrightarrow> valid {x} (store_in s'))"
      using d(1,2) w(2) s'(1) by auto
  qed
qed

lemma safe_has_method: "a \<in> A \<Longrightarrow> safe app A (has_method a name) (\<lambda>_. {})"
  unfolding has_method_def
  by (intro safe_bind [OF safe_lift [OF keeps_sub [OF keeps_find_method]]] safe_ret) auto

lemma safe_empty_object: "safe app A empty_object (\<lambda>a. {a})"
  unfolding empty_object_def by (rule safe_lift) (rule keeps_new)

lemma safe_response: "safe app A (send_response app' rq op p) (\<lambda>_. {})"
  unfolding send_response_def by (intro safe_bind [OF safe_lift [OF keeps_dump]] safe_send)

lemma safe_error: "safe app A (send_error app' rq op code msg) (\<lambda>_. {})"
proof -
  have "keeps A (error_payload code msg) (\<lambda>_. {})"
    unfolding error_payload_def
    by (intro keeps_bind [OF keeps_new] keeps_bind [OF keeps_assign_plain] keeps_dump) auto
  then show ?thesis unfolding send_error_def by (intro safe_bind [OF safe_lift] safe_send)
qed

lemma safe_respond_empty: "safe app A (respond_empty app' rq op) (\<lambda>_. {})"
  unfolding respond_empty_def by (intro safe_bind [OF safe_empty_object] safe_response)

lemma safe_with_object:
  assumes "\<And>a. safe app (insert a A) (f a) B" and "\<And>x. B x \<subseteq> {}"
  shows "safe app A (with_object app' rq op f) B"
proof (rule safeI)
  fix s r s' assume s: "world_ok app (world s)" "valid A (store_in s)" and run: "with_object app' rq op f s = (r, s')"
  have B: "B x = {}" for x using assms(2) by blast
  show "world_ok app (world s') \<and> length (heap (store_in s)) \<le> length (heap (store_in s')) \<and>
     (\<forall>x. r = Inr x \<longrightarrow> valid (B x) (store_in s'))"
  proof (cases "map_of (objects (ctx_of s)) (env_object_id rq)")
    case None
    then have "send_error app' rq op ERR_OBJECT_NOT_FOUND ''Object not found'' s = (r, s')"
      using run by (simp add: with_object_def)
    from safeD [OF safe_error s this] show ?thesis by (simp add: B)
  next
    case (Some a)
    then have f: "f a s = (r, s')" using run by (simp add: with_object_def)
    have "valid (insert a A) (store_in s)"
      using s map_of_SomeD [OF Some] by (force simp: world_ok_def valid_def)
    from safeD [OF assms(1) s(1) this f] show ?thesis by auto
  qed
qed

lemma safe_run_hook: "app_ok app \<Longrightarrow> a \<in> A \<Longrightarrow> safe app A (run_hook app a hook) (\<lambda>_. {})"
  unfolding run_hook_def
  by (intro safe_bind [OF safe_has_method] safe_if safe_swallow [where B = "\<lambda>a. {a}"] safe_bind [OF safe_empty_object]
      safe_call safe_ret) auto

section \<open>The handlers\<close>

lemma safe_read_key: "p \<in> A \<Longrightarrow> keeps A (read_key_token p k) (\<lambda>_. {})"
proof -
  assume p: "p \<in> A"
  have "keeps (A \<union> {}) (\<lambda>s. if \<not> hit then (Inl Missing_key_token, s)
       else (case f_base (field_at p k s) of
               KeyV h \<Rightarrow> (Inr h, s) | HashV h \<Rightarrow> (Inr h, s) | _ \<Rightarrow> (Inl Invalid_key_token, s))) (\<lambda>_. {})" for hit
    by (rule keeps_pure) (auto split: field_base.splits if_splits)
  then show ?thesis unfolding read_key_token_def
    using keeps_sub [OF keeps_find_field, of p A k] p by (intro keeps_bind) auto
qed

lemma field_at_ptr:
  assumes "store_ok s" and "p < length (heap s)" and "f_base (field_at p k s) = PtrV (Some q)"
  shows "q < length (heap s)"
proof -
  obtain f where f: "map_of (fields_of s p) k = Some f" "f_base f = PtrV (Some q)"
    using assms(3) by (auto simp: field_at_def mono_field_def plain_field_def split: option.splits)
  from fields_ptrs [OF assms(1,2) map_of_SomeD [OF f(1)]] show ?thesis by (simp add: f(2))
qed

lemma safe_params: "p \<in> A \<Longrightarrow> keeps A (params_of p) (\<lambda>a. {a})"
  unfolding params_of_def
proof (rule keeps_bind [OF keeps_new], rule keeps_bind)
  fix e assume p: "p \<in> A"
  show "keeps (A \<union> {e}) (index_key p FIELD_PARAMS) (\<lambda>_. {})" by (rule keeps_sub [OF keeps_index_key]) (use p in auto)
  show "keeps (A \<union> {e} \<union> {}) (\<lambda>s. (Inr (case f_base (field_at p FIELD_PARAMS s) of PtrV (Some q) \<Rightarrow> q | _ \<Rightarrow> e), s)) (\<lambda>a. {a})"
    unfolding keeps_def
  proof (intro allI impI)
    fix s r s'
    assume s: "store_ok s" "valid (A \<union> {e} \<union> {}) s"
      "(Inr (case f_base (field_at p FIELD_PARAMS s) of PtrV (Some q) \<Rightarrow> q | _ \<Rightarrow> e), s) = (r, s')"
    have "p < length (heap s)" "e < length (heap s)" using s(2) p by (auto simp: valid_def)
    then have "(case f_base (field_at p FIELD_PARAMS s) of PtrV (Some q) \<Rightarrow> q | _ \<Rightarrow> e) < length (heap s)"
      using field_at_ptr [OF s(1)] by (auto split: field_base.split option.split)
    then show "store_ok s' \<and> length (heap s) \<le> length (heap s') \<and> (\<forall>x. r = Inr x \<longrightarrow> valid {x} s')"
      using s(1,3) by auto
  qed
qed

lemma safe_connect:
  assumes "app_ok app" and "p \<in> A"
  shows "safe app A (handle_connect app rq p) (\<lambda>_. {})"
  unfolding handle_connect_def
proof (rule safe_bind)
  show "safe app A (case a_auth app of None \<Rightarrow> retS True
      | Some authenticate \<Rightarrow> (\<lambda>s. case authenticate p (world s) of (r, w) \<Rightarrow> (r, s\<lparr> world := w \<rparr>))) (\<lambda>_. {})"
  proof (cases "a_auth app")
    case None
    then show ?thesis by (simp add: safe_ret)
  next
    case (Some auth)
    show ?thesis unfolding Some option.case
    proof (rule safeI)
      fix s r s' assume s: "world_ok app (world s)" "valid A (store_in s)"
        "(case auth p (world s) of (r, w) \<Rightarrow> (r, s\<lparr> world := w \<rparr>)) = (r, s')"
      obtain r0 w where a: "auth p (world s) = (r0, w)" by fastforce
      have "valid {p} (store_in s)" using s(2) assms(2) by (auto simp: valid_def)
      then have "world_ok app w \<and> length (heap (store_in s)) \<le> length (heap (w_store w))"
        using assms(1) Some s(1) a unfolding app_ok_def by blast
      then show "world_ok app (world s') \<and> length (heap (store_in s)) \<le> length (heap (store_in s')) \<and>
         (\<forall>x. r = Inr x \<longrightarrow> valid {} (store_in s'))" using s(3) by (auto simp: a)
    qed
  qed
  show "safe app (A \<union> {}) (if \<not> accepted then send_error app rq OP_CONNECT ERR_ACCESS_DENIED ''Authentication failed''
     else bindS empty_object (\<lambda>resp. bindS (liftS (assign_key resp FIELD_VERSION (Int32V PROTOCOL_VERSION))) (\<lambda>_.
       send_response app rq OP_CONNECT resp))) (\<lambda>_. {})" for accepted
    by (intro safe_if safe_error safe_bind [OF safe_empty_object] safe_bind [OF safe_lift [OF keeps_assign_plain]]
        safe_response) auto
qed

lemma safe_describe: "p \<in> A \<Longrightarrow> safe app A (handle_describe app rq p) (\<lambda>_. {})"
  unfolding handle_describe_def
  by (intro safe_bind [OF safe_lift [OF keeps_sub [OF keeps_as_key_const]]] safe_bind [OF safe_lift [OF keeps_describe]])
     (auto intro: safe_error safe_response split: option.split)

lemma put_object_ok:
  "context_ok c \<Longrightarrow> context_ok (put_object i a c) \<and> snd ` set (objects (put_object i a c)) \<subseteq> snd ` set (objects c) \<union> {a}"
proof -
  assume c: "context_ok c"
  have "snd ` set (map_put i a (objects c)) \<subseteq> snd ` set (objects c) \<union> {a}"
    using map_put_mem by fastforce
  then show ?thesis using c by (simp add: context_ok_def put_object_def Let_def)
qed

lemma safe_file_object: "a \<in> A \<Longrightarrow> safe app A (file_object app rq klass a) (\<lambda>_. {})"
  unfolding file_object_def
proof (rule safe_bind [OF safe_fresh], rule safe_bind)
  fix i assume a: "a \<in> A"
  show "safe app (A \<union> {}) (update_ctx (put_object i a)) (\<lambda>_. {})"
    by (rule safe_update_ctx) (use put_object_ok a in blast)
  show "safe app (A \<union> {} \<union> {}) (bindS empty_object (\<lambda>resp.
     bindS (liftS (assign_key resp FIELD_OBJECT_ID (KeyV i))) (\<lambda>_.
     bindS (liftS (assign_key resp FIELD_KLASS (KeyV klass))) (\<lambda>_. send_response app rq OP_INSTANTIATE resp)))) (\<lambda>_. {})"
    by (intro safe_bind [OF safe_empty_object] safe_bind [OF safe_lift [OF keeps_assign_plain]] safe_response) auto
qed

lemma keeps_on_create:
  assumes "app_ok app" and "set_option (a_profiler app) \<subseteq> A"
  shows "keeps A (on_create_object app ns klass) option_set"
proof (cases "a_profiler app \<noteq> None \<and> ns = NS_BISON \<and> klass = CLASS_PROFILER")
  case True
  then obtain a where a: "a_profiler app = Some a" by auto
  then have "on_create_object app ns klass = retA (Some a)" using True by (simp add: on_create_object_def)
  moreover have "keeps A (retA (Some a)) option_set"
    by (rule keeps_ret) (use assms(2) a in \<open>auto simp: valid_def\<close>)
  ultimately show ?thesis by simp
next
  case False
  have "keeps {} (create_object (a_factory app) ns klass) option_set"
    using assms(1) by (intro keeps_create_object) (simp add: app_ok_def)
  from keeps_sub [OF this] show ?thesis using False by (auto simp: on_create_object_def)
qed

lemma safe_construct: "app_ok app \<Longrightarrow> a \<in> A \<Longrightarrow> p \<in> A \<Longrightarrow> safe app A (construct_object app a p) (\<lambda>_. {})"
  unfolding construct_object_def
  by (intro safe_bind [OF safe_lift [OF safe_params]] safe_bind [OF safe_call] safe_ret) auto

lemma safe_created:
  assumes "app_ok app" and "p \<in> A"
  shows "safe app (A \<union> option_set created) (instantiate_created app rq p klass created) (\<lambda>_. {})"
proof (cases created)
  case None
  then show ?thesis by (simp add: instantiate_created_def safe_error)
next
  case (Some obj)
  show ?thesis unfolding instantiate_created_def Some option.case
    by (intro safe_bind [OF safe_has_method] safe_try [where B = "\<lambda>_. {}"] safe_if safe_construct [OF assms(1)]
        safe_ret safe_error safe_file_object) (use assms in auto)
qed

lemma safe_instantiate_in:
  assumes "app_ok app" and "p \<in> A" and "set_option (a_profiler app) \<subseteq> A"
  shows "safe app A (instantiate_in app rq p klass ns) (\<lambda>_. {})"
proof -
  let ?m = "\<lambda>s. if \<not> check_class ns klass (store_in s)
      then send_error app rq OP_INSTANTIATE ERR_CLASS_NOT_FOUND ''Class not registered in requested namespace''
      else try_else (liftS (on_create_object app ns klass))
        (\<lambda>e. send_error app rq OP_INSTANTIATE ERR_INTERNAL_ERROR (a_what app e))
        (instantiate_created app rq p klass)"
  have "safe app A (?m s) (\<lambda>_. {})" for s
    by (intro safe_if safe_error safe_try [OF safe_lift [OF keeps_on_create [OF assms(1,3)]]] safe_created assms)
  then have "safe app A (\<lambda>s. ?m s s) (\<lambda>_. {})" by (intro safe_state [where f = ?m]) blast
  then show ?thesis by (simp only: instantiate_in_def [abs_def])
qed

lemma safe_instantiate:
  assumes "app_ok app" and "p \<in> A" and "set_option (a_profiler app) \<subseteq> A"
  shows "safe app A (handle_instantiate app rq p) (\<lambda>_. {})"
proof -
  have 1: "safe app A' (liftS (as_key_const p FIELD_KLASS)) (\<lambda>_. {})" "safe app A' (liftS (find_field p FIELD_NAMESPACE)) (\<lambda>_. {})"
    "safe app A' (if b then liftS (read_key_token p FIELD_NAMESPACE) else retS 0) (\<lambda>_. {})" if "p \<in> A'" for A' b
    using that
    by (auto intro!: safe_lift keeps_sub [OF keeps_as_key_const] keeps_sub [OF keeps_find_field] safe_if safe_read_key safe_ret)
  show ?thesis unfolding handle_instantiate_def
    by (intro safe_bind [OF 1(1)] safe_bind [OF 1(2)] safe_try [OF 1(3)] safe_error safe_instantiate_in) (use assms in auto)
qed

lemma keeps_assign_object: "a \<in> A \<Longrightarrow> b \<in> A \<Longrightarrow> keeps A (assign_object a b) (\<lambda>_. {})"
  unfolding keeps_def
proof (intro allI impI)
  fix s r s' assume ab: "a \<in> A" "b \<in> A" and s: "store_ok s" "valid A s" "assign_object a b s = (r, s')"
  have len: "a < length (heap s)" "b < length (heap s)" using s(2) ab by (auto simp: valid_def)
  have "obj_ok (length (heap s)) (obj_at s b)" using s(1) len(2) by (intro store_okD)
  then have "obj_ok (length (heap s)) ((obj_at s b)\<lparr> o_lookup := (\<lambda>_. None) \<rparr>)" by (simp add: obj_ok_def cache_ok_def)
  then have "store_ok (update_obj a (\<lambda>_. (obj_at s b)\<lparr> o_lookup := (\<lambda>_. None) \<rparr>) s)"
    using s(1) len(1) by (intro store_ok_update)
  then show "store_ok s' \<and> length (heap s) \<le> length (heap s') \<and> (\<forall>x. r = Inr x \<longrightarrow> valid {} s')"
    using s(3) by (auto simp: assign_object_def)
qed

lemma instantiate_obj_ok: "obj_ok 0 (instantiate_obj ns klass)"
  by (auto simp: instantiate_obj_def Let_def blank_obj_def obj_ok_def cache_ok_def ptr_ok_def plain_field_def dest!: map_put_mem)

lemma keeps_reset: "a \<in> A \<Longrightarrow> keeps A (reset_object a) (\<lambda>_. {})"
  unfolding reset_object_def
proof (rule keeps_bind, rule_tac [2] keeps_bind)
  assume a: "a \<in> A"
  show "keeps A (as_key a CLASS) (\<lambda>_. {})" by (rule keeps_sub [OF keeps_as_key]) (use a in auto)
  show "keeps (A \<union> {}) (find_field a NAMESPACE) (\<lambda>_. {})" by (rule keeps_sub [OF keeps_find_field]) (use a in auto)
  fix klass hit
  let ?ns = "\<lambda>s. if hit then (case f_base (field_at a NAMESPACE s) of KeyV n \<Rightarrow> n | _ \<Rightarrow> 0) else 0"
  let ?f = "\<lambda>s. case map_of (registry s) (?ns s) of
             Some col \<Rightarrow> (case map_of col klass of
                 Some proto \<Rightarrow> bindA (clone_ptr proto) (assign_object a)
               | None \<Rightarrow> bindA (alloc (instantiate_obj (?ns s) klass)) (assign_object a))
           | None \<Rightarrow> bindA (alloc (instantiate_obj 0 klass)) (assign_object a)"
  let ?A = "A \<union> {} \<union> {}"
  have as: "keeps (D \<union> {b}) (assign_object a b) (\<lambda>_. {})" if "?A \<subseteq> D" for b D
    by (rule keeps_assign_object) (use a that in auto)
  have alloc: "keeps ?A (bindA (alloc (instantiate_obj ns klass)) (assign_object a)) (\<lambda>_. {})" for ns
    by (intro keeps_bind [OF keeps_alloc [OF instantiate_obj_ok]] as) auto
  have "keeps ?A (\<lambda>s. ?f s s) (\<lambda>_. {})"
  proof (rule keeps_state [where f = ?f])
    fix s assume s: "store_ok s" "valid ?A s"
    show "\<exists>A'. valid A' s \<and> keeps A' (?f s) (\<lambda>_. {})"
    proof (cases "map_of (registry s) (?ns s)")
      case None
      then show ?thesis using s alloc by (intro exI [of _ ?A]) simp
    next
      case (Some col)
      show ?thesis
      proof (cases "map_of col klass")
        case none: None
        then show ?thesis using s alloc Some by (intro exI [of _ ?A]) simp
      next
        case proto: (Some proto)
        have "proto < length (heap s)" using col_okD [OF col_ok_registry [OF s(1) Some] proto] .
        moreover have "keeps (insert proto ?A) (bindA (clone_ptr proto) (assign_object a)) (\<lambda>_. {})"
          by (intro keeps_bind [OF keeps_sub [OF keeps_clone_ptr]] as) auto
        ultimately show ?thesis using s Some proto by (intro exI [of _ "insert proto ?A"]) simp
      qed
    qed
  qed
  then show "keeps ?A (\<lambda>s. let ns = ?ns s in (case map_of (registry s) ns of
             Some col \<Rightarrow> (case map_of col klass of
                 Some proto \<Rightarrow> bindA (clone_ptr proto) (assign_object a)
               | None \<Rightarrow> bindA (alloc (instantiate_obj ns klass)) (assign_object a))
           | None \<Rightarrow> bindA (alloc (instantiate_obj 0 klass)) (assign_object a)) s) (\<lambda>_. {})"
    by (simp only: Let_def)
qed

lemma keeps_apply_patch: "obj \<in> A \<Longrightarrow> patch \<in> A \<Longrightarrow> keeps A (apply_patch obj patch) (\<lambda>_. {})"
proof -
  assume o: "obj \<in> A" and p: "patch \<in> A"
  let ?f = "\<lambda>s. each (\<lambda>(k, v). if internal_key k then retA () else copy_field obj k v) (fields_of s patch)"
  have "keeps A (\<lambda>s. ?f s s) (\<lambda>_. {})"
  proof (rule keeps_state [where f = ?f])
    fix s assume s: "store_ok s" "valid A s"
    let ?P = "\<Union>kf \<in> set (fields_of s patch). ptrs_of (f_base (snd kf))"
    have "keeps (A \<union> ?P) (?f s) (\<lambda>_. {})"
    proof (rule keeps_each)
      fix kf assume kf: "kf \<in> set (fields_of s patch)"
      have "keeps (A \<union> ?P) (copy_field obj (fst kf) (snd kf)) (\<lambda>_. {})" by (rule keeps_copy_field) (use o kf in auto)
      then show "keeps (A \<union> ?P) (case kf of (k, v) \<Rightarrow> if internal_key k then retA () else copy_field obj k v) (\<lambda>_. {})"
        by (cases kf) (simp add: keeps_ret)
    qed
    moreover have "valid (A \<union> ?P) s" using fields_ptrs_all [OF s(1)] s(2) p by (auto simp: valid_def)
    ultimately show "\<exists>A'. valid A' s \<and> keeps A' (?f s) (\<lambda>_. {})" by blast
  qed
  then show ?thesis by (simp only: apply_patch_def [abs_def])
qed

lemma keeps_project_field: "obj \<in> A \<Longrightarrow> result \<in> A \<Longrightarrow> keeps A (project_field obj result k) (\<lambda>_. {})"
  unfolding project_field_def
proof (rule keeps_bind)
  assume o: "obj \<in> A" and r: "result \<in> A"
  show "keeps A (find_field obj k) (\<lambda>_. {})" by (rule keeps_sub [OF keeps_find_field]) (use o in auto)
  fix hit
  let ?f = "\<lambda>s. if hit then copy_field result k (field_at obj k s) else retA ()"
  have "keeps (A \<union> {}) (\<lambda>s. ?f s s) (\<lambda>_. {})"
  proof (rule keeps_state [where f = ?f])
    fix s assume s: "store_ok s" "valid (A \<union> {}) s"
    have "obj < length (heap s)" using s(2) o by (auto simp: valid_def)
    then have "valid (A \<union> ptrs_of (f_base (field_at obj k s))) s"
      using s field_at_ptr [OF s(1)] by (auto simp: ptrs_of_def split: field_base.split option.split)
    moreover have "keeps (A \<union> ptrs_of (f_base (field_at obj k s))) (?f s) (\<lambda>_. {})"
      by (intro keeps_if keeps_copy_field keeps_ret) (use r in auto)
    ultimately show "\<exists>A'. valid A' s \<and> keeps A' (?f s) (\<lambda>_. {})" by blast
  qed
  then show "keeps (A \<union> {}) (\<lambda>s. if hit then copy_field result k (field_at obj k s) s else retA () s) (\<lambda>_. {})"
    by (simp only: if_distribR)
qed

lemma keeps_project: "obj \<in> A \<Longrightarrow> keeps A (project obj ks) (\<lambda>a. {a})"
  unfolding project_def
  by (intro keeps_bind [OF keeps_new] keeps_bind [OF keeps_each] keeps_project_field keeps_ret) auto

lemma safe_clear: "app_ok app \<Longrightarrow> safe app A (handle_clear app rq p) (\<lambda>_. {})"
  unfolding handle_clear_def
  by (intro safe_with_object safe_bind [OF safe_lift [OF keeps_reset]] safe_bind [OF safe_run_hook] safe_respond_empty) auto

lemma safe_set: "app_ok app \<Longrightarrow> p \<in> A \<Longrightarrow> safe app A (handle_set app rq p) (\<lambda>_. {})"
  unfolding handle_set_def
proof (rule safe_with_object, rule safe_bind)
  fix obj assume ap: "app_ok app" "p \<in> A"
  show "safe app (insert obj A) (has_method obj HOOK_SETTER) (\<lambda>_. {})" by (rule safe_has_method) simp
  show "safe app (insert obj A \<union> {}) (try_else (if hook then call_method app obj HOOK_SETTER p else retS p)
         (\<lambda>e. send_error app rq OP_SET ERR_INTERNAL_ERROR (''__setter failed: '' @ a_what app e))
         (\<lambda>patch. bindS (liftS (apply_patch obj patch)) (\<lambda>_. respond_empty app rq OP_SET))) (\<lambda>_. {})" for hook
    by (intro safe_try [where B = "\<lambda>a. {a}"] safe_if safe_call safe_ret safe_error
        safe_bind [OF safe_lift [OF keeps_apply_patch]] safe_respond_empty) (use ap in auto)
qed simp

lemma safe_get: "app_ok app \<Longrightarrow> p \<in> A \<Longrightarrow> safe app A (handle_get app rq p) (\<lambda>_. {})"
  unfolding handle_get_def
proof (rule safe_with_object, rule safe_bind)
  fix obj assume ap: "app_ok app" "p \<in> A"
  let ?ks = "\<lambda>s. filter projected_key (map fst (fields_of (store_in s) p))"
  let ?f = "\<lambda>s. liftS (if ?ks s = [] then clone_ptr obj else project obj (?ks s))"
  have "safe app (insert obj A) (?f s) (\<lambda>a. {a})" for s
    by (intro safe_lift keeps_if keeps_sub [OF keeps_clone_ptr] keeps_project) auto
  then have "safe app (insert obj A) (\<lambda>s. ?f s s) (\<lambda>a. {a})" by (intro safe_state [where f = ?f]) blast
  then show "safe app (insert obj A) (\<lambda>s. let ks = ?ks s in liftS (if ks = [] then clone_ptr obj else project obj ks) s) (\<lambda>a. {a})"
    by (simp only: Let_def)
  show "safe app (insert obj A \<union> {result}) (bindS (has_method obj HOOK_GETTER) (\<lambda>hook.
       bindS (if hook then catchS (call_method app obj HOOK_GETTER result) (\<lambda>_. retS result) else retS result) (\<lambda>r.
       send_response app rq OP_GET r))) (\<lambda>_. {})" for result
    by (intro safe_bind [OF safe_has_method] safe_bind [where B = "\<lambda>a. {a}"] safe_if safe_catch [OF safe_call] safe_ret
        safe_response) (use ap in auto)
qed simp

lemma safe_call_op: "app_ok app \<Longrightarrow> p \<in> A \<Longrightarrow> safe app A (handle_call app rq p) (\<lambda>_. {})"
  unfolding handle_call_def
  by (intro safe_with_object safe_bind [OF safe_lift [OF safe_read_key]] safe_bind [OF safe_lift [OF safe_params]]
      safe_catch [where B = "\<lambda>_. {}"] safe_bind [OF safe_call] safe_if safe_response safe_error safe_ret) auto

lemma erase_object_ok:
  "context_ok c \<Longrightarrow> context_ok (erase_object i c) \<and> snd ` set (objects (erase_object i c)) \<subseteq> snd ` set (objects c) \<union> A"
  using map_erase_mem by (fastforce simp: context_ok_def erase_object_def)

lemma safe_destroy: "app_ok app \<Longrightarrow> safe app A (handle_destroy app rq p) (\<lambda>_. {})"
  unfolding handle_destroy_def
  by (intro safe_with_object safe_bind [OF safe_run_hook] safe_bind [OF safe_update_ctx [OF erase_object_ok]]
      safe_respond_empty) auto

lemma safe_destroy_member:
  assumes "app_ok app"
  shows "safe app A (destroy_member app i) (\<lambda>_. {})"
proof (rule safeI)
  fix s r s' assume s: "world_ok app (world s)" "valid A (store_in s)" and run: "destroy_member app i s = (r, s')"
  show "world_ok app (world s') \<and> length (heap (store_in s)) \<le> length (heap (store_in s')) \<and>
     (\<forall>x. r = Inr x \<longrightarrow> valid {} (store_in s'))"
  proof (cases "map_of (objects (ctx_of s)) i")
    case None
    then show ?thesis using run s by (simp add: destroy_member_def)
  next
    case (Some a)
    have va: "valid {a} (store_in s)" using s(1) map_of_SomeD [OF Some] by (force simp: world_ok_def valid_def)
    have m: "bindS (run_hook app a HOOK_DESTRUCT) (\<lambda>_. update_ctx (erase_object i)) s = (r, s')"
      using run Some by (simp add: destroy_member_def)
    have "safe app {a} (bindS (run_hook app a HOOK_DESTRUCT) (\<lambda>_. update_ctx (erase_object i))) (\<lambda>_. {})"
      by (intro safe_bind [OF safe_run_hook [OF assms]] safe_update_ctx erase_object_ok) auto
    from safeD [OF this s(1) va m] show ?thesis by blast
  qed
qed

lemma groups_erase_ok:
  "context_ok c \<Longrightarrow> context_ok (c\<lparr> groups := map_erase g (groups c) \<rparr>) \<and>
     snd ` set (objects (c\<lparr> groups := map_erase g (groups c) \<rparr>)) \<subseteq> snd ` set (objects c) \<union> A"
  by (simp add: context_ok_def)

lemma safe_destroy_group:
  assumes "app_ok app"
  shows "safe app A (handle_destroy_group app rq p) (\<lambda>_. {})"
proof -
  let ?f = "\<lambda>s. case map_of (groups (ctx_of s)) (env_group rq) of
      None \<Rightarrow> respond_empty app rq OP_DESTROY_GROUP
    | Some ids \<Rightarrow> (if env_group rq = 0 then respond_empty app rq OP_DESTROY_GROUP
        else bindS (update_ctx (\<lambda>c. c\<lparr> groups := map_erase (env_group rq) (groups c) \<rparr>)) (\<lambda>_.
             bindS (eachS (destroy_member app) (map fst ids)) (\<lambda>_. respond_empty app rq OP_DESTROY_GROUP)))"
  have "safe app A (bindS (update_ctx (\<lambda>c. c\<lparr> groups := map_erase (env_group rq) (groups c) \<rparr>)) (\<lambda>_.
             bindS (eachS (destroy_member app) is) (\<lambda>_. respond_empty app rq OP_DESTROY_GROUP))) (\<lambda>_. {})" for "is"
    by (intro safe_bind [OF safe_update_ctx [OF groups_erase_ok]] safe_bind [OF safe_each] safe_destroy_member [OF assms]
        safe_respond_empty)
  then have "safe app A (?f s) (\<lambda>_. {})" for s
    by (auto simp: safe_respond_empty split: option.split)
  then have "safe app A (\<lambda>s. ?f s s) (\<lambda>_. {})" by (intro safe_state [where f = ?f]) blast
  then show ?thesis
    by (rule back_subst [where P = "\<lambda>m. safe app A m (\<lambda>_. {})"])
       (auto simp: fun_eq_iff handle_destroy_group_def split: option.split)
qed

lemma safe_cleanup:
  assumes "app_ok app"
  shows "safe app A (cleanup_context app) (\<lambda>_. {})"
proof -
  let ?f = "\<lambda>s. bindS (eachS (\<lambda>(oid, a). run_hook app a HOOK_DESTRUCT) (objects (ctx_of s))) (\<lambda>_.
       update_ctx (\<lambda>c. c\<lparr> objects := [], groups := [], emits := False \<rparr>))"
  have "safe app A (\<lambda>s. ?f s s) (\<lambda>_. {})"
  proof (rule safe_state [where f = ?f])
    fix s assume s: "world_ok app (world s)" "valid A (store_in s)"
    let ?A = "A \<union> snd ` set (objects (ctx_of s))"
    have e: "safe app ?A (eachS (\<lambda>(oid, a). run_hook app a HOOK_DESTRUCT) (objects (ctx_of s))) (\<lambda>_. {})"
    proof (rule safe_each)
      fix ia assume "ia \<in> set (objects (ctx_of s))"
      then have "safe app ?A (run_hook app (snd ia) HOOK_DESTRUCT) (\<lambda>_. {})" by (intro safe_run_hook [OF assms]) auto
      then show "safe app ?A (case ia of (oid, a) \<Rightarrow> run_hook app a HOOK_DESTRUCT) (\<lambda>_. {})" by (simp add: case_prod_unfold)
    qed
    have "safe app ?A (?f s) (\<lambda>_. {})"
      by (intro safe_bind [OF e] safe_update_ctx) (simp add: context_ok_def)
    moreover have "valid ?A (store_in s)" using s by (simp add: world_ok_def)
    ultimately show "\<exists>A'. valid A' (store_in s) \<and> safe app A' (?f s) (\<lambda>_. {})" by blast
  qed
  then show ?thesis by (simp only: cleanup_context_def [abs_def])
qed

lemma safe_disconnect: "app_ok app \<Longrightarrow> safe app A (handle_disconnect app rq p) (\<lambda>_. {})"
  unfolding handle_disconnect_def
  by (intro safe_bind [OF safe_cleanup] safe_bind [OF safe_swallow [OF safe_respond_empty]] safe_close)

lemma safe_dictionary: "safe app A (handle_dictionary app rq p) (\<lambda>_. {})" "safe app A (handle_help app rq p) (\<lambda>_. {})"
  unfolding handle_dictionary_def handle_help_def
  by (intro safe_bind [OF safe_lift [OF keeps_dictionary]] safe_bind [OF safe_lift [OF keeps_help]] safe_response)+

lemma safe_handler:
  assumes "app_ok app" and "p \<in> A" and "set_option (a_profiler app) \<subseteq> A" and "map_of handler_map op = Some handler"
  shows "safe app A (handler app rq p) (\<lambda>_. {})"
proof -
  have "handler \<in> {handle_connect, handle_describe, handle_instantiate, handle_clear, handle_set, handle_get, handle_call,
      handle_destroy, handle_destroy_group, handle_disconnect, handle_dictionary, handle_help}"
    using assms(4) by (simp add: handler_map_def split: if_splits)
  then show ?thesis
    using safe_connect [OF assms(1,2)] safe_describe [OF assms(2)] safe_instantiate [OF assms(1-3)] safe_clear [OF assms(1)]
      safe_set [OF assms(1,2)] safe_get [OF assms(1,2)] safe_call_op [OF assms(1,2)] safe_destroy [OF assms(1)]
      safe_destroy_group [OF assms(1)] safe_disconnect [OF assms(1)] safe_dictionary by auto
qed

lemma safe_request:
  assumes "app_ok app" and "p \<in> A" and "set_option (a_profiler app) \<subseteq> A"
  shows "safe app A (handle_request app rq p) (\<lambda>_. {})"
proof -
  have h: "safe app (A \<union> {}) (case map_of handler_map (env_op rq) of Some handler \<Rightarrow> handler app rq p
        | None \<Rightarrow> send_error app rq (env_op rq) ERR_UNKNOWN_OPERATION ''Unknown operation'') (\<lambda>_. {})"
    using safe_handler [OF assms] safe_error by (auto split: option.split)
  show ?thesis unfolding handle_request_def
    by (intro safe_if safe_error safe_bind [OF safe_update_ctx] h) (simp add: context_ok_def)
qed

lemma safe_service:
  assumes "app_ok app" and "set_option (a_profiler app) \<subseteq> A"
  shows "safe app A (service_session app decoded) (\<lambda>_. {})"
proof (cases decoded)
  case (Inl e)
  then show ?thesis by (simp add: service_session_def safe_swallow [OF safe_error])
next
  case (Inr rq)
  show ?thesis unfolding service_session_def Inr sum.case
    by (intro safe_bind [OF safe_lift [OF keeps_load]] safe_catch [OF safe_request] safe_swallow [OF safe_error] assms(1))
       (use assms(2) in auto)
qed

section \<open>Every session\<close>

lemma safe_laps:
  assumes "app_ok app" and "set_option (a_profiler app) \<subseteq> A"
  shows "safe app A (session_laps app arrivals) (\<lambda>_. {})"
proof (induction arrivals)
  case Nil
  then show ?case by (simp add: safe_ret)
next
  case (Cons arrival arrivals)
  have td: "safe app A (teardown_session app) (\<lambda>_. {})" by (simp add: teardown_session_def safe_cleanup [OF assms(1)])
  have serve: "safe app A (case arrival of None \<Rightarrow> retS () | Some decoded \<Rightarrow> service_session app decoded) (\<lambda>_. {})"
    using safe_service [OF assms] by (auto simp: safe_ret split: option.split)
  let ?g = "\<lambda>s1. if conn_closed s1 then teardown_session app else session_laps app arrivals"
  have "safe app A (?g s) (\<lambda>_. {})" for s using td Cons.IH by simp
  then have "safe app A (\<lambda>s. ?g s s) (\<lambda>_. {})" by (intro safe_state [where f = ?g]) blast
  then have g: "safe app (A \<union> {}) (\<lambda>s. ?g s s) (\<lambda>_. {})" by simp
  let ?f = "\<lambda>s. if conn_closed s then teardown_session app else
     bindS (case arrival of None \<Rightarrow> retS () | Some decoded \<Rightarrow> service_session app decoded) (\<lambda>_ s1. ?g s1 s1)"
  have "safe app A (?f s) (\<lambda>_. {})" for s using td safe_bind [OF serve g] by simp
  then have "safe app A (\<lambda>s. ?f s s) (\<lambda>_. {})" by (intro safe_state [where f = ?f]) blast
  then show ?case by (simp only: session_laps.simps if_distribR)
qed

text \<open>
  C9: Whatever frames a client sends, and whatever the handlers throw, a session never breaks its
  invariant: the object store stays sound, every id of the object table names an existing object,
  the maps stay ordered and no object is filed under the group 0. The application's code is only
  assumed to keep this invariant itself and to return existing objects.
\<close>

theorem session_invariant:
  assumes "app_ok app" and "world_ok app (world s)" and "session_laps app arrivals s = (r, s')"
  shows "world_ok app (world s')"
proof (rule safeD(1) [OF safe_laps [OF assms(1) order_refl] assms(2) _ assms(3)])
  show "valid (set_option (a_profiler app)) (store_in s)" using assms(2) by (simp add: world_ok_def)
qed

lemma plain_app_ok: "app_ok plain_app"
  by (auto simp: app_ok_def plain_app_def keeps_ret)

lemma new_session_ok: "world_ok plain_app (world (new_session sid))"
  by (simp add: world_ok_def new_session_def context_ok_def new_context_def plain_app_def store_ok_def empty_store_def registry_ok_def)

theorem session_invariant_witness:
  "world_ok plain_app (world (snd (session_laps plain_app
     [Some (Inl Buffer_underflow), Some (Inr (new_envelope\<lparr> env_kind := KIND_REQUEST, env_op := OP_HELP \<rparr>))] (new_session 1))))"
  by (rule session_invariant [OF plain_app_ok new_session_ok surjective_pairing])

end
