(* ===== verification/Rmi_Client.thy ===== *)
theory Rmi_Client
  imports Envelope
begin

text \<open>
  The RMI client, \<open>src/rmi/client/client.cpp\<close> and \<open>proxy.cpp\<close>: the requests it builds, the table of
  pending promises shared by the calling threads and the worker thread, and the routing of
  responses and events. A promise is named by its number in the order of creation.
\<close>

section \<open>Requests\<close>

definition request_envelope :: "hash_t \<Rightarrow> hash_t \<Rightarrow> hash_t \<Rightarrow> hash_t \<Rightarrow> dvalue smap \<Rightarrow> bool \<Rightarrow> envelope" where
  "request_envelope rid op oid grp payload oneway =
     new_envelope\<lparr> env_kind := KIND_REQUEST, env_op := op, env_request_id := rid, env_object_id := oid,
       env_group := grp, env_oneway := oneway, env_payload := payload \<rparr>"

definition connect_payload :: "ns_map \<Rightarrow> dvalue smap \<Rightarrow> dvalue smap result" where
  "connect_payload reg params = set_all reg [(FIELD_VERSION, Int32V PROTOCOL_VERSION)] params"

definition describe_payload :: "ns_map \<Rightarrow> hash_t \<Rightarrow> hash_t \<Rightarrow> dvalue smap result" where
  "describe_payload reg ns klass = set_all reg [(FIELD_NAMESPACE, KeyV ns), (FIELD_KLASS, KeyV klass)] (dyn_new 0 [])"

definition instantiate_payload :: "ns_map \<Rightarrow> hash_t \<Rightarrow> hash_t \<Rightarrow> dvalue smap \<Rightarrow> dvalue smap result" where
  "instantiate_payload reg ns klass params =
     set_all reg [(FIELD_KLASS, KeyV klass), (FIELD_NAMESPACE, KeyV ns), (FIELD_PARAMS, PtrV (Some (Dyn params)))] (dyn_new 0 [])"

text \<open>\<open>proxy::dynamic::call\<close>.\<close>

definition call_payload :: "ns_map \<Rightarrow> hash_t \<Rightarrow> dvalue smap \<Rightarrow> dvalue smap result" where
  "call_payload reg name params =
     set_all reg [(FIELD_NAME, KeyV name), (FIELD_PARAMS, PtrV (Some (Dyn params)))] (dyn_new 0 [])"

text \<open>The requests of the client's and the proxy's operations, given a fresh request id.\<close>

definition connect_request :: "ns_map \<Rightarrow> hash_t \<Rightarrow> dvalue smap \<Rightarrow> envelope result" where
  "connect_request reg rid params =
     bindE (connect_payload reg params) (\<lambda>p. Inr (request_envelope rid OP_CONNECT 0 0 p False))"

definition describe_request :: "ns_map \<Rightarrow> hash_t \<Rightarrow> hash_t \<Rightarrow> hash_t \<Rightarrow> envelope result" where
  "describe_request reg rid ns klass =
     bindE (describe_payload reg ns klass) (\<lambda>p. Inr (request_envelope rid OP_DESCRIBE 0 0 p False))"

definition dictionary_request :: "hash_t \<Rightarrow> envelope" where
  "dictionary_request rid = request_envelope rid OP_DICTIONARY 0 0 (dyn_new 0 []) False"

definition help_request :: "hash_t \<Rightarrow> envelope" where
  "help_request rid = request_envelope rid OP_HELP 0 0 (dyn_new 0 []) False"

definition instantiate_request :: "ns_map \<Rightarrow> hash_t \<Rightarrow> hash_t \<Rightarrow> hash_t \<Rightarrow> dvalue smap \<Rightarrow> envelope result" where
  "instantiate_request reg rid ns klass params =
     bindE (instantiate_payload reg ns klass params) (\<lambda>p. Inr (request_envelope rid OP_INSTANTIATE 0 0 p False))"

definition destroy_request :: "hash_t \<Rightarrow> hash_t \<Rightarrow> envelope" where
  "destroy_request rid oid = request_envelope rid OP_DESTROY oid 0 (dyn_new 0 []) False"

definition disconnect_request :: "hash_t \<Rightarrow> envelope" where
  "disconnect_request rid = request_envelope rid OP_DISCONNECT 0 0 (dyn_new 0 []) False"

definition clear_request :: "hash_t \<Rightarrow> hash_t \<Rightarrow> envelope" where
  "clear_request rid oid = request_envelope rid OP_CLEAR oid 0 (dyn_new 0 []) False"

definition set_request :: "hash_t \<Rightarrow> hash_t \<Rightarrow> dvalue smap \<Rightarrow> envelope" where
  "set_request rid oid patch = request_envelope rid OP_SET oid 0 patch False"

text \<open>Without a projection the payload is the empty object.\<close>

definition get_request :: "hash_t \<Rightarrow> hash_t \<Rightarrow> dvalue smap \<Rightarrow> envelope" where
  "get_request rid oid projection = request_envelope rid OP_GET oid 0 projection False"

definition call_request :: "ns_map \<Rightarrow> hash_t \<Rightarrow> hash_t \<Rightarrow> hash_t \<Rightarrow> dvalue smap \<Rightarrow> bool \<Rightarrow> envelope result" where
  "call_request reg rid oid name params oneway =
     bindE (call_payload reg name params) (\<lambda>p. Inr (request_envelope rid OP_CALL oid 0 p oneway))"

section \<open>State\<close>

text \<open>
  What a future will deliver: a value, an exception with its text, or \<open>broken_promise\<close> when the
  promise was destroyed without an outcome.
\<close>

datatype outcome = Unset | Value "dvalue smap" | Failed string | Broken

record client =
  running :: bool
  pending :: "nat smap"
  promises :: "outcome list"
  handlers :: "nat smap smap"
  events :: "(nat \<times> dvalue smap) list"

definition new_client :: client where
  "new_client = \<lparr> running = True, pending = [], promises = [], handlers = [], events = [] \<rparr>"

definition settle :: "nat \<Rightarrow> outcome \<Rightarrow> client \<Rightarrow> client" where
  "settle p r c = c\<lparr> promises := (promises c)[p := r] \<rparr>"

text \<open>\<open>what() + " (code=" + code + ")"\<close>.\<close>

definition rmi_error :: "string \<Rightarrow> hash_t \<Rightarrow> string" where
  "rmi_error message code = message @ '' (code='' @ nat_digits (unat code) @ '')''"

section \<open>Sending\<close>

text \<open>
  The critical section of \<open>send_request_with_group\<close>: the new promise fails at once when the worker
  has stopped, and is otherwise filed under the request id, replacing a promise with the same id.
\<close>

definition register_request :: "hash_t \<Rightarrow> client \<Rightarrow> client" where
  "register_request rid c =
     (let p = length (promises c); c1 = c\<lparr> promises := promises c @ [Unset] \<rparr>
      in if \<not> running c then settle p (Failed (rmi_error ''Client disconnected'' ERR_TRANSPORT_ERROR)) c1
         else (case map_of (pending c1) rid of None \<Rightarrow> c1 | Some old \<Rightarrow> settle old Broken c1)
           \<lparr> pending := map_put rid p (pending c1) \<rparr>)"

text \<open>\<open>send\<close> threw: the promise, if it is still there, gets the exception.\<close>

definition request_unsent :: "hash_t \<Rightarrow> string \<Rightarrow> client \<Rightarrow> client" where
  "request_unsent rid what c =
     (case map_of (pending c) rid of
        None \<Rightarrow> c
      | Some p \<Rightarrow> (settle p (Failed what) c)\<lparr> pending := map_erase rid (pending c) \<rparr>)"

section \<open>Receiving\<close>

text \<open>
  A response: the promise is taken out of the table, then given its outcome. An exception on the
  way (fields of the wrong type) leaves it without one.
\<close>

definition take_pending :: "hash_t \<Rightarrow> client \<Rightarrow> nat option \<times> client" where
  "take_pending rid c =
     (case map_of (pending c) rid of
        None \<Rightarrow> (None, c)
      | Some p \<Rightarrow> (Some p, c\<lparr> pending := map_erase rid (pending c) \<rparr>))"

definition error_message :: "ns_map \<Rightarrow> dvalue smap \<Rightarrow> string result" where
  "error_message reg err =
     bindE (tree_find reg FIELD_ERROR_MESSAGE err) (\<lambda>(hit, m).
       if \<not> hit then Inr ''RMI error''
       else (case tree_value m FIELD_ERROR_MESSAGE of
               StringV t \<Rightarrow> Inr t
             | _ \<Rightarrow> Inl Invalid_type))"

definition response_outcome :: "ns_map \<Rightarrow> envelope \<Rightarrow> outcome" where
  "response_outcome reg env =
     (case tree_as_key FIELD_ERROR_CODE (env_error env) of
        Inl _ \<Rightarrow> Broken
      | Inr (code, err) \<Rightarrow>
          if code = 0 then Value (env_payload env)
          else (case error_message reg err of
                  Inl _ \<Rightarrow> Broken
                | Inr message \<Rightarrow> Failed (rmi_error message code)))"

text \<open>An event: the handler found for the object and the name is queued with the parameters.\<close>

definition event_params :: "ns_map \<Rightarrow> dvalue smap \<Rightarrow> dvalue smap result" where
  "event_params reg m =
     bindE (tree_index reg FIELD_PARAMS m) (\<lambda>m'.
       Inr (case tree_value m' FIELD_PARAMS of PtrV (Some (Dyn kvs)) \<Rightarrow> kvs | _ \<Rightarrow> dyn_new 0 []))"

definition find_handler :: "hash_t \<Rightarrow> hash_t \<Rightarrow> client \<Rightarrow> nat option" where
  "find_handler oid name c =
     (case map_of (handlers c) oid of None \<Rightarrow> None | Some hs \<Rightarrow> map_of hs name)"

definition deliver_event :: "ns_map \<Rightarrow> envelope \<Rightarrow> client \<Rightarrow> client" where
  "deliver_event reg env c =
     (case tree_as_key FIELD_NAME (env_payload env) of
        Inl _ \<Rightarrow> c
      | Inr (name, m) \<Rightarrow> (case event_params reg m of
            Inl _ \<Rightarrow> c
          | Inr params \<Rightarrow> (case find_handler (env_object_id env) name c of
                None \<Rightarrow> c
              | Some h \<Rightarrow> c\<lparr> events := events c @ [(h, params)] \<rparr>)))"

text \<open>\<open>process_frame\<close> up to the point where a promise is held: which one, and the rest.\<close>

definition process_frame :: "ns_map \<Rightarrow> envelope \<Rightarrow> client \<Rightarrow> (nat \<times> outcome) option \<times> client" where
  "process_frame reg env c =
     (if env_kind env = KIND_RESPONSE then
        (case take_pending (env_request_id env) c of
           (None, c') \<Rightarrow> (None, c')
         | (Some p, c') \<Rightarrow> (Some (p, response_outcome reg env), c'))
      else if env_kind env = KIND_EVENT then (None, deliver_event reg env c)
      else (None, c))"

definition register_event_handler :: "hash_t \<Rightarrow> hash_t \<Rightarrow> nat \<Rightarrow> client \<Rightarrow> client" where
  "register_event_handler oid name h c =
     c\<lparr> handlers := map_put oid (map_put name h (case map_of (handlers c) oid of Some hs \<Rightarrow> hs | None \<Rightarrow> [])) (handlers c) \<rparr>"

definition unregister_object_events :: "hash_t \<Rightarrow> client \<Rightarrow> client" where
  "unregister_object_events oid c = c\<lparr> handlers := map_erase oid (handlers c) \<rparr>"

text \<open>\<open>fail_all_pending\<close>: the table is taken over under its lock, then every promise fails.\<close>

definition take_all :: "client \<Rightarrow> nat list \<times> client" where
  "take_all c = (map snd (pending c), c\<lparr> pending := [] \<rparr>)"

definition fail_all_pending :: "hash_t \<Rightarrow> string \<Rightarrow> client \<Rightarrow> client" where
  "fail_all_pending code message c =
     (case take_all c of (ps, c') \<Rightarrow> fold (\<lambda>p. settle p (Failed (rmi_error message code))) ps c')"

end
