(* ===== verification/Client_Threads.thy ===== *)
theory Client_Threads
  imports Rmi_Client "HOL-Library.Multiset"
begin

text \<open>
  The threads of one client session (\<open>worker_loop\<close>, \<open>send_request_with_group\<close>, \<open>disconnect\<close> of
  \<open>src/rmi/client/client.cpp\<close>) as two step relations over the shared state: the worker's steps, and
  those of all other threads. A step is a critical section of \<open>pending_\<close> or \<open>event_handlers_\<close>, an
  access to \<open>running_\<close>, or the delivery of one outcome.
\<close>

section \<open>Worker and callers\<close>

text \<open>
  Where the worker is: at the loop condition, in \<open>receive\<close>, holding a promise it took from the
  table, past the loop, failing the promises of the final sweep, or finished.
\<close>

datatype worker = Looping | Waiting | Resolving nat outcome | Exiting | Sweeping "nat list" | Stopped

record machine =
  cl :: client
  wk :: worker
  inflight :: "hash_t list"
  received :: "envelope list"
  asked :: "(nat \<times> hash_t) list"

text \<open>
  \<open>received\<close> and \<open>asked\<close> (which promise waits for which request id) only record the history. A
  session starts on a client whose earlier promises all have their outcome.
\<close>

definition idle_client :: "client \<Rightarrow> bool" where
  "idle_client c \<longleftrightarrow> pending c = [] \<and> Unset \<notin> set (promises c)"

definition session_start :: "client \<Rightarrow> machine" where
  "session_start c = \<lparr> cl = c\<lparr> running := True \<rparr>, wk = Looping, inflight = [], received = [], asked = [] \<rparr>"

text \<open>The sweep's error.\<close>

definition worker_exit :: outcome where
  "worker_exit = Failed (rmi_error ''Worker thread exiting'' ERR_TRANSPORT_ERROR)"

inductive worker_step :: "ns_map \<Rightarrow> machine \<Rightarrow> machine \<Rightarrow> bool" for reg where
  enter: "wk m = Looping \<Longrightarrow> running (cl m) \<Longrightarrow> worker_step reg m (m\<lparr> wk := Waiting \<rparr>)"
| leave: "wk m = Looping \<Longrightarrow> \<not> running (cl m) \<Longrightarrow> worker_step reg m (m\<lparr> wk := Exiting \<rparr>)"
| idle: "wk m = Waiting \<Longrightarrow> worker_step reg m (m\<lparr> wk := Looping \<rparr>)"
| lost: "wk m = Waiting \<Longrightarrow> worker_step reg m (m\<lparr> cl := (cl m)\<lparr> running := False \<rparr>, wk := Looping \<rparr>)"
| frame: "wk m = Waiting \<Longrightarrow> process_frame reg env (cl m) = (None, c) \<Longrightarrow>
     worker_step reg m (m\<lparr> cl := c, wk := Looping, received := received m @ [env] \<rparr>)"
| response: "wk m = Waiting \<Longrightarrow> process_frame reg env (cl m) = (Some (p, r), c) \<Longrightarrow>
     worker_step reg m (m\<lparr> cl := c, wk := Resolving p r, received := received m @ [env] \<rparr>)"
| resolve: "wk m = Resolving p r \<Longrightarrow> worker_step reg m (m\<lparr> cl := settle p r (cl m), wk := Looping \<rparr>)"
| sweep: "wk m = Exiting \<Longrightarrow> take_all (cl m) = (ps, c) \<Longrightarrow> worker_step reg m (m\<lparr> cl := c, wk := Sweeping ps \<rparr>)"
| fail_one: "wk m = Sweeping (p # ps) \<Longrightarrow>
     worker_step reg m (m\<lparr> cl := settle p worker_exit (cl m), wk := Sweeping ps \<rparr>)"
| finish: "wk m = Sweeping [] \<Longrightarrow> worker_step reg m (m\<lparr> wk := Stopped \<rparr>)"

text \<open>
  The other threads: a caller registers a request, then sends it or fails to; handlers come and
  go; \<open>disconnect\<close> clears \<open>running_\<close> and, after the worker is joined, fails what is left.
\<close>

inductive caller_step :: "machine \<Rightarrow> machine \<Rightarrow> bool" where
  call: "caller_step m (m\<lparr> cl := register_request rid (cl m),
     inflight := (if running (cl m) then rid # inflight m else inflight m),
     asked := asked m @ [(length (promises (cl m)), rid)] \<rparr>)"
| sent: "rid \<in> set (inflight m) \<Longrightarrow> caller_step m (m\<lparr> inflight := remove1 rid (inflight m) \<rparr>)"
| unsent: "rid \<in> set (inflight m) \<Longrightarrow>
     caller_step m (m\<lparr> cl := request_unsent rid what (cl m), inflight := remove1 rid (inflight m) \<rparr>)"
| register: "caller_step m (m\<lparr> cl := register_event_handler oid name h (cl m) \<rparr>)"
| unregister: "caller_step m (m\<lparr> cl := unregister_object_events oid (cl m) \<rparr>)"
| clear_running: "caller_step m (m\<lparr> cl := (cl m)\<lparr> running := False \<rparr> \<rparr>)"
| safety_net: "wk m = Stopped \<Longrightarrow>
     caller_step m (m\<lparr> cl := fail_all_pending ERR_TRANSPORT_ERROR ''Client disconnected'' (cl m) \<rparr>)"

text \<open>Executions, counting the worker's steps.\<close>

inductive execution :: "ns_map \<Rightarrow> nat \<Rightarrow> machine \<Rightarrow> machine \<Rightarrow> bool" for reg where
  execution_refl: "execution reg 0 m m"
| execution_worker: "execution reg n m m' \<Longrightarrow> worker_step reg m' m'' \<Longrightarrow> execution reg (Suc n) m m''"
| execution_caller: "execution reg n m m' \<Longrightarrow> caller_step m' m'' \<Longrightarrow> execution reg n m m''"

definition reachable :: "ns_map \<Rightarrow> machine \<Rightarrow> bool" where
  "reachable reg m \<longleftrightarrow> (\<exists>c n. idle_client c \<and> execution reg n (session_start c) m)"

lemmas worker_step_intros = worker_step.intros
lemmas caller_step_intros = caller_step.intros

inductive_cases worker_stepE: "worker_step reg m m'"
inductive_cases caller_stepE: "caller_step m m'"

section \<open>Who owns a promise\<close>

text \<open>
  A promise without an outcome is owned by exactly one entry of the table or held by the worker;
  when the worker is past the loop nothing is added to the table, after the sweep it is empty.
\<close>

fun held :: "worker \<Rightarrow> nat list" where
  "held (Resolving p r) = [p]"
| "held (Sweeping ps) = ps"
| "held _ = []"

fun past_loop :: "worker \<Rightarrow> bool" where
  "past_loop Exiting = True"
| "past_loop (Sweeping ps) = True"
| "past_loop Stopped = True"
| "past_loop _ = False"

fun past_sweep :: "worker \<Rightarrow> bool" where
  "past_sweep (Sweeping ps) = True"
| "past_sweep Stopped = True"
| "past_sweep _ = False"

definition owned :: "machine \<Rightarrow> nat list" where
  "owned m = map snd (pending (cl m)) @ held (wk m)"

definition unset_at :: "client \<Rightarrow> nat set" where
  "unset_at c = {p. p < length (promises c) \<and> promises c ! p = Unset}"

definition threads_ok :: "machine \<Rightarrow> bool" where
  "threads_ok m \<longleftrightarrow> sorted_map (pending (cl m)) \<and> distinct (owned m) \<and> set (owned m) = unset_at (cl m) \<and>
     (past_loop (wk m) \<longrightarrow> \<not> running (cl m)) \<and> (past_sweep (wk m) \<longrightarrow> pending (cl m) = [])"

lemma process_frame_cases:
  assumes "process_frame reg env c = (taken, c')"
  obtains (Taken) p where "taken = Some (p, response_outcome reg env)" "env_kind env = KIND_RESPONSE"
      "map_of (pending c) (env_request_id env) = Some p" "c' = c\<lparr> pending := map_erase (env_request_id env) (pending c) \<rparr>"
    | (Nothing) evs where "taken = None" "c' = c\<lparr> events := evs \<rparr>"
proof -
  have deliver: "\<exists>evs. deliver_event reg env c = c\<lparr> events := evs \<rparr>"
    by (auto simp: deliver_event_def split: sum.splits option.splits intro: exI [of _ "events c"])
  show ?thesis using assms that deliver
    by (auto simp: process_frame_def take_pending_def split: if_splits option.splits prod.splits)
       (metis client.surjective client.update_convs(5))+
qed

text \<open>The values of the table, as the table is written and erased.\<close>

lemma map_erase_Cons: "map_erase k ((k', v) # m) = (if k' = k then map_erase k m else (k', v) # map_erase k m)"
  by (simp add: map_erase_def)

lemma map_erase_absent: "k \<notin> fst ` set m \<Longrightarrow> map_erase k m = m"
  by (induction m) (auto simp: map_erase_def)

lemma mset_map_put: "sorted_map m \<Longrightarrow> mset (map_put k v m) = add_mset (k, v) (mset (map_erase k m))"
proof (induction k v m rule: map_put.induct)
  case (2 k v k' v' m)
  have "map_erase k m = m" if "\<forall>x \<in> set m. k < fst x"
    using that by (intro map_erase_absent) auto
  moreover have "\<forall>x \<in> set m. k < fst x" if "k \<le> k'" using that 2(2) by auto
  ultimately show ?case using 2 by (cases "k < k'"; cases "k = k'") (auto simp: map_erase_Cons)
qed (simp add: map_erase_def)

lemma values_put:
  assumes "sorted_map m"
  shows "distinct (map snd (map_put k v m)) = distinct (v # map snd (map_erase k m))"
    and "set (map snd (map_put k v m)) = insert v (set (map snd (map_erase k m)))"
proof -
  have eq: "mset (map snd (map_put k v m)) = mset (v # map snd (map_erase k m))"
    by (simp add: mset_map_put [OF assms] del: mset_filter)
  show "distinct (map snd (map_put k v m)) = distinct (v # map snd (map_erase k m))"
    using mset_eq_imp_distinct_iff [OF eq] .
  show "set (map snd (map_put k v m)) = insert v (set (map snd (map_erase k m)))"
    using mset_eq_setD [OF eq] by simp
qed

lemma values_erase:
  assumes "sorted_map m" "distinct (map snd m)"
  shows "distinct (map snd (map_erase k m))"
    and "set (map snd (map_erase k m)) = set (map snd m) - set_option (map_of m k)"
proof -
  show "distinct (map snd (map_erase k m))"
    unfolding map_erase_def by (rule distinct_map_filter [OF assms(2)])
  show "set (map snd (map_erase k m)) = set (map snd m) - set_option (map_of m k)"
    using assms
  proof (induction m)
    case Nil
    then show ?case by (simp add: map_erase_def)
  next
    case (Cons kv m)
    obtain k' v where kv: "kv = (k', v)" by fastforce
    show ?case
    proof (cases "k' = k")
      case True
      then have "k \<notin> fst ` set m" using Cons.prems by (auto simp: kv)
      then show ?thesis using Cons.prems by (auto simp: kv True map_erase_Cons map_erase_absent image_iff)
    next
      case False
      have "v \<notin> set_option (map_of m k)" using Cons.prems by (force simp: kv dest!: map_of_SomeD)
      then show ?thesis using Cons False by (auto simp: kv map_erase_Cons)
    qed
  qed
qed

lemma settle_simps [simp]:
  "running (settle p r c) = running c" "pending (settle p r c) = pending c"
  "handlers (settle p r c) = handlers c" "events (settle p r c) = events c"
  "length (promises (settle p r c)) = length (promises c)"
  "promises (settle p r c) = (promises c)[p := r]"
  by (simp_all add: settle_def)

lemma unset_settle: "r \<noteq> Unset \<Longrightarrow> unset_at (settle p r c) = unset_at c - {p}"
  by (auto simp: unset_at_def) (metis nth_list_update_eq nth_list_update_neq)+

lemma unset_same: "promises c = promises c' \<Longrightarrow> unset_at c = unset_at c'"
  by (simp add: unset_at_def)

lemma unset_new: "unset_at (c\<lparr> promises := promises c @ [Unset] \<rparr>) = insert (length (promises c)) (unset_at c)"
  by (auto simp: unset_at_def nth_append)

lemma response_outcome_set: "response_outcome reg env \<noteq> Unset"
  by (auto simp: response_outcome_def split: sum.splits)

lemma unset_less: "p \<in> unset_at c \<Longrightarrow> p < length (promises c)"
  by (simp add: unset_at_def)

lemma held_past: "wk m = Looping \<or> wk m = Waiting \<or> wk m = Exiting \<or> wk m = Stopped \<Longrightarrow> held (wk m) = []"
  by auto

text \<open>A promise held by the worker is a promise about to be resolved with an outcome.\<close>

definition holding_ok :: "machine \<Rightarrow> bool" where
  "holding_ok m \<longleftrightarrow> (\<forall>p r. wk m = Resolving p r \<longrightarrow> r \<noteq> Unset)"

lemma register_request_ok:
  assumes c: "sorted_map (pending c)" "distinct (map snd (pending c) @ hs)"
      "set (map snd (pending c) @ hs) = unset_at c"
  shows "sorted_map (pending (register_request rid c))"
    and "distinct (map snd (pending (register_request rid c)) @ hs)"
    and "set (map snd (pending (register_request rid c)) @ hs) = unset_at (register_request rid c)"
    and "running (register_request rid c) = running c"
    and "\<not> running c \<Longrightarrow> pending (register_request rid c) = pending c"
proof -
  let ?p = "length (promises c)" and ?c1 = "c\<lparr> promises := promises c @ [Unset] \<rparr>"
  have fresh: "?p \<notin> unset_at c" by (simp add: unset_at_def)
  have vals: "distinct (map snd (map_erase rid (pending c)))"
      "set (map snd (map_erase rid (pending c))) = set (map snd (pending c)) - set_option (map_of (pending c) rid)"
    using values_erase [of "pending c" rid] c by simp_all
  have hs: "set_option (map_of (pending c) rid) \<inter> set hs = {}" "set_option (map_of (pending c) rid) \<subseteq> unset_at c"
    using c by (force dest!: map_of_SomeD simp: set_eq_iff)+
  have un: "unset_at (case map_of (pending c) rid of None \<Rightarrow> ?c1 | Some old \<Rightarrow> settle old Broken ?c1)
      = insert ?p (unset_at c - set_option (map_of (pending c) rid))"
    using hs fresh by (auto split: option.splits simp: unset_settle unset_new)
  have pend: "pending (case map_of (pending c) rid of None \<Rightarrow> ?c1 | Some old \<Rightarrow> settle old Broken ?c1) = pending c"
    by (simp split: option.splits)
  have run: "running (case map_of (pending c) rid of None \<Rightarrow> ?c1 | Some old \<Rightarrow> settle old Broken ?c1) = running c"
    by (simp split: option.splits)
  show "running (register_request rid c) = running c"
    using run by (simp add: register_request_def Let_def)
  show "\<not> running c \<Longrightarrow> pending (register_request rid c) = pending c"
    by (simp add: register_request_def Let_def)
  show "sorted_map (pending (register_request rid c))"
    using c(1) pend by (simp add: register_request_def Let_def)
  show "distinct (map snd (pending (register_request rid c)) @ hs)"
    using c vals hs fresh pend values_put [OF c(1), of rid ?p] 
    by (auto simp: register_request_def Let_def)
  have "unset_at (settle ?p (Failed x) ?c1) = unset_at c" for x
    using fresh by (simp add: unset_settle unset_new)
  moreover have "unset_at (d\<lparr> pending := ps \<rparr>) = unset_at d" for d ps by (rule unset_same) simp
  ultimately show "set (map snd (pending (register_request rid c)) @ hs) = unset_at (register_request rid c)"
    using c(3) vals hs un pend values_put(2) [OF c(1), of rid ?p]
    by (cases "running c") (auto simp: register_request_def Let_def)
qed

lemma request_unsent_ok:
  assumes c: "sorted_map (pending c)" "distinct (map snd (pending c) @ hs)"
      "set (map snd (pending c) @ hs) = unset_at c"
  shows "sorted_map (pending (request_unsent rid what c))"
    and "distinct (map snd (pending (request_unsent rid what c)) @ hs)"
    and "set (map snd (pending (request_unsent rid what c)) @ hs) = unset_at (request_unsent rid what c)"
    and "running (request_unsent rid what c) = running c"
    and "pending c = [] \<Longrightarrow> pending (request_unsent rid what c) = []"
proof -
  have vals: "distinct (map snd (map_erase rid (pending c)))"
      "set (map snd (map_erase rid (pending c))) = set (map snd (pending c)) - set_option (map_of (pending c) rid)"
    using values_erase [of "pending c" rid] c by simp_all
  have hs: "set_option (map_of (pending c) rid) \<inter> set hs = {}"
    using c by (force dest!: map_of_SomeD simp: set_eq_iff)
  have un: "unset_at (d\<lparr> pending := ps \<rparr>) = unset_at d" for d ps by (rule unset_same) simp
  show "sorted_map (pending (request_unsent rid what c))" "running (request_unsent rid what c) = running c"
    "pending c = [] \<Longrightarrow> pending (request_unsent rid what c) = []"
    using c(1) by (auto simp: request_unsent_def split: option.splits)
  show "distinct (map snd (pending (request_unsent rid what c)) @ hs)"
    using c vals by (auto simp: request_unsent_def split: option.splits)
  show "set (map snd (pending (request_unsent rid what c)) @ hs) = unset_at (request_unsent rid what c)"
    using c(3) vals(2) hs by (auto simp: request_unsent_def un unset_settle split: option.splits)
qed

lemma take_pending_ok:
  assumes c: "sorted_map (pending c)" "distinct (map snd (pending c))" "set (map snd (pending c)) = unset_at c"
    and p: "map_of (pending c) rid = Some p"
  shows "distinct (map snd (map_erase rid (pending c)) @ [p])"
    and "set (map snd (map_erase rid (pending c)) @ [p]) = unset_at c"
  using values_erase [OF c(1,2), of rid] c(3) map_of_SomeD [OF p] by (force simp: p)+

lemma fail_all_nothing: "pending c = [] \<Longrightarrow> fail_all_pending code msg c = c"
  by (simp add: fail_all_pending_def take_all_def)

lemma threads_ok_start: "idle_client c \<Longrightarrow> threads_ok (session_start c)"
  by (auto simp: threads_ok_def session_start_def idle_client_def owned_def unset_at_def in_set_conv_nth)

lemma holding_ok_start: "holding_ok (session_start c)"
  by (simp add: holding_ok_def session_start_def)

lemma past_sweep_loop: "past_sweep w \<Longrightarrow> past_loop w"
  by (cases w) auto

lemma worker_keeps_ok:
  assumes "worker_step reg m m'" "threads_ok m" "holding_ok m"
  shows "threads_ok m' \<and> holding_ok m'"
  using assms(1)
proof cases
  case (frame env c)
  from frame(3) obtain evs where "c = (cl m)\<lparr> events := evs \<rparr>" by (cases rule: process_frame_cases) auto
  then show ?thesis using assms frame by (simp add: threads_ok_def holding_ok_def owned_def unset_at_def)
next
  case (response env p r c)
  from response(3) obtain k where "r \<noteq> Unset" "map_of (pending (cl m)) k = Some p"
    "c = (cl m)\<lparr> pending := map_erase k (pending (cl m)) \<rparr>"
    by (cases rule: process_frame_cases) (auto simp: response_outcome_set)
  then show ?thesis using assms response take_pending_ok [of "cl m" k p]
    by (simp add: threads_ok_def holding_ok_def owned_def sorted_map_erase unset_at_def)
next
  case (resolve p r)
  then show ?thesis using assms by (auto simp: threads_ok_def holding_ok_def owned_def unset_settle)
next
  case (fail_one p ps)
  then show ?thesis using assms
    by (auto simp: threads_ok_def holding_ok_def owned_def unset_settle worker_exit_def)
qed (use assms in \<open>auto simp: threads_ok_def holding_ok_def owned_def unset_at_def take_all_def\<close>)

lemma caller_keeps_ok:
  assumes "caller_step m m'" "threads_ok m" "holding_ok m"
  shows "threads_ok m' \<and> holding_ok m'"
  using assms(1)
proof cases
  case (call rid)
  then show ?thesis using assms(2,3) register_request_ok [of "cl m" "held (wk m)" rid] past_sweep_loop [of "wk m"]
    by (auto simp: threads_ok_def holding_ok_def owned_def)
next
  case (unsent rid what)
  then show ?thesis using assms(2,3) request_unsent_ok [of "cl m" "held (wk m)" rid what]
    by (auto simp: threads_ok_def holding_ok_def owned_def)
next
  case safety_net
  then show ?thesis using assms(2,3) by (auto simp: threads_ok_def holding_ok_def owned_def fail_all_nothing)
qed (use assms in \<open>auto simp: threads_ok_def holding_ok_def owned_def unset_at_def register_event_handler_def unregister_object_events_def\<close>)

lemma execution_ok:
  "execution reg n m m' \<Longrightarrow> threads_ok m \<Longrightarrow> holding_ok m \<Longrightarrow> threads_ok m' \<and> holding_ok m'"
  by (induction rule: execution.induct) (auto dest: worker_keeps_ok caller_keeps_ok)

lemma reachable_ok: "reachable reg m \<Longrightarrow> threads_ok m \<and> holding_ok m"
  unfolding reachable_def by (metis execution_ok threads_ok_start holding_ok_start)

section \<open>An outcome is final\<close>

definition promises_kept :: "client \<Rightarrow> client \<Rightarrow> bool" where
  "promises_kept c c' \<longleftrightarrow> length (promises c) \<le> length (promises c') \<and>
     (\<forall>p < length (promises c). promises c ! p \<noteq> Unset \<longrightarrow> promises c' ! p = promises c ! p)"

lemma kept_refl: "promises c' = promises c \<Longrightarrow> promises_kept c c'"
  by (simp add: promises_kept_def)

lemma kept_trans: "promises_kept a b \<Longrightarrow> promises_kept b c \<Longrightarrow> promises_kept a c"
  by (auto simp: promises_kept_def)

lemma kept_settle: "p \<in> unset_at c \<Longrightarrow> promises_kept c (settle p r c)"
  by (auto simp: promises_kept_def unset_at_def nth_list_update)

lemma kept_new: "promises_kept c (c\<lparr> promises := promises c @ [Unset] \<rparr>)"
  by (simp add: promises_kept_def nth_append)

lemma owned_unset:
  assumes "threads_ok m"
  shows "map_of (pending (cl m)) rid = Some p \<Longrightarrow> p \<in> unset_at (cl m)"
    and "p \<in> set (held (wk m)) \<Longrightarrow> p \<in> unset_at (cl m)"
  using assms by (force simp: threads_ok_def owned_def dest: map_of_SomeD)+

lemma kept_register:
  assumes "threads_ok m"
  shows "promises_kept (cl m) (register_request rid (cl m))"
proof -
  let ?c = "cl m" and ?p = "length (promises (cl m))"
  let ?c1 = "?c\<lparr> promises := promises ?c @ [Unset] \<rparr>"
  have p: "?p \<in> unset_at ?c1" by (simp add: unset_new)
  have "promises_kept ?c (settle q r ?c1)" if "q \<in> unset_at ?c1" for q r
    using kept_trans [OF kept_new kept_settle [OF that]] .
  moreover have "q \<in> unset_at ?c1" if "map_of (pending ?c) rid = Some q" for q
    using owned_unset(1) [OF assms that] by (simp add: unset_new)
  moreover have "promises_kept ?c (d\<lparr> pending := ps \<rparr>) = promises_kept ?c d" for d ps
    by (simp add: promises_kept_def)
  ultimately show ?thesis using p kept_new [of ?c]
    by (simp add: register_request_def Let_def split: option.splits)
qed

lemma kept_worker:
  assumes "worker_step reg m m'" "threads_ok m"
  shows "promises_kept (cl m) (cl m')"
  using assms(1)
proof cases
  case (frame env c)
  from frame(3) show ?thesis by (cases rule: process_frame_cases) (auto simp: frame intro: kept_refl)
next
  case (response env p r c)
  from response(3) show ?thesis by (cases rule: process_frame_cases) (auto simp: response intro: kept_refl)
qed (use owned_unset(2) [OF assms(2)] in \<open>auto simp: take_all_def intro: kept_refl kept_settle\<close>)

lemma kept_caller:
  assumes "caller_step m m'" "threads_ok m"
  shows "promises_kept (cl m) (cl m')"
  using assms(1)
proof cases
  case (call rid)
  then show ?thesis using kept_register [OF assms(2)] by simp
next
  case (unsent rid what)
  have "promises_kept (cl m) (d\<lparr> pending := ps \<rparr>) = promises_kept (cl m) d" for d ps
    by (simp add: promises_kept_def)
  then show ?thesis using unsent owned_unset(1) [OF assms(2), of rid]
    by (auto simp: request_unsent_def kept_settle kept_refl split: option.splits)
next
  case safety_net
  then show ?thesis using assms(2) by (simp add: threads_ok_def fail_all_nothing kept_refl)
qed (auto simp: register_event_handler_def unregister_object_events_def intro: kept_refl)

lemma kept_execution:
  "execution reg n m m' \<Longrightarrow> threads_ok m \<Longrightarrow> holding_ok m \<Longrightarrow> promises_kept (cl m) (cl m')"
proof (induction rule: execution.induct)
  case (execution_refl m)
  then show ?case by (simp add: kept_refl)
next
  case (execution_worker n m m' m'')
  then show ?case using execution_ok kept_trans kept_worker by metis
next
  case (execution_caller n m m' m'')
  then show ?case using execution_ok kept_trans kept_caller by metis
qed

section \<open>The worker's last steps\<close>

text \<open>How many steps the worker can still take once \<open>running_\<close> is false.\<close>

fun todo :: "machine \<Rightarrow> nat" where
  "todo m = (case wk m of
       Waiting \<Rightarrow> 5 + length (pending (cl m))
     | Resolving p r \<Rightarrow> 4 + length (pending (cl m))
     | Looping \<Rightarrow> 3 + length (pending (cl m))
     | Exiting \<Rightarrow> 2 + length (pending (cl m))
     | Sweeping ps \<Rightarrow> 1 + length ps
     | Stopped \<Rightarrow> 0)"

lemma length_erase: "length (map_erase k m) \<le> length m"
  by (simp add: map_erase_def)

lemma worker_todo:
  assumes "worker_step reg m m'" "\<not> running (cl m)"
  shows "todo m' < todo m \<and> \<not> running (cl m')"
  using assms(1)
proof cases
  case (frame env c)
  from frame(3) show ?thesis using assms(2) by (cases rule: process_frame_cases) (auto simp: frame)
next
  case (response env p r c)
  from response(3) show ?thesis using assms(2)
    by (cases rule: process_frame_cases) (auto simp: response intro: le_imp_less_Suc length_erase)
qed (use assms(2) in \<open>auto simp: take_all_def\<close>)

lemma caller_todo:
  assumes "caller_step m m'" "\<not> running (cl m)" "threads_ok m"
  shows "todo m' \<le> todo m \<and> \<not> running (cl m')"
  using assms(1)
proof cases
  case (call rid)
  then show ?thesis using assms(2) by (simp add: register_request_def Let_def split: worker.split)
next
  case (unsent rid what)
  then show ?thesis using assms(2) length_erase [of rid "pending (cl m)"]
    by (auto simp: request_unsent_def split: worker.split option.splits)
next
  case safety_net
  then show ?thesis using assms(2,3) by (simp add: threads_ok_def fail_all_nothing)
qed (use assms in \<open>auto simp: register_event_handler_def unregister_object_events_def split: worker.split\<close>)

lemma execution_todo:
  assumes "execution reg n m m'" "\<not> running (cl m)" "threads_ok m" "holding_ok m"
  shows "n + todo m' \<le> todo m \<and> \<not> running (cl m')"
  using assms
proof (induction rule: execution.induct)
  case (execution_worker n m m' m'')
  then show ?case using worker_todo [of reg m' m''] by auto
next
  case (execution_caller n m m' m'')
  then show ?case using caller_todo [of m' m''] execution_ok [of reg n m m'] by auto
qed simp

lemma worker_progress:
  assumes "wk m \<noteq> Stopped"
  shows "\<exists>m'. worker_step reg m m'"
proof (cases "wk m")
  case Looping
  then show ?thesis using enter leave by (cases "running (cl m)") blast+
next
  case (Sweeping ps)
  then show ?thesis using fail_one finish by (cases ps) blast+
next
  case Exiting
  then show ?thesis using sweep by (metis surj_pair)
next
  case Waiting
  then show ?thesis using idle by blast
next
  case (Resolving p r)
  then show ?thesis using resolve by blast
qed (use assms in simp)

section \<open>Where an answer comes from\<close>

text \<open>
  An outcome agrees with the history: a value is the payload of a response without an error that was
  received with the id of the request the promise was made for.
\<close>

definition answered_by :: "machine \<Rightarrow> nat \<Rightarrow> dvalue smap \<Rightarrow> bool" where
  "answered_by m p v \<longleftrightarrow> (\<exists>rid. (p, rid) \<in> set (asked m) \<and> (\<exists>env err. env \<in> set (received m) \<and>
     env_kind env = KIND_RESPONSE \<and> env_request_id env = rid \<and> env_payload env = v \<and>
     tree_as_key FIELD_ERROR_CODE (env_error env) = Inr (0, err)))"

definition history_ok :: "nat \<Rightarrow> machine \<Rightarrow> bool" where
  "history_ok base m \<longleftrightarrow>
     (\<forall>rid p. (rid, p) \<in> set (pending (cl m)) \<longrightarrow> (p, rid) \<in> set (asked m)) \<and>
     (\<forall>p v. wk m = Resolving p (Value v) \<longrightarrow> answered_by m p v) \<and>
     (\<forall>p v. base \<le> p \<and> p < length (promises (cl m)) \<and> promises (cl m) ! p = Value v \<longrightarrow> answered_by m p v)"

lemma response_value:
  "response_outcome reg env = Value v \<Longrightarrow>
     env_payload env = v \<and> (\<exists>err. tree_as_key FIELD_ERROR_CODE (env_error env) = Inr (0, err))"
  by (auto simp: response_outcome_def split: sum.splits if_splits)

lemma answered_mono:
  assumes "answered_by m p v" "set (asked m) \<subseteq> set (asked m')" "set (received m) \<subseteq> set (received m')"
  shows "answered_by m' p v"
  using assms unfolding answered_by_def by blast

lemma set_map_put: "set (map_put k v m) \<subseteq> insert (k, v) (set m)"
  by (induction k v m rule: map_put.induct) auto

lemma set_map_erase: "set (map_erase k m) \<subseteq> set m"
  by (auto simp: map_erase_def)

lemma history_step:
  assumes "history_ok base m"
    and "set (asked m) \<subseteq> set (asked m')" "set (received m) \<subseteq> set (received m')"
    and "\<And>rid p. (rid, p) \<in> set (pending (cl m')) \<Longrightarrow> (rid, p) \<in> set (pending (cl m)) \<or> (p, rid) \<in> set (asked m')"
    and "\<And>p v. wk m' = Resolving p (Value v) \<Longrightarrow> wk m = wk m' \<or> answered_by m' p v"
    and "\<And>p v. p < length (promises (cl m')) \<Longrightarrow> promises (cl m') ! p = Value v \<Longrightarrow>
       p < length (promises (cl m)) \<and> promises (cl m) ! p = Value v \<or> wk m = Resolving p (Value v)"
  shows "history_ok base m'"
  unfolding history_ok_def
proof (intro conjI allI impI)
  fix rid p assume "(rid, p) \<in> set (pending (cl m'))"
  then show "(p, rid) \<in> set (asked m')" using assms(1,2,4) unfolding history_ok_def by blast
next
  fix p v assume "wk m' = Resolving p (Value v)"
  then show "answered_by m' p v"
    using assms(1,5) answered_mono [OF _ assms(2,3)] unfolding history_ok_def by metis
next
  fix p v assume "base \<le> p \<and> p < length (promises (cl m')) \<and> promises (cl m') ! p = Value v"
  then show "answered_by m' p v"
    using assms(1,6) answered_mono [OF _ assms(2,3)] unfolding history_ok_def by blast
qed

lemma settle_value:
  assumes "(xs :: outcome list)[q := r] ! p = Value v" "p < length xs"
  shows "xs ! p = Value v \<or> p = q \<and> r = Value v"
  using assms by (cases "p = q") auto

lemma register_facts:
  "(r, p) \<in> set (pending (register_request rid c)) \<Longrightarrow> (r, p) \<in> set (pending c) \<or> r = rid \<and> p = length (promises c)"
  "promises (register_request rid c) ! p = Value v \<Longrightarrow> p < length (promises (register_request rid c)) \<Longrightarrow>
     p < length (promises c) \<and> promises c ! p = Value v"
proof -
  show "(r, p) \<in> set (pending (register_request rid c)) \<Longrightarrow> (r, p) \<in> set (pending c) \<or> r = rid \<and> p = length (promises c)"
    using set_map_put [of rid "length (promises c)" "pending c"]
    by (auto simp: register_request_def Let_def split: if_splits option.splits)
  show "promises (register_request rid c) ! p = Value v \<Longrightarrow> p < length (promises (register_request rid c)) \<Longrightarrow>
     p < length (promises c) \<and> promises c ! p = Value v"
    by (auto simp: register_request_def Let_def nth_append split: if_splits option.splits dest!: settle_value)
qed

lemma history_worker:
  assumes "worker_step reg m m'" "history_ok base m" "threads_ok m"
  shows "history_ok base m'"
  using assms(1)
proof cases
  case (frame env c)
  from frame(3) obtain evs where "c = (cl m)\<lparr> events := evs \<rparr>" by (cases rule: process_frame_cases) auto
  then show ?thesis by (intro history_step [OF assms(2)]) (auto simp: frame)
next
  case (response env p r c)
  from response(3) obtain k where c: "c = (cl m)\<lparr> pending := map_erase k (pending (cl m)) \<rparr>"
    and k: "map_of (pending (cl m)) k = Some p" "k = env_request_id env" "env_kind env = KIND_RESPONSE"
      "r = response_outcome reg env"
    by (cases rule: process_frame_cases) auto
  have asked: "(p, k) \<in> set (asked m)"
    using assms(2) map_of_SomeD [OF k(1)] by (auto simp: history_ok_def)
  show ?thesis
    by (rule history_step [OF assms(2)])
       (use asked k response_value [of reg env] set_map_erase [of k "pending (cl m)"]
        in \<open>auto simp: response c answered_by_def\<close>)
next
  case (resolve p r)
  show ?thesis
    by (rule history_step [OF assms(2)]) (auto simp: resolve dest!: settle_value)
next
  case (fail_one p ps)
  show ?thesis
    by (rule history_step [OF assms(2)]) (auto simp: fail_one worker_exit_def dest!: settle_value)
qed (rule history_step [OF assms(2)]; auto simp: take_all_def)+

lemma history_caller:
  assumes "caller_step m m'" "history_ok base m" "threads_ok m"
  shows "history_ok base m'"
  using assms(1)
proof cases
  case (call rid)
  show ?thesis
    by (rule history_step [OF assms(2)]) (auto simp: call dest: register_facts)
next
  case (unsent rid what)
  show ?thesis
    by (rule history_step [OF assms(2)])
       (use set_map_erase [of rid "pending (cl m)"] in
        \<open>auto simp: unsent request_unsent_def split: option.splits dest!: settle_value\<close>)
next
  case safety_net
  then show ?thesis using assms(2,3) by (simp add: threads_ok_def fail_all_nothing)
qed (rule history_step [OF assms(2)]; auto simp: register_event_handler_def unregister_object_events_def)+

lemma history_execution:
  "execution reg n m m' \<Longrightarrow> history_ok base m \<Longrightarrow> threads_ok m \<Longrightarrow> holding_ok m \<Longrightarrow> history_ok base m'"
proof (induction rule: execution.induct)
  case (execution_worker n m m' m'')
  then show ?case using history_worker execution_ok by metis
next
  case (execution_caller n m m' m'')
  then show ?case using history_caller execution_ok by metis
qed simp

lemma history_start:
  "idle_client c \<Longrightarrow> length (promises c) \<le> base \<Longrightarrow> history_ok base (session_start c)"
  by (auto simp: history_ok_def session_start_def idle_client_def)

section \<open>A sample session\<close>

text \<open>A session in which one request was made and answered, and the same session disconnected.\<close>

definition reply_seven :: envelope where
  "reply_seven = new_envelope\<lparr> env_kind := KIND_RESPONSE, env_request_id := 7 \<rparr>"

definition answered_machine :: machine where
  "answered_machine = \<lparr> cl = new_client\<lparr> promises := [Value (dyn_new 0 [])] \<rparr>, wk = Looping, inflight = [7],
     received = [reply_seven], asked = [(0, 7)] \<rparr>"

definition closing_machine :: machine where
  "closing_machine = answered_machine\<lparr> cl := (cl answered_machine)\<lparr> running := False \<rparr> \<rparr>"

lemma idle_new: "idle_client new_client"
  by (simp add: idle_client_def new_client_def)

lemma answered_run: "execution reg 3 (session_start new_client) answered_machine"
proof -
  let ?a = "\<lparr> cl = new_client\<lparr> pending := [(7, 0)], promises := [Unset] \<rparr>, wk = Looping, inflight = [7],
     received = [], asked = [(0, 7)] \<rparr>"
  let ?b = "?a\<lparr> wk := Waiting \<rparr>"
  let ?c = "?a\<lparr> cl := new_client\<lparr> promises := [Unset] \<rparr>, wk := Resolving 0 (Value (dyn_new 0 [])), received := [reply_seven] \<rparr>"
  have 1: "caller_step (session_start new_client) ?a"
    using call [of "session_start new_client" 7]
    by (simp add: session_start_def new_client_def register_request_def)
  have 2: "worker_step reg ?a ?b" using enter [of ?a reg] by (simp add: new_client_def)
  have frame: "process_frame reg reply_seven (cl ?b) = (Some (0, Value (dyn_new 0 [])), new_client\<lparr> promises := [Unset] \<rparr>)"
    by (simp add: process_frame_def reply_seven_def new_envelope_def take_pending_def new_client_def map_erase_def
        response_outcome_def tree_as_key_def dyn_new_def token_values)
  have 3: "worker_step reg ?b ?c" using response [OF _ frame] by simp
  have 4: "worker_step reg ?c answered_machine"
    using resolve [of ?c 0 "Value (dyn_new 0 [])" reg] by (simp add: answered_machine_def settle_def new_client_def)
  have "execution reg (Suc (Suc (Suc 0))) (session_start new_client) answered_machine"
    using execution_worker [OF execution_worker [OF execution_worker [OF execution_caller [OF execution_refl 1] 2] 3] 4] .
  then show ?thesis by (simp add: eval_nat_numeral)
qed

lemma closing_run: "execution reg 3 (session_start new_client) closing_machine"
  using execution_caller [OF answered_run clear_running] by (simp add: closing_machine_def)

lemma closing_more: "execution reg 2 closing_machine (closing_machine\<lparr> wk := Sweeping [] \<rparr>)"
proof -
  have 1: "worker_step reg closing_machine (closing_machine\<lparr> wk := Exiting \<rparr>)"
    by (rule leave) (simp_all add: closing_machine_def answered_machine_def)
  have 2: "worker_step reg (closing_machine\<lparr> wk := Exiting \<rparr>) (closing_machine\<lparr> wk := Sweeping [] \<rparr>)"
    using sweep [of "closing_machine\<lparr> wk := Exiting \<rparr>" "[]" "cl closing_machine" reg]
    by (simp add: closing_machine_def answered_machine_def take_all_def new_client_def)
  have "execution reg (Suc (Suc 0)) closing_machine (closing_machine\<lparr> wk := Sweeping [] \<rparr>)"
    using execution_worker [OF execution_worker [OF execution_refl 1] 2] .
  then show ?thesis by (simp add: eval_nat_numeral)
qed

section \<open>Properties\<close>

text \<open>
  C20: once a promise has its outcome nothing changes it, whatever the threads do afterwards: no
  response, failed send, replaced id or final sweep settles a promise twice.
\<close>

theorem promise_settled_once:
  assumes "reachable reg m" and "execution reg n m m'"
    and "p < length (promises (cl m))" and "promises (cl m) ! p \<noteq> Unset"
  shows "p < length (promises (cl m')) \<and> promises (cl m') ! p = promises (cl m) ! p"
  using kept_execution [OF assms(2)] reachable_ok [OF assms(1)] assms(3,4)
  by (auto simp: promises_kept_def)

theorem promise_settled_once_witness:
  "promises (cl closing_machine) ! 0 = promises (cl answered_machine) ! 0"
  using promise_settled_once [of "[]" answered_machine 0 closing_machine 0]
    answered_run [of "[]"] idle_new execution_caller [OF execution_refl clear_running]
  by (fastforce simp: reachable_def closing_machine_def answered_machine_def)



text \<open>
  C8: no caller waits forever: once \<open>running_\<close> is false, in every interleaving with the other
  threads the worker takes at most \<open>todo\<close> more steps (at most five and one per pending request), it
  can always take one until it has stopped, and when it has stopped every promise has its outcome,
  also those of requests made in the meantime.
\<close>

theorem no_promise_forgotten:
  assumes "reachable reg m" and "\<not> running (cl m)" and "execution reg n m m'"
  shows "n \<le> todo m \<and> todo m \<le> 5 + length (pending (cl m)) + length (held (wk m)) \<and>
    (if wk m' = Stopped then \<forall>p < length (promises (cl m')). promises (cl m') ! p \<noteq> Unset
     else n < todo m \<and> (\<exists>m''. worker_step reg m' m''))"
proof -
  have ok: "threads_ok m" "holding_ok m" using reachable_ok [OF assms(1)] by auto
  have m': "threads_ok m'" using execution_ok [OF assms(3)] ok by blast
  have left: "n + todo m' \<le> todo m" using execution_todo [OF assms(3,2)] ok by blast
  have bound: "todo m \<le> 5 + length (pending (cl m)) + length (held (wk m))" by (auto split: worker.split)
  have "wk m' = Stopped \<Longrightarrow> \<forall>p < length (promises (cl m')). promises (cl m') ! p \<noteq> Unset"
    using m' by (auto simp: threads_ok_def owned_def unset_at_def)
  moreover have "wk m' \<noteq> Stopped \<Longrightarrow> 0 < todo m'" by (auto split: worker.split)
  ultimately show ?thesis using left bound worker_progress [of m' reg] by auto
qed

theorem no_promise_forgotten_witness:
  "(2::nat) \<le> todo closing_machine \<and> todo closing_machine \<le> 5 \<and>
    2 < todo closing_machine \<and> (\<exists>m''. worker_step [] (closing_machine\<lparr> wk := Sweeping [] \<rparr>) m'')"
  using no_promise_forgotten [of "[]" closing_machine 2 "closing_machine\<lparr> wk := Sweeping [] \<rparr>"]
    closing_run [of "[]"] closing_more [of "[]"] idle_new
  by (force simp: reachable_def closing_machine_def answered_machine_def new_client_def)

text \<open>A stopped session leaves the client as the next one needs it.\<close>

lemma stopped_idle: "reachable reg m \<Longrightarrow> wk m = Stopped \<Longrightarrow> idle_client (cl m) \<and> \<not> running (cl m)"
  using reachable_ok [of reg m]
  by (auto simp: threads_ok_def idle_client_def owned_def unset_at_def in_set_conv_nth)

end
