(* ===== verification/Client_Events.thy ===== *)
theory Client_Events
  imports Rmi_Client
begin

text \<open>
  The event thread of the client: \<open>event_loop\<close>, the end of \<open>process_frame\<close> and of \<open>disconnect\<close> in
  \<open>src/rmi/client/client.cpp\<close>, over the condition variable of \<open>bison::synchronized::wait\<close>. It meets the
  other threads only in the event queue and in \<open>running_\<close>.
\<close>

section \<open>The threads around the queue\<close>

type_synonym event_task = "nat \<times> dvalue smap"

text \<open>
  Where the event thread is: before \<open>wait\<close>'s predicate, holding the queue's mutex with the predicate
  found false, blocked on the condition variable, past the wait, running a handler, or finished.
\<close>

datatype event_thread = Checking | Unready | Blocked | Popping | Handling event_task | Ended

text \<open>
  \<open>wakeups\<close> counts the calls of \<open>notify_one\<close> still to come from threads that have already changed what
  the predicate reads; \<open>worker_done\<close> holds when the worker has left its loop. \<open>queued\<close> and \<open>handled\<close>
  record the history.
\<close>

record event_machine =
  queue :: "event_task list"
  live :: bool
  et :: event_thread
  wakeups :: nat
  worker_done :: bool
  queued :: "event_task list"
  handled :: "event_task list"

definition event_start :: event_machine where
  "event_start = \<lparr> queue = [], live = True, et = Checking, wakeups = 0, worker_done = False, queued = [], handled = [] \<rparr>"

text \<open>
  The predicate is evaluated and the thread blocks under the mutex, so nothing is pushed between the
  two; \<open>disconnect\<close> and a lost connection clear \<open>running_\<close> and notify without it. A blocked thread is
  woken by \<open>notify_one\<close> only (the spurious wake-ups an implementation may add are left out).
\<close>

inductive event_step :: "event_machine \<Rightarrow> event_machine \<Rightarrow> bool" where
  predicate_holds: "et m = Checking \<Longrightarrow> queue m \<noteq> [] \<or> \<not> live m \<Longrightarrow> event_step m (m\<lparr> et := Popping \<rparr>)"
| predicate_fails: "et m = Checking \<Longrightarrow> queue m = [] \<Longrightarrow> live m \<Longrightarrow> event_step m (m\<lparr> et := Unready \<rparr>)"
| blocks: "et m = Unready \<Longrightarrow> event_step m (m\<lparr> et := Blocked \<rparr>)"
| pop: "et m = Popping \<Longrightarrow> queue m = t # q \<Longrightarrow> event_step m (m\<lparr> queue := q, et := Handling t \<rparr>)"
| no_task: "et m = Popping \<Longrightarrow> queue m = [] \<Longrightarrow> event_step m (m\<lparr> et := Ended \<rparr>)"
| handler_returns: "et m = Handling t \<Longrightarrow> event_step m (m\<lparr> et := Checking, handled := handled m @ [t] \<rparr>)"
| push: "\<not> worker_done m \<Longrightarrow> et m \<noteq> Unready \<Longrightarrow>
     event_step m (m\<lparr> queue := queue m @ [t], queued := queued m @ [t], wakeups := Suc (wakeups m) \<rparr>)"
| disconnect_stops: "live m \<Longrightarrow> event_step m (m\<lparr> live := False, wakeups := Suc (wakeups m) \<rparr>)"
| notify: "wakeups m = Suc n \<Longrightarrow>
     event_step m (m\<lparr> wakeups := n, et := (if et m = Blocked then Checking else et m) \<rparr>)"
| worker_leaves: "\<not> live m \<Longrightarrow> event_step m (m\<lparr> worker_done := True \<rparr>)"

abbreviation event_steps :: "event_machine \<Rightarrow> event_machine \<Rightarrow> bool" where
  "event_steps \<equiv> event_step\<^sup>*\<^sup>*"

lemmas event_step_intros = event_step.intros
inductive_cases event_stepE: "event_step m m'"

fun in_hand :: "event_thread \<Rightarrow> event_task list" where
  "in_hand (Handling t) = [t]"
| "in_hand _ = []"

section \<open>Properties\<close>

definition history_kept :: "event_machine \<Rightarrow> bool" where
  "history_kept m \<longleftrightarrow> handled m @ in_hand (et m) @ queue m = queued m"

lemma history_kept_step: "event_step m m' \<Longrightarrow> history_kept m \<Longrightarrow> history_kept m'"
  by (elim event_stepE) (auto simp: history_kept_def)

text \<open>
  Events are handled one at a time, in the order in which they were queued, each at most once:
  at every moment the handled events, the one being handled and those still queued are exactly the
  queued ones in order; at most one handler runs.
\<close>

theorem events_handled_in_order:
  assumes "event_steps event_start m"
  shows "handled m @ in_hand (et m) @ queue m = queued m"
proof -
  have "history_kept m"
    using assms
  proof (induction rule: rtranclp_induct)
    case base
    then show ?case by (simp add: history_kept_def event_start_def)
  next
    case (step m' m'')
    then show ?case using history_kept_step by blast
  qed
  then show ?thesis by (simp add: history_kept_def)
qed

theorem events_handled_in_order_witness:
  "let t = (1, dyn_new 0 []); m = event_start\<lparr> wakeups := 1, queue := [t], queued := [t], et := Popping \<rparr>
   in handled m @ in_hand (et m) @ queue m = queued m"
proof -
  let ?t = "(1, dyn_new 0 [])"
  let ?a = "event_start\<lparr> wakeups := 1, queue := [?t], queued := [?t] \<rparr>"
  have 1: "event_step event_start ?a"
    using push [of event_start ?t] by (simp add: event_start_def)
  have 2: "event_step ?a (?a\<lparr> et := Popping \<rparr>)"
    by (rule predicate_holds) (simp_all add: event_start_def)
  have "event_steps event_start (?a\<lparr> et := Popping \<rparr>)" 
    by (rule converse_rtranclp_into_rtranclp [of event_step, OF 1]) (rule r_into_rtranclp [of event_step, OF 2])
  from events_handled_in_order [OF this] show ?thesis by (simp add: Let_def)
qed

text \<open>
  The other end of an \<open>event_loop\<close> in which the worker queues an event after the event thread has
  seen \<open>running_\<close> false: the event stays in the queue when both threads are gone.
\<close>

lemma late_event_stays:
  "\<exists>m. event_steps event_start m \<and> et m = Ended \<and> worker_done m \<and> queue m \<noteq> []"
proof -
  let ?t = "(1, dyn_new 0 [])"
  let ?a = "event_start\<lparr> live := False, wakeups := 1 \<rparr>"
  let ?b = "?a\<lparr> et := Popping \<rparr>" and ?c = "?a\<lparr> et := Ended \<rparr>"
  let ?d = "?c\<lparr> queue := [?t], queued := [?t], wakeups := Suc (Suc 0) \<rparr>"
  have "event_step event_start ?a" using disconnect_stops [of event_start] by (simp add: event_start_def)
  moreover have "event_step ?a ?b" by (rule predicate_holds) (simp_all add: event_start_def)
  moreover have "event_step ?b ?c" using no_task [of ?b] by (simp add: event_start_def)
  moreover have "event_step ?c ?d" using push [of ?c ?t] by (simp add: event_start_def)
  moreover have "event_step ?d (?d\<lparr> worker_done := True \<rparr>)" by (rule worker_leaves) simp
  ultimately have "event_steps event_start (?d\<lparr> worker_done := True \<rparr>)"
    by (meson converse_rtranclp_into_rtranclp rtranclp.rtrancl_refl)
  moreover have "queue (?d\<lparr> worker_done := True \<rparr>) \<noteq> []" "et (?d\<lparr> worker_done := True \<rparr>) = Ended"
    "worker_done (?d\<lparr> worker_done := True \<rparr>)" by simp_all
  ultimately show ?thesis by blast
qed

text \<open>
  The wake-up of \<open>disconnect\<close> can be lost: there is an execution in which \<open>running_\<close> is false, its
  notification has been made and the worker is finished, and the event thread is blocked with no step
  of any thread left to wake it. The join of \<open>event_thread_\<close> in \<open>disconnect\<close> does not return.
\<close>

theorem disconnect_wakeup_lost:
  "\<exists>m. event_steps event_start m \<and> \<not> live m \<and> wakeups m = 0 \<and> worker_done m \<and> et m = Blocked \<and>
     (\<nexists>m'. event_step m m' \<and> m' \<noteq> m)"
proof -
  let ?a = "event_start\<lparr> et := Unready \<rparr>"
  let ?b = "?a\<lparr> live := False, wakeups := 1 \<rparr>"
  let ?c = "?a\<lparr> live := False, wakeups := 0 \<rparr>"
  let ?d = "?c\<lparr> et := Blocked \<rparr>"
  let ?e = "?d\<lparr> worker_done := True \<rparr>"
  have "event_step event_start ?a" by (rule predicate_fails) (simp_all add: event_start_def)
  moreover have "event_step ?a ?b" using disconnect_stops [of ?a] by (simp add: event_start_def)
  moreover have "event_step ?b ?c" using notify [of ?b 0] by (simp add: event_start_def)
  moreover have "event_step ?c ?d" by (rule blocks) simp
  moreover have "event_step ?d ?e" by (rule worker_leaves) simp
  ultimately have "event_steps event_start ?e"
    by (meson converse_rtranclp_into_rtranclp rtranclp.rtrancl_refl)
  moreover have "m' = ?e" if "event_step ?e m'" for m'
    using that by cases (simp_all add: event_start_def)
  moreover have "\<not> live ?e" "wakeups ?e = 0" "worker_done ?e" "et ?e = Blocked"
    by (simp_all add: event_start_def)
  ultimately show ?thesis by blast
qed

end
