(* ===== verification/Standalone.thy ===== *)
theory Standalone
  imports Rmi_Server Rmi_Client
begin

text \<open>
  The standalone runtime, \<open>src/rmi/standalone/standalone.cpp\<close>: the server's operations on one session
  inside the process, without envelopes. An operation returns its response object or throws; the
  worker thread turns either into the outcome of the caller's future.
\<close>

section \<open>State\<close>

text \<open>
  The session and what its methods reach, the event handlers, and the handler calls made so far. The
  unordered maps are listed in key order.
\<close>

record standalone =
  sa_world :: world
  sa_handlers :: "nat smap smap"
  sa_delivered :: "(nat \<times> dvalue smap) list"

type_synonym 'a sta = "standalone \<Rightarrow> 'a result \<times> standalone"

definition retT :: "'a \<Rightarrow> 'a sta" where
  "retT x s = (Inr x, s)"

definition throwT :: "exc \<Rightarrow> 'a sta" where
  "throwT e s = (Inl e, s)"

definition bindT :: "'a sta \<Rightarrow> ('a \<Rightarrow> 'b sta) \<Rightarrow> 'b sta" where
  "bindT m f s = (case m s of (Inl e, s') \<Rightarrow> (Inl e, s') | (Inr x, s') \<Rightarrow> f x s')"

definition catchT :: "'a sta \<Rightarrow> 'a sta \<Rightarrow> 'a sta" where
  "catchT m h s = (case m s of (Inl e, s') \<Rightarrow> (if e = Fuel_exhausted then (Inl e, s') else h s') | (Inr x, s') \<Rightarrow> (Inr x, s'))"

definition liftT :: "'a action \<Rightarrow> 'a sta" where
  "liftT m s = (case m (w_store (sa_world s)) of (r, st) \<Rightarrow> (r, s\<lparr> sa_world := (sa_world s)\<lparr> w_store := st \<rparr> \<rparr>))"

definition ctxT :: "(session_context \<Rightarrow> session_context) \<Rightarrow> unit sta" where
  "ctxT f s = (Inr (), s\<lparr> sa_world := (sa_world s)\<lparr> w_ctx := f (w_ctx (sa_world s)) \<rparr> \<rparr>)"

definition idT :: "hash_t sta" where
  "idT s = (case generate_id (w_ids (sa_world s)) of (i, ids) \<Rightarrow> (Inr i, s\<lparr> sa_world := (sa_world s)\<lparr> w_ids := ids \<rparr> \<rparr>))"

section \<open>Events and method calls\<close>

text \<open>\<open>emit_event\<close>: the handler of the object and the name, if any; what it throws is discarded.\<close>

definition deliver :: "hash_t \<times> hash_t \<times> dvalue smap \<Rightarrow> standalone \<Rightarrow> standalone" where
  "deliver ev s =
     (case map_of (sa_handlers s) (fst ev) of
        None \<Rightarrow> s
      | Some hs \<Rightarrow> (case map_of hs (fst (snd ev)) of
            None \<Rightarrow> s
          | Some h \<Rightarrow> s\<lparr> sa_delivered := sa_delivered s @ [(h, snd (snd ev))] \<rparr>))"

definition sa_register_event_handler :: "hash_t \<Rightarrow> hash_t \<Rightarrow> nat \<Rightarrow> standalone \<Rightarrow> standalone" where
  "sa_register_event_handler oid name h s =
     s\<lparr> sa_handlers := map_put oid (map_put name h (case map_of (sa_handlers s) oid of Some hs \<Rightarrow> hs | None \<Rightarrow> [])) (sa_handlers s) \<rparr>"

definition sa_unregister_object_events :: "hash_t \<Rightarrow> standalone \<Rightarrow> standalone" where
  "sa_unregister_object_events oid s = s\<lparr> sa_handlers := map_erase oid (sa_handlers s) \<rparr>"

definition callT :: "app \<Rightarrow> addr \<Rightarrow> hash_t \<Rightarrow> addr \<Rightarrow> addr sta" where
  "callT app self name params =
     bindT (liftT (resolve_call self name params)) (\<lambda>(m, p) s.
       case a_invoke app m self p (sa_world s) of
         (r, w, evs) \<Rightarrow> (r, fold deliver evs (s\<lparr> sa_world := w \<rparr>)))"

definition has_methodT :: "addr \<Rightarrow> hash_t \<Rightarrow> bool sta" where
  "has_methodT a name = bindT (liftT (find_method a name)) (\<lambda>m. retT (m \<noteq> None))"

definition emptyT :: "addr sta" where
  "emptyT = liftT (new_dynamic 0 [])"

definition run_hookT :: "app \<Rightarrow> addr \<Rightarrow> hash_t \<Rightarrow> unit sta" where
  "run_hookT app a hook =
     bindT (has_methodT a hook) (\<lambda>b.
       if b then catchT (bindT emptyT (\<lambda>params. bindT (callT app a hook params) (\<lambda>_. retT ()))) (retT ()) else retT ())"

definition with_objectT :: "hash_t \<Rightarrow> (addr \<Rightarrow> 'a sta) \<Rightarrow> 'a sta" where
  "with_objectT oid f s =
     (case map_of (objects (w_ctx (sa_world s))) oid of
        None \<Rightarrow> (Inl (App_error ''Object not found''), s)
      | Some a \<Rightarrow> f a s)"

section \<open>Operations\<close>

text \<open>\<open>handle_describe\<close> looks in one namespace only.\<close>

definition sa_describe :: "hash_t \<Rightarrow> hash_t \<Rightarrow> addr action" where
  "sa_describe ns klass =
     bindA (new_dynamic 0 []) (\<lambda>resp s.
       case map_of (registry s) ns of
         None \<Rightarrow> if klass = 0 then (Inr resp, s) else (Inl (App_error ''Class not found''), s)
       | Some classes \<Rightarrow>
           if klass = 0 then
             bindA (describe_all resp 0 (filter (\<lambda>(k, _). k \<noteq> CLASS_ENVELOPE) classes)) (\<lambda>_. retA resp) s
           else (case map_of classes klass of
               None \<Rightarrow> (Inl (App_error ''Class not found''), s)
             | Some proto \<Rightarrow> bindA (describe_class resp klass proto) (\<lambda>_. retA resp) s))"

text \<open>
  The new object is in the table before its constructor runs. A factory that returns a null pointer
  is dereferenced (\<open>Null_pointer\<close>, undefined in the code).
\<close>

definition sa_instantiate :: "app \<Rightarrow> hash_t \<Rightarrow> hash_t \<Rightarrow> addr \<Rightarrow> addr sta" where
  "sa_instantiate app ns klass params s =
     (if \<not> check_class ns klass (w_store (sa_world s))
      then throwT (App_error (''Class not registered in requested namespace: '' @ nat_digits (unat klass)))
      else bindT idT (\<lambda>oid.
           bindT (liftT (create_object (a_factory app) ns klass)) (\<lambda>created. case created of
             None \<Rightarrow> throwT Null_pointer
           | Some obj \<Rightarrow>
               bindT (ctxT (\<lambda>c. c\<lparr> objects := map_put oid obj (objects c) \<rparr>)) (\<lambda>_.
               bindT (has_methodT obj HOOK_CONSTRUCT) (\<lambda>hook.
               bindT (if hook then bindT (callT app obj HOOK_CONSTRUCT params) (\<lambda>_. retT ()) else retT ()) (\<lambda>_.
               bindT emptyT (\<lambda>resp.
               bindT (liftT (assign_key resp FIELD_OBJECT_ID (KeyV oid))) (\<lambda>_.
               bindT (liftT (assign_key resp FIELD_KLASS (KeyV klass))) (\<lambda>_. retT resp))))))))) s"

definition sa_clear :: "app \<Rightarrow> hash_t \<Rightarrow> addr sta" where
  "sa_clear app oid =
     with_objectT oid (\<lambda>a.
       bindT (liftT (reset_object a)) (\<lambda>_.
       bindT (run_hookT app a HOOK_CLEAR) (\<lambda>_. emptyT)))"

definition sa_set :: "app \<Rightarrow> hash_t \<Rightarrow> addr \<Rightarrow> addr sta" where
  "sa_set app oid payload =
     with_objectT oid (\<lambda>obj.
       bindT (liftT (clone_ptr payload)) (\<lambda>patch.
       bindT (has_methodT obj HOOK_SETTER) (\<lambda>hook.
       bindT (if hook then callT app obj HOOK_SETTER patch else retT patch) (\<lambda>patched.
       bindT (liftT (apply_patch obj patched)) (\<lambda>_. emptyT)))))"

definition sa_get :: "app \<Rightarrow> hash_t \<Rightarrow> addr \<Rightarrow> addr sta" where
  "sa_get app oid p =
     with_objectT oid (\<lambda>obj.
       bindT (\<lambda>s. let ks = filter projected_key (map fst (fields_of (w_store (sa_world s)) p))
                   in liftT (if ks = [] then clone_ptr obj else project obj ks) s) (\<lambda>result.
       bindT (has_methodT obj HOOK_GETTER) (\<lambda>hook.
       if hook then catchT (callT app obj HOOK_GETTER result) (retT result) else retT result)))"

definition sa_call :: "app \<Rightarrow> hash_t \<Rightarrow> addr \<Rightarrow> bool \<Rightarrow> addr sta" where
  "sa_call app oid p oneway =
     with_objectT oid (\<lambda>obj.
       bindT (liftT (read_key_token p FIELD_NAME)) (\<lambda>name.
       bindT (liftT (params_of p)) (\<lambda>args.
       bindT (callT app obj name args) (\<lambda>res.
         if oneway then emptyT else retT res))))"

definition sa_destroy :: "app \<Rightarrow> hash_t \<Rightarrow> addr sta" where
  "sa_destroy app oid =
     bindT (with_objectT oid (\<lambda>a.
       bindT (run_hookT app a HOOK_DESTRUCT) (\<lambda>_. ctxT (erase_object oid)))) (\<lambda>_.
     bindT (\<lambda>s. (Inr (), sa_unregister_object_events oid s)) (\<lambda>_. emptyT))"

definition sa_dictionary :: "addr sta" where
  "sa_dictionary = liftT dictionary"

definition sa_help :: "addr sta" where
  "sa_help = liftT (help_response [])"

text \<open>\<open>send_request\<close>.\<close>

definition sa_request :: "app \<Rightarrow> hash_t \<Rightarrow> hash_t \<Rightarrow> addr \<Rightarrow> bool \<Rightarrow> addr sta" where
  "sa_request app op oid p oneway =
     (if op = OP_CLEAR then sa_clear app oid
      else if op = OP_SET then sa_set app oid p
      else if op = OP_GET then sa_get app oid p
      else if op = OP_CALL then sa_call app oid p oneway
      else if op = OP_DESTROY then sa_destroy app oid
      else throwT (App_error ''Unsupported operation in standalone mode''))"

text \<open>The destructor after the worker is joined.\<close>

fun eachT :: "('x \<Rightarrow> unit sta) \<Rightarrow> 'x list \<Rightarrow> unit sta" where
  "eachT f [] = retT ()"
| "eachT f (x # xs) = bindT (f x) (\<lambda>_. eachT f xs)"

definition sa_cleanup :: "app \<Rightarrow> unit sta" where
  "sa_cleanup app s =
     bindT (eachT (\<lambda>(oid, a). run_hookT app a HOOK_DESTRUCT) (objects (w_ctx (sa_world s)))) (\<lambda>_.
       ctxT (\<lambda>c. c\<lparr> objects := [] \<rparr>)) s"

section \<open>A constructor that throws\<close>

text \<open>
  The caller gets the exception and no id, but the half-built object stays in the table (the server
  files an object only after its constructor has returned).
\<close>

lemma failed_constructor_stays:
  assumes "check_class ns klass (w_store (sa_world t))" and "idT t = (Inr oid, t1)"
    and "liftT (create_object (a_factory app) ns klass) t1 = (Inr (Some obj), t2)"
    and "ctxT (\<lambda>c. c\<lparr> objects := map_put oid obj (objects c) \<rparr>) t2 = (Inr (), t3)"
    and "has_methodT obj HOOK_CONSTRUCT t3 = (Inr True, t4)"
    and "callT app obj HOOK_CONSTRUCT params t4 = (Inl e, t5)"
    and "w_ctx (sa_world t5) = w_ctx (sa_world t4)"
  shows "sa_instantiate app ns klass params t = (Inl e, t5) \<and> map_of (objects (w_ctx (sa_world t5))) oid = Some obj"
proof -
  have "w_ctx (sa_world t4) = w_ctx (sa_world t3)"
    using assms(5) by (auto simp: has_methodT_def bindT_def liftT_def retT_def split: prod.splits sum.splits)
  moreover have "map_of (objects (w_ctx (sa_world t3))) oid = Some obj"
    using assms(4) by (auto simp: ctxT_def)
  ultimately show ?thesis using assms by (simp add: sa_instantiate_def bindT_def)
qed

end
