(* ===== verification/Standalone_Server.thy ===== *)
theory Standalone_Server
  imports Standalone
begin

text \<open>
  The standalone runtime against the server: run side by side on the same world, an operation of the
  one and the handler of the other do the same to it.
\<close>

section \<open>Running side by side\<close>

text \<open>
  Two actions agree when from equal worlds they reach equal worlds with equal results, and the
  server's action leaves the connection alone.
\<close>

named_theorems agree_intros \<open>actions that agree\<close>

definition agree :: "'a saction \<Rightarrow> 'a sta \<Rightarrow> bool" where
  "agree m mt \<longleftrightarrow> (\<forall>s t r s' r' t'. world s = sa_world t \<longrightarrow> m s = (r, s') \<longrightarrow> mt t = (r', t') \<longrightarrow>
     r = r' \<and> world s' = sa_world t' \<and> sent s' = sent s \<and> attempts s' = attempts s \<and> conn_closed s' = conn_closed s)"

lemma agree_runD:
  "agree m mt \<Longrightarrow> world s = sa_world t \<Longrightarrow> m s = (r, s') \<Longrightarrow> mt t = (r', t') \<Longrightarrow>
     r = r' \<and> world s' = sa_world t' \<and> sent s' = sent s \<and> attempts s' = attempts s \<and> conn_closed s' = conn_closed s"
  unfolding agree_def by blast

lemma agree_ret [agree_intros]: "agree (retS x) (retT x)"
  by (simp add: agree_def retS_def retT_def)

lemma agree_lift [agree_intros]: "agree (liftS m) (liftT m)"
  by (auto simp: agree_def liftS_def liftT_def split: prod.splits)

lemma agree_ctx [agree_intros]: "agree (update_ctx f) (ctxT f)"
  by (auto simp: agree_def update_ctx_def ctxT_def)

lemma agree_bind [agree_intros]:
  assumes "agree m mt" "\<And>x. agree (f x) (ft x)"
  shows "agree (bindS m f) (bindT mt ft)"
  unfolding agree_def
proof (intro allI impI)
  fix s t r s' r' t'
  assume w: "world s = sa_world t" and run: "bindS m f s = (r, s')" "bindT mt ft t = (r', t')"
  obtain r1 s1 where 1: "m s = (r1, s1)" by fastforce
  obtain r2 t1 where 2: "mt t = (r2, t1)" by fastforce
  note eqs = agree_runD [OF assms(1) w 1 2]
  show "r = r' \<and> world s' = sa_world t' \<and> sent s' = sent s \<and> attempts s' = attempts s \<and> conn_closed s' = conn_closed s"
  proof (cases r1)
    case (Inl e)
    then show ?thesis using eqs run by (auto simp: bindS_def bindT_def 1 2)
  next
    case (Inr x)
    then have "f x s1 = (r, s')" "ft x t1 = (r', t')"
      using eqs run by (auto simp: bindS_def bindT_def 1 2)
    then show ?thesis using agree_runD [OF assms(2)] eqs by metis
  qed
qed

lemma agree_catch [agree_intros]:
  assumes "agree m mt" "agree h ht"
  shows "agree (catchS m (\<lambda>_. h)) (catchT mt ht)"
  unfolding agree_def
proof (intro allI impI)
  fix s t r s' r' t'
  assume w: "world s = sa_world t" and run: "catchS m (\<lambda>_. h) s = (r, s')" "catchT mt ht t = (r', t')"
  obtain r1 s1 where 1: "m s = (r1, s1)" by fastforce
  obtain r2 t1 where 2: "mt t = (r2, t1)" by fastforce
  note eqs = agree_runD [OF assms(1) w 1 2]
  show "r = r' \<and> world s' = sa_world t' \<and> sent s' = sent s \<and> attempts s' = attempts s \<and> conn_closed s' = conn_closed s"
  proof (cases "\<exists>e. r1 = Inl e \<and> e \<noteq> Fuel_exhausted")
    case True
    then have "h s1 = (r, s')" "ht t1 = (r', t')"
      using eqs run by (auto simp: catchS_def catchT_def 1 2)
    then show ?thesis using agree_runD [OF assms(2)] eqs by metis
  next
    case False
    then show ?thesis using eqs run by (auto simp: catchS_def catchT_def 1 2 split: sum.splits if_splits)
  qed
qed

lemma agree_if [agree_intros]:
  "agree m mt \<Longrightarrow> agree n nt \<Longrightarrow> agree (if b then m else n) (if b then mt else nt)"
  by simp

text \<open>Methods that emit no events.\<close>

definition silent :: "app \<Rightarrow> bool" where
  "silent app \<longleftrightarrow> (\<forall>m a p w. snd (snd (a_invoke app m a p w)) = [])"

lemma agree_call:
  assumes "silent app"
  shows "agree (call_method app self name params) (callT app self name params)"
  unfolding call_method_def callT_def
proof (rule agree_bind [OF agree_lift])
  fix x :: "meth \<times> addr"
  obtain m p where x: "x = (m, p)" by fastforce
  have none: "a_invoke app m self p w = (fst (a_invoke app m self p w), fst (snd (a_invoke app m self p w)), [])" for w
    using assms by (metis prod.collapse silent_def)
  show "agree ((\<lambda>(m, p) s. case a_invoke app m self p (world s) of
      (r, w, evs) \<Rightarrow> (case eachS (\<lambda>ev. swallow (emit_event app ev)) evs (s\<lparr> world := w \<rparr>) of
          (Inl e, s') \<Rightarrow> (Inl e, s') | (Inr _, s') \<Rightarrow> (r, s'))) x)
    ((\<lambda>(m, p) s. case a_invoke app m self p (sa_world s) of
      (r, w, evs) \<Rightarrow> (r, fold deliver evs (s\<lparr> sa_world := w \<rparr>))) x)"
    unfolding x prod.case
    by (subst (1 2) none) (simp add: agree_def retS_def)
qed

lemma agree_has_method [agree_intros]: "agree (has_method a k) (has_methodT a k)"
  unfolding has_method_def has_methodT_def by (intro agree_intros)

lemma agree_empty [agree_intros]: "agree empty_object emptyT"
  unfolding empty_object_def emptyT_def by (rule agree_lift)

lemma agree_hook:
  assumes "silent app"
  shows "agree (run_hook app a hook) (run_hookT app a hook)"
proof -
  have swallow: "swallow (bindS empty_object (\<lambda>params. call_method app a hook params)) =
      catchS (bindS empty_object (\<lambda>params. bindS (call_method app a hook params) (\<lambda>_. retS ()))) (\<lambda>_. retS ())"
    unfolding swallow_def by (rule arg_cong [of _ _ "\<lambda>m. catchS m (\<lambda>_. retS ())"])
      (auto simp: fun_eq_iff bindS_def split: prod.splits sum.splits)
  show ?thesis unfolding run_hook_def run_hookT_def swallow
    by (intro agree_intros agree_call [OF assms])
qed

section \<open>The operations agree\<close>

lemma bindS_assoc: "bindS (bindS m f) g = bindS m (\<lambda>x. bindS (f x) g)"
  by (auto simp: fun_eq_iff bindS_def split: prod.splits sum.splits)

lemma bindS_ret: "bindS m retS = m" "bindS (retS x) f = f x"
  by (auto simp: fun_eq_iff bindS_def retS_def split: prod.splits sum.splits)

definition clear_core :: "app \<Rightarrow> addr \<Rightarrow> addr saction" where
  "clear_core app a = bindS (liftS (reset_object a)) (\<lambda>_. bindS (run_hook app a HOOK_CLEAR) (\<lambda>_. empty_object))"

definition get_core :: "app \<Rightarrow> addr \<Rightarrow> addr \<Rightarrow> addr saction" where
  "get_core app p obj =
     bindS (\<lambda>s. let ks = filter projected_key (map fst (fields_of (store_in s) p))
                 in liftS (if ks = [] then clone_ptr obj else project obj ks) s) (\<lambda>result.
     bindS (has_method obj HOOK_GETTER) (\<lambda>hook.
     if hook then catchS (call_method app obj HOOK_GETTER result) (\<lambda>_. retS result) else retS result))"

definition destroy_core :: "app \<Rightarrow> hash_t \<Rightarrow> addr \<Rightarrow> addr saction" where
  "destroy_core app oid a =
     bindS (bindS (run_hook app a HOOK_DESTRUCT) (\<lambda>_. update_ctx (erase_object oid))) (\<lambda>_.
     bindS (retS ()) (\<lambda>_. empty_object))"

definition call_core :: "app \<Rightarrow> addr \<Rightarrow> addr \<Rightarrow> addr saction" where
  "call_core app p obj =
     bindS (liftS (read_key_token p FIELD_NAME)) (\<lambda>name.
     bindS (liftS (params_of p)) (\<lambda>args. call_method app obj name args))"

lemma handlers_by_core:
  "handle_clear app rq p = with_object app rq OP_CLEAR (\<lambda>a. bindS (clear_core app a) (send_response app rq OP_CLEAR))"
  "handle_get app rq p = with_object app rq OP_GET (\<lambda>a. bindS (get_core app p a) (send_response app rq OP_GET))"
  "handle_destroy app rq p =
     with_object app rq OP_DESTROY (\<lambda>a. bindS (destroy_core app (env_object_id rq) a) (send_response app rq OP_DESTROY))"
  by (simp_all add: handle_clear_def handle_get_def handle_destroy_def clear_core_def get_core_def destroy_core_def
      respond_empty_def bindS_assoc bindS_ret)

lemma agree_state:
  assumes "\<And>w. agree (f w) (ft w)"
  shows "agree (\<lambda>s. f (world s) s) (\<lambda>t. ft (sa_world t) t)"
  using assms unfolding agree_def by metis

lemma agree_cores:
  assumes "silent app"
  shows "agree (clear_core app a)
      (bindT (liftT (reset_object a)) (\<lambda>_. bindT (run_hookT app a HOOK_CLEAR) (\<lambda>_. emptyT)))"
    and "agree (get_core app p a)
      (bindT (\<lambda>s. let ks = filter projected_key (map fst (fields_of (w_store (sa_world s)) p))
                   in liftT (if ks = [] then clone_ptr a else project a ks) s) (\<lambda>result.
       bindT (has_methodT a HOOK_GETTER) (\<lambda>hook.
       if hook then catchT (callT app a HOOK_GETTER result) (retT result) else retT result)))"
    and "agree (destroy_core app oid a)
      (bindT (bindT (run_hookT app a HOOK_DESTRUCT) (\<lambda>_. ctxT (erase_object oid))) (\<lambda>_.
       bindT (\<lambda>s. (Inr (), sa_unregister_object_events oid s)) (\<lambda>_. emptyT)))"
    and "agree (call_core app p a)
      (bindT (liftT (read_key_token p FIELD_NAME)) (\<lambda>name.
       bindT (liftT (params_of p)) (\<lambda>args. callT app a name args)))"
proof -
  note hook = agree_hook [OF assms] and call = agree_call [OF assms]
  show "agree (clear_core app a)
      (bindT (liftT (reset_object a)) (\<lambda>_. bindT (run_hookT app a HOOK_CLEAR) (\<lambda>_. emptyT)))"
    unfolding clear_core_def by (intro agree_intros hook)
  have "agree (\<lambda>s. let ks = filter projected_key (map fst (fields_of (store_in s) p))
             in liftS (if ks = [] then clone_ptr a else project a ks) s)
       (\<lambda>s. let ks = filter projected_key (map fst (fields_of (w_store (sa_world s)) p))
             in liftT (if ks = [] then clone_ptr a else project a ks) s)"
    using agree_state [where f = "\<lambda>w. liftS (if filter projected_key (map fst (fields_of (w_store w) p)) = []
        then clone_ptr a else project a (filter projected_key (map fst (fields_of (w_store w) p))))", OF agree_lift]
    by (simp add: Let_def)
  then show "agree (get_core app p a)
      (bindT (\<lambda>s. let ks = filter projected_key (map fst (fields_of (w_store (sa_world s)) p))
                   in liftT (if ks = [] then clone_ptr a else project a ks) s) (\<lambda>result.
       bindT (has_methodT a HOOK_GETTER) (\<lambda>hook.
       if hook then catchT (callT app a HOOK_GETTER result) (retT result) else retT result)))"
    unfolding get_core_def by (intro agree_intros call)
  have "agree (retS ()) (\<lambda>s. (Inr (), sa_unregister_object_events oid s))"
    by (simp add: agree_def retS_def sa_unregister_object_events_def)
  then show "agree (destroy_core app oid a)
      (bindT (bindT (run_hookT app a HOOK_DESTRUCT) (\<lambda>_. ctxT (erase_object oid))) (\<lambda>_.
       bindT (\<lambda>s. (Inr (), sa_unregister_object_events oid s)) (\<lambda>_. emptyT)))"
    unfolding destroy_core_def by (intro agree_intros hook)
  show "agree (call_core app p a)
      (bindT (liftT (read_key_token p FIELD_NAME)) (\<lambda>name.
       bindT (liftT (params_of p)) (\<lambda>args. callT app a name args)))"
    unfolding call_core_def by (intro agree_intros call)
qed

section \<open>The property\<close>

definition response_with :: "envelope \<Rightarrow> hash_t \<Rightarrow> dvalue smap \<Rightarrow> envelope" where
  "response_with rq op m = (response_to rq op)\<lparr> env_payload := m \<rparr>"

lemma send_response_ok:
  assumes "\<forall>n. a_send app n = None" "fst (dump a (store_in s)) = Inr m"
  shows "\<exists>s'. send_response app rq op a s = (Inr (), s') \<and> world s' = world s \<and> sent s' = sent s @ [response_with rq op m]"
  using assms by (simp add: send_response_def bindS_def liftS_def dump_def conn_send_def response_with_def Let_def)

lemma core_mirrored:
  assumes agree: "agree core coreT" and sending: "\<forall>n. a_send app n = None"
    and w: "world s = sa_world t" and run: "coreT t = (Inr a, t')"
    and m: "fst (dump a (w_store (sa_world t'))) = Inr m"
  obtains s1 where "core s = (Inr a, s1)"
    and "\<exists>s'. send_response app rq op a s1 = (Inr (), s') \<and> world s' = sa_world t' \<and> sent s' = sent s @ [response_with rq op m]"
proof -
  obtain r s1 where 1: "core s = (r, s1)" by fastforce
  note eqs = agree_runD [OF agree w 1 run]
  show ?thesis
  proof (rule that)
    show "core s = (Inr a, s1)" using 1 eqs by simp
    show "\<exists>s'. send_response app rq op a s1 = (Inr (), s') \<and> world s' = sa_world t' \<and> sent s' = sent s @ [response_with rq op m]"
      using send_response_ok [OF sending, of a s1 m rq op] eqs m by simp
  qed
qed

lemma handle_call_by_core:
  assumes "call_core app p obj s = (Inr a, s1)" "\<not> env_oneway rq" "send_response app rq OP_CALL a s1 = (Inr (), s')"
    and "map_of (objects (ctx_of s)) (env_object_id rq) = Some obj"
  shows "handle_call app rq p s = (Inr (), s')"
  using assms unfolding call_core_def handle_call_def with_object_def
  by (auto simp: bindS_def catchS_def split: prod.splits sum.splits)

lemma request_ops:
  "sa_request app OP_CLEAR oid p ow = sa_clear app oid"
  "sa_request app OP_GET oid p ow = sa_get app oid p"
  "sa_request app OP_CALL oid p ow = sa_call app oid p ow"
  "sa_request app OP_DESTROY oid p ow = sa_destroy app oid"
  by (simp_all add: sa_request_def token_values)

lemma handler_ops:
  "map_of handler_map OP_CLEAR = Some handle_clear" "map_of handler_map OP_GET = Some handle_get"
  "map_of handler_map OP_CALL = Some handle_call" "map_of handler_map OP_DESTROY = Some handle_destroy"
  by (simp_all add: handler_map_def token_values)

lemma with_objectT_InrE:
  assumes "with_objectT oid f t = (Inr a, t')"
  obtains obj where "map_of (objects (w_ctx (sa_world t))) oid = Some obj" "f obj t = (Inr a, t')"
  using assms by (auto simp: with_objectT_def split: option.splits)

lemma served_by_core:
  assumes "handler = with_object app rq op (\<lambda>a. bindS (core a) (send_response app rq op))"
    and "map_of (objects (ctx_of s)) (env_object_id rq) = Some obj"
    and "core obj s = (Inr a, s1)" and "send_response app rq op a s1 = (Inr (), s')"
  shows "handler s = (Inr (), s')"
  using assms by (simp add: with_object_def bindS_def)

lemma sa_destroy_by_object:
  "sa_destroy app oid = with_objectT oid (\<lambda>a.
     bindT (bindT (run_hookT app a HOOK_DESTRUCT) (\<lambda>_. ctxT (erase_object oid))) (\<lambda>_.
       bindT (\<lambda>s. (Inr (), sa_unregister_object_events oid s)) (\<lambda>_. emptyT)))"
  by (simp add: fun_eq_iff sa_destroy_def with_objectT_def bindT_def split: option.split)

lemma bindT_ret: "bindT m retT = m"
  by (auto simp: fun_eq_iff bindT_def retT_def split: prod.splits sum.splits)


text \<open>One object without methods, filed under the id 5.\<close>

definition one_object :: world where
  "one_object = \<lparr> w_store = empty_store\<lparr> heap := [blank_obj [(NAMESPACE, plain_field (KeyV 0))]] \<rparr>,
     w_ctx = (new_context 1)\<lparr> objects := [(5, 0)] \<rparr>, w_ids = 1 \<rparr>"

definition destroy_five :: envelope where
  "destroy_five = new_envelope\<lparr> env_kind := KIND_REQUEST, env_op := OP_DESTROY, env_object_id := 5 \<rparr>"

lemma destroy_five_run:
  "\<exists>a t' m. sa_request plain_app OP_DESTROY 5 0 False \<lparr> sa_world = one_object, sa_handlers = [], sa_delivered = [] \<rparr> = (Inr a, t') \<and>
     fst (dump a (w_store (sa_world t'))) = Inr m"
  by (simp add: request_ops sa_destroy_def with_objectT_def one_object_def new_context_def run_hookT_def has_methodT_def
      find_method_def object_eval empty_store_def retT_def bindT_def liftT_def ctxT_def erase_object_def map_erase_def
      sa_unregister_object_events_def emptyT_def)


end
