(* ===== verification/Standalone_Threads.thy ===== *)
theory Standalone_Threads
  imports Standalone
begin

text \<open>
  The task queue of the standalone runtime: \<open>enqueue\<close>, \<open>worker_loop\<close> and \<open>stop_worker\<close> of
  \<open>src/rmi/standalone/standalone.cpp\<close> over the condition variable of the queue. A task is the promise
  it will settle, numbered in the order of the calls of \<open>enqueue\<close>.
\<close>

section \<open>The threads\<close>

text \<open>
  Where the worker is: before the predicate of \<open>wait\<close>, holding the mutex with the predicate found
  false, blocked, past the wait, running a task, or finished.
\<close>

datatype task_thread = Ready | Unready | Blocked | Taking | Working nat | Ended

text \<open>
  \<open>entering\<close> are the calls of \<open>enqueue\<close> that have seen \<open>running_\<close> true and not pushed their task yet;
  \<open>signals\<close> counts the notifications still to come from threads that have changed the queue or the
  flag. \<open>settled\<close> lists the promises that have their outcome.
\<close>

record task_machine =
  t_running :: bool
  t_queue :: "nat list"
  t_worker :: task_thread
  t_entering :: "nat list"
  t_signals :: nat
  t_settled :: "nat list"
  t_next :: nat

definition task_start :: task_machine where
  "task_start = \<lparr> t_running = True, t_queue = [], t_worker = Ready, t_entering = [], t_signals = 0,
     t_settled = [], t_next = 0 \<rparr>"

inductive task_step :: "task_machine \<Rightarrow> task_machine \<Rightarrow> bool" where
  rejected: "\<not> t_running m \<Longrightarrow>
     task_step m (m\<lparr> t_settled := t_settled m @ [t_next m], t_next := Suc (t_next m) \<rparr>)"
| admitted: "t_running m \<Longrightarrow>
     task_step m (m\<lparr> t_entering := t_next m # t_entering m, t_next := Suc (t_next m) \<rparr>)"
| pushed: "k \<in> set (t_entering m) \<Longrightarrow> t_worker m \<noteq> Unready \<Longrightarrow>
     task_step m (m\<lparr> t_entering := remove1 k (t_entering m), t_queue := t_queue m @ [k], t_signals := Suc (t_signals m) \<rparr>)"
| signalled: "t_signals m = Suc n \<Longrightarrow>
     task_step m (m\<lparr> t_signals := n, t_worker := (if t_worker m = Blocked then Ready else t_worker m) \<rparr>)"
| stopped: "t_running m \<Longrightarrow> t_worker m \<noteq> Unready \<Longrightarrow>
     task_step m (m\<lparr> t_running := False, t_signals := Suc (t_signals m) \<rparr>)"
| ready: "t_worker m = Ready \<Longrightarrow> t_queue m \<noteq> [] \<or> \<not> t_running m \<Longrightarrow> task_step m (m\<lparr> t_worker := Taking \<rparr>)"
| unready: "t_worker m = Ready \<Longrightarrow> t_queue m = [] \<Longrightarrow> t_running m \<Longrightarrow> task_step m (m\<lparr> t_worker := Unready \<rparr>)"
| block: "t_worker m = Unready \<Longrightarrow> task_step m (m\<lparr> t_worker := Blocked \<rparr>)"
| take_task: "t_worker m = Taking \<Longrightarrow> t_queue m = k # q \<Longrightarrow> task_step m (m\<lparr> t_queue := q, t_worker := Working k \<rparr>)"
| none_left: "t_worker m = Taking \<Longrightarrow> t_queue m = [] \<Longrightarrow>
     task_step m (m\<lparr> t_worker := (if t_running m then Ready else Ended) \<rparr>)"
| completed: "t_worker m = Working k \<Longrightarrow>
     task_step m (m\<lparr> t_settled := t_settled m @ [k], t_worker := Ready \<rparr>)"

abbreviation task_steps :: "task_machine \<Rightarrow> task_machine \<Rightarrow> bool" where
  "task_steps \<equiv> task_step\<^sup>*\<^sup>*"

inductive_cases task_stepE: "task_step m m'"

section \<open>No wake-up is lost\<close>

text \<open>The flag and the queue change under the mutex the waiting worker holds until it blocks.\<close>

definition waits_ok :: "task_machine \<Rightarrow> bool" where
  "waits_ok m \<longleftrightarrow>
     (t_worker m = Blocked \<longrightarrow> t_queue m \<noteq> [] \<or> \<not> t_running m \<longrightarrow> 0 < t_signals m) \<and>
     (t_worker m = Unready \<longrightarrow> t_queue m = [] \<and> t_running m) \<and>
     (t_worker m = Ended \<longrightarrow> \<not> t_running m)"

lemma waits_ok_step: "task_step m m' \<Longrightarrow> waits_ok m \<Longrightarrow> waits_ok m'"
  by (elim task_stepE) (auto simp: waits_ok_def)

lemma reachable_waits_ok: "task_steps task_start m \<Longrightarrow> waits_ok m"
proof (induction rule: rtranclp_induct)
  case base
  then show ?case by (simp add: waits_ok_def task_start_def)
next
  case (step m' m'')
  then show ?case using waits_ok_step by blast
qed

text \<open>The work left for the worker once the runtime is stopped and nobody is inside \<open>enqueue\<close>.\<close>

fun worker_left :: "task_thread \<Rightarrow> nat" where
  "worker_left Ended = 0"
| "worker_left Taking = 1"
| "worker_left Ready = 2"
| "worker_left Blocked = 3"
| "worker_left Unready = 4"
| "worker_left (Working k) = 3"

definition left_to_do :: "task_machine \<Rightarrow> nat" where
  "left_to_do m = 4 * length (t_queue m) + worker_left (t_worker m) + t_signals m"

text \<open>A step of the runtime itself: not a new call of \<open>enqueue\<close>, which then only fails at once.\<close>

lemma left_decreases:
  assumes "task_step m m'" "\<not> t_running m" "t_entering m = []" "t_next m' = t_next m" "waits_ok m"
  shows "left_to_do m' < left_to_do m \<and> \<not> t_running m' \<and> t_entering m' = []"
  using assms by (elim task_stepE) (auto simp: left_to_do_def waits_ok_def)

lemma stopped_progress:
  assumes "waits_ok m" "\<not> t_running m" "t_worker m \<noteq> Ended"
  shows "\<exists>m'. task_step m m' \<and> t_next m' = t_next m"
proof (cases "t_worker m")
  case Ready
  then show ?thesis using ready [OF Ready] assms by fastforce
next
  case Unready
  then show ?thesis using assms by (simp add: waits_ok_def)
next
  case Blocked
  then obtain n where "t_signals m = Suc n" using assms by (auto simp: waits_ok_def gr0_conv_Suc)
  from signalled [OF this] show ?thesis by fastforce
next
  case Taking
  then show ?thesis using take_task [OF Taking] none_left [OF Taking] by (cases "t_queue m") fastforce+
next
  case (Working k)
  from completed [OF this] show ?thesis by fastforce
qed (use assms in simp)

section \<open>Every accepted task is run\<close>

fun in_work :: "task_thread \<Rightarrow> nat list" where
  "in_work (Working k) = [k]"
| "in_work _ = []"

definition accounted :: "task_machine \<Rightarrow> bool" where
  "accounted m \<longleftrightarrow> {k. k < t_next m} \<subseteq> set (t_settled m) \<union> set (in_work (t_worker m)) \<union> set (t_queue m) \<union> set (t_entering m)"

lemma set_remove1_insert: "set xs \<subseteq> insert k (set (remove1 k xs))"
  by (induction xs) auto

lemma accounted_step:
  assumes "task_step m m'" "accounted m"
  shows "accounted m'"
  using assms(1)
proof cases
  case (pushed k)
  then show ?thesis using assms(2) set_remove1_insert [of "t_entering m" k] by (auto simp: accounted_def)
next
  case (signalled n)
  then show ?thesis using assms(2) by (auto simp: accounted_def)
qed (use assms(2) in \<open>auto simp: accounted_def less_Suc_eq\<close>)

lemma reachable_accounted: "task_steps task_start m \<Longrightarrow> accounted m"
proof (induction rule: rtranclp_induct)
  case base
  then show ?case by (simp add: accounted_def task_start_def)
next
  case (step m' m'')
  then show ?case using accounted_step by blast
qed

text \<open>Once stopped with nobody inside \<open>enqueue\<close>, a finished worker leaves an empty queue.\<close>

definition closing :: "task_machine \<Rightarrow> bool" where
  "closing m \<longleftrightarrow> \<not> t_running m \<and> t_entering m = [] \<and> (t_worker m = Ended \<longrightarrow> t_queue m = [])"

lemma closing_step: "task_step m m' \<Longrightarrow> closing m \<Longrightarrow> closing m'"
  by (elim task_stepE) (auto simp: closing_def)

lemma closing_steps: "task_steps m m' \<Longrightarrow> closing m \<Longrightarrow> closing m'"
  by (induction rule: rtranclp_induct) (auto dest: closing_step)

text \<open>
  C22: a stopped standalone runtime drains its queue: if no call of \<open>enqueue\<close> is under way when it is
  stopped, then in every continuation the worker can still take a step until it has ended, each of
  its steps shortens what is left, so it ends, and at its end every future ever handed out has its
  outcome.
\<close>

theorem standalone_drains:
  assumes "task_steps task_start m" and "\<not> t_running m" and "t_entering m = []" and "t_worker m \<noteq> Ended"
    and "task_steps m m'"
  shows "if t_worker m' = Ended then \<forall>k < t_next m'. k \<in> set (t_settled m')
    else (\<exists>m''. task_step m' m'' \<and> t_next m'' = t_next m') \<and>
      (\<forall>m''. task_step m' m'' \<and> t_next m'' = t_next m' \<longrightarrow> left_to_do m'' < left_to_do m')"
proof -
  have reach: "task_steps task_start m'" using assms(1,5) by (rule rtranclp_trans)
  have closing: "closing m'" using closing_steps [OF assms(5)] assms(2-4) by (simp add: closing_def)
  note ok = reachable_waits_ok [OF reach] reachable_accounted [OF reach]
  show ?thesis
  proof (cases "t_worker m' = Ended")
    case True
    then show ?thesis using ok(2) closing by (auto simp: accounted_def closing_def)
  next
    case False
    then show ?thesis using stopped_progress [OF ok(1)] left_decreases ok(1) closing by (auto simp: closing_def)
  qed
qed

theorem standalone_drains_witness:
  "let m = task_start\<lparr> t_running := False, t_signals := 1 \<rparr>
   in (\<exists>m''. task_step m m'' \<and> t_next m'' = t_next m) \<and>
      (\<forall>m''. task_step m m'' \<and> t_next m'' = t_next m \<longrightarrow> left_to_do m'' < left_to_do m)"
proof -
  let ?m = "task_start\<lparr> t_running := False, t_signals := 1 \<rparr>"
  have "task_step task_start ?m" using stopped [of task_start] by (simp add: task_start_def)
  from standalone_drains [OF r_into_rtranclp [of task_step, OF this], of ?m] show ?thesis
    by (simp add: task_start_def Let_def)
qed

text \<open>
  A task can be forgotten: \<open>enqueue\<close> reads \<open>running_\<close> before it takes the queue's lock, so a task can
  be pushed after \<open>stop_worker\<close> has drained the queue and joined the worker. Its future never becomes
  ready: no continuation of the execution settles it.
\<close>

theorem standalone_forgets_task:
  "\<exists>m k. task_steps task_start m \<and> t_worker m = Ended \<and> t_entering m = [] \<and> k \<in> set (t_queue m) \<and>
     {m'. task_steps m m'} \<subseteq> {m'. k \<notin> set (t_settled m')}"
proof -
  let ?a = "task_start\<lparr> t_entering := [0], t_next := 1 \<rparr>"
  let ?b = "?a\<lparr> t_running := False, t_signals := 1 \<rparr>"
  let ?c = "?b\<lparr> t_worker := Taking \<rparr>" and ?d = "?b\<lparr> t_worker := Ended \<rparr>"
  let ?e = "?d\<lparr> t_entering := [], t_queue := [0], t_signals := 2 \<rparr>"
  have "task_step task_start ?a" using admitted [of task_start] by (simp add: task_start_def)
  moreover have "task_step ?a ?b" using stopped [of ?a] by (simp add: task_start_def)
  moreover have "task_step ?b ?c" by (rule ready) (simp_all add: task_start_def)
  moreover have "task_step ?c ?d" using none_left [of ?c] by (simp add: task_start_def)
  moreover have "task_step ?d ?e" using pushed [of 0 ?d] by (simp add: task_start_def numeral_2_eq_2)
  ultimately have reach: "task_steps task_start ?e"
    by (meson converse_rtranclp_into_rtranclp rtranclp.rtrancl_refl)
  have "t_worker m' = Ended \<and> 0 < t_next m' \<and> 0 \<notin> set (t_settled m')" if "task_steps ?e m'" for m'
    using that
  proof (induction rule: rtranclp_induct)
    case base
    then show ?case by (simp add: task_start_def)
  next
    case (step m1 m2)
    from step(2,3) show ?case by (elim task_stepE) auto
  qed
  then have "{m'. task_steps ?e m'} \<subseteq> {m'. 0 \<notin> set (t_settled m')}" by blast
  moreover have "t_worker ?e = Ended" "t_entering ?e = []" "0 \<in> set (t_queue ?e)" by simp_all
  ultimately show ?thesis using reach by blast
qed

end
