(* ===== verification/Stream_Transport.thy ===== *)
theory Stream_Transport
  imports Framing
begin

text \<open>
  The transport over a C++ stream, \<open>src/rmi/transport/stream_transport.cpp\<close>. Of the standard library
  it uses the unformatted input functions, modelled with the state bits they test and set.
\<close>

section \<open>Streams\<close>

text \<open>
  The unread bytes (at whose end the stream buffer reports end-of-file, as that of a
  \<open>std::stringstream\<close> does), \<open>eofbit\<close> and \<open>failbit\<close>. An input function on a stream that is not good
  only sets \<open>failbit\<close>.
\<close>

record io_stream =
  st_data :: buffer
  st_eof :: bool
  st_fail :: bool

definition stream_of :: "buffer \<Rightarrow> io_stream" where
  "stream_of bs = \<lparr> st_data = bs, st_eof = False, st_fail = False \<rparr>"

definition stream_good :: "io_stream \<Rightarrow> bool" where
  "stream_good s \<longleftrightarrow> \<not> st_eof s \<and> \<not> st_fail s"

definition stream_peek :: "io_stream \<Rightarrow> u8 option \<times> io_stream" where
  "stream_peek s =
     (if \<not> stream_good s then (None, s\<lparr> st_fail := True \<rparr>)
      else case st_data s of [] \<Rightarrow> (None, s\<lparr> st_eof := True \<rparr>) | b # _ \<Rightarrow> (Some b, s))"

text \<open>\<open>read(p, n)\<close>: the bytes read, \<open>gcount\<close> of them.\<close>

definition stream_take :: "nat \<Rightarrow> io_stream \<Rightarrow> buffer \<times> io_stream" where
  "stream_take n s =
     (if \<not> stream_good s then ([], s\<lparr> st_fail := True \<rparr>)
      else if length (st_data s) < n then (st_data s, s\<lparr> st_data := [], st_eof := True, st_fail := True \<rparr>)
      else (take n (st_data s), s\<lparr> st_data := drop n (st_data s) \<rparr>))"

definition arrive :: "buffer \<Rightarrow> io_stream \<Rightarrow> io_stream" where
  "arrive bs s = s\<lparr> st_data := st_data s @ bs \<rparr>"

section \<open>Framing\<close>

definition kLenBytes :: nat where
  "kLenBytes = 4"

definition stream_write_frame :: "host \<Rightarrow> buffer \<Rightarrow> buffer" where
  "stream_write_frame h frame = mem_bytes32 h (byte_swap32 h (of_nat (length frame))) @ frame"

text \<open>\<open>Some frame\<close>, or \<open>None\<close> at the end of the stream.\<close>

definition stream_read_frame :: "host \<Rightarrow> io_stream \<Rightarrow> buffer option result \<times> io_stream" where
  "stream_read_frame h s =
     (case stream_take kLenBytes s of (prefix, s1) \<Rightarrow>
        if prefix = [] \<and> st_eof s1 then (Inr None, s1)
        else if length prefix \<noteq> kLenBytes then (Inl (App_error ''stream_transport: partial length prefix''), s1)
        else (let len = unat (byte_swap32 h (of_mem_bytes32 h prefix))
              in if len > kMaxFrameBytes then (Inl (App_error ''stream_transport: frame length exceeds kMaxFrameBytes''), s1)
                 else if len > 0 then
                   (case stream_take len s1 of (payload, s2) \<Rightarrow>
                      if length payload \<noteq> len then (Inl (App_error ''stream_transport: partial frame payload''), s2)
                      else (Inr (Some payload), s2))
                 else (Inr (Some []), s1)))"

section \<open>Receiving\<close>

text \<open>
  One \<open>receive\<close> of either endpoint: each element of the list is what arrives while it sleeps between
  two polls, with the value of \<open>closed_\<close> after it, and the deadline is past when the list is used up.
\<close>

definition readable :: "io_stream \<Rightarrow> bool \<times> io_stream" where
  "readable s = (if st_data s \<noteq> [] then (True, s) else (case stream_peek s of (b, s1) \<Rightarrow> (b \<noteq> None, s1)))"

definition attempt_read :: "host \<Rightarrow> io_stream \<Rightarrow> buffer option \<times> io_stream" where
  "attempt_read h s = (case stream_read_frame h s of (Inl _, s1) \<Rightarrow> (None, s1) | (Inr r, s1) \<Rightarrow> (r, s1))"

fun stream_receive :: "host \<Rightarrow> bool \<Rightarrow> (buffer \<times> bool) list \<Rightarrow> io_stream \<Rightarrow> buffer option \<times> io_stream" where
  "stream_receive h is_shut arrivals s =
     (if is_shut then (None, s)
      else (case readable s of (ok, s1) \<Rightarrow>
        if ok then attempt_read h s1
        else (case arrivals of [] \<Rightarrow> (None, s1) | (bs, c) # rest \<Rightarrow> stream_receive h c rest (arrive bs s1))))"

declare stream_receive.simps [simp del]

section \<open>Accepting\<close>

record stream_listener =
  sl_stopped :: bool
  sl_accepted :: bool

definition sl_start :: "stream_listener \<Rightarrow> stream_listener" where
  "sl_start l = l\<lparr> sl_stopped := False \<rparr>"

definition sl_accept :: "stream_listener \<Rightarrow> bool \<times> stream_listener" where
  "sl_accept l =
     (if sl_stopped l then (False, l)
      else if sl_accepted l then (False, l)
      else (True, l\<lparr> sl_accepted := True \<rparr>))"

definition sl_stop :: "stream_listener \<Rightarrow> stream_listener" where
  "sl_stop l = l\<lparr> sl_stopped := True \<rparr>"

section \<open>Reading all frames of a stream\<close>

lemma read_frame_progress:
  "stream_read_frame h s = (Inr (Some f), s') \<Longrightarrow> length (st_data s') < length (st_data s)"
  for h :: host and s :: io_stream
  by (auto simp: stream_read_frame_def stream_take_def kLenBytes_def Let_def split: if_splits prod.splits)

text \<open>The frames until the stream ends or an exception is thrown.\<close>

function read_all :: "host \<Rightarrow> io_stream \<Rightarrow> buffer list" where
  "read_all h s = (case stream_read_frame h s of (Inr (Some f), s') \<Rightarrow> f # read_all h s' | _ \<Rightarrow> [])"
  by pat_completeness auto

termination
  by (relation "measure (\<lambda>(h, s). length (st_data s))") (auto dest!: sym [of "(Inr (Some _), _)"] intro: read_frame_progress)

declare read_all.simps [simp del]

section \<open>The stream transport and the frame parser agree\<close>

lemma read_frame_deframe:
  "case stream_read_frame h (stream_of bs) of
     (Inr (Some f), s') \<Rightarrow> \<exists>rest. s' = stream_of rest \<and>
       deframe bs = (case deframe rest of (fs, left, ok) \<Rightarrow> (f # fs, left, ok))
   | _ \<Rightarrow> fst (deframe bs) = []"
proof (cases "length bs < 4")
  case True
  then have "stream_take 4 (stream_of bs) = (bs, \<lparr> st_data = [], st_eof = True, st_fail = True \<rparr>)"
    by (simp add: stream_take_def stream_of_def stream_good_def)
  then show ?thesis using True by (auto simp: stream_read_frame_def kLenBytes_def deframe.simps [of bs] deframe.simps [of "[]"])
next
  case False
  let ?n = "unat (de_be32 (take 4 bs))" and ?q = "drop 4 bs"
  have bs: "bs = take 4 bs @ ?q" by simp
  have 4: "stream_take 4 (stream_of bs) = (take 4 bs, stream_of ?q)"
    using False by (simp add: stream_take_def stream_of_def stream_good_def)
  have len: "byte_swap32 h (of_mem_bytes32 h (take 4 bs)) = de_be32 (take 4 bs)"
    using False by (intro swap_of_mem) simp
  have header: "stream_read_frame h (stream_of bs) =
      (if ?n > kMaxFrameBytes then (Inl (App_error ''stream_transport: frame length exceeds kMaxFrameBytes''), stream_of ?q)
       else if ?n > 0 then
         (case stream_take ?n (stream_of ?q) of (payload, s2) \<Rightarrow>
            if length payload \<noteq> ?n then (Inl (App_error ''stream_transport: partial frame payload''), s2)
            else (Inr (Some payload), s2))
       else (Inr (Some []), stream_of ?q))"
    using False unfolding stream_read_frame_def kLenBytes_def 4 by (auto simp: len Let_def)
  consider "?n > kMaxFrameBytes" | "?n \<le> kMaxFrameBytes" "length ?q < ?n" | "?n \<le> kMaxFrameBytes" "?n \<le> length ?q"
    by linarith
  then show ?thesis
  proof cases
    case 1
    then show ?thesis using False by (simp add: header deframe.simps [of bs])
  next
    case 2
    then have "stream_take ?n (stream_of ?q) = (?q, \<lparr> st_data = [], st_eof = True, st_fail = True \<rparr>)"
      by (simp add: stream_take_def stream_of_def stream_good_def)
    moreover have "fst (deframe bs) = []" using 2 False by (subst deframe.simps) (auto simp: Let_def)
    ultimately show ?thesis using 2 by (auto simp: header)
  next
    case 3
    then have take: "stream_take ?n (stream_of ?q) = (take ?n ?q, stream_of (drop ?n ?q))"
      by (simp add: stream_take_def stream_of_def stream_good_def)
    have "deframe (take 4 bs @ take ?n ?q @ drop ?n ?q) =
        (case deframe (drop ?n ?q) of (fs, left, ok) \<Rightarrow> (take ?n ?q # fs, left, ok))"
      using False 3 by (intro deframe_frame) auto
    then have "deframe bs = (case deframe (drop ?n ?q) of (fs, left, ok) \<Rightarrow> (take ?n ?q # fs, left, ok))"
      by (simp only: append_take_drop_id)
    moreover have "stream_read_frame h (stream_of bs) = (Inr (Some (take ?n ?q)), stream_of (drop ?n ?q))"
      using 3 by (simp add: header take)
    ultimately show ?thesis by auto
  qed
qed

lemma read_all_deframe: "read_all h (stream_of bs) = fst (deframe bs)"
proof (induction "length bs" arbitrary: bs rule: less_induct)
  case less
  show ?case
  proof (cases "stream_read_frame h (stream_of bs)")
    case (Pair r s')
    show ?thesis
    proof (cases "\<exists>f. r = Inr (Some f)")
      case True
      then obtain f where r: "r = Inr (Some f)" by blast
      then obtain rest where rest: "s' = stream_of rest"
          "deframe bs = (case deframe rest of (fs, left, ok) \<Rightarrow> (f # fs, left, ok))"
        using read_frame_deframe [where h = h and bs = bs] Pair by auto
      have "length rest < length bs"
        using read_frame_progress [where h = h and s = "stream_of bs" and f = f and s' = s'] Pair r rest(1) by (simp add: stream_of_def)
      from less [OF this] show ?thesis
        by (subst read_all.simps) (simp add: Pair r rest split: prod.split)
    next
      case False
      then show ?thesis using read_frame_deframe [where h = h and bs = bs] Pair
        by (subst read_all.simps) (auto split: sum.splits option.splits)
    qed
  qed
qed

text \<open>
  C29: the stream transport speaks the framing of the socket transports: reading a stream frame by
  frame until it ends or an exception is thrown delivers exactly the frames \<open>frame_parser\<close> delivers of
  the same bytes cut into any reads (for bytes the parser accepts), and what \<open>stream_write_frame\<close>
  writes is what \<open>enqueue_frame\<close> puts on a socket.
\<close>

theorem stream_reads_like_parser:
  assumes "feed_all h' new_parser reads = Some (True, st, frames)"
  shows "read_all h (stream_of (concat reads)) = frames \<and> stream_write_frame h frame = enqueue_frame h frame"
proof -
  have "held new_parser = []" by (simp add: held_def new_parser_def)
  then have "fst (deframe (concat reads)) = frames"
    using feed_all_refines [OF parser_inv_new, where cs = reads and h = h'] assms by (auto split: prod.splits)
  then show ?thesis by (simp add: read_all_deframe stream_write_frame_def enqueue_frame_def)
qed

section \<open>A poll of an empty stream\<close>

lemma eof_read: "st_eof s \<Longrightarrow> attempt_read h s = (None, s\<lparr> st_fail := True \<rparr>)"
  by (simp add: attempt_read_def stream_read_frame_def stream_take_def stream_good_def)

lemma eof_receive: "st_eof s \<Longrightarrow> fst (stream_receive h c arrivals s) = None \<and> st_eof (snd (stream_receive h c arrivals s))"
proof (induction h c arrivals s rule: stream_receive.induct)
  case (1 h is_shut arrivals s)
  show ?case
  proof (cases "is_shut \<or> st_data s \<noteq> []")
    case True
    then show ?thesis using 1(2) by (subst (1 2) stream_receive.simps) (auto simp: readable_def eof_read)
  next
    case False
    then have r: "readable s = (False, s\<lparr> st_fail := True \<rparr>)"
      using 1(2) by (simp add: readable_def stream_peek_def stream_good_def)
    show ?thesis
      using 1 False by (subst (1 2) stream_receive.simps) (auto simp: r arrive_def split: list.split)
  qed
qed

text \<open>
  Polling an empty stream breaks it: \<open>peek\<close> sets \<open>eofbit\<close> and nothing clears it, so a \<open>receive\<close> that
  finds no byte returns no frame whatever arrives while it waits, and no later \<open>receive\<close> returns one
  either, although complete frames lie in the stream.
\<close>

theorem empty_poll_breaks_stream:
  assumes "stream_receive h False arrivals (stream_of []) = (r, s)"
  shows "r = None \<and> (\<forall>bs c later. fst (stream_receive h c later (arrive bs s)) = None)"
proof -
  let ?s = "(stream_of [])\<lparr> st_eof := True \<rparr>"
  have r: "readable (stream_of []) = (False, ?s)"
    by (simp add: readable_def stream_peek_def stream_good_def stream_of_def)
  have "r = None \<and> st_eof s"
  proof (cases arrivals)
    case Nil
    then show ?thesis using assms by (auto simp: stream_receive.simps r)
  next
    case (Cons a rest)
    obtain bs c where a: "a = (bs, c)" by fastforce
    have "stream_receive h c rest (arrive bs ?s) = (r, s)"
      using assms by (simp add: stream_receive.simps [of h False] Cons a r)
    then show ?thesis using eof_receive [of "arrive bs ?s" h c rest] by (simp add: arrive_def)
  qed
  moreover have "fst (stream_receive h c later (arrive bs s)) = None" if "st_eof s" for bs c later
    using eof_receive [of "arrive bs s"] that by (simp add: arrive_def)
  ultimately show ?thesis by blast
qed

text \<open>The witnesses: a frame in two reads; a \<open>receive\<close> that polls once, then two bytes arrive.\<close>

theorem stream_reads_like_parser_witness:
  "read_all Little_endian (stream_of [0, 0, 0, 2, 7, 8]) = [[7, 8]]"
proof -
  obtain st where "feed_all Little_endian new_parser [[0, 0, 0], [2, 7, 8]] = Some (True, st, [[7, 8]])"
    using feed_all_refines [OF parser_inv_new, where cs = "[[0, 0, 0], [2, 7, 8]]" and h = Little_endian]
      deframe_enqueued [of "[7, 8]" Little_endian "[]"]
    by (auto simp: held_def new_parser_def deframe.simps [of "[]"] kMaxFrameBytes_def enqueue_frame_def mem_of_swap be32_def)
  from stream_reads_like_parser [OF this] show ?thesis by simp
qed

theorem empty_poll_breaks_stream_witness:
  "fst (stream_receive Little_endian False [] (arrive [0, 0, 0, 1, 7] \<lparr> st_data = [], st_eof = True, st_fail = False \<rparr>)) = None"
proof -
  have "stream_receive Little_endian False [] (stream_of []) =
      (None, \<lparr> st_data = [], st_eof = True, st_fail = False \<rparr>)" by code_simp
  from empty_poll_breaks_stream [OF this] show ?thesis by blast
qed

end
