(* ===== verification/Rmi_Groups.thy ===== *)
theory Rmi_Groups
  imports Rmi_Tables
begin

text \<open>
  The groups of a session over many requests: every object is filed under the group of the request
  that put it in the table, so destroying a group destroys all that was ever created for it.
\<close>

section \<open>What application code may do with the table\<close>

definition filed :: "session_context \<Rightarrow> hash_t \<Rightarrow> hash_t \<Rightarrow> bool" where
  "filed c g i \<longleftrightarrow> i \<in> members (table_of c) g"

text \<open>
  Code that adds objects with \<open>put_object\<close> (also indirectly, during any request) and removes objects:
  each object it leaves new in the table is filed under the current group, and no filing is lost.
\<close>

definition filing :: "session_context \<Rightarrow> session_context \<Rightarrow> bool" where
  "filing c c' \<longleftrightarrow> current_group c' = current_group c \<and> (\<forall>g i. filed c g i \<longrightarrow> filed c' g i) \<and>
     (\<forall>i a. map_of (objects c') i = Some a \<longrightarrow> map_of (objects c) i = Some a \<or> current_group c = 0 \<or> filed c' (current_group c) i)"

interpretation filing: context_effect filing
  by unfold_locales (auto simp: filing_def, metis)

lemma filed_put: "filed (put_object i a c) g j \<longleftrightarrow> filed c g j \<or> g \<noteq> 0 \<and> g = current_group c \<and> j = i"
  by (auto simp: filed_def table_put add_entry_def)

lemma filing_put: "filing c (put_object i a c)"
  by (auto simp: filing_def filed_put) (auto simp: put_object_def Let_def split: if_splits)

lemma filing_erase: "filing c (erase_object i c)"
  by (auto simp: filing_def filed_def table_erase) (auto simp: erase_object_def split: if_splits)

lemma filing_update: "(\<And>c. filing c (f c)) \<Longrightarrow> effect_in filing (update_ctx f)"
  by (auto simp: effect_in_def update_ctx_def)

section \<open>The handlers\<close>

lemma filing_file_object: "effect_in filing (file_object app rq klass obj)"
  unfolding file_object_def
  by (intro filing.resp_bind filing.resp_basics filing_update filing_put)

lemma filing_construct: "well_behaved filing app \<Longrightarrow> effect_in filing (construct_object app obj p)"
  unfolding construct_object_def by (intro filing.resp_bind filing.resp_lift filing.resp_call filing.resp_ret)

lemma filing_created: "well_behaved filing app \<Longrightarrow> effect_in filing (instantiate_created app rq p klass created)"
  unfolding instantiate_created_def
  by (cases created)
     (auto intro!: filing.resp_bind filing.resp_try filing.resp_basics filing_construct filing_file_object)

lemma filing_instantiate_in: "well_behaved filing app \<Longrightarrow> effect_in filing (instantiate_in app rq p klass ns)"
  unfolding instantiate_in_def [abs_def]
  by (rule filing.resp_state) (intro filing.resp_if filing.resp_try filing.resp_lift filing.resp_response filing_created)

lemma filing_instantiate: "well_behaved filing app \<Longrightarrow> effect_in filing (handle_instantiate app rq p)"
  unfolding handle_instantiate_def
  by (intro filing.resp_bind filing.resp_try filing.resp_if filing.resp_basics filing_instantiate_in)

lemma filing_destroy: "well_behaved filing app \<Longrightarrow> effect_in filing (handle_destroy app rq p)"
  unfolding handle_destroy_def
  by (intro filing.resp_with_object filing.resp_bind filing.resp_run_hook filing.resp_basics filing_update filing_erase)

text \<open>Every handler but the two that drop groups.\<close>

lemma filing_handler:
  assumes "well_behaved filing app" and "op \<notin> {OP_DESTROY_GROUP, OP_DISCONNECT}"
  shows "effect_in filing (case map_of handler_map op of Some handler \<Rightarrow> handler app rq p
        | None \<Rightarrow> send_error app rq op ERR_UNKNOWN_OPERATION ''Unknown operation'')"
proof (cases "map_of handler_map op")
  case None
  then show ?thesis by (simp add: filing.resp_response(2))
next
  case (Some handler)
  then have "handler \<in> {handle_connect, handle_describe, handle_instantiate, handle_clear, handle_set, handle_get,
      handle_call, handle_destroy, handle_dictionary, handle_help}"
    using assms(2) by (simp add: handler_map_def split: if_splits)
  then have "effect_in filing (handler app rq p)"
    using filing.resp_connect [OF assms(1)] filing.resp_describe filing_instantiate [OF assms(1)]
      filing.resp_clear [OF assms(1)] filing.resp_set [OF assms(1)] filing.resp_get [OF assms(1)]
      filing.resp_call_op [OF assms(1)] filing_destroy [OF assms(1)] filing.resp_dictionary by auto
  then show ?thesis by (simp add: Some)
qed

section \<open>The loop of a group's destruction\<close>

lemma filing_member:
  assumes "well_behaved filing app" and "destroy_member app i s = (Inr (), s')"
  shows "filing (ctx_of s) (ctx_of s') \<and> map_of (objects (ctx_of s')) i = None"
proof (cases "map_of (objects (ctx_of s)) i")
  case None
  then show ?thesis using assms(2) filing.R_refl by (auto simp: destroy_member_def)
next
  case (Some a)
  then have "bindS (run_hook app a HOOK_DESTRUCT) (\<lambda>_. update_ctx (erase_object i)) s = (Inr (), s')"
    using assms(2) by (simp add: destroy_member_def)
  then obtain s0 where 0: "run_hook app a HOOK_DESTRUCT s = (Inr (), s0)" "update_ctx (erase_object i) s0 = (Inr (), s')"
    by (auto elim!: bindS_InrE)
  have "filing (ctx_of s) (ctx_of s0)" by (rule effect_inD [OF filing.resp_run_hook [OF assms(1)] 0(1)])
  moreover have "ctx_of s' = erase_object i (ctx_of s0)" using 0(2) by (auto simp: update_ctx_def)
  ultimately show ?thesis using filing_erase filing.R_trans by (auto simp: erase_object_def)
qed

lemma filing_members:
  assumes "well_behaved filing app" and "eachS (destroy_member app) js s = (Inr (), s')"
  shows "filing (ctx_of s) (ctx_of s') \<and>
     (\<forall>i a. map_of (objects (ctx_of s')) i = Some a \<longrightarrow> i \<notin> set js \<or> current_group (ctx_of s) = 0 \<or>
        filed (ctx_of s') (current_group (ctx_of s)) i)"
  using assms(2)
proof (induction js arbitrary: s)
  case Nil
  then show ?case using filing.R_refl by (simp add: retS_def)
next
  case (Cons j js)
  obtain s1 where 1: "destroy_member app j s = (Inr (), s1)" "eachS (destroy_member app) js s1 = (Inr (), s')"
    using Cons.prems by (auto elim!: bindS_InrE)
  have j: "filing (ctx_of s) (ctx_of s1)" "map_of (objects (ctx_of s1)) j = None"
    using filing_member [OF assms(1) 1(1)] by auto
  have rest: "filing (ctx_of s1) (ctx_of s')" using Cons.IH [OF 1(2)] by blast
  have "current_group (ctx_of s1) = current_group (ctx_of s)" using j(1) by (simp add: filing_def)
  moreover have "j \<noteq> i \<or> current_group (ctx_of s1) = 0 \<or> filed (ctx_of s') (current_group (ctx_of s1)) i"
    if "map_of (objects (ctx_of s')) i = Some a" for i a
    using that rest j(2) unfolding filing_def by fastforce
  ultimately show ?case using Cons.IH [OF 1(2)] filing.R_trans [OF j(1) rest] by fastforce
qed

section \<open>Every object is filed under the group that created it\<close>

text \<open>
  The owner of an entry: the group of the last request that changed it. A session over its requests,
  each with whatever its methods do then; what happens between requests (a payload is loaded, an
  error is sent) leaves the context alone.
\<close>

definition owner_after :: "hash_t \<Rightarrow> session_context \<Rightarrow> session_context \<Rightarrow> (hash_t \<Rightarrow> hash_t) \<Rightarrow> hash_t \<Rightarrow> hash_t" where
  "owner_after g c c' own i = (if map_of (objects c') i = map_of (objects c) i then own i else g)"

definition handled :: "envelope \<Rightarrow> unit result \<Rightarrow> bool" where
  "handled rq r \<longleftrightarrow> r = Inr () \<or> env_op rq \<notin> {OP_DESTROY_GROUP, OP_DISCONNECT}"

inductive served :: "(hash_t \<Rightarrow> hash_t) \<Rightarrow> session \<Rightarrow> bool" where
  opened: "objects (ctx_of s) = [] \<Longrightarrow> served own s"
| between: "served own s \<Longrightarrow> ctx_of s' = ctx_of s \<Longrightarrow> served own s'"
| request: "served own s \<Longrightarrow> well_behaved filing app \<Longrightarrow> handle_request app rq p s = (r, s') \<Longrightarrow> handled rq r \<Longrightarrow>
     served (owner_after (env_group rq) (ctx_of s) (ctx_of s') own) s'"

definition owners_filed :: "(hash_t \<Rightarrow> hash_t) \<Rightarrow> session_context \<Rightarrow> bool" where
  "owners_filed own c \<longleftrightarrow> (\<forall>i a. map_of (objects c) i = Some a \<longrightarrow> own i = 0 \<or> filed c (own i) i)"

lemma owners_filing:
  assumes "owners_filed own c" and "filing (c\<lparr> current_group := g \<rparr>) c'"
  shows "owners_filed (owner_after g c c' own) c'"
  unfolding owners_filed_def
proof (intro allI impI)
  fix i a assume live: "map_of (objects c') i = Some a"
  have mono: "filed c h i \<Longrightarrow> filed c' h i" for h
    using assms(2) by (auto simp: filing_def filed_def table_group)
  show "owner_after g c c' own i = 0 \<or> filed c' (owner_after g c c' own i) i"
  proof (cases "map_of (objects c) i = Some a")
    case True
    then have "own i = 0 \<or> filed c (own i) i" using assms(1) by (auto simp: owners_filed_def)
    then show ?thesis using mono True live by (auto simp: owner_after_def)
  next
    case False
    then have "g = 0 \<or> filed c' g i" using assms(2) live by (fastforce simp: filing_def)
    then show ?thesis using False live by (auto simp: owner_after_def)
  qed
qed

lemma owners_same:
  assumes "owners_filed own c"
  shows "owners_filed (owner_after g c c own) c"
    and "owners_filed (owner_after g c (c\<lparr> current_group := g \<rparr>) own) (c\<lparr> current_group := g \<rparr>)"
  using assms by (simp_all add: owners_filed_def owner_after_def filed_def table_group)

lemma bind_update: "bindS (update_ctx f) m s = m () (s\<lparr> world := (world s)\<lparr> w_ctx := f (ctx_of s) \<rparr> \<rparr>)"
  by (simp add: bindS_def update_ctx_def)

lemma owners_destroy_group:
  assumes "owners_filed own (ctx_of s)" and "well_behaved filing app" and "env_group rq = g"
    and "handle_destroy_group app rq p (s\<lparr> world := (world s)\<lparr> w_ctx := (ctx_of s)\<lparr> current_group := g \<rparr> \<rparr> \<rparr>) = (Inr (), s')"
  shows "owners_filed (owner_after g (ctx_of s) (ctx_of s') own) (ctx_of s')"
proof (cases "g = 0 \<or> map_of (groups (ctx_of s)) g = None")
  case True
  let ?g = "s\<lparr> world := (world s)\<lparr> w_ctx := (ctx_of s)\<lparr> current_group := g \<rparr> \<rparr> \<rparr>"
  have "respond_empty app rq OP_DESTROY_GROUP ?g = (Inr (), s')"
    using assms(3,4) True by (auto simp: handle_destroy_group_def split: option.splits)
  then have "ctx_of s' = ctx_of ?g" by (rule ctx_sameD [OF same.resp_respond_empty])
  then show ?thesis using owners_same(2) [OF assms(1)] by simp
next
  case False
  then obtain ids where ids: "map_of (groups (ctx_of s)) g = Some ids" and g: "g \<noteq> 0" by auto
  let ?c = "(ctx_of s)\<lparr> current_group := g, groups := map_erase g (groups (ctx_of s)) \<rparr>"
  let ?s1 = "s\<lparr> world := (world s)\<lparr> w_ctx := ?c \<rparr> \<rparr>"
  have "bindS (eachS (destroy_member app) (map fst ids)) (\<lambda>_. respond_empty app rq OP_DESTROY_GROUP) ?s1 = (Inr (), s')"
    using assms(3,4) ids g by (simp add: handle_destroy_group_def bind_update)
  then obtain s2 where run: "eachS (destroy_member app) (map fst ids) ?s1 = (Inr (), s2)"
      "respond_empty app rq OP_DESTROY_GROUP s2 = (Inr (), s')"
    by (auto elim!: bindS_InrE)
  have c': "ctx_of s' = ctx_of s2" by (rule ctx_sameD [OF same.resp_respond_empty run(2)])
  note loop = filing_members [OF assms(2) run(1), simplified]
  have members: "filed (ctx_of s) h i \<longleftrightarrow> (if h = g then i \<in> set (map fst ids) else filed ?c h i)" for h i
    using ids by (auto simp: filed_def table_of_def dom_map_of_conv_image_fst)
  show ?thesis unfolding owners_filed_def
  proof (intro allI impI)
    fix i a assume live: "map_of (objects (ctx_of s')) i = Some a"
    have mono: "filed ?c h i \<Longrightarrow> filed (ctx_of s') h i" for h using loop c' by (simp add: filing_def)
    have cases: "i \<notin> set (map fst ids) \<or> filed (ctx_of s') g i"
      using loop live c' g by auto
    show "owner_after g (ctx_of s) (ctx_of s') own i = 0 \<or> filed (ctx_of s') (owner_after g (ctx_of s) (ctx_of s') own i) i"
    proof (cases "map_of (objects (ctx_of s)) i = Some a")
      case True
      then have "own i = 0 \<or> filed (ctx_of s) (own i) i" using assms(1) by (auto simp: owners_filed_def)
      then show ?thesis using members [of "own i" i] mono cases True live by (auto simp: owner_after_def split: if_splits)
    next
      case False
      then have "filed (ctx_of s') g i" using loop live c' g by (fastforce simp: filing_def)
      then show ?thesis using False live by (auto simp: owner_after_def)
    qed
  qed
qed

lemma owners_request:
  assumes "owners_filed own (ctx_of s)" and "well_behaved filing app" and "handle_request app rq p s = (r, s')" and "handled rq r"
  shows "owners_filed (owner_after (env_group rq) (ctx_of s) (ctx_of s') own) (ctx_of s')"
proof (cases "well_formed_request rq")
  case False
  then obtain op code msg where "send_error app rq op code msg s = (r, s')"
    using assms(3) by (auto simp: handle_request_def well_formed_request_def split: if_splits)
  then have "ctx_of s' = ctx_of s" by (rule ctx_sameD [OF same.resp_response(2)])
  then show ?thesis using owners_same(1) [OF assms(1)] by simp
next
  case True
  let ?g = "s\<lparr> world := (world s)\<lparr> w_ctx := (ctx_of s)\<lparr> current_group := env_group rq \<rparr> \<rparr> \<rparr>"
  have run: "(case map_of handler_map (env_op rq) of
      Some handler \<Rightarrow> handler app rq p
    | None \<Rightarrow> send_error app rq (env_op rq) ERR_UNKNOWN_OPERATION ''Unknown operation'') ?g = (r, s')"
    using True assms(3)
    by (auto simp: handle_request_def well_formed_request_def bindS_def update_ctx_def split: option.splits)
  consider "env_op rq = OP_DESTROY_GROUP" | "env_op rq = OP_DISCONNECT" | "env_op rq \<notin> {OP_DESTROY_GROUP, OP_DISCONNECT}" by blast
  then show ?thesis
  proof cases
    case 1
    then have "handle_destroy_group app rq p ?g = (Inr (), s')" using run assms(4) by (simp add: handler_lookup handled_def)
    from owners_destroy_group [OF assms(1,2) refl this] show ?thesis .
  next
    case 2
    then have "handle_disconnect app rq p ?g = (Inr (), s')" using run assms(4) by (simp add: handler_lookup handled_def)
    from disconnect_ctx [OF this] show ?thesis by (simp add: owners_filed_def)
  next
    case 3
    from effect_inD [OF filing_handler [OF assms(2) 3] run] show ?thesis using owners_filing [OF assms(1)] by simp
  qed
qed

lemma served_owners: "served own s \<Longrightarrow> owners_filed own (ctx_of s)"
proof (induction rule: served.induct)
  case (request own s app rq p r s')
  from owners_request [OF request.IH request(2,3,4)] show ?case .
qed (simp_all add: owners_filed_def)

end
