(* ===== verification/Rmi_Roundtrip.thy ===== *)
theory Rmi_Roundtrip
  imports Rmi_Replies Rmi_Client Memory_Transport
begin

text \<open>
  One remote operation from end to end: the client's pending table, the wire format, the in-process
  transport, the server's session and back.
\<close>

section \<open>Frames that the wire carries unchanged\<close>

definition transportable :: "host \<Rightarrow> ns_map \<Rightarrow> envelope \<Rightarrow> bool" where
  "transportable h reg e \<longleftrightarrow> \<not> env_with_schema e \<and> env_error e = dyn_new 0 [] \<and> wf_object reg (env_payload e) \<and>
     fits (length (env_payload e)) \<and> fits (length (dynamic_serialize h (Dyn (env_payload e))))"

lemma transportable_wire:
  assumes "schemas_registered reg" "transportable h reg e"
  obtains f where "encode h reg e = Inr f" "decode reg f = Inr e"
proof -
  have "bindE (encode h reg e) (decode reg) = Inr e"
    using assms wire_envelope [OF assms(1)] by (simp add: transportable_def)
  then show ?thesis using that by (cases "encode h reg e") (auto simp: bindE_def)
qed

text \<open>What a receiver on an otherwise empty channel gets of a frame sent on it.\<close>

definition through_channel :: "buffer \<Rightarrow> buffer option" where
  "through_channel f = fst (server_receive (client_send f new_channel))"

definition back_through_channel :: "buffer \<Rightarrow> buffer option" where
  "back_through_channel f = fst (client_receive (server_send f new_channel))"

lemma through_channels: "through_channel f = Some f" "back_through_channel f = Some f"
  by (simp_all add: through_channel_def back_through_channel_def channel_defs new_channel_def)

section \<open>The property\<close>


text \<open>The disconnect request of a client, served by a server without methods.\<close>

definition goodbye :: envelope where
  "goodbye = (response_to (disconnect_request 7) OP_DISCONNECT)\<lparr> env_payload := dyn_new 0 [] \<rparr>"

lemma new_empty:
  "\<exists>st'. new_dynamic 0 [] st = (Inr (length (heap st)), st') \<and> dump (length (heap st)) st' = (Inr (dyn_new 0 []), st')"
  by (simp add: object_eval dyn_new_def)

lemma respond_empty_sends:
  "\<exists>s'. respond_empty plain_app rq op s = (Inr (), s') \<and> sent s' = sent s @ [(response_to rq op)\<lparr> env_payload := dyn_new 0 [] \<rparr>]"
proof -
  obtain st' where "new_dynamic 0 [] (store_in s) = (Inr (length (heap (store_in s))), st')"
    "dump (length (heap (store_in s))) st' = (Inr (dyn_new 0 []), st')" using new_empty by blast
  then show ?thesis
    by (simp add: respond_empty_def empty_object_def bindS_def liftS_def send_response_def conn_send_def plain_app_def)
qed

lemma disconnect_served:
  "\<exists>s'. service_session plain_app (Inr (disconnect_request 7)) (new_session 1) = (Inr (), s') \<and> sent s' = [goodbye]"
proof -
  have op: "map_of handler_map OP_DISCONNECT = Some handle_disconnect" by (simp add: handler_map_def token_values)
  have rq: "env_op (disconnect_request 7) = OP_DISCONNECT" "env_kind (disconnect_request 7) = KIND_REQUEST"
    "env_version (disconnect_request 7) = PROTOCOL_VERSION" "env_payload (disconnect_request 7) = dyn_new 0 []"
    by (simp_all add: disconnect_request_def request_envelope_def new_envelope_def)
  obtain p s1 where load: "liftS (load (dyn_new 0 [])) (new_session 1) = (Inr p, s1)"
    and s1: "sent s1 = []" "ctx_of s1 = new_context 1" "registry (store_in s1) = []"
    by (auto simp: liftS_def load_def dyn_new_def load_value.simps new_session_def empty_store_def split: prod.splits)
  have nz: "OP_DISCONNECT \<noteq> 0" by (simp add: token_values)
  have "\<exists>s'. handle_request plain_app (disconnect_request 7) p s1 = (Inr (), s') \<and> sent s' = [goodbye]"
  proof -
    let ?s2 = "s1\<lparr> world := (world s1)\<lparr> w_ctx := (new_context 1)\<lparr> current_group := env_group (disconnect_request 7) \<rparr> \<rparr> \<rparr>"
    have "handle_request plain_app (disconnect_request 7) p s1 = handle_disconnect plain_app (disconnect_request 7) p ?s2"
      using s1(2) by (simp add: handle_request_def rq nz op bindS_def update_ctx_def)
    also have "\<exists>s3. cleanup_context plain_app ?s2 = (Inr (), s3) \<and> sent s3 = []"
      using s1(1) by (simp add: cleanup_context_def new_context_def bindS_def retS_def update_ctx_def)
    then obtain s3 where 3: "cleanup_context plain_app ?s2 = (Inr (), s3)" "sent s3 = []" by blast
    obtain s4 where 4: "respond_empty plain_app (disconnect_request 7) OP_DISCONNECT s3 = (Inr (), s4)" "sent s4 = [goodbye]"
      using respond_empty_sends [of "disconnect_request 7" OP_DISCONNECT s3] 3(2) by (auto simp: goodbye_def)
    have "handle_disconnect plain_app (disconnect_request 7) p ?s2 = (Inr (), s4\<lparr> conn_closed := True \<rparr>)"
      by (simp add: handle_disconnect_def bindS_def 3(1) swallow_def catchS_def 4(1) retS_def conn_close_def)
    finally show ?thesis using 4(2) by simp
  qed
  then show ?thesis by (auto simp: service_session_def bindS_def rq load catchS_def)
qed


end
