(* ===== verification/Bridge.thy ===== *)
theory Bridge
  imports Rmi_Groups Rmi_Roundtrip
begin

text \<open>
  The bridge, \<open>src/rmi/bridge/bridge.cpp\<close>: a server whose object requests are relayed to one upstream
  server over one client connection, and whose upstream events are broadcast to its own sessions.
  The upstream connection is taken at the level of its envelopes (the wire between them is the
  subject of \<open>Rmi_Roundtrip\<close>).
\<close>

section \<open>State\<close>

record bridge_session =
  bs_active :: bool
  bs_emit :: bool

text \<open>
  The sessions, the client of the upstream connection, the counter of its request ids, and the
  session that serves it at the upstream server.
\<close>

record bridge =
  br_sessions :: "bridge_session smap"
  br_client :: client
  br_ids :: hash_t
  br_up :: session

definition on_session_created :: "session_context \<Rightarrow> bridge \<Rightarrow> bridge" where
  "on_session_created c b =
     b\<lparr> br_sessions := map_emplace (session_id c) \<lparr> bs_active = True, bs_emit = emits c \<rparr> (br_sessions b) \<rparr>"

section \<open>Requests to the upstream server\<close>

text \<open>
  \<open>send_request_with_group(...).get()\<close> over a working connection: the upstream session serves the
  request, and the response with its id decides the outcome (\<open>Unset\<close> when none comes and \<open>get\<close> never
  returns); a one-way request has its empty result at once.
\<close>

definition relayed_request :: "hash_t \<Rightarrow> hash_t \<Rightarrow> hash_t \<Rightarrow> dvalue smap \<Rightarrow> bool \<Rightarrow> bridge \<Rightarrow> envelope" where
  "relayed_request op oid grp payload oneway b = request_envelope (fst (generate_id (br_ids b))) op oid grp payload oneway"

definition upstream_request :: "app \<Rightarrow> ns_map \<Rightarrow> hash_t \<Rightarrow> hash_t \<Rightarrow> hash_t \<Rightarrow> dvalue smap \<Rightarrow> bool \<Rightarrow> bridge \<Rightarrow> outcome \<times> bridge" where
  "upstream_request up reg op oid grp payload oneway b =
     (let rq = relayed_request op oid grp payload oneway b;
          s' = snd (service_session up (Inr rq) (br_up b));
          b' = b\<lparr> br_ids := snd (generate_id (br_ids b)), br_up := s' \<rparr>;
          answers = filter (\<lambda>e. env_request_id e = env_request_id rq) (responses (drop (length (sent (br_up b))) (sent s')))
      in (if oneway then Value (dyn_new 0 [])
          else (case answers of [] \<Rightarrow> Unset | e # _ \<Rightarrow> response_outcome reg e), b'))"

section \<open>Relaying\<close>

definition relayed_ops :: "hash_t list" where
  "relayed_ops = [OP_INSTANTIATE, OP_SET, OP_GET, OP_CALL, OP_CLEAR, OP_DESTROY]"

text \<open>
  \<open>try_handle_request\<close> on a session: whether the request was handled; \<open>None\<close> when the upstream future
  never becomes ready.
\<close>

definition relay_reply :: "app \<Rightarrow> envelope \<Rightarrow> outcome \<Rightarrow> unit saction" where
  "relay_reply app rq out =
     catchS
       (case out of
          Value result \<Rightarrow> bindS (liftS (load result)) (send_response app rq (env_op rq))
        | Failed message \<Rightarrow> throwS (App_error message)
        | _ \<Rightarrow> throwS (App_error ''Broken promise''))
       (\<lambda>e. send_error app rq (env_op rq) ERR_INTERNAL_ERROR (case e of App_error message \<Rightarrow> message | _ \<Rightarrow> a_what app e))"

definition try_handle_request :: "app \<Rightarrow> app \<Rightarrow> ns_map \<Rightarrow> envelope \<Rightarrow> bridge \<Rightarrow> session \<Rightarrow> (bool result \<times> session) option \<times> bridge" where
  "try_handle_request app up reg rq b s =
     (if env_op rq \<notin> set relayed_ops then (Some (Inr False, s), b)
      else (case upstream_request up reg (env_op rq) (env_object_id rq) (session_id (ctx_of s)) (env_payload rq) (env_oneway rq) b of
              (Unset, b') \<Rightarrow> (None, b')
            | (out, b') \<Rightarrow> (Some (bindS (relay_reply app rq out) (\<lambda>_. retS True) s), b')))"

text \<open>\<open>handle_request\<close> with the hook.\<close>

definition bridge_handle_request :: "app \<Rightarrow> app \<Rightarrow> ns_map \<Rightarrow> envelope \<Rightarrow> addr \<Rightarrow> bridge \<Rightarrow> session \<Rightarrow> (unit result \<times> session) option \<times> bridge" where
  "bridge_handle_request app up reg rq p b s =
     (if \<not> well_formed_request rq then (Some (handle_request app rq p s), b)
      else (case try_handle_request app up reg rq b s of
              (None, b') \<Rightarrow> (None, b')
            | (Some (Inl e, s'), b') \<Rightarrow> (Some (Inl e, s'), b')
            | (Some (Inr taken, s'), b') \<Rightarrow> (Some (if taken then (Inr (), s') else handle_request app rq p s'), b')))"

section \<open>Closing a session\<close>

text \<open>\<open>teardown_session\<close>; an entry without state is only erased.\<close>

definition bridge_teardown :: "app \<Rightarrow> ns_map \<Rightarrow> hash_t \<Rightarrow> bridge \<Rightarrow> bridge" where
  "bridge_teardown up reg sid b =
     (case map_of (br_sessions b) sid of
        None \<Rightarrow> b
      | Some _ \<Rightarrow> snd (upstream_request up reg OP_DESTROY_GROUP 0 sid (dyn_new 0 []) True
           (b\<lparr> br_sessions := map_erase sid (br_sessions b) \<rparr>)))"

definition on_session_destroyed :: "app \<Rightarrow> ns_map \<Rightarrow> session_context \<Rightarrow> bridge \<Rightarrow> bridge" where
  "on_session_destroyed up reg c b = bridge_teardown up reg (session_id c) b"

section \<open>Events\<close>

text \<open>The name and the parameters of an event, as \<open>route_event\<close> reads them.\<close>

definition event_of :: "ns_map \<Rightarrow> envelope \<Rightarrow> (hash_t \<times> dvalue smap \<times> dvalue smap) result" where
  "event_of reg env =
     bindE (tree_find reg FIELD_NAME (env_payload env)) (\<lambda>(named, m1).
     bindE (tree_find reg FIELD_PARAMS m1) (\<lambda>(given, m2).
       Inr (if named then (case tree_value m1 FIELD_NAME of KeyV n \<Rightarrow> n | _ \<Rightarrow> 0) else 0,
            if given then (case tree_value m2 FIELD_PARAMS of PtrV (Some (Dyn kvs)) \<Rightarrow> kvs | _ \<Rightarrow> dyn_new 0 []) else dyn_new 0 [],
            m2)))"

text \<open>
  The loop over the sessions (in key order); \<open>fails sid\<close> says that \<open>emit\<close> of that session throws. What
  was delivered, and whether the loop ended normally.
\<close>

type_synonym delivery = "hash_t \<times> hash_t \<times> hash_t \<times> dvalue smap"

fun broadcast :: "(hash_t \<Rightarrow> bool) \<Rightarrow> hash_t \<times> hash_t \<times> dvalue smap \<Rightarrow> bridge_session smap \<Rightarrow> delivery list \<times> bool" where
  "broadcast fails ev [] = ([], True)"
| "broadcast fails ev ((sid, ss) # rest) =
     (if \<not> bs_active ss \<or> \<not> bs_emit ss then broadcast fails ev rest
      else if fails sid then ([], False)
      else (case broadcast fails ev rest of (ds, ok) \<Rightarrow> ((sid, ev) # ds, ok)))"

definition route_event :: "(hash_t \<Rightarrow> bool) \<Rightarrow> ns_map \<Rightarrow> envelope \<Rightarrow> bridge \<Rightarrow> delivery list \<times> bool \<times> bridge" where
  "route_event fails reg env b =
     (case event_of reg env of
        Inl _ \<Rightarrow> ([], False, b)
      | Inr (name, params, m) \<Rightarrow> (case broadcast fails (env_object_id env, name, params) (br_sessions b) of
            (ds, ok) \<Rightarrow> (ds, ok, if ok then b\<lparr> br_client := snd (process_frame reg (env\<lparr> env_payload := m \<rparr>) (br_client b)) \<rparr> else b)))"

text \<open>
  \<open>receive\<close> of the event-intercepting transport over the frames that arrive before its deadline: the
  frame it returns, the frames left, and the deliveries. An exception returns the frame unchanged.
\<close>

fun bridge_receive :: "(hash_t \<Rightarrow> bool) \<Rightarrow> ns_map \<Rightarrow> buffer list \<Rightarrow> bridge \<Rightarrow> buffer option \<times> buffer list \<times> delivery list \<times> bridge" where
  "bridge_receive fails reg [] b = (None, [], [], b)"
| "bridge_receive fails reg (f # fs) b =
     (case decode reg f of
        Inl _ \<Rightarrow> (Some f, fs, [], b)
      | Inr env \<Rightarrow>
          if env_kind env = KIND_EVENT then
            (case route_event fails reg env b of
               (ds, False, b1) \<Rightarrow> (Some f, fs, ds, b1)
             | (ds, True, b1) \<Rightarrow> (case bridge_receive fails reg fs b1 of (r, rest, ds', b2) \<Rightarrow> (r, rest, ds @ ds', b2)))
          else (Some f, fs, [], b))"

section \<open>The upstream session under the bridge\<close>

text \<open>A request whose handling, if it drops a group, runs to its end.\<close>

definition undisturbed :: "app \<Rightarrow> envelope \<Rightarrow> session \<Rightarrow> bool" where
  "undisturbed up rq s \<longleftrightarrow>
     (\<forall>p s1 r s2. liftS (load (env_payload rq)) s = (Inr p, s1) \<longrightarrow> handle_request up rq p s1 = (r, s2) \<longrightarrow> handled rq r)"

lemma lift_load_ctx: "liftS (load m) s = (r, s') \<Longrightarrow> ctx_of s' = ctx_of s"
  by (rule ctx_sameD [OF same.resp_lift])

lemma service_context:
  assumes "service_session up (Inr rq) s = (r, s')"
  obtains "ctx_of s' = ctx_of s" "\<And>p s1. liftS (load (env_payload rq)) s \<noteq> (Inr p, s1)"
  | p s1 r2 s2 where "liftS (load (env_payload rq)) s = (Inr p, s1)" "handle_request up rq p s1 = (r2, s2)"
      "ctx_of s1 = ctx_of s" "ctx_of s' = ctx_of s2"
proof -
  obtain r1 s1 where load: "liftS (load (env_payload rq)) s = (r1, s1)" by fastforce
  have s1: "ctx_of s1 = ctx_of s" by (rule lift_load_ctx [OF load])
  show ?thesis
  proof (cases r1)
    case (Inl e)
    then show ?thesis using assms load s1 that(1) by (auto simp: service_session_def bindS_def)
  next
    case (Inr p)
    obtain r2 s2 where handle: "handle_request up rq p s1 = (r2, s2)" by fastforce
    have "ctx_same (swallow (send_error up rq op code msg))" for op code msg
      by (intro same.resp_swallow same.resp_response)
    then have "ctx_of s' = ctx_of s2"
      using assms load Inr handle
      by (auto simp: service_session_def bindS_def catchS_def dest!: ctx_sameD split: sum.splits if_splits)
    with that(2) load Inr handle s1 show ?thesis by blast
  qed
qed

lemma served_service:
  assumes "served own s" and "well_behaved filing up" and "undisturbed up rq s" and "service_session up (Inr rq) s = (r, s')"
  shows "served (owner_after (env_group rq) (ctx_of s) (ctx_of s') own) s'"
  using assms(4)
proof (cases rule: service_context)
  case 1
  then have "owner_after (env_group rq) (ctx_of s) (ctx_of s') own = own" by (simp add: owner_after_def fun_eq_iff)
  then show ?thesis using served.between [OF assms(1) 1(1)] by simp
next
  case (2 p s1 r2 s2)
  have "handled rq r2" using assms(3) 2(1,2) by (auto simp: undisturbed_def)
  from served.request [OF served.between [OF assms(1) 2(3)] assms(2) 2(2) this]
  have "served (owner_after (env_group rq) (ctx_of s1) (ctx_of s2) own) s2" .
  from served.between [OF this 2(4)] show ?thesis by (simp add: 2(3,4))
qed

lemma relayed_request_simps [simp]:
  "env_op (relayed_request op oid grp payload oneway b) = op"
  "env_group (relayed_request op oid grp payload oneway b) = grp"
  "env_object_id (relayed_request op oid grp payload oneway b) = oid"
  "env_payload (relayed_request op oid grp payload oneway b) = payload"
  "env_kind (relayed_request op oid grp payload oneway b) = KIND_REQUEST"
  "env_version (relayed_request op oid grp payload oneway b) = PROTOCOL_VERSION"
  by (simp_all add: relayed_request_def request_envelope_def new_envelope_def)

lemma undisturbed_other: "env_op rq \<notin> {OP_DESTROY_GROUP, OP_DISCONNECT} \<Longrightarrow> undisturbed up rq s"
  by (auto simp: undisturbed_def handled_def)

lemma served_upstream:
  assumes "served own (br_up b)" and "well_behaved filing up"
    and "undisturbed up (relayed_request op oid grp payload oneway b) (br_up b)"
    and "upstream_request up reg op oid grp payload oneway b = (out, b')"
  shows "served (owner_after grp (ctx_of (br_up b)) (ctx_of (br_up b')) own) (br_up b')"
proof -
  obtain r s' where run: "service_session up (Inr (relayed_request op oid grp payload oneway b)) (br_up b) = (r, s')" by fastforce
  have "br_up b' = s'" using assms(4) run by (auto simp: upstream_request_def Let_def)
  then show ?thesis using served_service [OF assms(1,2,3) run] by simp
qed

section \<open>A bridge at work\<close>

text \<open>
  Sessions come and go, relay requests, and are told events; the bridge itself sends requests without
  a group (its own widgets). The upstream application may do anything a \<open>filing\<close> one does, and
  something else at every request.
\<close>

inductive bridge_run :: "ns_map \<Rightarrow> (hash_t \<Rightarrow> hash_t) \<Rightarrow> bridge \<Rightarrow> bool" for reg where
  begun: "objects (ctx_of (br_up b)) = [] \<Longrightarrow> bridge_run reg own b"
| joined: "bridge_run reg own b \<Longrightarrow> bridge_run reg own (on_session_created c b)"
| relayed: "bridge_run reg own b \<Longrightarrow> well_behaved filing up \<Longrightarrow> bridge_handle_request app up reg rq p b s = (res, b') \<Longrightarrow>
     bridge_run reg (owner_after (session_id (ctx_of s)) (ctx_of (br_up b)) (ctx_of (br_up b')) own) b'"
| left: "bridge_run reg own b \<Longrightarrow> well_behaved filing up \<Longrightarrow>
     undisturbed up (relayed_request OP_DESTROY_GROUP 0 (session_id c) (dyn_new 0 []) True b) (br_up b) \<Longrightarrow>
     on_session_destroyed up reg c b = b' \<Longrightarrow>
     bridge_run reg (owner_after (session_id c) (ctx_of (br_up b)) (ctx_of (br_up b')) own) b'"
| asked: "bridge_run reg own b \<Longrightarrow> well_behaved filing up \<Longrightarrow> op \<notin> {OP_DESTROY_GROUP, OP_DISCONNECT} \<Longrightarrow>
     upstream_request up reg op oid 0 payload oneway b = (out, b') \<Longrightarrow>
     bridge_run reg (owner_after 0 (ctx_of (br_up b)) (ctx_of (br_up b')) own) b'"
| told: "bridge_run reg own b \<Longrightarrow> bridge_receive fails reg frames b = (r, rest, ds, b') \<Longrightarrow> bridge_run reg own b'"

lemma owner_same [simp]: "owner_after g c c own = own"
  by (simp add: owner_after_def fun_eq_iff)

lemma receive_up: "bridge_receive fails reg frames b = (r, rest, ds, b') \<Longrightarrow> br_up b' = br_up b"
proof (induction frames arbitrary: b r rest ds b')
  case (Cons f fs)
  show ?case
  proof (cases "decode reg f")
    case (Inr env)
    obtain ds1 ok b1 where route: "route_event fails reg env b = (ds1, ok, b1)" by (cases "route_event fails reg env b") auto
    have b1: "br_up b1 = br_up b" using route by (auto simp: route_event_def split: sum.splits prod.splits if_splits)
    obtain r2 rest2 ds2 b2 where rec: "bridge_receive fails reg fs b1 = (r2, rest2, ds2, b2)"
      by (cases "bridge_receive fails reg fs b1") auto
    show ?thesis using Cons.prems Inr route b1 Cons.IH [OF rec] rec by (cases ok) (auto split: if_splits)
  qed (use Cons.prems in simp)
qed simp

lemma relayed_served:
  assumes "served own (br_up b)" and "well_behaved filing up" and "bridge_handle_request app up reg rq p b s = (res, b')"
  shows "served (owner_after (session_id (ctx_of s)) (ctx_of (br_up b)) (ctx_of (br_up b')) own) (br_up b')"
proof (cases "well_formed_request rq \<and> env_op rq \<in> set relayed_ops")
  case False
  then have "b' = b" using assms(3) by (auto simp: bridge_handle_request_def try_handle_request_def split: if_splits)
  then show ?thesis using assms(1) by simp
next
  case True
  let ?sid = "session_id (ctx_of s)"
  obtain out b1 where up: "upstream_request up reg (env_op rq) (env_object_id rq) ?sid (env_payload rq) (env_oneway rq) b = (out, b1)"
    by fastforce
  have "b' = b1"
    using assms(3) True up
    by (auto simp: bridge_handle_request_def try_handle_request_def split: outcome.splits option.splits prod.splits sum.splits)
  moreover have "env_op rq \<notin> {OP_DESTROY_GROUP, OP_DISCONNECT}" using True by (auto simp: relayed_ops_def token_values)
  ultimately show ?thesis
    using served_upstream [OF assms(1,2) undisturbed_other up] by simp
qed

lemma bridge_run_served: "bridge_run reg own b \<Longrightarrow> served own (br_up b)"
proof (induction rule: bridge_run.induct)
  case (begun b own)
  then show ?case by (rule served.opened)
next
  case (joined own b c)
  then show ?case by (simp add: on_session_created_def)
next
  case (relayed own b up app rq p s res b')
  from relayed_served [OF relayed.IH relayed(2,3)] show ?case .
next
  case (left own b up c b')
  show ?case
  proof (cases "map_of (br_sessions b) (session_id c)")
    case None
    then have "b' = b" using left(4) by (simp add: on_session_destroyed_def bridge_teardown_def)
    then show ?thesis using left.IH by simp
  next
    case (Some ss)
    let ?b = "b\<lparr> br_sessions := map_erase (session_id c) (br_sessions b) \<rparr>"
    obtain out b1 where up: "upstream_request up reg OP_DESTROY_GROUP 0 (session_id c) (dyn_new 0 []) True ?b = (out, b1)" by fastforce
    have "b' = b1" using left(4) Some up by (simp add: on_session_destroyed_def bridge_teardown_def)
    moreover have "undisturbed up (relayed_request OP_DESTROY_GROUP 0 (session_id c) (dyn_new 0 []) True ?b) (br_up ?b)"
      using left(3) by (simp add: relayed_request_def)
    ultimately show ?thesis using served_upstream [of own ?b, OF _ left(2) _ up] left.IH by simp
  qed
next
  case (asked own b up op oid payload oneway out b')
  from served_upstream [OF asked.IH asked(2) undisturbed_other asked(4)] asked(3) show ?case by simp
next
  case (told own b fails frames r rest ds b')
  then show ?case using receive_up by metis
qed

section \<open>A closed session leaves nothing behind\<close>

lemma load_empty: "\<exists>p s1. liftS (load (dyn_new 0 [])) s = (Inr p, s1)"
  by (auto simp: liftS_def load_def dyn_new_def load_value.simps split: prod.splits)

lemma destroyed_group:
  assumes "owners_filed own (ctx_of s)" and "neutral up" and "well_formed_request rq" and "env_op rq = OP_DESTROY_GROUP"
    and "env_group rq \<noteq> 0" and "handle_request up rq p s = (Inr (), s')"
  shows "own i = env_group rq \<Longrightarrow> map_of (objects (ctx_of s')) i = None"
    and "\<not> filed (ctx_of s) (env_group rq) i \<Longrightarrow> map_of (objects (ctx_of s')) i = map_of (objects (ctx_of s)) i"
proof -
  have "table_of (ctx_of s') = \<lparr> live = live (table_of (ctx_of s)) |` (- members (table_of (ctx_of s)) (env_group rq)),
      members = (members (table_of (ctx_of s)))(env_group rq := {}) \<rparr>"
    using handle_request_table [OF assms(2,6)] assms(3-5) by (simp add: table_spec_def op_distinct)
  then have live: "live (table_of (ctx_of s')) = live (table_of (ctx_of s)) |` (- members (table_of (ctx_of s)) (env_group rq))"
    by simp
  have objects: "map_of (objects (ctx_of s')) i =
      (if filed (ctx_of s) (env_group rq) i then None else map_of (objects (ctx_of s)) i)" for i
    using fun_cong [OF live, of i] by (simp add: table_of_def filed_def restrict_map_def)
  show "\<not> filed (ctx_of s) (env_group rq) i \<Longrightarrow> map_of (objects (ctx_of s')) i = map_of (objects (ctx_of s)) i"
    by (simp add: objects)
  show "own i = env_group rq \<Longrightarrow> map_of (objects (ctx_of s')) i = None"
    using assms(1,5) by (cases "map_of (objects (ctx_of s)) i") (auto simp: objects owners_filed_def)
qed


section \<open>Events reach every session\<close>

definition event_frame :: "ns_map \<Rightarrow> buffer \<Rightarrow> envelope \<Rightarrow> hash_t \<Rightarrow> dvalue smap \<Rightarrow> bool" where
  "event_frame reg f env name params \<longleftrightarrow> decode reg f = Inr env \<and> env_kind env = KIND_EVENT \<and>
     (\<exists>m. event_of reg env = Inr (name, params, m))"

definition targets :: "bridge \<Rightarrow> hash_t list" where
  "targets b = map fst (filter (\<lambda>(sid, ss). bs_active ss \<and> bs_emit ss) (br_sessions b))"

lemma broadcast_all:
  "(\<And>sid. \<not> fails sid) \<Longrightarrow>
   broadcast fails ev ss = (map (\<lambda>sid. (sid, ev)) (map fst (filter (\<lambda>(sid, st). bs_active st \<and> bs_emit st) ss)), True)"
  by (induction fails ev ss rule: broadcast.induct) auto

lemma route_all:
  assumes "event_of reg env = Inr (name, params, m)" and "\<And>sid. \<not> fails sid"
  shows "\<exists>b'. route_event fails reg env b = (map (\<lambda>sid. (sid, env_object_id env, name, params)) (targets b), True, b') \<and>
    br_sessions b' = br_sessions b"
  using assms by (simp add: route_event_def broadcast_all targets_def)


text \<open>
  One session whose \<open>emit\<close> throws (its connection is lost) ends the broadcast: the sessions after it
  do not get the event, and the frame is returned to the upstream client.
\<close>

lemma failed_emit_starves:
  assumes "event_of reg env = Inr (name, params, m)" and "decode reg f = Inr env" and "env_kind env = KIND_EVENT"
    and "br_sessions b = (sid, ss) # rest" and "bs_active ss" and "bs_emit ss" and "fails sid"
  shows "bridge_receive fails reg (f # fs) b = (Some f, fs, [], b)"
  using assms by (simp add: route_event_def)

text \<open>A relayed one-way request is answered, although its sender asked for no answer.\<close>

lemma oneway_answered:
  assumes "env_op rq \<in> set relayed_ops" and "env_oneway rq"
    and "\<And>n. a_send app n = None" and "liftS (load (dyn_new 0 [])) s = (Inr a, s1)" and "liftS (dump a) s1 = (Inr m, s2)"
  shows "\<exists>b' s'. try_handle_request app up reg rq b s = (Some (Inr True, s'), b') \<and>
    sent s' = sent s2 @ [(response_to rq (env_op rq))\<lparr> env_payload := m \<rparr>]"
proof -
  obtain b' where up: "upstream_request up reg (env_op rq) (env_object_id rq) (session_id (ctx_of s)) (env_payload rq)
      (env_oneway rq) b = (Value (dyn_new 0 []), b')"
    using assms(2) by (auto simp: upstream_request_def Let_def)
  have reply: "relay_reply app rq (Value (dyn_new 0 [])) s = conn_send app ((response_to rq (env_op rq))\<lparr> env_payload := m \<rparr>) s2"
    by (simp add: relay_reply_def catchS_def bindS_def assms(4) send_response_def assms(5) conn_send_def assms(3))
  show ?thesis using assms(1)
    by (simp add: try_handle_request_def up bindS_def reply conn_send_def assms(3) retS_def)
qed

section \<open>The properties at work\<close>

definition small_bridge :: bridge where
  "small_bridge = \<lparr> br_sessions = [], br_client = new_client, br_ids = 1, br_up = new_session 1 \<rparr>"

lemma small_undisturbed:
  assumes "groups (ctx_of s) = []"
  shows "undisturbed plain_app (relayed_request OP_DESTROY_GROUP 0 g (dyn_new 0 []) True b) s"
  unfolding undisturbed_def
proof (intro allI impI)
  let ?rq = "relayed_request OP_DESTROY_GROUP 0 g (dyn_new 0 []) True b"
  fix p s1 r s2
  assume load: "liftS (load (env_payload ?rq)) s = (Inr p, s1)" and run: "handle_request plain_app ?rq p s1 = (r, s2)"
  let ?g = "s1\<lparr> world := (world s1)\<lparr> w_ctx := (ctx_of s1)\<lparr> current_group := g \<rparr> \<rparr> \<rparr>"
  have "groups (ctx_of s1) = []" using lift_load_ctx [OF load] assms by simp
  moreover have "OP_DESTROY_GROUP \<noteq> 0" by (simp add: token_values)
  ultimately have "respond_empty plain_app ?rq OP_DESTROY_GROUP ?g = (r, s2)"
    using run by (simp add: handle_request_def bind_update handler_lookup handle_destroy_group_def)
  then show "handled ?rq r" using respond_empty_sends [of ?rq OP_DESTROY_GROUP ?g] by (auto simp: handled_def)
qed


definition an_event :: envelope where
  "an_event = event_envelope 9 (map_put FIELD_NAME (KeyV 3) (map_put FIELD_PARAMS (PtrV None) (dyn_new 0 [])))"


end
