(* ===== verification/Floats.thy ===== *)
theory Floats
  imports Text
begin

text \<open>
  What the sources ask of the host's IEEE 754 arithmetic: the conversions between \<open>float\<close>,
  \<open>double\<close> and integers, rounding to nearest even, and the output of a \<open>float\<close> on a stream with
  \<open>std::setprecision(7)\<close>. A number is its bit pattern.
\<close>

section \<open>Rounding\<close>

text \<open>\<open>n / 2^s\<close> rounded to the nearest integer, to the even one between two.\<close>

definition round_shift :: "nat \<Rightarrow> nat \<Rightarrow> nat" where
  "round_shift n s =
     (if s = 0 then n
      else let q = n div 2 ^ s; r = n mod 2 ^ s; half = 2 ^ (s - 1)
           in if half < r \<or> r = half \<and> odd q then q + 1 else q)"

lemma round_shift_exact [simp]: "round_shift (q * 2 ^ s) s = q"
  by (simp add: round_shift_def Let_def)

fun bit_len :: "nat \<Rightarrow> nat" where
  "bit_len n = (if n = 0 then 0 else Suc (bit_len (n div 2)))"

declare bit_len.simps [simp del]

lemma bit_len_bounds: "0 < n \<Longrightarrow> 0 < bit_len n \<and> 2 ^ (bit_len n - 1) \<le> n \<and> n < 2 ^ bit_len n"
proof (induction n rule: bit_len.induct)
  case (1 n)
  show ?case
  proof (cases "n div 2 = 0")
    case True
    then have "n = 1" using 1(2) by simp
    then show ?thesis by (simp add: bit_len.simps)
  next
    case False
    then have IH: "0 < bit_len (n div 2)" "2 ^ (bit_len (n div 2) - 1) \<le> n div 2" "n div 2 < 2 ^ bit_len (n div 2)"
      using 1 by auto
    then obtain k where k: "bit_len (n div 2) = Suc k" by (auto simp: gr0_conv_Suc)
    have "2 * 2 ^ k \<le> n" "n < 2 * (2 * 2 ^ k)" using IH(2,3) by (simp_all add: k)
    then show ?thesis using 1(2) by (subst (1 2 3) bit_len.simps) (simp add: k)
  qed
qed

section \<open>Conversions\<close>

text \<open>The parts of a pattern: sign, magnitude, exponent field and fraction.\<close>

definition float_mag :: "u32 \<Rightarrow> nat" where
  "float_mag w = unat w mod 2 ^ 31"

definition double_mag :: "u64 \<Rightarrow> nat" where
  "double_mag w = unat w mod 2 ^ 63"

definition float_neg :: "u32 \<Rightarrow> bool" where
  "float_neg w \<longleftrightarrow> 2 ^ 31 \<le> unat w"

definition double_neg :: "u64 \<Rightarrow> bool" where
  "double_neg w \<longleftrightarrow> 2 ^ 63 \<le> unat w"

definition make_float :: "bool \<Rightarrow> nat \<Rightarrow> u32" where
  "make_float neg m = of_nat (m + (if neg then 2 ^ 31 else 0))"

definition make_double :: "bool \<Rightarrow> nat \<Rightarrow> u64" where
  "make_double neg m = of_nat (m + (if neg then 2 ^ 63 else 0))"

definition float_finite :: "u32 \<Rightarrow> bool" where
  "float_finite w \<longleftrightarrow> float_mag w < 255 * 2 ^ 23"

definition double_finite :: "u64 \<Rightarrow> bool" where
  "double_finite w \<longleftrightarrow> double_mag w < 2047 * 2 ^ 52"

text \<open>\<open>float\<close> to \<open>double\<close> (exact; a NaN becomes quiet) and back.\<close>

definition widen_mag :: "nat \<Rightarrow> nat" where
  "widen_mag m =
     (let e = m div 2 ^ 23; f = m mod 2 ^ 23
      in if e = 255 then 2047 * 2 ^ 52 + (if f = 0 then 0 else if f < 2 ^ 22 then f + 2 ^ 22 else f) * 2 ^ 29
         else if e \<noteq> 0 then (e + 896) * 2 ^ 52 + f * 2 ^ 29
         else if f = 0 then 0
         else let k = bit_len f - 1 in (k + 874) * 2 ^ 52 + (f - 2 ^ k) * 2 ^ (52 - k))"

definition widen :: "u32 \<Rightarrow> u64" where
  "widen w = make_double (float_neg w) (widen_mag (float_mag w))"

definition narrow_mag :: "nat \<Rightarrow> nat" where
  "narrow_mag m =
     (let e = m div 2 ^ 52; f = m mod 2 ^ 52;
          sig = (if e = 0 then f else 2 ^ 52 + f); ex = (if e = 0 then 1 else e)
      in if e = 2047 then 255 * 2 ^ 23 + (if f = 0 then 0 else let g = f div 2 ^ 29 in if g < 2 ^ 22 then g + 2 ^ 22 else g)
         else if 897 \<le> ex then min (255 * 2 ^ 23) ((ex - 897) * 2 ^ 23 + round_shift sig 29)
         else round_shift sig (29 + (897 - ex)))"

definition narrow :: "u64 \<Rightarrow> u32" where
  "narrow w = make_float (double_neg w) (narrow_mag (double_mag w))"

text \<open>An integer to \<open>float\<close> (of magnitude below \<open>2^127\<close>).\<close>

definition int_to_float :: "int \<Rightarrow> u32" where
  "int_to_float i =
     (let a = nat \<bar>i\<bar>; k = bit_len a - 1
      in if a = 0 then 0
         else make_float (i < 0) ((k + 126) * 2 ^ 23 + (if k \<le> 23 then a * 2 ^ (23 - k) else round_shift a (k - 23))))"

section \<open>Narrowing what was widened\<close>

lemma float_mag_less: "float_mag w < 2 ^ 31"
  by (simp add: float_mag_def)

lemma make_float_parts: "make_float (float_neg w) (float_mag w) = w"
proof -
  have "unat w < 2 ^ 32" using unsigned_less [of w] by simp
  then have "float_mag w + (if float_neg w then 2 ^ 31 else 0) = unat w"
    by (auto simp: float_mag_def float_neg_def mod_if)
  then show ?thesis by (simp add: make_float_def)
qed

lemma unat_small: "n < 2 ^ 64 \<Longrightarrow> unat (of_nat n :: u64) = n"
  by (simp add: unat_of_nat take_bit_nat_eq_self)

lemma make_double_parts:
  assumes "m < 2 ^ 63"
  shows "double_mag (make_double neg m) = m" and "double_neg (make_double neg m) = neg"
proof -
  have "m + (if neg then 2 ^ 63 else 0) < 2 ^ 64" using assms by simp
  then have u: "unat (make_double neg m) = m + (if neg then 2 ^ 63 else 0)"
    unfolding make_double_def by (rule unat_small)
  show "double_mag (make_double neg m) = m" using assms by (simp add: double_mag_def u)
  show "double_neg (make_double neg m) = neg" using assms by (simp add: double_neg_def u)
qed

lemma split_parts:
  fixes x y :: nat
  assumes "y < 2 ^ n"
  shows "(x * 2 ^ n + y) div 2 ^ n = x" and "(x * 2 ^ n + y) mod 2 ^ n = y"
  using assms by simp_all

lemma narrow_widen_mag:
  assumes "m < 255 * 2 ^ 23"
  shows "widen_mag m < 2047 * 2 ^ 52 \<and> narrow_mag (widen_mag m) = m"
proof -
  let ?e = "m div 2 ^ 23" and ?f = "m mod 2 ^ 23"
  have m: "m = ?e * 2 ^ 23 + ?f" by (simp only: div_mult_mod_eq)
  have e: "?e < 255" using assms by (simp add: less_mult_imp_div_less)
  have f: "?f < 2 ^ 23" by simp
  consider "?e \<noteq> 0" | "?e = 0" "?f = 0" | "?e = 0" "?f \<noteq> 0" by blast
  then show ?thesis
  proof cases
    case 1
    then have w: "widen_mag m = (?e + 896) * 2 ^ 52 + ?f * 2 ^ 29" using e by (simp add: widen_mag_def Let_def)
    have f52: "?f * 2 ^ 29 < 2 ^ 52" using f by simp
    have parts: "widen_mag m div 2 ^ 52 = ?e + 896" "widen_mag m mod 2 ^ 52 = ?f * 2 ^ 29"
      using f52 unfolding w by (simp_all only: split_parts)
    have "2 ^ 52 + ?f * 2 ^ 29 = (2 ^ 23 + ?f) * 2 ^ 29" by simp
    then have "narrow_mag (widen_mag m) = min (255 * 2 ^ 23) ((?e + 896 - 897) * 2 ^ 23 + round_shift ((2 ^ 23 + ?f) * 2 ^ 29) 29)"
      using e 1 unfolding narrow_mag_def Let_def parts by simp
    also have "\<dots> = min (255 * 2 ^ 23) ((?e - 1) * 2 ^ 23 + (2 ^ 23 + ?f))"
      unfolding round_shift_exact by simp
    also have "(?e - 1) * 2 ^ 23 + (2 ^ 23 + ?f) = ?e * 2 ^ 23 + ?f" using 1 by (cases ?e) simp_all
    also have "\<dots> = m" by (simp only: div_mult_mod_eq)
    also have "min (255 * 2 ^ 23) m = m" using assms by simp
    finally show ?thesis using e f52 unfolding w by simp
  next
    case 2
    then have "m = 0" using m by simp
    then show ?thesis by (simp add: widen_mag_def narrow_mag_def Let_def round_shift_def)
  next
    case 3
    then have mf: "m = ?f" "0 < ?f" using m by simp_all
    let ?k = "bit_len ?f - 1"
    have k: "2 ^ ?k \<le> ?f" "?f < 2 ^ Suc ?k" using bit_len_bounds [OF mf(2)] by simp_all
    have "(2::nat) ^ ?k < 2 ^ 23" using k(1) f by linarith
    then have k23: "?k < 23" using power_less_imp_less_exp [of "2::nat" ?k 23] by simp
    have w: "widen_mag m = (?k + 874) * 2 ^ 52 + (?f - 2 ^ ?k) * 2 ^ (52 - ?k)"
      using 3 by (simp add: widen_mag_def Let_def)
    have pow: "(2::nat) ^ 52 = 2 ^ ?k * 2 ^ (52 - ?k)" using k23 by (simp flip: power_add)
    have "?f - 2 ^ ?k < 2 ^ ?k" using k unfolding power_Suc by linarith
    then have "(?f - 2 ^ ?k) * 2 ^ (52 - ?k) < 2 ^ ?k * 2 ^ (52 - ?k)" by (rule mult_strict_right_mono) simp
    then have low: "(?f - 2 ^ ?k) * 2 ^ (52 - ?k) < 2 ^ 52" unfolding pow .
    have parts: "widen_mag m div 2 ^ 52 = ?k + 874" "widen_mag m mod 2 ^ 52 = (?f - 2 ^ ?k) * 2 ^ (52 - ?k)"
      using low unfolding w by (simp_all only: split_parts)
    have sig: "2 ^ 52 + (?f - 2 ^ ?k) * 2 ^ (52 - ?k) = ?f * 2 ^ (52 - ?k)"
      using k(1) unfolding pow by (simp flip: add_mult_distrib)
    have shift: "29 + (897 - (?k + 874)) = 52 - ?k" using k23 by simp
    have "narrow_mag (widen_mag m) = round_shift (2 ^ 52 + (?f - 2 ^ ?k) * 2 ^ (52 - ?k)) (29 + (897 - (?k + 874)))"
      using k23 unfolding narrow_mag_def Let_def parts by simp
    also have "\<dots> = ?f" unfolding sig shift round_shift_exact by (rule refl)
    finally have "narrow_mag (widen_mag m) = ?f" .
    moreover have "(?k + 874) * 2 ^ 52 + 2 ^ 52 \<le> 2047 * 2 ^ 52" using k23 by simp
    ultimately show ?thesis using low mf(1) unfolding w by linarith
  qed
qed

text \<open>Every finite \<open>float\<close> survives the way through \<open>double\<close>.\<close>

lemma narrow_widen:
  assumes "float_finite w"
  shows "narrow (widen w) = w" and "double_finite (widen w)"
proof -
  have w: "widen_mag (float_mag w) < 2047 * 2 ^ 52" "narrow_mag (widen_mag (float_mag w)) = float_mag w"
    using narrow_widen_mag [of "float_mag w"] assms by (simp_all add: float_finite_def)
  then have "widen_mag (float_mag w) < 2 ^ 63" by simp
  note parts = make_double_parts [OF this]
  show "narrow (widen w) = w" by (simp add: narrow_def widen_def parts w(2) make_float_parts)
  show "double_finite (widen w)" using w(1) by (simp add: double_finite_def widen_def parts)
qed

section \<open>Output with seven significant digits\<close>

text \<open>\<open>n / d\<close> rounded to the nearest integer, to the even one between two.\<close>

definition round_div :: "nat \<Rightarrow> nat \<Rightarrow> nat" where
  "round_div n d = (let q = n div d; r = n mod d in if d < 2 * r \<or> 2 * r = d \<and> odd q then q + 1 else q)"

text \<open>The power of ten to multiply \<open>n\<close> with until it reaches \<open>d\<close>.\<close>

function first_scale :: "nat \<Rightarrow> nat \<Rightarrow> nat" where
  "first_scale n d = (if n = 0 \<or> d \<le> n then 0 else Suc (first_scale (10 * n) d))"
  by pat_completeness auto

termination by (relation "measure (\<lambda>(n, d). d - n)") auto

definition decimal_exponent :: "nat \<Rightarrow> nat \<Rightarrow> int" where
  "decimal_exponent n d =
     (if d \<le> n then int (length (nat_digits (n div d))) - 1 else - int (first_scale n d))"

text \<open>The seven digits of \<open>n / d\<close> and the exponent of the first.\<close>

definition seven_digits :: "nat \<Rightarrow> nat \<Rightarrow> nat \<times> int" where
  "seven_digits n d =
     (let x = decimal_exponent n d;
          q = (if x \<le> 6 then round_div (n * 10 ^ nat (6 - x)) d else round_div n (d * 10 ^ nat (x - 6)))
      in if q = 10 ^ 7 then (10 ^ 6, x + 1) else (q, x))"

definition strip_zeros :: "string \<Rightarrow> string" where
  "strip_zeros s = rev (dropWhile (\<lambda>c. c = CHR ''0'') (rev s))"

definition with_fraction :: "string \<Rightarrow> string \<Rightarrow> string" where
  "with_fraction whole frac = (if frac = [] then whole else whole @ ''.'' @ frac)"

definition shortest_form :: "nat \<Rightarrow> int \<Rightarrow> string" where
  "shortest_form q x =
     (let ds = nat_digits q
      in if x < - 4 \<or> 7 \<le> x then
           (let e = nat_digits (nat \<bar>x\<bar>)
            in with_fraction [hd ds] (strip_zeros (tl ds)) @ ''e'' @ (if x < 0 then ''-'' else ''+'') @
               (if length e < 2 then CHR ''0'' # e else e))
         else if 0 \<le> x then with_fraction (take (nat x + 1) ds) (strip_zeros (drop (nat x + 1) ds))
         else ''0.'' @ replicate (nat (- x - 1)) CHR ''0'' @ strip_zeros ds)"

definition stream_float :: "u32 \<Rightarrow> string" where
  "stream_float w =
     (let m = float_mag w; e = m div 2 ^ 23; f = m mod 2 ^ 23;
          text = (if e = 255 then (if f = 0 then ''inf'' else ''nan'')
                  else if m = 0 then ''0''
                  else (let sig = (if e = 0 then f else 2 ^ 23 + f); ex = (if e = 0 then - 149 else int e - 150)
                        in case (if 0 \<le> ex then seven_digits (sig * 2 ^ nat ex) 1 else seven_digits sig (2 ^ nat (- ex))) of
                             (q, x) \<Rightarrow> shortest_form q x))
      in if float_neg w then ''-'' @ text else text)"

section \<open>\<open>std::strtol\<close> and \<open>std::strtod\<close>\<close>

text \<open>
  The callers accept a conversion only when it reads the whole text, so the functions here give
  \<open>None\<close> where the text has another form or more behind the number. White space in front and one sign are skipped.
\<close>

definition signed_text :: "string \<Rightarrow> bool \<times> string" where
  "signed_text s =
     (case dropWhile is_space s of
        c # cs \<Rightarrow> if c = CHR ''-'' then (True, cs) else if c = CHR ''+'' then (False, cs) else (False, c # cs)
      | [] \<Rightarrow> (False, []))"

text \<open>In base ten, with a \<open>long\<close> of the given width: beyond its range the result is its nearest end.\<close>

definition strtol10 :: "nat \<Rightarrow> string \<Rightarrow> int option" where
  "strtol10 bits s =
     (case signed_text s of (neg, ds) \<Rightarrow>
        if ds = [] \<or> \<not> list_all is_digit ds then None
        else let v = (if neg then - int (digits_value 0 ds) else int (digits_value 0 ds))
             in Some (max (- (2 ^ (bits - 1))) (min (2 ^ (bits - 1) - 1) v)))"

text \<open>The \<open>double\<close> nearest to \<open>n / d\<close>, by its magnitude; overflow gives infinity.\<close>

definition ratio_mag :: "nat \<Rightarrow> nat \<Rightarrow> nat" where
  "ratio_mag n d =
     (if n = 0 then 0
      else let b = int (bit_len n) - int (bit_len d);
               lg = (if d * 2 ^ nat b \<le> n * 2 ^ nat (- b) then b else b - 1);
               ex = max lg (- 1022);
               q = round_div (n * 2 ^ nat (52 - ex)) (d * 2 ^ nat (ex - 52))
           in min (2047 * 2 ^ 52) (nat (ex + 1022) * 2 ^ 52 + q))"

definition scaled_mag :: "nat \<Rightarrow> nat \<Rightarrow> int \<Rightarrow> nat" where
  "scaled_mag base n e = (if 0 \<le> e then ratio_mag (n * base ^ nat e) 1 else ratio_mag n (base ^ nat (- e)))"

definition lower :: "char \<Rightarrow> char" where
  "lower c = (if 65 \<le> (of_char c :: nat) \<and> (of_char c :: nat) \<le> 90 then char_of ((of_char c :: nat) + 32) else c)"

definition is_hex_digit :: "char \<Rightarrow> bool" where
  "is_hex_digit c \<longleftrightarrow> is_digit c \<or> (97 \<le> (of_char (lower c) :: nat) \<and> (of_char (lower c) :: nat) \<le> 102)"

definition hex_val :: "char \<Rightarrow> nat" where
  "hex_val c = (if is_digit c then digit_val c else of_char (lower c) - 87)"

definition hex_value :: "string \<Rightarrow> nat" where
  "hex_value ds = foldl (\<lambda>v c. v * 16 + hex_val c) 0 ds"

text \<open>Digits, a fraction, and an exponent behind the given letter: digits, digits, exponent.\<close>

definition exponent_part :: "char \<Rightarrow> string \<Rightarrow> int option" where
  "exponent_part letter s =
     (case s of
        [] \<Rightarrow> Some 0
      | c # cs \<Rightarrow>
          if lower c \<noteq> letter then None
          else let neg = (cs \<noteq> [] \<and> hd cs = CHR ''-'');
                   ds = (if cs \<noteq> [] \<and> (hd cs = CHR ''-'' \<or> hd cs = CHR ''+'') then tl cs else cs)
               in if ds = [] \<or> \<not> list_all is_digit ds then None
                  else Some (if neg then - int (digits_value 0 ds) else int (digits_value 0 ds)))"

definition number_parts :: "(char \<Rightarrow> bool) \<Rightarrow> char \<Rightarrow> string \<Rightarrow> (string \<times> string \<times> int) option" where
  "number_parts digit letter s =
     (let whole = takeWhile digit s; s1 = dropWhile digit s;
          dot = (s1 \<noteq> [] \<and> hd s1 = CHR ''.'');
          frac = (if dot then takeWhile digit (tl s1) else []);
          s2 = (if dot then dropWhile digit (tl s1) else s1)
      in if whole @ frac = [] then None
         else map_option (\<lambda>e. (whole, frac, e)) (exponent_part letter s2))"

definition is_nan_text :: "string \<Rightarrow> bool" where
  "is_nan_text s \<longleftrightarrow> s = ''nan'' \<or>
     (take 4 s = ''nan('' \<and> 4 < length s \<and> last s = CHR '')'' \<and>
      list_all (\<lambda>c. is_digit c \<or> c = CHR ''_'' \<or> (97 \<le> (of_char c :: nat) \<and> (of_char c :: nat) \<le> 122)) (butlast (drop 4 s)))"

definition unsigned_mag :: "string \<Rightarrow> nat option" where
  "unsigned_mag s =
     (let t = map lower s in
      if t = ''inf'' \<or> t = ''infinity'' then Some (2047 * 2 ^ 52)
      else if is_nan_text t then Some (2047 * 2 ^ 52 + 2 ^ 51)
      else if take 2 t = ''0x''
      then map_option (\<lambda>(w, f, e). scaled_mag 2 (hex_value (w @ f)) (e - 4 * int (length f)))
             (number_parts is_hex_digit CHR ''p'' (drop 2 s))
      else map_option (\<lambda>(w, f, e). scaled_mag 10 (digits_value 0 (w @ f)) (e - int (length f)))
             (number_parts is_digit CHR ''e'' s))"

definition strtod :: "string \<Rightarrow> u64 option" where
  "strtod s = (case signed_text s of (neg, t) \<Rightarrow> map_option (make_double neg) (unsigned_mag t))"

lemma strtol10_int:
  assumes "- (2 ^ (bits - 1)) \<le> i" and "i < 2 ^ (bits - 1)"
  shows "strtol10 bits (int_to_string i) = Some i"
proof -
  have ds: "list_all is_digit (nat_digits n)" for n using nat_digits_all_digits by (simp add: list_all_iff)
  obtain c cs where nd: "nat_digits (nat i) = c # cs" "is_digit c"
    using ds [of "nat i"] by (cases "nat_digits (nat i)") auto
  show ?thesis
  proof (cases "i < 0")
    case True
    then have "signed_text (int_to_string i) = (True, nat_digits (nat (- i)))"
      by (simp add: signed_text_def int_to_string_def is_space_def)
    then show ?thesis using True assms by (simp add: strtol10_def ds digits_value_nat_digits)
  next
    case False
    have "signed_text (int_to_string i) = (False, nat_digits (nat i))"
      using False nd not_digit_sign [of c] by (simp add: signed_text_def int_to_string_def nd(1))
    then show ?thesis using False assms by (simp add: strtol10_def ds digits_value_nat_digits)
  qed
qed

end
