(* ===== verification/Json_Convert.thy ===== *)
theory Json_Convert
  imports Envelope Floats
begin

text \<open>
  JSON import and export, \<open>from_json\<close> and \<open>to_json\<close> of \<open>src/bison/bison.cpp\<close>, between objects and the
  document tree of nlohmann/json. Parsing and printing the text of a document is that library's
  part: \<open>parse\<close> and \<open>dump\<close> are parameters.
\<close>

section \<open>Documents\<close>

text \<open>
  The value types of the library: it keeps signed and unsigned numbers apart, stores a \<open>double\<close>, and
  orders the members of an object by name.
\<close>

datatype json =
    JNull
  | JBool bool
  | JInt int
  | JUnsigned nat
  | JFloat u64
  | JString string
  | JArray "json list"
  | JObject "(string \<times> json) list"

text \<open>\<open>std::string::operator<\<close>, and \<open>obj[name] = value\<close>.\<close>

fun text_less :: "string \<Rightarrow> string \<Rightarrow> bool" where
  "text_less s [] = False"
| "text_less [] (d # ds) = True"
| "text_less (c # cs) (d # ds) \<longleftrightarrow> (of_char c :: nat) < of_char d \<or> c = d \<and> text_less cs ds"

fun member_put :: "string \<Rightarrow> json \<Rightarrow> (string \<times> json) list \<Rightarrow> (string \<times> json) list" where
  "member_put n j [] = [(n, j)]"
| "member_put n j ((n', j') # es) =
     (if n = n' then (n, j) # es
      else if text_less n n' then (n, j) # (n', j') # es
      else (n', j') # member_put n j es)"

section \<open>Export\<close>

type_synonym key_map = "hash_t \<Rightarrow> string option"

definition resolve_key :: "key_map \<Rightarrow> hash_t \<Rightarrow> string" where
  "resolve_key keys i = (case keys i of Some n \<Rightarrow> n | None \<Rightarrow> CHR ''#'' # nat_digits (unat i))"

definition is_zero_bookkeeping_field :: "hash_t \<Rightarrow> dvalue \<Rightarrow> bool" where
  "is_zero_bookkeeping_field k v \<longleftrightarrow> (k = CLASS \<or> k = NAMESPACE) \<and> v = KeyV 0"

function field_to_json :: "key_map \<Rightarrow> dvalue \<Rightarrow> json"
  and dynamic_to_json :: "key_map \<Rightarrow> dyn \<Rightarrow> json"
  and members_to_json :: "key_map \<Rightarrow> (hash_t \<times> dvalue) list \<Rightarrow> (string \<times> json) list \<Rightarrow> (string \<times> json) list" where
  "field_to_json keys v = (case v of
       Monostate \<Rightarrow> JNull
     | BoolV b \<Rightarrow> JBool b
     | Int32V w \<Rightarrow> JInt (sint w)
     | FloatV w \<Rightarrow> JFloat (widen w)
     | StringV s \<Rightarrow> JString s
     | HashV w \<Rightarrow> JString (resolve_key keys w)
     | KeyV w \<Rightarrow> JString (resolve_key keys w)
     | PtrV p \<Rightarrow> (case p of None \<Rightarrow> JNull | Some d \<Rightarrow> dynamic_to_json keys d)
     | VecBoolV bs \<Rightarrow> JArray (map JBool bs)
     | VecInt32V ws \<Rightarrow> JArray (map (\<lambda>w. JInt (sint w)) ws)
     | VecFloatV ws \<Rightarrow> JArray (map (\<lambda>w. JFloat (widen w)) ws)
     | VecByteV bs \<Rightarrow> JString (hex_string bs))"
| "dynamic_to_json keys (Dyn kvs) = JObject (members_to_json keys kvs [])"
| "members_to_json keys [] es = es"
| "members_to_json keys ((k, v) # kvs) es =
     members_to_json keys kvs
       (if is_zero_bookkeeping_field k v then es else member_put (resolve_key keys k) (field_to_json keys v) es)"
  by pat_completeness auto

termination
  by (relation "measure (case_sum (\<lambda>(keys, v). value_size v)
        (case_sum (\<lambda>(keys, d). size d) (\<lambda>(keys, kvs, es). entries_size kvs)))") auto

definition to_json :: "(int \<Rightarrow> json \<Rightarrow> string) \<Rightarrow> key_map \<Rightarrow> int \<Rightarrow> dvalue smap \<Rightarrow> string" where
  "to_json dump keys indent m = dump indent (dynamic_to_json keys (Dyn m))"

section \<open>Import\<close>

fun is_number :: "json \<Rightarrow> bool" where
  "is_number (JInt _) = True" | "is_number (JUnsigned _) = True" | "is_number (JFloat _) = True" | "is_number _ = False"

fun is_integer :: "json \<Rightarrow> bool" where
  "is_integer (JInt _) = True" | "is_integer (JUnsigned _) = True" | "is_integer _ = False"

fun is_boolean :: "json \<Rightarrow> bool" where
  "is_boolean (JBool _) = True" | "is_boolean _ = False"

fun is_array :: "json \<Rightarrow> bool" where
  "is_array (JArray _) = True" | "is_array _ = False"

text \<open>\<open>bool{el}\<close>, \<open>int32_t{el}\<close> and \<open>float{el}\<close> on elements of the matching kind: the library casts.\<close>

fun to_bool :: "json \<Rightarrow> bool" where
  "to_bool (JBool b) = b" | "to_bool _ = False"

fun to_int32 :: "json \<Rightarrow> u32" where
  "to_int32 (JInt i) = word_of_int i" | "to_int32 (JUnsigned n) = of_nat n" | "to_int32 _ = 0"

fun to_float :: "json \<Rightarrow> float_bits" where
  "to_float (JInt i) = int_to_float i"
| "to_float (JUnsigned n) = int_to_float (int n)"
| "to_float (JFloat w) = narrow w"
| "to_float _ = 0"

text \<open>
  \<open>(*dyn)[name] = x\<close> and \<open>(*dyn)[idx++] = x\<close>: an array is converted to a field, which replaces the old
  one; any other value is assigned to it.
\<close>

definition store_named :: "ns_map \<Rightarrow> bool \<Rightarrow> hash_t \<Rightarrow> dvalue \<Rightarrow> dvalue smap \<Rightarrow> dvalue smap result" where
  "store_named reg whole k v m =
     (if whole then bindE (tree_index reg k m) (\<lambda>m'. Inr (map_put k v m')) else tree_set reg k v m)"

definition store_indexed :: "bool \<Rightarrow> hash_t \<Rightarrow> dvalue \<Rightarrow> dvalue smap \<Rightarrow> dvalue smap result" where
  "store_indexed whole k v m =
     (if whole then Inr (map_put k v m)
      else bindE (field_assign (plain_field (tree_value m k)) v) (\<lambda>f. Inr (map_put k (f_base f) m)))"

text \<open>The value of a member or an element; of an array, \<open>from_json_array_field\<close>.\<close>

function from_json_value :: "ns_map \<Rightarrow> json \<Rightarrow> dvalue result"
  and from_json_array :: "ns_map \<Rightarrow> json list \<Rightarrow> nat \<Rightarrow> dvalue smap \<Rightarrow> dvalue smap result"
  and from_json_object :: "ns_map \<Rightarrow> (string \<times> json) list \<Rightarrow> dvalue smap \<Rightarrow> dvalue smap result" where
  "from_json_value reg j = (case j of
       JNull \<Rightarrow> Inr (PtrV None)
     | JBool b \<Rightarrow> Inr (BoolV b)
     | JInt _ \<Rightarrow> Inr (Int32V (to_int32 j))
     | JUnsigned _ \<Rightarrow> Inr (Int32V (to_int32 j))
     | JFloat _ \<Rightarrow> Inr (FloatV (to_float j))
     | JString s \<Rightarrow> Inr (StringV s)
     | JObject es \<Rightarrow> bindE (from_json_object reg es (dyn_new 0 [])) (\<lambda>m. Inr (PtrV (Some (Dyn m))))
     | JArray js \<Rightarrow>
         if js \<noteq> [] \<and> list_all is_boolean js then Inr (VecBoolV (map to_bool js))
         else if js \<noteq> [] \<and> list_all is_integer js then Inr (VecInt32V (map to_int32 js))
         else if js \<noteq> [] \<and> list_all is_number js then Inr (VecFloatV (map to_float js))
         else bindE (from_json_array reg js 0 (dyn_new 0 [])) (\<lambda>m. Inr (PtrV (Some (Dyn m)))))"
| "from_json_array reg [] idx m = Inr m"
| "from_json_array reg (j # js) idx m =
     bindE (from_json_value reg j) (\<lambda>v.
     bindE (store_indexed (is_array j) (of_nat idx) v m) (\<lambda>m'. from_json_array reg js (Suc idx) m'))"
| "from_json_object reg [] m = Inr m"
| "from_json_object reg ((n, j) # es) m =
     bindE (from_json_value reg j) (\<lambda>v.
     bindE (store_named reg (is_array j) (key n) v m) (\<lambda>m'. from_json_object reg es m'))"
  by pat_completeness auto

termination
  by (relation "measure (case_sum (\<lambda>(reg, j). size j)
        (case_sum (\<lambda>(reg, js, idx, m). size_list size js) (\<lambda>(reg, es, m). size_list (size_prod (\<lambda>_. 0) size) es)))") auto

text \<open>\<open>from_json\<close>: the conversion of a root that is not an object throws.\<close>

definition from_json :: "(string \<Rightarrow> json result) \<Rightarrow> ns_map \<Rightarrow> string \<Rightarrow> dvalue smap result" where
  "from_json parse reg text =
     bindE (parse text) (\<lambda>j. case j of
       JObject es \<Rightarrow> from_json_object reg es (dyn_new 0 [])
     | _ \<Rightarrow> Inl (App_error ''type must be object''))"

declare field_to_json.simps [simp del] from_json_value.simps [simp del]

section \<open>What the text keeps of a document\<close>

text \<open>
  Printed and parsed again, a number without a sign comes back unsigned, and an infinity or a NaN,
  which JSON cannot write, as null.
\<close>

fun reparsed :: "json \<Rightarrow> json" where
  "reparsed (JInt i) = (if 0 \<le> i then JUnsigned (nat i) else JInt i)"
| "reparsed (JFloat w) = (if double_finite w then JFloat w else JNull)"
| "reparsed (JArray js) = JArray (map reparsed js)"
| "reparsed (JObject es) = JObject (map (\<lambda>(n, j). (n, reparsed j)) es)"
| "reparsed j = j"

section \<open>Objects that survive\<close>

text \<open>
  What import produces: an object without class in the global namespace (cached by the first field
  access), whose fields have known names and values that JSON tells apart.
\<close>

definition portable :: "dvalue \<Rightarrow> bool" where
  "portable v = (case v of
       BoolV _ \<Rightarrow> True
     | Int32V _ \<Rightarrow> True
     | StringV _ \<Rightarrow> True
     | PtrV _ \<Rightarrow> True
     | FloatV w \<Rightarrow> float_finite w
     | VecBoolV bs \<Rightarrow> bs \<noteq> []
     | VecInt32V ws \<Rightarrow> ws \<noteq> []
     | VecFloatV ws \<Rightarrow> ws \<noteq> [] \<and> list_all float_finite ws
     | _ \<Rightarrow> False)"

definition own_fields :: "dvalue smap \<Rightarrow> dvalue smap" where
  "own_fields kvs = filter (\<lambda>(k, v). k \<noteq> CLASS \<and> k \<noteq> NAMESPACE) kvs"

definition plain_object :: "dvalue smap \<Rightarrow> bool" where
  "plain_object kvs \<longleftrightarrow> sorted_map kvs \<and> map_of kvs CLASS = Some (KeyV 0) \<and>
     map_of kvs NAMESPACE = (if own_fields kvs = [] then None else Some (KeyV 0))"

definition named_fields :: "key_map \<Rightarrow> dvalue smap \<Rightarrow> bool" where
  "named_fields keys kvs \<longleftrightarrow> plain_object kvs \<and>
     (\<forall>(k, v) \<in> set (own_fields kvs). portable v \<and> key (resolve_key keys k) = k)"

definition exportable :: "key_map \<Rightarrow> dvalue smap \<Rightarrow> bool" where
  "exportable keys kvs \<longleftrightarrow> object_all (\<lambda>_. True) (named_fields keys) (Dyn kvs)"

definition no_zero_class :: "ns_map \<Rightarrow> bool" where
  "no_zero_class reg \<longleftrightarrow> (case map_of reg 0 of None \<Rightarrow> True | Some col \<Rightarrow> map_of col 0 = None)"

section \<open>Storing a new member\<close>

lemma class_not_namespace: "CLASS \<noteq> NAMESPACE"
  by (simp add: token_values)

lemma store_fresh:
  assumes "no_zero_class reg" and "sorted_map m" and "map_of m CLASS = Some (KeyV 0)" and "map_of m NAMESPACE \<in> {None, Some (KeyV 0)}"
    and "map_of m k = None" and "k \<noteq> NAMESPACE"
  shows "\<exists>m'. store_named reg whole k v m = Inr m' \<and> sorted_map m' \<and> map_of m' = (map_of m)(NAMESPACE \<mapsto> KeyV 0, k \<mapsto> v)"
proof -
  let ?m1 = "if map_of m NAMESPACE = None then map_put NAMESPACE (KeyV 0) m else m"
  have m1: "sorted_map ?m1" "map_of ?m1 = (map_of m)(NAMESPACE \<mapsto> KeyV 0)"
    using assms(2,4) by auto
  have ns: "tree_namespace m = Inr (0, ?m1)" using assms(4) by (auto simp: tree_namespace_def)
  have klass: "tree_as_key CLASS ?m1 = Inr (0, ?m1)"
    using assms(3) class_not_namespace by (simp add: tree_as_key_def)
  have "tree_find reg k m = Inr (False, ?m1)"
    using assms(1,5,6) ns klass m1(2)
    by (auto simp: tree_find_def bindE_def no_zero_class_def tree_walk.simps split: option.split)
  then have index: "tree_index reg k m = Inr (map_put k Monostate ?m1)" by (simp add: tree_index_def bindE_def)
  have "field_assign (plain_field Monostate) v = Inr (plain_field v)"
    by (simp add: field_assign_def field_is_def plain_field_def)
  then have "store_named reg whole k v m = Inr (map_put k v (map_put k Monostate ?m1))"
    using index by (simp add: store_named_def tree_set_def bindE_def tree_value_def plain_field_def)
  then show ?thesis using m1 by simp
qed

lemma store_all:
  assumes "no_zero_class reg" and "distinct (map (\<lambda>e. key (fst e)) es)"
    and "\<And>e. e \<in> set es \<Longrightarrow> from_json_value reg (snd e) = Inr (f (key (fst e)))"
    and "CLASS \<notin> (\<lambda>e. key (fst e)) ` set es" and "NAMESPACE \<notin> (\<lambda>e. key (fst e)) ` set es"
    and "\<And>e. e \<in> set es \<Longrightarrow> map_of m (key (fst e)) = None"
    and "sorted_map m" and "map_of m CLASS = Some (KeyV 0)" and "map_of m NAMESPACE \<in> {None, Some (KeyV 0)}"
  shows "\<exists>m'. from_json_object reg es m = Inr m' \<and> sorted_map m' \<and>
    (\<forall>k. map_of m' k = (if k \<in> (\<lambda>e. key (fst e)) ` set es then Some (f k)
       else if k = NAMESPACE \<and> es \<noteq> [] then Some (KeyV 0) else map_of m k))"
  using assms(2-)
proof (induction es arbitrary: m)
  case (Cons e es)
  let ?n = "key (fst e)"
  have v: "from_json_value reg (snd e) = Inr (f ?n)" and n: "CLASS \<noteq> ?n" "NAMESPACE \<noteq> ?n" "map_of m ?n = None"
    using Cons.prems(2,3,4,5) by auto
  obtain m1 where m1: "store_named reg (is_array (snd e)) ?n (f ?n) m = Inr m1" "sorted_map m1"
      "map_of m1 = (map_of m)(NAMESPACE \<mapsto> KeyV 0, ?n \<mapsto> f ?n)"
    using store_fresh [OF assms(1) Cons.prems(6-8) n(3) n(2) [symmetric]] by metis
  have fresh: "?n \<notin> (\<lambda>e. key (fst e)) ` set es" using Cons.prems(1) by simp
  have absent: "map_of m1 (key (fst e')) = None" if "e' \<in> set es" for e'
  proof -
    have "key (fst e') \<noteq> NAMESPACE" using Cons.prems(4) that by (force simp: image_iff)
    moreover have "key (fst e') \<noteq> ?n" using fresh that by (force simp: image_iff)
    ultimately show ?thesis using Cons.prems(5) that by (simp add: m1(3))
  qed
  obtain m' where m': "from_json_object reg es m1 = Inr m'" "sorted_map m'"
    "\<And>k. map_of m' k = (if k \<in> (\<lambda>e. key (fst e)) ` set es then Some (f k)
       else if k = NAMESPACE \<and> es \<noteq> [] then Some (KeyV 0) else map_of m1 k)"
  proof (atomize_elim, rule Cons.IH)
    show "distinct (map (\<lambda>e. key (fst e)) es)" using Cons.prems(1) by simp
    show "CLASS \<notin> (\<lambda>e. key (fst e)) ` set es" "NAMESPACE \<notin> (\<lambda>e. key (fst e)) ` set es"
      using Cons.prems(3,4) by auto
    show "map_of m1 CLASS = Some (KeyV 0)" using Cons.prems(7) n(1) class_not_namespace by (simp add: m1(3))
    show "map_of m1 NAMESPACE \<in> {None, Some (KeyV 0)}" using n(2) by (simp add: m1(3))
  qed (use Cons.prems(2) absent m1(2) in auto)
  have "from_json_object reg (e # es) m = Inr m'" by (cases e) (use v m1(1) m'(1) in \<open>simp add: bindE_def\<close>)
  moreover have "map_of m' k = (if k \<in> (\<lambda>e. key (fst e)) ` set (e # es) then Some (f k)
       else if k = NAMESPACE \<and> e # es \<noteq> [] then Some (KeyV 0) else map_of m k)" for k
    using n(2) by (simp add: m'(3) m1(3))
  ultimately show ?case using m'(2) by blast
qed simp

section \<open>The members of an exported object\<close>

lemma set_member_put: "n \<notin> fst ` set es \<Longrightarrow> set (member_put n j es) = insert (n, j) (set es)"
  by (induction n j es rule: member_put.induct) auto

lemma distinct_member_put: "distinct (map fst es) \<Longrightarrow> n \<notin> fst ` set es \<Longrightarrow> distinct (map fst (member_put n j es))"
proof (induction n j es rule: member_put.induct)
  case (2 n j n' j' es)
  then show ?case using set_member_put [of n es j] by auto
qed simp

lemma members_exported:
  assumes "distinct (map (resolve_key keys) (map fst (filter (\<lambda>(k, v). \<not> is_zero_bookkeeping_field k v) kvs)) @ map fst es)"
  shows "distinct (map fst (members_to_json keys kvs es)) \<and>
    set (members_to_json keys kvs es) = set es \<union>
      (\<lambda>(k, v). (resolve_key keys k, field_to_json keys v)) ` set (filter (\<lambda>(k, v). \<not> is_zero_bookkeeping_field k v) kvs)"
  using assms
proof (induction kvs arbitrary: es)
  case (Cons kv kvs)
  obtain k v where kv: "kv = (k, v)" by fastforce
  show ?case
  proof (cases "is_zero_bookkeeping_field k v")
    case True
    then show ?thesis using Cons.IH [of es] Cons.prems by (simp add: kv)
  next
    case False
    let ?es = "member_put (resolve_key keys k) (field_to_json keys v) es"
    have new: "resolve_key keys k \<notin> fst ` set es" using Cons.prems False by (auto simp: kv)
    have es: "set ?es = insert (resolve_key keys k, field_to_json keys v) (set es)" by (rule set_member_put [OF new])
    have "distinct (map fst ?es)" using distinct_member_put [OF _ new] Cons.prems by simp
    then have "distinct (map (resolve_key keys) (map fst (filter (\<lambda>(k, v). \<not> is_zero_bookkeeping_field k v) kvs)) @ map fst ?es)"
      using Cons.prems False es by (auto simp: kv)
    from Cons.IH [OF this] show ?thesis using False es by (auto simp: kv)
  qed
qed simp

lemma exported_fields:
  assumes "plain_object kvs"
  shows "filter (\<lambda>(k, v). \<not> is_zero_bookkeeping_field k v) kvs = own_fields kvs"
proof -
  have "v = KeyV 0" if "(k, v) \<in> set kvs" "k = CLASS \<or> k = NAMESPACE" for k v
  proof -
    have "map_of kvs k = Some v" using that(1) assms sorted_map_distinct by (auto simp: plain_object_def intro: map_of_is_SomeI)
    then show ?thesis using that(2) assms by (auto simp: plain_object_def split: if_splits)
  qed
  then show ?thesis unfolding own_fields_def by (intro filter_cong) (auto simp: is_zero_bookkeeping_field_def)
qed

text \<open>An object is known by its own fields, once its class and namespace are those of a new object.\<close>

lemma object_restored:
  assumes "plain_object kvs" and "sorted_map m'"
    and "\<And>k. map_of m' k = (if k \<in> fst ` set (own_fields kvs) then map_of (own_fields kvs) k
       else if k = NAMESPACE \<and> own_fields kvs \<noteq> [] then Some (KeyV 0) else if k = CLASS then Some (KeyV 0) else None)"
  shows "m' = kvs"
proof -
  note named = assms(1) [unfolded plain_object_def]
  have "map_of m' = map_of kvs"
  proof
    fix k
    have own: "map_of (own_fields kvs) k = (if k \<noteq> CLASS \<and> k \<noteq> NAMESPACE then map_of kvs k else None)"
      unfolding own_fields_def case_prod_unfold
      using map_of_filter [of "\<lambda>k. k \<noteq> CLASS \<and> k \<noteq> NAMESPACE" kvs] by (simp add: restrict_map_def)
    show "map_of m' k = map_of kvs k"
    proof (cases "k \<in> fst ` set (own_fields kvs)")
      case True
      then have "map_of (own_fields kvs) k \<noteq> None" by (simp add: map_of_eq_None_iff)
      then show ?thesis using own True by (auto simp: assms(3) split: if_splits)
    next
      case False
      then have "map_of (own_fields kvs) k = None" by (simp add: map_of_eq_None_iff)
      then show ?thesis using own False named class_not_namespace by (auto simp: assms(3) split: if_splits)
    qed
  qed
  then show ?thesis using sorted_map_ext [OF assms(2)] named by auto
qed

lemma object_survives:
  assumes "no_zero_class reg" and "named_fields keys kvs"
    and "\<And>k v. (k, v) \<in> set (own_fields kvs) \<Longrightarrow> from_json_value reg (reparsed (field_to_json keys v)) = Inr v"
  shows "from_json_object reg (map (\<lambda>(n, j). (n, reparsed j)) (members_to_json keys kvs [])) (dyn_new 0 []) = Inr kvs"
proof -
  let ?ms = "members_to_json keys kvs []" and ?own = "own_fields kvs"
  let ?es = "map (\<lambda>(n, j). (n, reparsed j)) ?ms"
  note named = assms(2) [unfolded named_fields_def plain_object_def]
  have plain: "plain_object kvs" using assms(2) by (simp add: named_fields_def)
  have key: "key (resolve_key keys k) = k" if "(k, v) \<in> set ?own" for k v using named that by auto
  have dist: "distinct (map fst ?own)"
    using sorted_map_distinct named unfolding own_fields_def by (auto intro: sorted_map_filter)
  then have names: "distinct (map (resolve_key keys) (map fst ?own))"
    unfolding distinct_map [of "resolve_key keys"] by (auto intro!: inj_onI) (metis key)+
  have ms: "distinct (map fst ?ms)" "set ?ms = (\<lambda>(k, v). (resolve_key keys k, field_to_json keys v)) ` set ?own"
    using members_exported [of keys kvs "[]"] names exported_fields [OF plain] by simp_all
  have es: "set ?es = (\<lambda>(k, v). (resolve_key keys k, reparsed (field_to_json keys v))) ` set ?own"
    unfolding set_map ms(2) by force
  have keys: "(\<lambda>e. key (fst e)) ` set ?es = fst ` set ?own"
    unfolding es image_image using key by (force simp: image_iff)
  have empty: "?es \<noteq> [] \<longleftrightarrow> ?own \<noteq> []" using es by (metis image_is_empty set_empty)
  let ?f = "\<lambda>k. the (map_of ?own k)"
  have f: "map_of ?own k = Some v" if "(k, v) \<in> set ?own" for k v using dist that by (rule map_of_is_SomeI)
  have inj: "inj_on key (fst ` set ?ms)"
    unfolding ms(2) by (auto simp: inj_on_def) (metis key)+
  have "\<exists>m'. from_json_object reg ?es (dyn_new 0 []) = Inr m' \<and> sorted_map m' \<and>
    (\<forall>k. map_of m' k = (if k \<in> (\<lambda>e. key (fst e)) ` set ?es then Some (?f k)
       else if k = NAMESPACE \<and> ?es \<noteq> [] then Some (KeyV 0) else map_of (dyn_new 0 []) k))"
  proof (rule store_all [OF assms(1)])
    have "map (\<lambda>e. key (fst e)) ?es = map key (map fst ?ms)" by (simp add: case_prod_unfold comp_def)
    moreover have "distinct (map key (map fst ?ms))" using ms(1) inj unfolding distinct_map [of key] set_map by blast
    ultimately show "distinct (map (\<lambda>e. key (fst e)) ?es)" by (simp only:)
    show "from_json_value reg (snd e) = Inr (?f (key (fst e)))" if "e \<in> set ?es" for e
    proof -
      from that obtain k v where kv: "(k, v) \<in> set ?own" "e = (resolve_key keys k, reparsed (field_to_json keys v))"
        unfolding es by (auto simp: image_iff)
      show ?thesis using assms(3) [OF kv(1)] f [OF kv(1)] key [OF kv(1)] by (simp add: kv(2))
    qed
    have own: "k \<noteq> CLASS \<and> k \<noteq> NAMESPACE" if "k \<in> fst ` set ?own" for k using that by (auto simp: own_fields_def)
    then show "CLASS \<notin> (\<lambda>e. key (fst e)) ` set ?es" "NAMESPACE \<notin> (\<lambda>e. key (fst e)) ` set ?es"
      unfolding keys by blast+
    show "map_of (dyn_new 0 [] :: dvalue smap) (key (fst e)) = None" if "e \<in> set ?es" for e
    proof -
      have "key (fst e) \<in> fst ` set ?own" unfolding keys [symmetric] using that by (rule imageI)
      from own [OF this] show ?thesis by (simp add: dyn_new_def)
    qed
  qed (simp_all add: dyn_new_def class_not_namespace [symmetric])
  then obtain m' where m': "from_json_object reg ?es (dyn_new 0 []) = Inr m'" "sorted_map m'"
    "\<And>k. map_of m' k = (if k \<in> fst ` set ?own then Some (?f k)
       else if k = NAMESPACE \<and> ?own \<noteq> [] then Some (KeyV 0) else if k = CLASS then Some (KeyV 0) else None)"
    unfolding keys empty by (auto simp: dyn_new_def)
  moreover have "Some (?f k) = map_of ?own k" if "k \<in> fst ` set ?own" for k
    using that f by force
  ultimately have "map_of m' k = (if k \<in> fst ` set ?own then map_of ?own k
       else if k = NAMESPACE \<and> ?own \<noteq> [] then Some (KeyV 0) else if k = CLASS then Some (KeyV 0) else None)" for k
    by simp
  note restored = object_restored [OF plain m'(2) this]
  show ?thesis using m'(1) restored by simp
qed

section \<open>The round trip\<close>

lemma value_size_entry: "(k, v) \<in> set kvs \<Longrightarrow> value_size v < value_size (PtrV (Some (Dyn kvs)))"
  using size_list_estimation' [of "(k, v)" kvs "value_size v" "size_prod (\<lambda>_. 0) value_size"] by simp

lemma own_in: "(k, v) \<in> set (own_fields kvs) \<Longrightarrow> (k, v) \<in> set kvs"
  by (simp add: own_fields_def)

lemma int_back: "to_int32 (reparsed (JInt (sint w))) = w"
proof (cases "0 \<le> sint w")
  case True
  then have "of_nat (nat (sint w)) = w" by (simp add: of_nat_nat)
  with True show ?thesis by simp
qed simp

lemma vectors_survive:
  "bs \<noteq> [] \<Longrightarrow> from_json_value reg (reparsed (JArray (map JBool bs))) = Inr (VecBoolV bs)"
  "ws \<noteq> [] \<Longrightarrow> from_json_value reg (reparsed (JArray (map (\<lambda>w. JInt (sint w)) ws))) = Inr (VecInt32V ws)"
  "fs \<noteq> [] \<Longrightarrow> list_all float_finite fs \<Longrightarrow>
     from_json_value reg (reparsed (JArray (map (\<lambda>w. JFloat (widen w)) fs))) = Inr (VecFloatV fs)"
proof -
  show "bs \<noteq> [] \<Longrightarrow> from_json_value reg (reparsed (JArray (map JBool bs))) = Inr (VecBoolV bs)"
    by (simp add: from_json_value.simps list_all_iff comp_def)
  have int: "is_integer (reparsed (JInt i))" "\<not> is_boolean (reparsed (JInt i))" for i by simp_all
  show "ws \<noteq> [] \<Longrightarrow> from_json_value reg (reparsed (JArray (map (\<lambda>w. JInt (sint w)) ws))) = Inr (VecInt32V ws)"
    by (cases ws) (simp_all add: from_json_value.simps list_all_iff comp_def int int_back del: reparsed.simps(1))
  have fl: "is_number (reparsed (JFloat (widen w)))" "\<not> is_integer (reparsed (JFloat (widen w)))"
      "\<not> is_boolean (reparsed (JFloat (widen w)))" "to_float (reparsed (JFloat (widen w))) = w" if "float_finite w" for w
    using narrow_widen [OF that] by simp_all
  show "from_json_value reg (reparsed (JArray (map (\<lambda>w. JFloat (widen w)) fs))) = Inr (VecFloatV fs)"
    if "fs \<noteq> []" "list_all float_finite fs"
  proof -
    have "map to_float (map reparsed (map (\<lambda>w. JFloat (widen w)) fs)) = fs"
      using that(2) fl(4) by (induction fs) (simp_all del: reparsed.simps(2))
    moreover have "list_all is_number (map reparsed (map (\<lambda>w. JFloat (widen w)) fs))"
      using that(2) fl(1) by (induction fs) (simp_all del: reparsed.simps(2))
    moreover have "\<not> list_all is_integer (map reparsed (map (\<lambda>w. JFloat (widen w)) fs))"
      "\<not> list_all is_boolean (map reparsed (map (\<lambda>w. JFloat (widen w)) fs))"
      using that fl(2,3) by (cases fs; simp del: reparsed.simps(2))+
    ultimately show ?thesis using that(1) unfolding reparsed.simps from_json_value.simps [of reg "JArray _"] by simp
  qed
qed

lemma value_survives:
  assumes "no_zero_class reg" and "portable v" and "tree_all (\<lambda>_. True) (named_fields keys) v"
  shows "from_json_value reg (reparsed (field_to_json keys v)) = Inr v"
  using assms(2,3)
proof (induction "value_size v" arbitrary: v rule: less_induct)
  case less
  show ?case
  proof (cases v)
    case (PtrV p)
    show ?thesis
    proof (cases p)
      case None
      then show ?thesis using PtrV by (simp add: field_to_json.simps from_json_value.simps)
    next
      case (Some d)
      obtain kvs where d: "d = Dyn kvs" by (cases d)
      have named: "named_fields keys kvs" and all: "\<forall>(k, v) \<in> set kvs. tree_all (\<lambda>_. True) (named_fields keys) v"
        using less.prems(2) by (simp_all add: PtrV Some d tree_all.simps [of _ _ "PtrV _"] entries_all_iff)
      have "from_json_value reg (reparsed (field_to_json keys v')) = Inr v'" if "(k, v') \<in> set (own_fields kvs)" for k v'
      proof (rule less.hyps)
        show "value_size v' < value_size v" using value_size_entry [OF own_in [OF that]] by (simp add: PtrV Some d)
        show "portable v'" using named that by (auto simp: named_fields_def)
        show "tree_all (\<lambda>_. True) (named_fields keys) v'" using all own_in [OF that] by auto
      qed
      from object_survives [OF assms(1) named this]
      show ?thesis by (simp add: PtrV Some d field_to_json.simps from_json_value.simps bindE_def)
    qed
  next
    case (Int32V w)
    then show ?thesis using int_back [of w] by (simp add: field_to_json.simps from_json_value.simps)
  next
    case (FloatV w)
    then show ?thesis using less.prems(1) narrow_widen [of w] by (simp add: field_to_json.simps from_json_value.simps portable_def)
  next
    case (VecBoolV bs)
    then show ?thesis using less.prems(1) vectors_survive(1) by (simp only: field_to_json.simps portable_def field_base.case)
  next
    case (VecInt32V ws)
    then show ?thesis using less.prems(1) vectors_survive(2) by (simp only: field_to_json.simps portable_def field_base.case)
  next
    case (VecFloatV ws)
    then have "ws \<noteq> []" "list_all float_finite ws" using less.prems(1) by (simp_all add: portable_def)
    from vectors_survive(3) [OF this] show ?thesis by (simp only: VecFloatV field_to_json.simps field_base.case)
  qed (use less.prems(1) in \<open>simp_all add: field_to_json.simps from_json_value.simps portable_def\<close>)
qed

text \<open>
  C25: an object exported to JSON and imported again is the same object: any nesting of objects in the
  global namespace without a class whose field names are all in the name table handed to \<open>to_json\<close>, and
  whose values are booleans, integers, finite floats, strings, pointers and non-empty vectors of the
  first three, provided that parsing what the JSON library printed gives the document back (numbers
  without a sign as unsigned). In particular the \<open>double\<close> on the way loses no bit of a \<open>float\<close>.
\<close>

theorem json_roundtrip:
  assumes "no_zero_class reg" and "exportable keys m"
    and "parse (dump indent (dynamic_to_json keys (Dyn m))) = Inr (reparsed (dynamic_to_json keys (Dyn m)))"
  shows "from_json parse reg (to_json dump keys indent m) = Inr m"
proof -
  have "tree_all (\<lambda>_. True) (named_fields keys) (PtrV (Some (Dyn m)))"
    using assms(2) by (simp add: exportable_def tree_all.simps)
  moreover have "portable (PtrV (Some (Dyn m)))" by (simp add: portable_def)
  ultimately have "from_json_value reg (reparsed (field_to_json keys (PtrV (Some (Dyn m))))) = Inr (PtrV (Some (Dyn m)))"
    using value_survives [OF assms(1)] by blast
  then show ?thesis
    using assms(3) by (simp add: from_json_def to_json_def field_to_json.simps from_json_value.simps bindE_def split: sum.splits)
qed

text \<open>A settings object with a nested object and a vector, on a library that stores the document as it is.\<close>

definition settings :: "dvalue smap" where
  "settings = put_all [(key ''ratio'', FloatV 0x3FC00000), (key ''ids'', VecInt32V [7, 0xFFFFFFFF]),
     (key ''next'', PtrV (Some (Dyn [(CLASS, KeyV 0)])))] (map_put NAMESPACE (KeyV 0) (dyn_new 0 []))"

definition settings_names :: key_map where
  "settings_names i = map_of [(key ''ratio'', ''ratio''), (key ''ids'', ''ids''), (key ''next'', ''next'')] i"

theorem json_roundtrip_witness:
  "from_json (\<lambda>_. Inr (reparsed (dynamic_to_json settings_names (Dyn settings)))) [] (to_json (\<lambda>_ _. ''text'') settings_names 2 settings) =
     Inr settings"
proof (rule json_roundtrip)
  show "no_zero_class []" by (simp add: no_zero_class_def)
  have keys: "key ''ratio'' = 0xc1121e84" "key ''ids'' = 0x80cfc569" "key ''next'' = 0xdcb68de8"
    by (simp_all add: hash_eval)
  show "exportable settings_names settings"
    by (simp add: exportable_def settings_def dyn_new_def named_fields_def plain_object_def own_fields_def token_values keys portable_def
        tree_all.simps resolve_key_def settings_names_def float_finite_def float_mag_def)
qed simp

section \<open>What does not survive\<close>

text \<open>
  The document of an object with a class cannot be imported: the member \<open>__class\<close> is a string, and the
  new object's field of that name holds a key.
\<close>

lemma class_not_imported: "from_json_object reg ((''__class'', JString s) # es) (dyn_new 0 []) = Inl Invalid_type"
  by (simp add: from_json_value.simps bindE_def store_named_def tree_set_def tree_index_def tree_find_def CLASS_def [symmetric]
      dyn_new_def tree_value_def field_assign_def field_is_def plain_field_def)

text \<open>An element of an array-like object is exported under a name, and no name is its index again on import.\<close>

lemma index_not_imported: "is_index i \<Longrightarrow> key (resolve_key keys i) \<noteq> i"
  using hash_not_index [of Signed_char "resolve_key keys i"] by (auto simp: key_def)

text \<open>A number beyond 32 bits loses its upper bits; an empty vector comes back as an object.\<close>

lemma large_number_truncated: "from_json_value reg (JUnsigned 0x100000005) = Inr (Int32V 5)"
  by (simp add: from_json_value.simps)

lemma empty_vector_lost:
  "from_json_value reg (field_to_json keys (VecInt32V [])) = Inr (PtrV (Some (Dyn (dyn_new 0 []))))"
  by (simp add: from_json_value.simps field_to_json.simps bindE_def)

end
