(* ===== verification/Print.thy ===== *)
theory Print
  imports Rmi_Describe Floats
begin

text \<open>
  The debug output of an object, \<open>print\<close> of \<open>src/bison/bison.cpp\<close>, with the options of
  \<open>bison_print.hpp\<close>, over the object heap.
\<close>

section \<open>Texts\<close>

definition escape_char_p :: "char \<Rightarrow> string" where
  "escape_char_p c =
     (if c = CHR 0x22 then [CHR 0x5C, CHR 0x22]
      else if c = CHR 0x5C then [CHR 0x5C, CHR 0x5C]
      else if c = CHR 0x0A then [CHR 0x5C, CHR ''n'']
      else if c = CHR 0x0D then [CHR 0x5C, CHR ''r'']
      else if c = CHR 0x09 then [CHR 0x5C, CHR ''t'']
      else [c])"

definition escape_string_p :: "string \<Rightarrow> string" where
  "escape_string_p s = [CHR 0x22] @ concat (map escape_char_p s) @ [CHR 0x22]"

definition format_hash_p :: "hash_t \<Rightarrow> string" where
  "format_hash_p h = CHR ''#'' # hex32 h"

definition format_key_p :: "hash_t \<Rightarrow> string" where
  "format_key_p k = (if k AND 0x80000000 \<noteq> 0 then format_hash_p k else ''['' @ nat_digits (unat k) @ '']'')"

definition format_float_p :: "float_bits \<Rightarrow> string" where
  "format_float_p w = (let s = stream_float w in if CHR ''.'' \<notin> set s \<and> CHR ''e'' \<notin> set s then s @ ''.'' else s)"

definition repeat_str_p :: "string \<Rightarrow> nat \<Rightarrow> string" where
  "repeat_str_p s n = concat (replicate n s)"

text \<open>Elements with a comma between them.\<close>

fun listed :: "string list \<Rightarrow> string" where
  "listed [] = []"
| "listed [t] = t"
| "listed (t # ts) = t @ '', '' @ listed ts"

text \<open>The label of a key: display name, registered name, or the key itself; methods likewise.\<close>

definition format_field_key_p :: "name_registry \<Rightarrow> hash_t \<Rightarrow> attribute list \<Rightarrow> string" where
  "format_field_key_p names k as =
     (case find_display as of Some t \<Rightarrow> t
      | None \<Rightarrow> (case lookup_registered_key_name names k of Some t \<Rightarrow> t | None \<Rightarrow> format_key_p k))"

definition format_method_key_p :: "name_registry \<Rightarrow> hash_t \<Rightarrow> attribute list \<Rightarrow> string" where
  "format_method_key_p = format_field_key_p"

definition format_token_p :: "name_registry \<Rightarrow> hash_t \<Rightarrow> string" where
  "format_token_p names h = (case lookup_registered_key_name names h of Some t \<Rightarrow> t | None \<Rightarrow> format_hash_p h)"

section \<open>Values\<close>

definition bool_text :: "bool \<Rightarrow> string" where
  "bool_text b = (if b then ''true'' else ''false'')"

text \<open>\<open>nested\<close> prints the object a pointer leads to.\<close>

definition print_field_value_p :: "name_registry \<Rightarrow> (addr \<Rightarrow> string option) \<Rightarrow> addr field_base \<Rightarrow> string option" where
  "print_field_value_p names nested v = (case v of
       Monostate \<Rightarrow> Some ''null''
     | HashV h \<Rightarrow> Some (format_token_p names h)
     | KeyV h \<Rightarrow> Some (format_token_p names h)
     | BoolV b \<Rightarrow> Some (bool_text b)
     | Int32V w \<Rightarrow> Some (int32_to_string w)
     | FloatV w \<Rightarrow> Some (format_float_p w)
     | PtrV p \<Rightarrow> (case p of None \<Rightarrow> Some ''null'' | Some a \<Rightarrow> nested a)
     | StringV s \<Rightarrow> Some (escape_string_p s)
     | VecBoolV bs \<Rightarrow> Some (''['' @ listed (map bool_text bs) @ '']'')
     | VecInt32V ws \<Rightarrow> Some (''['' @ listed (map int32_to_string ws) @ '']'')
     | VecFloatV ws \<Rightarrow> Some (''['' @ listed (map format_float_p ws) @ '']'')
     | VecByteV bs \<Rightarrow> Some (''<'' @ nat_digits (length bs) @ '' bytes>''))"

text \<open>The attributes of a method.\<close>

definition method_pairs :: "attribute list \<Rightarrow> string list" where
  "method_pairs as =
     (case find_display as of Some t \<Rightarrow> [''displayName: '' @ escape_string_p t] | None \<Rightarrow> []) @
     (case find_description as of Some t \<Rightarrow> [''description: '' @ escape_string_p t] | None \<Rightarrow> []) @
     (case find_category as of Some t \<Rightarrow> [''category: '' @ escape_string_p t] | None \<Rightarrow> []) @
     (case find_obsolete as of
        Some t \<Rightarrow> ''obsolete: true'' # (if t \<noteq> [] then [''obsoleteMessage: '' @ escape_string_p t] else [])
      | None \<Rightarrow> []) @
     (if is_required as then [''required: true''] else [])"

definition print_method_value_p :: "attribute list \<Rightarrow> string" where
  "print_method_value_p as =
     (if method_pairs as = [] then ''<method>'' else ''<method {'' @ listed (method_pairs as) @ ''}>'')"

section \<open>Objects\<close>

record printing =
  multiline :: bool
  po_indent :: string
  hide_internal :: bool

text \<open>The zero class and namespace of an object are not shown, with the other internal fields on demand.\<close>

definition skip_field :: "printing \<Rightarrow> hash_t \<Rightarrow> addr field_base \<Rightarrow> bool" where
  "skip_field opts k v \<longleftrightarrow> hide_internal opts \<and> internal_key k \<or> (k = CLASS \<or> k = NAMESPACE) \<and> v = KeyV 0"

definition shown_fields :: "printing \<Rightarrow> store \<Rightarrow> addr \<Rightarrow> (hash_t \<times> addr field) list" where
  "shown_fields opts s a = filter (\<lambda>(k, f). \<not> skip_field opts k (f_base f)) (fields_of s a)"

definition method_entries :: "name_registry \<Rightarrow> store \<Rightarrow> addr \<Rightarrow> string list" where
  "method_entries names s a =
     map (\<lambda>(k, m). format_method_key_p names k (m_attrs m) @ '': '' @ print_method_value_p (m_attrs m)) (o_methods (obj_at s a))"

text \<open>The entries in the two layouts; \<open>None\<close> when the nesting is deeper than the fuel.\<close>

definition layout :: "printing \<Rightarrow> nat \<Rightarrow> string list \<Rightarrow> string" where
  "layout opts depth es =
     (if multiline opts
      then [CHR ''{'', CHR 0x0A] @ concat (map (\<lambda>e. repeat_str_p (po_indent opts) (depth + 1) @ e @ [CHR 0x0A]) es) @
        repeat_str_p (po_indent opts) depth @ ''}''
      else ''{'' @ listed es @ ''}'')"

fun print_dynamic_p :: "printing \<Rightarrow> name_registry \<Rightarrow> store \<Rightarrow> nat \<Rightarrow> nat \<Rightarrow> addr \<Rightarrow> string option" where
  "print_dynamic_p opts names s 0 depth a = None"
| "print_dynamic_p opts names s (Suc fuel) depth a =
     (case those (map (\<lambda>(k, f). map_option (\<lambda>v. format_field_key_p names k (f_attrs f) @ '': '' @ v)
                   (print_field_value_p names (print_dynamic_p opts names s fuel (depth + 1)) (f_base f)))
                 (shown_fields opts s a)) of
        None \<Rightarrow> None
      | Some es \<Rightarrow> Some (layout opts depth (es @ method_entries names s a)))"

definition print_object :: "printing \<Rightarrow> name_registry \<Rightarrow> store \<Rightarrow> nat \<Rightarrow> addr \<Rightarrow> string option" where
  "print_object opts names s fuel a = print_dynamic_p opts names s fuel 0 a"

section \<open>Enough fuel for every acyclic object\<close>

text \<open>
  The pointers of the heap lead to objects of the heap; \<open>rank\<close> decreases along them, so it bounds the
  nesting below an object.
\<close>

definition pointers :: "store \<Rightarrow> addr \<Rightarrow> addr set" where
  "pointers s a = {b. \<exists>(k, f) \<in> set (fields_of s a). f_base f = PtrV (Some b)}"

definition closed_heap :: "store \<Rightarrow> bool" where
  "closed_heap s \<longleftrightarrow> (\<forall>a < length (heap s). \<forall>b \<in> pointers s a. b < length (heap s))"

definition ranked :: "store \<Rightarrow> (addr \<Rightarrow> nat) \<Rightarrow> bool" where
  "ranked s rank \<longleftrightarrow> (\<forall>a < length (heap s). \<forall>b \<in> pointers s a. rank b < rank a)"

lemma those_all: "(\<And>x. x \<in> set xs \<Longrightarrow> f x = Some (g x)) \<Longrightarrow> those (map f xs) = Some (map g xs)"
  by (induction xs) auto

lemma map_optionE': "map_option g x = Some y \<Longrightarrow> (\<And>z. x = Some z \<Longrightarrow> y = g z \<Longrightarrow> P) \<Longrightarrow> P"
  by (cases x) auto

lemma those_member: "those xs = Some ys \<Longrightarrow> y \<in> set ys \<Longrightarrow> Some y \<in> set xs"
  by (induction xs arbitrary: ys) (auto split: option.splits)

lemma print_value_nested:
  assumes "\<And>b. v = PtrV (Some b) \<Longrightarrow> nested b = Some (nested' b)"
  shows "print_field_value_p names nested v = Some (the (print_field_value_p names (\<lambda>b. Some (nested' b)) v))"
  using assms by (auto simp: print_field_value_p_def split: field_base.splits option.splits)

lemma print_ranked:
  assumes "closed_heap s" and "ranked s rank" and "a < length (heap s)"
  shows "\<exists>out. \<forall>fuel. rank a < fuel \<longrightarrow> print_dynamic_p opts names s fuel depth a = Some out"
  using assms(3)
proof (induction "rank a" arbitrary: a depth rule: less_induct)
  case less
  have "\<exists>out. \<forall>fuel. rank a \<le> fuel \<longrightarrow> print_dynamic_p opts names s fuel (depth + 1) b = Some out"
    if "b \<in> pointers s a" for b
  proof -
    have b: "rank b < rank a" "b < length (heap s)"
      using assms(1,2) less.prems that by (auto simp: ranked_def closed_heap_def)
    from less.hyps [OF b, of "depth + 1"] show ?thesis using b(1) by (meson order_less_le_trans)
  qed
  then obtain sub where sub: "print_dynamic_p opts names s fuel (depth + 1) b = Some (sub b)"
    if "b \<in> pointers s a" "rank a \<le> fuel" for b fuel
    by metis
  let ?shown = "\<lambda>f. the (print_field_value_p names (\<lambda>b. Some (sub b)) (f_base f))"
  let ?entry = "\<lambda>(k, f). format_field_key_p names k (f_attrs f) @ '': '' @ ?shown f"
  have "print_dynamic_p opts names s (Suc fuel) depth a =
      Some (layout opts depth (map ?entry (shown_fields opts s a) @ method_entries names s a))" if "rank a \<le> fuel" for fuel
  proof -
    have "(\<lambda>(k, f). map_option (\<lambda>v. format_field_key_p names k (f_attrs f) @ '': '' @ v)
        (print_field_value_p names (print_dynamic_p opts names s fuel (depth + 1)) (f_base f))) kf = Some (?entry kf)"
      if kf: "kf \<in> set (shown_fields opts s a)" for kf
    proof -
      obtain k f where kf': "kf = (k, f)" by fastforce
      have "(k, f) \<in> set (fields_of s a)" using kf by (simp add: kf' shown_fields_def)
      then have "b \<in> pointers s a" if "f_base f = PtrV (Some b)" for b using that by (auto simp: pointers_def)
      then have "print_field_value_p names (print_dynamic_p opts names s fuel (depth + 1)) (f_base f) = Some (?shown f)"
        using sub \<open>rank a \<le> fuel\<close> by (intro print_value_nested) auto
      then show ?thesis by (simp add: kf')
    qed
    from those_all [of "shown_fields opts s a", OF this] show ?thesis by simp
  qed
  then have "print_dynamic_p opts names s fuel depth a =
      Some (layout opts depth (map ?entry (shown_fields opts s a) @ method_entries names s a))" if "rank a < fuel" for fuel
    using that by (cases fuel) (simp_all only: less_Suc_eq_le not_less_zero)
  then show ?case by blast
qed

text \<open>
  C37: printing ends on every acyclic object: for any layout and names there is one text that is
  printed with any fuel above the nesting depth of the object.
\<close>

theorem print_terminates:
  assumes "closed_heap s" and "ranked s rank" and "a < length (heap s)"
  shows "\<exists>out. \<forall>fuel > rank a. print_object opts names s fuel a = Some out"
  using print_ranked [OF assms] by (simp add: print_object_def)

text \<open>An object that holds a pointer to itself is printed by no amount of fuel: the recursion does not end.\<close>

lemma print_cycle:
  assumes "(k, f) \<in> set (shown_fields opts s a)" and "f_base f = PtrV (Some a)"
  shows "print_dynamic_p opts names s fuel depth a = None"
proof (induction fuel arbitrary: depth)
  case (Suc fuel)
  have none: "those xs = None" if "None \<in> set xs" for xs :: "string option list"
    using that by (induction xs) (auto split: option.splits)
  have "None \<in> set (map (\<lambda>(k, f). map_option (\<lambda>v. format_field_key_p names k (f_attrs f) @ '': '' @ v)
      (print_field_value_p names (print_dynamic_p opts names s fuel (depth + 1)) (f_base f))) (shown_fields opts s a))"
    using assms Suc by (force simp: print_field_value_p_def image_iff)
  from none [OF this] show ?case by simp
qed simp

section \<open>One line\<close>

text \<open>The texts that print unescaped: display names and registered names.\<close>

definition plain_names :: "name_registry \<Rightarrow> store \<Rightarrow> bool" where
  "plain_names names s \<longleftrightarrow>
     (\<forall>h t. lookup_registered_key_name names h = Some t \<longrightarrow> CHR 0x0A \<notin> set t) \<and>
     (\<forall>a < length (heap s).
        (\<forall>(k, f) \<in> set (fields_of s a). \<forall>t. find_display (f_attrs f) = Some t \<longrightarrow> CHR 0x0A \<notin> set t) \<and>
        (\<forall>(k, m) \<in> set (o_methods (obj_at s a)). \<forall>t. find_display (m_attrs m) = Some t \<longrightarrow> CHR 0x0A \<notin> set t))"

lemma plain_display:
  assumes "plain_names names s" and "a < length (heap s)"
  shows "(k, f) \<in> set (fields_of s a) \<Longrightarrow> find_display (f_attrs f) = Some t \<Longrightarrow> CHR 0x0A \<notin> set t"
    and "(k, m) \<in> set (o_methods (obj_at s a)) \<Longrightarrow> find_display (m_attrs m) = Some t \<Longrightarrow> CHR 0x0A \<notin> set t"
  using assms by (fastforce simp: plain_names_def)+

lemma one_line_digits: "CHR 0x0A \<notin> set (nat_digits n)"
  using nat_digits_all_digits [of n] by (auto simp: is_digit_def)

lemma one_line_escaped: "CHR 0x0A \<notin> set (escape_string_p t)"
  by (auto simp: escape_string_p_def escape_char_p_def)

lemma hex_char_line: "d < 16 \<Longrightarrow> hex_char d \<noteq> CHR 0x0A"
proof -
  assume "d < 16"
  then have "(of_char (hex_char d) :: nat) \<noteq> 10" by (simp add: hex_char_def)
  then show ?thesis by auto
qed

lemma one_line_hex: "CHR 0x0A \<notin> set (hex_string bs)"
proof -
  have "hex_char (unat b div 16) \<noteq> CHR 0x0A" "hex_char (unat b mod 16) \<noteq> CHR 0x0A" for b :: u8
  proof -
    have "unat b < 2 ^ LENGTH(8)" by (rule unsigned_less)
    then have "unat b div 16 < 16" "unat b mod 16 < 16" by simp_all
    then show "hex_char (unat b div 16) \<noteq> CHR 0x0A" "hex_char (unat b mod 16) \<noteq> CHR 0x0A" by (simp_all add: hex_char_line)
  qed
  then show ?thesis by (auto simp: hex_string_def hex_byte_def) metis+
qed

lemma one_line_listed: "(\<And>t. t \<in> set ts \<Longrightarrow> CHR 0x0A \<notin> set t) \<Longrightarrow> CHR 0x0A \<notin> set (listed ts)"
  by (induction ts rule: listed.induct) auto

lemma one_line_strip: "CHR 0x0A \<notin> set t \<Longrightarrow> CHR 0x0A \<notin> set (strip_zeros t)"
  by (auto simp: strip_zeros_def dest: set_dropWhileD)

lemma one_line_shortest: "CHR 0x0A \<notin> set (shortest_form q x)"
proof -
  obtain d ds where q: "nat_digits q = d # ds" by (cases "nat_digits q") simp_all
  have line: "CHR 0x0A \<notin> set (d # ds)" using one_line_digits [of q] by (simp only: q) simp
  then have part: "CHR 0x0A \<notin> set (take n (d # ds))" "CHR 0x0A \<notin> set (strip_zeros (drop n (d # ds)))"
      "CHR 0x0A \<notin> set (strip_zeros ds)" "CHR 0x0A \<notin> set (strip_zeros (d # ds))" for n
    using set_take_subset [of n "d # ds"] set_drop_subset [of n "d # ds"] by (auto intro!: one_line_strip)
  show ?thesis
    using line part one_line_digits [of "nat \<bar>x\<bar>"]
    by (auto simp: shortest_form_def with_fraction_def q Let_def simp del: take_Suc_Cons drop_Suc_Cons)
qed

lemma one_line_float: "CHR 0x0A \<notin> set (stream_float w)"
  using one_line_shortest by (simp add: stream_float_def Let_def split: prod.split)

lemma one_line_key: "CHR 0x0A \<notin> set (format_key_p k)" "CHR 0x0A \<notin> set (format_hash_p k)"
  using one_line_digits [of "unat k"] one_line_hex by (auto simp: format_key_p_def format_hash_p_def hex32_def)

lemma one_line_token: "plain_names names s \<Longrightarrow> CHR 0x0A \<notin> set (format_token_p names h)"
  using one_line_key(2) by (auto simp: format_token_p_def plain_names_def split: option.split)

lemma one_line_label:
  assumes "plain_names names s" and "\<And>t. find_display as = Some t \<Longrightarrow> CHR 0x0A \<notin> set t"
  shows "CHR 0x0A \<notin> set (format_field_key_p names k as)"
  using assms one_line_key(1) by (auto simp: format_field_key_p_def plain_names_def split: option.split)

lemma one_line_number: "CHR 0x0A \<notin> set (int32_to_string w)" "CHR 0x0A \<notin> set (format_float_p w)" "CHR 0x0A \<notin> set (bool_text b)"
  using one_line_digits one_line_float
  by (auto simp: int32_to_string_def int_to_string_def format_float_p_def bool_text_def Let_def)

lemma one_line_value:
  assumes "plain_names names s" and "\<And>a t. v = PtrV (Some a) \<Longrightarrow> nested a = Some t \<Longrightarrow> CHR 0x0A \<notin> set t"
    and "print_field_value_p names nested v = Some text"
  shows "CHR 0x0A \<notin> set text"
proof -
  have lists: "CHR 0x0A \<notin> set (listed (map bool_text bs))" "CHR 0x0A \<notin> set (listed (map int32_to_string ws))"
      "CHR 0x0A \<notin> set (listed (map format_float_p fs))" for bs ws fs
    using one_line_number by (auto intro!: one_line_listed)
  show ?thesis
    using assms one_line_token [OF assms(1)] one_line_number one_line_escaped one_line_digits lists
    by (cases v) (auto simp: print_field_value_p_def split: option.splits)
qed

lemma one_line_method: "CHR 0x0A \<notin> set (print_method_value_p as)"
proof -
  have "CHR 0x0A \<notin> set t" if "t \<in> set (method_pairs as)" for t
    using that one_line_escaped by (auto simp: method_pairs_def split: option.splits if_splits)
  then show ?thesis using one_line_listed [of "method_pairs as"] by (auto simp: print_method_value_p_def)
qed

text \<open>
  Without \<open>multiline\<close> the output is one line, whatever the objects, their nesting and the texts in
  them hold: line breaks can only come in through display names and registered names.
\<close>

theorem print_one_line:
  assumes "\<not> multiline opts" and "plain_names names s" and "closed_heap s" and "a < length (heap s)"
    and "print_object opts names s fuel a = Some out"
  shows "CHR 0x0A \<notin> set out"
proof -
  have "CHR 0x0A \<notin> set out" if "print_dynamic_p opts names s fuel depth a = Some out" "a < length (heap s)" for depth a out
    using that
  proof (induction fuel arbitrary: depth a out)
    case (Suc fuel)
    let ?entry = "\<lambda>(k, f). map_option (\<lambda>v. format_field_key_p names k (f_attrs f) @ '': '' @ v)
      (print_field_value_p names (print_dynamic_p opts names s fuel (depth + 1)) (f_base f))"
    obtain es where es: "those (map ?entry (shown_fields opts s a)) = Some es"
      "out = layout opts depth (es @ method_entries names s a)"
      using Suc.prems(1) by (auto split: option.splits)
    have "CHR 0x0A \<notin> set e" if e: "e \<in> set es" for e
    proof -
      have "Some e \<in> ?entry ` set (shown_fields opts s a)" using those_member [OF es(1) e] by (simp only: set_map)
      then obtain kf where entry: "Some e = ?entry kf" "kf \<in> set (shown_fields opts s a)" by (rule imageE)
      obtain k f where "kf = (k, f)" by fastforce
      with entry have kf: "(k, f) \<in> set (shown_fields opts s a)" "?entry (k, f) = Some e" by simp_all
      obtain v where v: "print_field_value_p names (print_dynamic_p opts names s fuel (depth + 1)) (f_base f) = Some v"
        "e = format_field_key_p names k (f_attrs f) @ '': '' @ v" using kf(2) unfolding prod.case by (rule map_optionE')
      have field: "(k, f) \<in> set (fields_of s a)" using kf(1) by (simp add: shown_fields_def)
      then have label: "CHR 0x0A \<notin> set (format_field_key_p names k (f_attrs f))"
        by (intro one_line_label [OF assms(2)] plain_display(1) [OF assms(2) Suc.prems(2)])
      have "b < length (heap s)" if "f_base f = PtrV (Some b)" for b
        using assms(3) Suc.prems(2) field that by (auto simp: closed_heap_def pointers_def)
      then have "CHR 0x0A \<notin> set v" using one_line_value [OF assms(2) _ v(1)] Suc.IH by blast
      then show ?thesis using label by (simp add: v(2))
    qed
    moreover have "CHR 0x0A \<notin> set e" if e: "e \<in> set (method_entries names s a)" for e
    proof -
      obtain k m where m: "(k, m) \<in> set (o_methods (obj_at s a))"
        "e = format_method_key_p names k (m_attrs m) @ '': '' @ print_method_value_p (m_attrs m)"
        using e by (auto simp: method_entries_def)
      have "CHR 0x0A \<notin> set (format_field_key_p names k (m_attrs m))"
        by (intro one_line_label [OF assms(2)] plain_display(2) [OF assms(2) Suc.prems(2) m(1)])
      then show ?thesis using one_line_method by (simp add: m(2) format_method_key_p_def)
    qed
    ultimately have "CHR 0x0A \<notin> set (listed (es @ method_entries names s a))" by (intro one_line_listed) auto
    then show ?case using assms(1) by (simp add: es(2) layout_def)
  qed simp
  then show ?thesis using assms(4,5) by (simp add: print_object_def)
qed

text \<open>An object with a string that holds a line break, and a pointer to an empty one.\<close>

definition two_objects :: store where
  "two_objects = \<lparr> heap =
     [\<lparr> o_fields = [(1, plain_field (StringV [CHR ''a'', CHR 0x0A])), (2, plain_field (PtrV (Some 1)))],
        o_methods = [], o_lookup = (\<lambda>_. None), o_userdata = None, o_factory = None \<rparr>,
      \<lparr> o_fields = [], o_methods = [], o_lookup = (\<lambda>_. None), o_userdata = None, o_factory = None \<rparr>],
     registry = [] \<rparr>"

lemma two_objects_heap: "closed_heap two_objects" "ranked two_objects (\<lambda>a. 1 - a)" "plain_names Map.empty two_objects"
  by (auto simp: closed_heap_def ranked_def plain_names_def pointers_def two_objects_def plain_field_def
      lookup_registered_key_name_def less_Suc_eq numeral_2_eq_2)

theorem print_one_line_witness:
  "\<exists>out. print_object \<lparr> multiline = False, po_indent = [], hide_internal = False \<rparr> Map.empty two_objects 2 0 = Some out \<and>
     CHR 0x0A \<notin> set out"
proof -
  let ?opts = "\<lparr> multiline = False, po_indent = [], hide_internal = False \<rparr>"
  obtain out where out: "print_object ?opts Map.empty two_objects 2 0 = Some out"
    using print_ranked [OF two_objects_heap(1,2), of 0 ?opts Map.empty 0] by (auto simp: two_objects_def print_object_def)
  from print_one_line [OF _ two_objects_heap(3,1) _ this] out show ?thesis by (simp add: two_objects_def)
qed

theorem print_terminates_witness:
  "\<exists>out. print_object \<lparr> multiline = True, po_indent = '' '', hide_internal = True \<rparr> Map.empty two_objects 2 0 = Some out"
  using print_terminates [OF two_objects_heap(1,2), of 0 "\<lparr> multiline = True, po_indent = '' '', hide_internal = True \<rparr>" Map.empty]
  by (auto simp: two_objects_def)

end
