(* ===== verification/Cli.thy ===== *)
theory Cli
  imports Json_Convert Print
begin

text \<open>
  The interactive client (src/src/app/cli/cli_app.cpp): how a line is taken apart, which request of
  the client library each command makes, and the session around it. The client library
  is a parameter: a function from a request to what its future delivers, an exception included.
\<close>

section \<open>Taking a line apart\<close>

definition blank :: "char \<Rightarrow> bool" where
  "blank c \<longleftrightarrow> c \<in> {CHR '' '', CHR 0x09, CHR 0x0D, CHR 0x0A}"

definition trim :: "string \<Rightarrow> string" where
  "trim s = trim_of blank s"

abbreviation quote_char :: char where "quote_char \<equiv> CHR 0x22"

abbreviation escape_char :: char where "escape_char \<equiv> CHR 0x5C"

definition opens :: "char \<Rightarrow> bool" where
  "opens c \<longleftrightarrow> c \<in> {CHR ''('', CHR ''{'', CHR ''[''}"

definition closes :: "char \<Rightarrow> bool" where
  "closes c \<longleftrightarrow> c \<in> {CHR '')'', CHR ''}'', CHR '']''}"

text \<open>The loop of \<open>extract_parens\<close>: the depth, inside a string, behind an escape, the text so far.\<close>

fun parens_loop :: "nat \<Rightarrow> bool \<Rightarrow> bool \<Rightarrow> string \<Rightarrow> string \<Rightarrow> string" where
  "parens_loop depth in_str escape found [] = []"
| "parens_loop depth in_str escape found (c # cs) =
     (if escape then parens_loop depth in_str False (found @ [c]) cs
      else if in_str then
        (if c = escape_char then parens_loop depth True True (found @ [c]) cs
         else parens_loop depth (c \<noteq> quote_char) False (found @ [c]) cs)
      else if c = quote_char then parens_loop depth True False (found @ [c]) cs
      else if opens c then parens_loop (depth + 1) False False (found @ [c]) cs
      else if closes c then
        (if depth \<le> 1 then found else parens_loop (depth - 1) False False (found @ [c]) cs)
      else parens_loop depth False False (found @ [c]) cs)"

definition extract_parens :: "string \<Rightarrow> nat \<Rightarrow> string" where
  "extract_parens s open_pos = parens_loop 1 False False [] (drop (open_pos + 1) s)"

definition add_argument :: "string \<Rightarrow> string list \<Rightarrow> string list" where
  "add_argument a as = (if trim a = [] then as else trim a # as)"

fun split_loop :: "nat \<Rightarrow> bool \<Rightarrow> bool \<Rightarrow> string \<Rightarrow> string \<Rightarrow> string list" where
  "split_loop depth in_str escape piece [] = add_argument piece []"
| "split_loop depth in_str escape piece (c # cs) =
     (if escape then split_loop depth in_str False (piece @ [c]) cs
      else if in_str then
        (if c = escape_char then split_loop depth True True (piece @ [c]) cs
         else split_loop depth (c \<noteq> quote_char) False (piece @ [c]) cs)
      else if c = quote_char then split_loop depth True False (piece @ [c]) cs
      else if opens c then split_loop (depth + 1) False False (piece @ [c]) cs
      else if closes c then split_loop (depth - 1) False False (piece @ [c]) cs
      else if c = CHR '','' \<and> depth = 0 then add_argument piece (split_loop 0 False False [] cs)
      else split_loop depth False False (piece @ [c]) cs)"

definition split_args :: "string \<Rightarrow> string list" where
  "split_args s = split_loop 0 False False [] s"

text \<open>The first opens parenthesis outside a string, as an offset.\<close>

fun paren_loop :: "nat \<Rightarrow> bool \<Rightarrow> bool \<Rightarrow> string \<Rightarrow> nat option" where
  "paren_loop i in_str esc [] = None"
| "paren_loop i in_str esc (c # cs) =
     (if esc then paren_loop (i + 1) in_str False cs
      else if in_str then
        (if c = escape_char then paren_loop (i + 1) True True cs
         else paren_loop (i + 1) (c \<noteq> quote_char) False cs)
      else if c = quote_char then paren_loop (i + 1) True False cs
      else if c = CHR ''('' then Some i
      else paren_loop (i + 1) False False cs)"

definition find_first_paren :: "string \<Rightarrow> nat option" where
  "find_first_paren s = paren_loop 0 False False s"

text \<open>\<open>s.find(c)\<close>.\<close>

definition find_char :: "char \<Rightarrow> string \<Rightarrow> nat option" where
  "find_char c s = (if c \<in> set s then Some (length (takeWhile (\<lambda>x. x \<noteq> c) s)) else None)"

text \<open>
  \<open>unquote\<close>: a text between quotation marks is parsed as JSON; where that fails or gives no string,
  the marks alone are taken off.
\<close>

definition unquote :: "(string \<Rightarrow> json result) \<Rightarrow> string \<Rightarrow> string" where
  "unquote parse s =
     (if length s < 2 \<or> hd s \<noteq> quote_char \<or> last s \<noteq> quote_char then s
      else case parse s of
        Inr (JString t) \<Rightarrow> t
      | _ \<Rightarrow> butlast (tl s))"

section \<open>Names of keys\<close>

definition register_key :: "string \<Rightarrow> key_map \<Rightarrow> key_map" where
  "register_key name km = (if name = [] then km else km(key name \<mapsto> name))"

fun register_json_keys :: "json \<Rightarrow> key_map \<Rightarrow> key_map"
  and register_members :: "(string \<times> json) list \<Rightarrow> key_map \<Rightarrow> key_map"
  and register_elements :: "json list \<Rightarrow> key_map \<Rightarrow> key_map" where
  "register_json_keys (JObject es) km = register_members es km"
| "register_json_keys (JArray js) km = register_elements js km"
| "register_json_keys _ km = km"
| "register_members [] km = km"
| "register_members ((n, j) # es) km = register_members es (register_json_keys j (register_key n km))"
| "register_elements [] km = km"
| "register_elements (j # js) km = register_elements js (register_json_keys j km)"

fun merge_dictionary :: "(hash_t \<times> dvalue) list \<Rightarrow> key_map \<Rightarrow> key_map" where
  "merge_dictionary [] km = km"
| "merge_dictionary ((k, v) # kvs) km =
     merge_dictionary kvs (case v of StringV s \<Rightarrow> km(k \<mapsto> s) | _ \<Rightarrow> km)"

definition make_known_keys :: key_map where
  "make_known_keys = map_of
     [(FIELD_NAME, ''__name''), (FIELD_FIELDS, ''__fields''), (FIELD_METHODS, ''__methods''),
      (FIELD_KLASS, ''__class''), (FIELD_NAMESPACE, ''__namespace''), (FIELD_PARAMS, ''__params''),
      (FIELD_DISPLAY_NAME, ''__displayName''), (FIELD_DESCRIPTION, ''__description''),
      (FIELD_CATEGORY, ''__category''), (FIELD_OBSOLETE, ''__obsolete''),
      (FIELD_OBSOLETE_MESSAGE, ''__obsoleteMessage''), (FIELD_REQUIRED, ''__required''),
      (FIELD_ERROR, ''__error''), (FIELD_ERROR_CODE, ''__code''), (FIELD_ERROR_MESSAGE, ''__message'')]"

section \<open>The state of a session\<close>

text \<open>The requests the commands make; the parameters name the object, the key and the payload.\<close>

datatype client_request =
    Instantiate hash_t hash_t "dvalue smap"
  | Get hash_t "dvalue smap option"
  | Set_fields hash_t "dvalue smap"
  | Call hash_t hash_t "dvalue smap"
  | Describe hash_t hash_t
  | Help
  | Dictionary
  | Destroy hash_t

text \<open>
  What the session takes from outside: the JSON library, the registered classes, \<open>what()\<close> of an
  exception, and the client, whose state the type variable stands for.
\<close>

record 'c surroundings =
  parse :: "string \<Rightarrow> json result"
  dump :: "int \<Rightarrow> json \<Rightarrow> string"
  registered :: ns_map
  what :: "exc \<Rightarrow> string"
  request :: "client_request \<Rightarrow> 'c \<Rightarrow> dvalue smap result \<times> 'c"

datatype printed = Cout string | Cerr string

text \<open>The handles in the order in which the unordered map iterates over them.\<close>

record 'c repl =
  remote :: 'c
  handles :: "(string \<times> hash_t) list"
  known :: key_map
  console :: "printed list"

type_synonym 'c command = "'c repl \<Rightarrow> exc option \<times> 'c repl"

definition say :: "printed \<Rightarrow> 'c repl \<Rightarrow> 'c repl" where
  "say p st = st\<lparr>console := console st @ [p]\<rparr>"

definition report :: "'c surroundings \<Rightarrow> exc \<Rightarrow> 'c repl \<Rightarrow> 'c repl" where
  "report env e st = say (Cerr (''error: '' @ what env e @ ''\<newline>'')) st"

definition learn :: "(key_map \<Rightarrow> key_map) \<Rightarrow> 'c repl \<Rightarrow> 'c repl" where
  "learn f st = st\<lparr>known := f (known st)\<rparr>"

definition ask :: "'c surroundings \<Rightarrow> client_request \<Rightarrow> 'c repl \<Rightarrow> dvalue smap result \<times> 'c repl" where
  "ask env rq st = (case request env rq (remote st) of (r, c) \<Rightarrow> (r, st\<lparr>remote := c\<rparr>))"

definition parse_and_register :: "'c surroundings \<Rightarrow> string \<Rightarrow> 'c repl \<Rightarrow> dvalue smap result \<times> 'c repl" where
  "parse_and_register env raw st =
     (from_json (parse env) (registered env) raw,
      case parse env raw of Inr j \<Rightarrow> learn (register_json_keys j) st | Inl _ \<Rightarrow> st)"

definition show_object :: "'c surroundings \<Rightarrow> dvalue smap \<Rightarrow> 'c repl \<Rightarrow> 'c repl" where
  "show_object env m st = say (Cout (to_json (dump env) (known st) 2 m @ ''\<newline>'')) st"

text \<open>A request inside the commands' \<open>try\<close> block: its result is shown, its exception reported.\<close>

definition ask_and_show :: "'c surroundings \<Rightarrow> client_request \<Rightarrow> 'c repl \<Rightarrow> 'c repl" where
  "ask_and_show env rq st =
     (case ask env rq st of
        (Inl e, st1) \<Rightarrow> report env e st1
      | (Inr m, st1) \<Rightarrow> show_object env m st1)"

section \<open>The commands\<close>

text \<open>A name between apostrophes.\<close>

definition marked :: "string \<Rightarrow> string" where
  "marked s = CHR 0x27 # s @ [CHR 0x27]"

definition cmd_list :: "'c repl \<Rightarrow> 'c repl" where
  "cmd_list st =
     (if handles st = [] then say (Cout ''(no active instances)\<newline>'') st
      else foldl (\<lambda>st (n, oid). say (Cout (n @ ''  (id='' @ nat_digits (unat oid) @ '')\<newline>'')) st) st (handles st))"

definition undefined_name :: "string \<Rightarrow> 'c repl \<Rightarrow> 'c repl" where
  "undefined_name name st = say (Cerr (''error: '' @ marked name @ '' is not defined\<newline>'')) st"

text \<open>\<open>del\<close>: the handle is dropped first, and the wait for the answer is not guarded.\<close>

definition cmd_del :: "'c surroundings \<Rightarrow> string \<Rightarrow> 'c command" where
  "cmd_del env var st =
     (let name = trim var in
      case map_of (handles st) name of
        None \<Rightarrow> (None, undefined_name name st)
      | Some oid \<Rightarrow>
          (case ask env (Destroy oid) (st\<lparr>handles := filter (\<lambda>(n, _). n \<noteq> name) (handles st)\<rparr>) of
             (Inl e, st1) \<Rightarrow> (Some e, st1)
           | (Inr _, st1) \<Rightarrow> (None, st1)))"

text \<open>\<open>handles.try_emplace\<close>: a name already in use keeps the object it stands for.\<close>

definition keep_handle :: "string \<Rightarrow> hash_t \<Rightarrow> 'c repl \<Rightarrow> 'c repl" where
  "keep_handle var oid st =
     (case map_of (handles st) var of
        Some _ \<Rightarrow> st
      | None \<Rightarrow> st\<lparr>handles := handles st @ [(var, oid)]\<rparr>)"

definition instantiate_and_keep :: "'c surroundings \<Rightarrow> string \<Rightarrow> hash_t \<Rightarrow> hash_t \<Rightarrow> dvalue smap \<Rightarrow> 'c repl \<Rightarrow> 'c repl" where
  "instantiate_and_keep env var ns klass params st =
     (case ask env (Instantiate ns klass params) st of
        (Inl e, st1) \<Rightarrow> report env e st1
      | (Inr m, st1) \<Rightarrow>
          (case tree_as_key FIELD_OBJECT_ID m of
             Inl e \<Rightarrow> report env e st1
           | Inr (oid, _) \<Rightarrow> say (Cout (var @ ''\<newline>'')) (keep_handle var oid st1)))"

text \<open>
  The parameters of \<open>instantiate\<close> and \<open>call\<close> are parsed outside the \<open>try\<close> block: an exception leaves
  the command.
\<close>

definition with_params :: "'c surroundings \<Rightarrow> string option \<Rightarrow> (dvalue smap \<Rightarrow> 'c repl \<Rightarrow> 'c repl) \<Rightarrow> 'c command" where
  "with_params env raw act st =
     (case raw of
        None \<Rightarrow> (None, act (dyn_new 0 []) st)
      | Some text \<Rightarrow>
          (case parse_and_register env text st of
             (Inl e, st1) \<Rightarrow> (Some e, st1)
           | (Inr m, st1) \<Rightarrow> (None, act m st1)))"

definition argument :: "nat \<Rightarrow> string list \<Rightarrow> string option" where
  "argument n as = (if n < length as then Some (trim (as ! n)) else None)"

definition cmd_instantiate :: "'c surroundings \<Rightarrow> string \<Rightarrow> string \<Rightarrow> 'c command" where
  "cmd_instantiate env var args_str st =
     (let as = split_args args_str in
      if length as < 2 then (None, say (Cerr ''error: instantiate requires namespace and class name\<newline>'') st)
      else
        let ns = unquote (parse env) (trim (as ! 0)); klass = unquote (parse env) (trim (as ! 1));
            st1 = learn (register_key klass) (learn (register_key ns) st) in
        with_params env (argument 2 as)
          (instantiate_and_keep env var (if ns = [] then 0 else key ns) (key klass)) st1)"

text \<open>\<open>get\<close> and \<open>set\<close> parse inside it.\<close>

definition cmd_get :: "'c surroundings \<Rightarrow> hash_t \<Rightarrow> string list \<Rightarrow> 'c repl \<Rightarrow> 'c repl" where
  "cmd_get env oid as st =
     (case argument 0 as of
        None \<Rightarrow> ask_and_show env (Get oid None) st
      | Some raw \<Rightarrow>
          (case parse_and_register env raw st of
             (Inl e, st1) \<Rightarrow> report env e st1
           | (Inr m, st1) \<Rightarrow> ask_and_show env (Get oid (Some m)) st1))"

definition cmd_set :: "'c surroundings \<Rightarrow> hash_t \<Rightarrow> string list \<Rightarrow> 'c repl \<Rightarrow> 'c repl" where
  "cmd_set env oid as st =
     (case argument 0 as of
        None \<Rightarrow> say (Cerr ''error: set requires a JSON object argument\<newline>'') st
      | Some raw \<Rightarrow>
          (case parse_and_register env raw st of
             (Inl e, st1) \<Rightarrow> report env e st1
           | (Inr m, st1) \<Rightarrow>
               (case ask env (Set_fields oid m) st1 of
                  (Inl e, st2) \<Rightarrow> report env e st2
                | (Inr _, st2) \<Rightarrow> st2)))"

definition cmd_call :: "'c surroundings \<Rightarrow> hash_t \<Rightarrow> string list \<Rightarrow> 'c command" where
  "cmd_call env oid as st =
     (case argument 0 as of
        None \<Rightarrow> (None, say (Cerr ''error: call requires a method name\<newline>'') st)
      | Some raw \<Rightarrow>
          let method = unquote (parse env) raw in
          with_params env (argument 1 as) (\<lambda>params. ask_and_show env (Call oid (key method) params))
            (learn (register_key method) st))"

definition cmd_describe :: "'c surroundings \<Rightarrow> string list \<Rightarrow> 'c repl \<Rightarrow> 'c repl" where
  "cmd_describe env as st =
     (let name = (\<lambda>n. map_option (unquote (parse env)) (argument n as));
          register = (\<lambda>n. case name n of None \<Rightarrow> id | Some s \<Rightarrow> learn (register_key s));
          token = (\<lambda>n. case name n of None \<Rightarrow> 0 | Some s \<Rightarrow> key s) in
      ask_and_show env (Describe (token 0) (token 1)) (register 1 (register 0 st)))"

definition cmd_info :: "'c surroundings \<Rightarrow> 'c repl \<Rightarrow> 'c repl" where
  "cmd_info env st =
     (case ask env Help st of
        (Inl e, st1) \<Rightarrow> report env e st1
      | (Inr m, st1) \<Rightarrow>
          (case tree_find (registered env) FIELD_DESCRIPTION m of
             Inl e \<Rightarrow> report env e st1
           | Inr (hit, m1) \<Rightarrow>
               (case (hit, tree_value m1 FIELD_DESCRIPTION) of
                  (True, StringV s) \<Rightarrow> say (Cout s) st1
                | _ \<Rightarrow> show_object env m1 st1)))"

section \<open>Dispatch\<close>

definition dispatch_assignment :: "'c surroundings \<Rightarrow> string \<Rightarrow> nat \<Rightarrow> 'c command" where
  "dispatch_assignment env s eq_pos st =
     (let var = trim (take eq_pos s); rhs = trim (drop (eq_pos + 1) s) in
      case find_char CHR ''('' rhs of
        None \<Rightarrow> (None, say (Cerr ''error: expected function call on right-hand side\<newline>'') st)
      | Some rhs_paren \<Rightarrow>
          if trim (take rhs_paren rhs) \<noteq> ''instantiate''
          then (None, say (Cerr (''error: only '' @ marked ''instantiate(...)'' @ '' is supported here\<newline>'')) st)
          else cmd_instantiate env var (extract_parens rhs rhs_paren) st)"

definition dispatch_proxy_op :: "'c surroundings \<Rightarrow> string \<Rightarrow> nat \<Rightarrow> nat \<Rightarrow> 'c command" where
  "dispatch_proxy_op env s dot_pos first_paren st =
     (let obj_name = trim (take dot_pos s);
          oper = trim (take (first_paren - dot_pos - 1) (drop (dot_pos + 1) s));
          as = split_args (extract_parens s first_paren) in
      case map_of (handles st) obj_name of
        None \<Rightarrow> (None, undefined_name obj_name st)
      | Some oid \<Rightarrow>
          if oper = ''get'' then (None, cmd_get env oid as st)
          else if oper = ''set'' then (None, cmd_set env oid as st)
          else if oper = ''call'' then cmd_call env oid as st
          else (None, say (Cerr (''error: unknown operation '' @ marked oper @ '' (available: get, set, call)\<newline>'')) st))"

definition unknown_command :: "string \<Rightarrow> 'c repl \<Rightarrow> 'c repl" where
  "unknown_command s st = say (Cerr (''error: unknown command '' @ marked s @ '' (type '' @ marked ''help'' @ '' for available commands)\<newline>'')) st"

definition dispatch_paren_cmd :: "'c surroundings \<Rightarrow> string \<Rightarrow> nat \<Rightarrow> 'c repl \<Rightarrow> 'c repl" where
  "dispatch_paren_cmd env s first_paren st =
     (if trim (take first_paren s) = ''describe''
      then cmd_describe env (split_args (extract_parens s first_paren)) st
      else unknown_command (trim (take first_paren s)) st)"

definition k_help_text :: string where
  \<open>k_help_text = ''Commands:\<newline>''
     @ ''  name = instantiate("namespace", "Class")      create an instance\<newline>''
     @ ''  name = instantiate("namespace", "Class", {})  create with params\<newline>''
     @ ''  name.get()                                    get all fields (JSON)\<newline>''
     @ ''  name.get({"field": null, ...})                get projected fields\<newline>''
     @ ''  name.set({"field": value, ...})               set fields\<newline>''
     @ ''  name.call("method", {})                       call a method\<newline>''
     @ ''  del name                                      destroy an instance\<newline>''
     @ ''  describe                                      list all server classes\<newline>''
     @ ''  describe("namespace", "Class")                describe one class\<newline>''
     @ ''  info                                          server help and class listing\<newline>''
     @ ''  list                                          show active instances\<newline>''
     @ ''  help                                          this message\<newline>''
     @ ''  exit  |  quit  |  Ctrl+D                      disconnect and exit''\<close>

text \<open>The branches for a line with parentheses, an assignment or neither.\<close>

definition dispatch_call :: "'c surroundings \<Rightarrow> string \<Rightarrow> 'c command" where
  "dispatch_call env s st =
     (let first_paren = find_first_paren s;
          eq_limit = (case first_paren of Some p \<Rightarrow> p | None \<Rightarrow> length s) in
      case find_char CHR ''='' (take eq_limit s) of
        Some i \<Rightarrow> dispatch_assignment env s i st
      | None \<Rightarrow>
          (case first_paren of
             None \<Rightarrow> (None, unknown_command s st)
           | Some p \<Rightarrow>
               (case find_char CHR ''.'' s of
                  Some d \<Rightarrow> if d < p then dispatch_proxy_op env s d p st else (None, dispatch_paren_cmd env s p st)
                | None \<Rightarrow> (None, dispatch_paren_cmd env s p st))))"

text \<open>One line: an exception that leaves it, or whether the session goes on.\<close>

definition dispatch :: "'c surroundings \<Rightarrow> string \<Rightarrow> 'c repl \<Rightarrow> bool result \<times> 'c repl" where
  "dispatch env line st =
     (let s = trim line; go_on = (\<lambda>st. (Inr True, st)) in
      if s = [] \<or> hd s = CHR ''#'' then go_on st
      else if s = ''exit'' \<or> s = ''quit'' then (Inr False, st)
      else if s = ''help'' then go_on (say (Cout (k_help_text @ ''\<newline>'')) st)
      else if s = ''list'' then go_on (cmd_list st)
      else if s = ''describe'' then go_on (cmd_describe env [] st)
      else if s = ''info'' then go_on (cmd_info env st)
      else
        (case (if 4 < length s \<and> take 4 s = ''del '' then cmd_del env (drop 4 s) st
               else dispatch_call env s st) of
           (None, st1) \<Rightarrow> go_on st1
         | (Some e, st1) \<Rightarrow> (Inl e, st1)))"

section \<open>The session\<close>

text \<open>The lines read until the end of the input.\<close>

fun read_lines :: "'c surroundings \<Rightarrow> string list \<Rightarrow> 'c repl \<Rightarrow> exc option \<times> 'c repl" where
  "read_lines env [] st = (None, st)"
| "read_lines env (line # lines) st =
     (case dispatch env line st of
        (Inl e, st1) \<Rightarrow> (Some e, st1)
      | (Inr False, st1) \<Rightarrow> (None, st1)
      | (Inr True, st1) \<Rightarrow> read_lines env lines st1)"

fun destroy_all :: "'c surroundings \<Rightarrow> (string \<times> hash_t) list \<Rightarrow> 'c repl \<Rightarrow> exc option \<times> 'c repl" where
  "destroy_all env [] st = (None, st)"
| "destroy_all env ((n, oid) # hs) st =
     (case ask env (Destroy oid) st of
        (Inl e, st1) \<Rightarrow> (Some e, st1)
      | (Inr _, st1) \<Rightarrow> destroy_all env hs st1)"

definition start_session :: "'c surroundings \<Rightarrow> 'c \<Rightarrow> 'c repl" where
  "start_session env c =
     (let banner = ''bison-cli connected. Type '' @ marked ''help'' @ '' for commands.\<newline>'';
          st = \<lparr>remote = c, handles = [], known = make_known_keys, console = [Cout banner]\<rparr> in
      case ask env Dictionary st of
        (Inl _, st1) \<Rightarrow> st1
      | (Inr m, st1) \<Rightarrow> learn (merge_dictionary m) st1)"

definition on_session :: "'c surroundings \<Rightarrow> string list \<Rightarrow> 'c \<Rightarrow> exc option \<times> 'c repl" where
  "on_session env lines c =
     (case read_lines env lines (start_session env c) of
        (Some e, st) \<Rightarrow> (Some e, st)
      | (None, st) \<Rightarrow> destroy_all env (handles st) st)"

section \<open>What a command line means\<close>

text \<open>
  The specification of an argument: read from outside any string and bracket, it comes back there,
  and no comma and no closing bracket stands at depth zero on the way.
\<close>

fun scan :: "nat \<Rightarrow> bool \<Rightarrow> bool \<Rightarrow> string \<Rightarrow> (nat \<times> bool \<times> bool) option" where
  "scan depth in_str escape [] = Some (depth, in_str, escape)"
| "scan depth in_str escape (c # cs) =
     (if escape then scan depth in_str False cs
      else if in_str then
        (if c = escape_char then scan depth True True cs else scan depth (c \<noteq> quote_char) False cs)
      else if c = quote_char then scan depth True False cs
      else if opens c then scan (depth + 1) False False cs
      else if closes c then (if depth = 0 then None else scan (depth - 1) False False cs)
      else if c = CHR '','' \<and> depth = 0 then None
      else scan depth False False cs)"

definition argument_text :: "string \<Rightarrow> bool" where
  "argument_text a \<longleftrightarrow> scan 0 False False a = Some (0, False, False) \<and> a \<noteq> [] \<and> trim a = a"

definition handle_name :: "string \<Rightarrow> bool" where
  "handle_name n \<longleftrightarrow> n \<noteq> [] \<and> hd n \<noteq> CHR ''#'' \<and>
     (\<forall>c \<in> set n. \<not> blank c \<and> c \<notin> {CHR ''='', CHR ''('', CHR ''.'', quote_char})"

definition quoted :: "string \<Rightarrow> string" where
  "quoted s = quote_char # s @ [quote_char]"

definition plain_text :: "string \<Rightarrow> bool" where
  "plain_text s \<longleftrightarrow> quote_char \<notin> set s \<and> escape_char \<notin> set s"

lemma bracket_chars [simp]:
  "\<not> opens CHR '',''" "\<not> closes CHR '',''" "\<not> opens CHR '' ''" "\<not> closes CHR '' ''" "closes CHR '')''" "\<not> opens CHR '')''"
  by (simp_all add: opens_def closes_def)

lemma split_loop_scan:
  "scan d i e s = Some (d', i', e') \<Longrightarrow> split_loop d i e piece (s @ t) = split_loop d' i' e' (piece @ s) t"
  by (induction d i e s arbitrary: piece rule: scan.induct) (auto split: if_splits)

lemma parens_loop_scan:
  "scan d i e s = Some (d', i', e') \<Longrightarrow>
   parens_loop (Suc d) i e found (s @ t) = parens_loop (Suc d') i' e' (found @ s) t"
  by (induction d i e s arbitrary: found rule: scan.induct) (auto split: if_splits)

lemma trim_blank: "blank c \<Longrightarrow> trim (c # s) = trim s"
  by (simp add: trim_def trim_of_def)

lemma split_listed:
  assumes "\<forall>a \<in> set as. argument_text a"
  shows "split_loop 0 False False [] (listed as) = as"
    and "as \<noteq> [] \<Longrightarrow> split_loop 0 False False '' '' (listed as) = as"
proof -
  have "split_loop 0 False False piece (listed as) = as" if "piece = [] \<and> as = [] \<or> piece \<in> {[], '' ''} \<and> as \<noteq> []" for piece
    using assms that
  proof (induction as arbitrary: piece rule: listed.induct)
    case 1
    then show ?case by (auto simp: add_argument_def trim_def trim_of_def)
  next
    case (2 t)
    then have t: "scan 0 False False t = Some (0, False, False)" "t \<noteq> []" "trim t = t" by (auto simp: argument_text_def)
    have "split_loop 0 False False piece (t @ []) = split_loop 0 False False (piece @ t) []"
      by (rule split_loop_scan) (rule t(1))
    moreover have "trim (piece @ t) = t" using 2 t(3) by (auto simp: trim_blank blank_def)
    ultimately show ?case using t(2) by (simp add: add_argument_def)
  next
    case (3 t u us)
    then have t: "scan 0 False False t = Some (0, False, False)" "t \<noteq> []" "trim t = t" by (auto simp: argument_text_def)
    have "trim (piece @ t) = t" using 3 t(3) by (auto simp: trim_blank blank_def)
    moreover have "split_loop 0 False False '' '' (listed (u # us)) = u # us" using 3 by (intro "3.IH") auto
    ultimately show ?case using t(2) by (simp add: split_loop_scan [OF t(1)] add_argument_def)
  qed
  then show "split_loop 0 False False [] (listed as) = as"
    and "as \<noteq> [] \<Longrightarrow> split_loop 0 False False '' '' (listed as) = as" by auto
qed

lemma parens_listed:
  assumes "\<forall>a \<in> set as. argument_text a"
  shows "parens_loop 1 False False found (listed as @ CHR '')'' # rest) = found @ listed as"
  using assms
proof (induction as arbitrary: found rule: listed.induct)
  case (2 t)
  then have t: "scan 0 False False t = Some (0, False, False)" by (simp add: argument_text_def)
  show ?case using parens_loop_scan [OF t, of found "CHR '')'' # rest"] by simp
next
  case (3 t u us)
  then have t: "scan 0 False False t = Some (0, False, False)" by (simp add: argument_text_def)
  have "parens_loop 1 False False found (listed (t # u # us) @ CHR '')'' # rest) =
      parens_loop 1 False False (found @ t @ '', '') (listed (u # us) @ CHR '')'' # rest)"
    using parens_loop_scan [OF t, of found "'', '' @ listed (u # us) @ CHR '')'' # rest"] by simp
  then show ?case using "3.IH" 3(2) by simp
qed simp

lemma arguments_extracted:
  assumes "\<forall>a \<in> set as. argument_text a"
  shows "split_args (extract_parens (before @ CHR ''('' # listed as @ CHR '')'' # rest) (length before)) = as"
  using split_listed(1) [OF assms] parens_listed [OF assms, of "[]" rest]
  by (simp add: split_args_def extract_parens_def)

lemma paren_loop_plain:
  assumes "\<forall>c \<in> set s. c \<noteq> quote_char \<and> c \<noteq> CHR ''(''"
  shows "paren_loop i False False (s @ t) = paren_loop (i + length s) False False t"
  using assms by (induction s arbitrary: i) auto

lemma find_char_first: "c \<notin> set s \<Longrightarrow> find_char c (s @ c # t) = Some (length s)"
  by (induction s) (auto simp: find_char_def split: if_splits)

lemma trim_word: "\<forall>c \<in> set n. \<not> blank c \<Longrightarrow> trim n = n"
  by (cases "n = []") (simp add: trim_def trim_of_def, simp add: trim_def trim_of_id)

lemma quoted_argument:
  assumes "plain_text m"
  shows "argument_text (quoted m)"
proof -
  have "scan 0 True False (m @ [quote_char]) = Some (0, False, False)"
    using assms by (induction m) (auto simp: plain_text_def)
  moreover have "trim (quoted m) = quoted m"
    unfolding trim_def by (rule trim_of_id) (simp_all add: quoted_def blank_def)
  ultimately show ?thesis by (simp add: argument_text_def quoted_def)
qed

text \<open>A line that applies an operation to a handle.\<close>

definition operation_line :: "string \<Rightarrow> string \<Rightarrow> string list \<Rightarrow> string" where
  "operation_line n oper as = n @ CHR ''.'' # oper @ CHR ''('' # listed as @ '')''"

lemma dispatch_operation:
  assumes n: "handle_name n" and oper: "oper \<in> {''get'', ''set'', ''call''}" and as: "\<forall>a \<in> set as. argument_text a"
  shows "dispatch env (operation_line n oper as) st =
    (case dispatch_proxy_op env (operation_line n oper as) (length n) (length n + 1 + length oper) st of
       (None, st1) \<Rightarrow> (Inr True, st1) | (Some e, st1) \<Rightarrow> (Inl e, st1))"
proof -
  let ?s = "operation_line n oper as"
  have nn: "n \<noteq> []" "hd n \<noteq> CHR ''#''" "\<not> blank (hd n)"
    and chars: "c \<in> set n \<Longrightarrow> \<not> blank c \<and> c \<noteq> CHR ''='' \<and> c \<noteq> CHR ''('' \<and> c \<noteq> CHR ''.'' \<and> c \<noteq> quote_char" for c
    using n by (auto simp: handle_name_def)
  have s: "trim ?s = ?s"
    unfolding trim_def using nn by (intro trim_of_id) (auto simp: operation_line_def blank_def)
  have ne: "?s \<noteq> []" "hd ?s \<noteq> CHR ''#''" using nn by (simp_all add: operation_line_def)
  have open_paren: "CHR ''('' \<in> set ?s" by (simp add: operation_line_def)
  have word: "?s \<noteq> w" if "CHR ''('' \<notin> set w" for w using open_paren that by metis
  have words: "?s \<noteq> ''exit''" "?s \<noteq> ''quit''" "?s \<noteq> ''help''" "?s \<noteq> ''list''" "?s \<noteq> ''describe''" "?s \<noteq> ''info''"
    by (rule word, simp)+
  have del: "take 4 ?s \<noteq> ''del ''"
  proof
    assume d: "take 4 ?s = ''del ''"
    show False
    proof (cases "4 \<le> length n")
      case True
      then have "take 4 n = ''del ''" using d by (simp add: operation_line_def)
      then have "CHR '' '' \<in> set (take 4 n)" by simp
      then have "CHR '' '' \<in> set n" by (rule in_set_takeD)
      then show False using chars by (auto simp: blank_def)
    next
      case False
      then obtain k where "4 - length n = Suc k" by (metis Suc_diff_Suc not_le)
      then have "CHR ''.'' \<in> set (take 4 ?s)" by (simp add: operation_line_def)
      then show False unfolding d by simp
    qed
  qed
  have paren: "find_first_paren ?s = Some (length n + 1 + length oper)"
  proof -
    have "\<forall>c \<in> set (n @ CHR ''.'' # oper). c \<noteq> quote_char \<and> c \<noteq> CHR ''(''"
      using chars oper by auto
    from paren_loop_plain [OF this, of 0 "CHR ''('' # listed as @ '')''"] show ?thesis
      by (simp add: find_first_paren_def operation_line_def)
  qed
  have "find_char CHR ''='' (take (length n + 1 + length oper) ?s) = None"
    using chars oper by (auto simp: find_char_def operation_line_def)
  moreover have "find_char CHR ''.'' ?s = Some (length n)"
    unfolding operation_line_def using chars by (intro find_char_first) blast
  ultimately have "dispatch_call env ?s st = dispatch_proxy_op env ?s (length n) (length n + 1 + length oper) st"
    using paren by (simp add: dispatch_call_def Let_def)
  then show ?thesis using s ne words del by (simp add: dispatch_def Let_def)
qed

lemma proxy_op_parts:
  assumes "handle_name n" and "oper \<in> {''get'', ''set'', ''call''}" and "\<forall>a \<in> set as. argument_text a"
  shows "trim (take (length n) (operation_line n oper as)) = n"
    and "trim (take (length n + 1 + length oper - length n - 1) (drop (length n + 1) (operation_line n oper as))) = oper"
    and "split_args (extract_parens (operation_line n oper as) (length n + 1 + length oper)) = as"
proof -
  have "n = trim n" using assms(1) by (intro trim_word [symmetric]) (auto simp: handle_name_def)
  then show "trim (take (length n) (operation_line n oper as)) = n" by (simp add: operation_line_def)
  have "oper = trim oper" using assms(2) by (intro trim_word [symmetric]) (auto simp: blank_def)
  then show "trim (take (length n + 1 + length oper - length n - 1) (drop (length n + 1) (operation_line n oper as))) = oper"
    by (simp add: operation_line_def)
  show "split_args (extract_parens (operation_line n oper as) (length n + 1 + length oper)) = as"
    using arguments_extracted [OF assms(3), of "n @ CHR ''.'' # oper" "[]"] by (simp add: operation_line_def)
qed


section \<open>Properties\<close>

lemma unquote_quoted: "unquote js (quoted m) = (case js (quoted m) of Inr (JString t) \<Rightarrow> t | _ \<Rightarrow> m)"
  by (auto simp: unquote_def quoted_def split: sum.splits json.splits)

lemma argument_trimmed: "argument_text a \<Longrightarrow> trim a = a"
  by (simp add: argument_text_def)

lemma call_line:
  assumes "handle_name n" and "map_of (handles st) n = Some oid" and "plain_text m" and "argument_text j"
  shows "dispatch env (operation_line n ''call'' [quoted m, j]) st =
    (case cmd_call env oid [quoted m, j] st of (None, st1) \<Rightarrow> (Inr True, st1) | (Some e, st1) \<Rightarrow> (Inl e, st1))"
proof -
  have as: "\<forall>a \<in> set [quoted m, j]. argument_text a" using assms(3,4) quoted_argument by simp
  have oper: "''call'' \<in> {''get'', ''set'', ''call''}" by simp
  show ?thesis
    unfolding dispatch_operation [OF assms(1) oper as] dispatch_proxy_op_def Let_def proxy_op_parts [OF assms(1) oper as]
    using assms(2) by simp
qed

lemma set_line:
  assumes "handle_name n" and "map_of (handles st) n = Some oid" and "argument_text j"
  shows "dispatch env (operation_line n ''set'' [j]) st = (Inr True, cmd_set env oid [j] st)"
proof -
  have as: "\<forall>a \<in> set [j]. argument_text a" using assms(3) by simp
  have oper: "''set'' \<in> {''get'', ''set'', ''call''}" by simp
  show ?thesis
    unfolding dispatch_operation [OF assms(1) oper as] dispatch_proxy_op_def Let_def proxy_op_parts [OF assms(1) oper as]
    using assms(2) by simp
qed

lemma call_arguments:
  assumes "plain_text m" and "argument_text j"
  shows "argument 0 [quoted m, j] = Some (quoted m)" and "argument 1 [quoted m, j] = Some j"
  using argument_trimmed [OF assms(2)] argument_trimmed [OF quoted_argument [OF assms(1)]]
  by (simp_all add: argument_def)

text \<open>
  C40: A call typed is the call made: on a line \<open>name.call("method", json)\<close> where the name is a handle
  and the JSON library parses the two arguments, the session asks its client for exactly the call
  of that method on the handle's object with the imported parameters, learns the names in the text, and shows the result.
\<close>
theorem call_command_sent:
  assumes "handle_name n" and "map_of (handles st) n = Some oid" and "plain_text m" and "argument_text j"
    and "parse env (quoted m) = Inr (JString m)" and "parse env j = Inr doc"
    and "from_json (parse env) (registered env) j = Inr params"
  shows "dispatch env (operation_line n ''call'' [quoted m, j]) st =
    (Inr True, ask_and_show env (Call oid (key m) params)
       (learn (register_json_keys doc) (learn (register_key m) st)))"
proof -
  have "unquote (parse env) (quoted m) = m" by (simp add: unquote_quoted assms(5))
  then show ?thesis
    using call_line [OF assms(1-4), of env] call_arguments [OF assms(3,4)] assms(6,7)
    by (simp add: cmd_call_def with_params_def parse_and_register_def)
qed

text \<open>A small client and JSON library for concrete lines: every request is logged and answered by the empty object.\<close>

definition log_env :: "client_request list surroundings" where
  "log_env = \<lparr>parse = (\<lambda>s. if s = ''{}'' then Inr (JObject []) else if s = ''{x}'' then Inl (App_error ''parse error'')
       else Inr (JString (butlast (tl s)))),
     dump = (\<lambda>i j. ''{}''), registered = [], what = (\<lambda>e. ''what''), request = (\<lambda>rq log. (Inr [], log @ [rq]))\<rparr>"

definition log_state :: "client_request list repl" where
  "log_state = \<lparr>remote = [], handles = [(''t'', 7)], known = Map.empty, console = []\<rparr>"

lemma handle_t: "handle_name ''t''"
  by (simp add: handle_name_def blank_def)

lemma brace_argument: "argument_text ''{}''" "argument_text ''{x}''"
  by (simp_all add: argument_text_def opens_def closes_def trim_def trim_of_def blank_def)

lemma call_command_sent_witness:
  "dispatch log_env (operation_line ''t'' ''call'' [quoted ''flip'', ''{}'']) log_state =
    (Inr True, ask_and_show log_env (Call 7 (key ''flip'') (dyn_new 0 []))
       (learn (register_json_keys (JObject [])) (learn (register_key ''flip'') log_state)))"
proof (rule call_command_sent)
  show "from_json (parse log_env) (registered log_env) ''{}'' = Inr (dyn_new 0 [])"
    by (simp add: from_json_def log_env_def)
qed (simp_all add: handle_t brace_argument log_env_def log_state_def plain_text_def quoted_def)

text \<open>
  A typing error in a parameter ends the session: where the JSON library rejects the argument of
  a call, the exception leaves the loop, no further line is read and no request is made, so the objects of the
  session are not destroyed; the same text given to \<open>set\<close> is reported and the loop goes on.
\<close>
theorem malformed_argument_ends_session:
  assumes "handle_name n" and "map_of (handles st) n = Some oid" and "plain_text m" and "argument_text j"
    and "parse env j = Inl e"
  shows "(\<exists>km. read_lines env (operation_line n ''call'' [quoted m, j] # lines) st = (Some e, st\<lparr>known := km\<rparr>))
    \<and> read_lines env (operation_line n ''set'' [j] # lines) st = read_lines env lines (report env e st)"
proof
  have rejected: "from_json (parse env) (registered env) j = Inl e" by (simp add: from_json_def assms(5))
  show "\<exists>km. read_lines env (operation_line n ''call'' [quoted m, j] # lines) st = (Some e, st\<lparr>known := km\<rparr>)"
    using call_line [OF assms(1-4), of env] call_arguments [OF assms(3,4)] rejected
    by (auto simp: cmd_call_def with_params_def parse_and_register_def learn_def assms(5))
  show "read_lines env (operation_line n ''set'' [j] # lines) st = read_lines env lines (report env e st)"
    using set_line [OF assms(1,2,4), of env] argument_trimmed [OF assms(4)] rejected
    by (simp add: cmd_set_def argument_def parse_and_register_def assms(5))
qed

lemma malformed_argument_ends_session_witness:
  "(\<exists>km. read_lines log_env [operation_line ''t'' ''call'' [quoted ''flip'', ''{x}''], ''list''] log_state =
      (Some (App_error ''parse error''), log_state\<lparr>known := km\<rparr>))
   \<and> read_lines log_env [operation_line ''t'' ''set'' [''{x}''], ''list''] log_state =
      read_lines log_env [''list''] (report log_env (App_error ''parse error'') log_state)"
  by (rule malformed_argument_ends_session)
    (simp_all add: handle_t brace_argument log_env_def log_state_def plain_text_def)

text \<open>
  An object made under a name already in use is created, but no handle stands for it, and the
  session never destroys it.
\<close>

lemma name_reuse_leaks:
  assumes "map_of (handles st) var = Some old"
  shows "handles (instantiate_and_keep env var ns klass params st) = handles st"
  using assms
  by (auto simp: instantiate_and_keep_def ask_def report_def say_def keep_handle_def split: prod.splits sum.splits)

text \<open>The empty namespace is the root for \<open>instantiate\<close>, and a name of its own for \<open>describe\<close>.\<close>

lemma describe_empty_namespace:
  "\<exists>st1. cmd_describe log_env [quoted [], quoted ''Table''] st = ask_and_show log_env (Describe (key []) (key ''Table'')) st1"
  "key [] \<noteq> 0"
proof -
  have unq: "unquote (parse log_env) (quoted s) = s" for s
    by (auto simp: unquote_quoted, simp add: log_env_def quoted_def)
  have "argument 0 [quoted [], quoted ''Table''] = Some (quoted [])" "argument 1 [quoted [], quoted ''Table''] = Some (quoted ''Table'')"
    using call_arguments [of "[]" "quoted ''Table''"] quoted_argument [of "''Table''"] by (simp_all add: plain_text_def)
  then show "\<exists>st1. cmd_describe log_env [quoted [], quoted ''Table''] st = ask_and_show log_env (Describe (key []) (key ''Table'')) st1"
    by (auto simp: cmd_describe_def unq)
  show "key [] \<noteq> 0" by (simp add: hash_eval)
qed

end
