(* ===== verification/Line_Editor.thy ===== *)
theory Line_Editor
  imports Serializer Text
begin

text \<open>
  The line editor of the command-line clients (src/src/app/client/line_editor.cpp and
  line_editor.hpp): the editing rules \<open>line_edit_state\<close>, the decoder of keystrokes, the
  external-feed queue and the loop of \<open>read_line\<close>. The rules are shown to refine a text split at
  the cursor with a history split at the line shown. The platform's raw mode is not part of it.
\<close>

section \<open>Editing state\<close>

datatype editor_key =
    Char_input | Backspace | Delete_forward | Arrow_left | Arrow_right | Arrow_up | Arrow_down
  | Home | End_key | Enter | Eof | Interrupt | Ignored

text \<open>A \<open>key_event\<close>; its character matters only for \<open>Char_input\<close>.\<close>

type_synonym key_event = "editor_key \<times> char"

datatype edit_outcome = Editing | Submitted | Cancelled | End_of_input

record line_edit_state =
  line_text :: string
  cursor :: nat
  history_index :: "nat option"
  draft :: string

definition fresh_line :: line_edit_state where
  "fresh_line = \<lparr>line_text = [], cursor = 0, history_index = None, draft = []\<rparr>"

text \<open>\<open>std::string::insert\<close> and \<open>erase\<close> of one character at a position.\<close>

definition insert_at :: "nat \<Rightarrow> char \<Rightarrow> string \<Rightarrow> string" where
  "insert_at n c s = take n s @ c # drop n s"

definition erase_at :: "nat \<Rightarrow> string \<Rightarrow> string" where
  "erase_at n s = take n s @ drop (Suc n) s"

definition show_entry :: "string \<Rightarrow> line_edit_state \<Rightarrow> line_edit_state" where
  "show_entry line st = st\<lparr>line_text := line, cursor := length line\<rparr>"

text \<open>\<open>delta\<close> is -1 for the arrow up and 1 for the arrow down.\<close>

definition navigate_history :: "string list \<Rightarrow> int \<Rightarrow> line_edit_state \<Rightarrow> line_edit_state" where
  "navigate_history history delta st =
     (if history = [] then st
      else case history_index st of
        None \<Rightarrow>
          if delta > 0 then st
          else show_entry (history ! (length history - 1))
            (st\<lparr>draft := line_text st, history_index := Some (length history - 1)\<rparr>)
      | Some i \<Rightarrow>
          (let target = int i + delta in
           if target < 0 then st
           else if int (length history) \<le> target then show_entry (draft st) (st\<lparr>history_index := None\<rparr>)
           else show_entry (history ! nat target) (st\<lparr>history_index := Some (nat target)\<rparr>)))"

definition delete_at_cursor :: "line_edit_state \<Rightarrow> line_edit_state" where
  "delete_at_cursor st =
     (if cursor st < length (line_text st)
      then st\<lparr>line_text := erase_at (cursor st) (line_text st), history_index := None\<rparr> else st)"

fun apply_key :: "string list \<Rightarrow> key_event \<Rightarrow> line_edit_state \<Rightarrow> edit_outcome \<times> line_edit_state" where
  "apply_key history (Char_input, c) st =
     (Editing, st\<lparr>line_text := insert_at (cursor st) c (line_text st), cursor := cursor st + 1, history_index := None\<rparr>)"
| "apply_key history (Backspace, c) st =
     (Editing, if cursor st > 0
       then st\<lparr>line_text := erase_at (cursor st - 1) (line_text st), cursor := cursor st - 1, history_index := None\<rparr>
       else st)"
| "apply_key history (Delete_forward, c) st = (Editing, delete_at_cursor st)"
| "apply_key history (Arrow_left, c) st = (Editing, if cursor st > 0 then st\<lparr>cursor := cursor st - 1\<rparr> else st)"
| "apply_key history (Arrow_right, c) st =
     (Editing, if cursor st < length (line_text st) then st\<lparr>cursor := cursor st + 1\<rparr> else st)"
| "apply_key history (Home, c) st = (Editing, st\<lparr>cursor := 0\<rparr>)"
| "apply_key history (End_key, c) st = (Editing, st\<lparr>cursor := length (line_text st)\<rparr>)"
| "apply_key history (Arrow_up, c) st = (Editing, navigate_history history (- 1) st)"
| "apply_key history (Arrow_down, c) st = (Editing, navigate_history history 1 st)"
| "apply_key history (Enter, c) st = (Submitted, st)"
| "apply_key history (Interrupt, c) st = (Cancelled, st)"
| "apply_key history (Eof, c) st =
     (if line_text st = [] then (End_of_input, st) else (Editing, delete_at_cursor st))"
| "apply_key history (Ignored, c) st = (Editing, st)"

definition reset_line :: "line_edit_state \<Rightarrow> line_edit_state" where
  "reset_line st = st\<lparr>line_text := [], cursor := 0, history_index := None, draft := []\<rparr>"

section \<open>Keystrokes from bytes\<close>

text \<open>
  The queue of fed bytes, with the flag that an empty chunk sets. A pop from it returns \<open>None\<close>
  when it would wait for ever; otherwise it returns a byte, or no byte once the input has ended.
\<close>

record feed_queue =
  fed :: buffer
  fed_eof :: bool

definition feed_chunk :: "buffer \<Rightarrow> feed_queue \<Rightarrow> feed_queue" where
  "feed_chunk chunk q = (if chunk = [] then q\<lparr>fed_eof := True\<rparr> else q\<lparr>fed := fed q @ chunk\<rparr>)"

definition pop_fed_byte :: "feed_queue \<Rightarrow> (u8 option \<times> feed_queue) option" where
  "pop_fed_byte q =
     (case fed q of
        b # bs \<Rightarrow> Some (Some b, q\<lparr>fed := bs\<rparr>)
      | [] \<Rightarrow> if fed_eof q then Some (None, q) else None)"

definition key_only :: "editor_key \<Rightarrow> key_event" where
  "key_only k = (k, CHR 0x00)"

text \<open>The byte after ESC and its introducer; four of the codes are followed by a tilde.\<close>

definition decode_code :: "u8 \<Rightarrow> feed_queue \<Rightarrow> (key_event \<times> feed_queue) option" where
  "decode_code code q =
     (if code = 0x41 then Some (key_only Arrow_up, q)
      else if code = 0x42 then Some (key_only Arrow_down, q)
      else if code = 0x43 then Some (key_only Arrow_right, q)
      else if code = 0x44 then Some (key_only Arrow_left, q)
      else if code = 0x48 then Some (key_only Home, q)
      else if code = 0x46 then Some (key_only End_key, q)
      else if code \<in> {0x31, 0x37, 0x33, 0x34, 0x38}
      then map_option (\<lambda>(_, q'). (key_only (if code = 0x33 then Delete_forward
             else if code = 0x31 \<or> code = 0x37 then Home else End_key), q')) (pop_fed_byte q)
      else Some (key_only Ignored, q))"

definition decode_escape :: "feed_queue \<Rightarrow> (key_event \<times> feed_queue) option" where
  "decode_escape q =
     (case pop_fed_byte q of
        None \<Rightarrow> None
      | Some (None, q1) \<Rightarrow> Some (key_only Ignored, q1)
      | Some (Some introducer, q1) \<Rightarrow>
          if introducer \<noteq> 0x5B \<and> introducer \<noteq> 0x4F then Some (key_only Ignored, q1)
          else case pop_fed_byte q1 of
            None \<Rightarrow> None
          | Some (None, q2) \<Rightarrow> Some (key_only Ignored, q2)
          | Some (Some code, q2) \<Rightarrow> decode_code code q2)"

definition decode_byte_stream :: "feed_queue \<Rightarrow> (key_event \<times> feed_queue) option" where
  "decode_byte_stream q =
     (case pop_fed_byte q of
        None \<Rightarrow> None
      | Some (None, q1) \<Rightarrow> Some (key_only Eof, q1)
      | Some (Some c, q1) \<Rightarrow>
          if c = 0x0D \<or> c = 0x0A then Some (key_only Enter, q1)
          else if c = 0x7F \<or> c = 0x08 then Some (key_only Backspace, q1)
          else if c = 0x04 then Some (key_only Eof, q1)
          else if c = 0x03 then Some (key_only Interrupt, q1)
          else if c = 0x1B then decode_escape q1
          else if c < 0x20 then Some (key_only Ignored, q1)
          else Some ((Char_input, byte_char c), q1))"

section \<open>The loop of \<open>read_line\<close>\<close>

text \<open>The text one redraw writes: return, clear the line, prompt and line, cursor back.\<close>

definition redraw :: "string \<Rightarrow> line_edit_state \<Rightarrow> string" where
  "redraw prompt st =
     (let back = length (line_text st) - cursor st in
      [CHR 0x0D, CHR 0x1B] @ ''[K'' @ prompt @ line_text st @
      (if back > 0 then CHR 0x1B # ''['' @ nat_digits back @ ''D'' else []))"

definition new_line :: string where
  "new_line = [CHR 0x0D, CHR 0x0A]"

datatype line_result = Line string | No_line

text \<open>What one call leaves behind: its result, the history, the rest of the input, the output.\<close>

datatype edit_end =
    Returned line_result "string list" feed_queue string
  | Waiting "string list" string

definition remember :: "string \<Rightarrow> string list \<Rightarrow> string list" where
  "remember line history =
     (if line \<noteq> [] \<and> (history = [] \<or> last history \<noteq> line) then history @ [line] else history)"

fun run_edit_loop :: "nat \<Rightarrow> string \<Rightarrow> string list \<Rightarrow> line_edit_state \<Rightarrow> feed_queue \<Rightarrow> string \<Rightarrow> edit_end option" where
  "run_edit_loop 0 prompt history st q out = None"
| "run_edit_loop (Suc n) prompt history st q out =
     (case decode_byte_stream q of
        None \<Rightarrow> Some (Waiting history out)
      | Some (ev, q1) \<Rightarrow>
          (case apply_key history ev st of
             (Editing, st1) \<Rightarrow> run_edit_loop n prompt history st1 q1 (out @ redraw prompt st1)
           | (Submitted, st1) \<Rightarrow>
               Some (Returned (Line (line_text st1)) (remember (line_text st1) history) q1 (out @ new_line))
           | (Cancelled, st1) \<Rightarrow>
               run_edit_loop n prompt history (reset_line st1) q1
                 (out @ ''^C'' @ new_line @ redraw prompt (reset_line st1))
           | (End_of_input, st1) \<Rightarrow> Some (Returned No_line history q1 (out @ new_line))))"

definition read_line :: "nat \<Rightarrow> string \<Rightarrow> string list \<Rightarrow> feed_queue \<Rightarrow> edit_end option" where
  "read_line n prompt history q = run_edit_loop n prompt history fresh_line q (redraw prompt fresh_line)"

section \<open>The editing rules: a text split at the cursor\<close>

text \<open>
  The specification keeps the text before and after the cursor, the entries older than the line
  shown (the nearest first) and the lines newer than it, the last of them the draft.
\<close>

record line_view =
  before :: string
  after :: string
  older :: "string list"
  newer :: "string list"

definition view :: "string list \<Rightarrow> line_edit_state \<Rightarrow> line_view" where
  "view history st =
     \<lparr>before = take (cursor st) (line_text st), after = drop (cursor st) (line_text st),
      older = (case history_index st of None \<Rightarrow> rev history | Some i \<Rightarrow> rev (take i history)),
      newer = (case history_index st of None \<Rightarrow> [] | Some i \<Rightarrow> drop (Suc i) history @ [draft st])\<rparr>"

definition whole :: "line_view \<Rightarrow> string" where
  "whole v = before v @ after v"

definition edited :: "string list \<Rightarrow> line_view \<Rightarrow> line_view" where
  "edited history v = v\<lparr>older := rev history, newer := []\<rparr>"

definition view_up :: "line_view \<Rightarrow> line_view" where
  "view_up v = (case older v of [] \<Rightarrow> v
     | line # lines \<Rightarrow> \<lparr>before = line, after = [], older = lines, newer = whole v # newer v\<rparr>)"

definition view_down :: "line_view \<Rightarrow> line_view" where
  "view_down v = (case newer v of [] \<Rightarrow> v
     | line # lines \<Rightarrow> \<lparr>before = line, after = [], older = whole v # older v, newer = lines\<rparr>)"

definition view_delete :: "string list \<Rightarrow> line_view \<Rightarrow> line_view" where
  "view_delete history v = (if after v = [] then v else edited history (v\<lparr>after := tl (after v)\<rparr>))"

fun spec_key :: "string list \<Rightarrow> key_event \<Rightarrow> line_view \<Rightarrow> edit_outcome \<times> line_view" where
  "spec_key history (Char_input, c) v = (Editing, edited history (v\<lparr>before := before v @ [c]\<rparr>))"
| "spec_key history (Backspace, c) v =
     (Editing, if before v = [] then v else edited history (v\<lparr>before := butlast (before v)\<rparr>))"
| "spec_key history (Delete_forward, c) v = (Editing, view_delete history v)"
| "spec_key history (Arrow_left, c) v =
     (Editing, if before v = [] then v
       else v\<lparr>before := butlast (before v), after := last (before v) # after v\<rparr>)"
| "spec_key history (Arrow_right, c) v =
     (Editing, if after v = [] then v else v\<lparr>before := before v @ [hd (after v)], after := tl (after v)\<rparr>)"
| "spec_key history (Home, c) v = (Editing, v\<lparr>before := [], after := whole v\<rparr>)"
| "spec_key history (End_key, c) v = (Editing, v\<lparr>before := whole v, after := []\<rparr>)"
| "spec_key history (Arrow_up, c) v = (Editing, view_up v)"
| "spec_key history (Arrow_down, c) v = (Editing, view_down v)"
| "spec_key history (Enter, c) v = (Submitted, v)"
| "spec_key history (Interrupt, c) v = (Cancelled, v)"
| "spec_key history (Eof, c) v =
     (if whole v = [] then (End_of_input, v) else (Editing, view_delete history v))"
| "spec_key history (Ignored, c) v = (Editing, v)"

definition line_ok :: "string list \<Rightarrow> line_edit_state \<Rightarrow> bool" where
  "line_ok history st \<longleftrightarrow> cursor st \<le> length (line_text st) \<and>
     (case history_index st of None \<Rightarrow> True | Some i \<Rightarrow> i < length history \<and> line_text st = history ! i)"

lemma fresh_line_ok: "line_ok history fresh_line"
  by (simp add: line_ok_def fresh_line_def)

lemma whole_view [simp]: "whole (view history st) = line_text st"
  by (simp add: whole_def view_def)

lemma navigate_up:
  assumes "line_ok history st"
  shows "line_ok history (navigate_history history (- 1) st) \<and>
    view history (navigate_history history (- 1) st) = view_up (view history st)"
proof (cases "history_index st")
  case None
  show ?thesis
  proof (cases history rule: rev_cases)
    case Nil
    then show ?thesis using assms by (simp add: navigate_history_def view_up_def view_def None line_ok_def)
  next
    case (snoc hs h)
    then show ?thesis
      by (simp add: navigate_history_def view_up_def view_def None line_ok_def show_entry_def whole_def)
  qed
next
  case (Some i)
  have i: "i < length history" "line_text st = history ! i" using assms by (auto simp: line_ok_def Some)
  show ?thesis
  proof (cases i)
    case 0
    then show ?thesis using assms i by (auto simp: navigate_history_def view_up_def view_def Some)
  next
    case (Suc j)
    have j: "j < length history" "nat (int (Suc j) + - 1) = j" using i Suc by auto
    have older: "rev (take (Suc j) history) = history ! j # rev (take j history)"
      using j(1) by (simp add: take_Suc_conv_app_nth)
    have newer: "drop (Suc j) history = history ! Suc j # drop (Suc (Suc j)) history"
      using i(1) Suc by (simp add: Cons_nth_drop_Suc)
    have "navigate_history history (- 1) st = show_entry (history ! j) (st\<lparr>history_index := Some j\<rparr>)"
      using i(1) j Suc by (auto simp: navigate_history_def Some)
    then show ?thesis using j i(2) Suc
      by (simp add: view_up_def view_def Some older newer line_ok_def show_entry_def whole_def)
  qed
qed

lemma navigate_down:
  assumes "line_ok history st"
  shows "line_ok history (navigate_history history 1 st) \<and>
    view history (navigate_history history 1 st) = view_down (view history st)"
proof (cases "history_index st")
  case None
  then show ?thesis using assms by (auto simp: navigate_history_def view_down_def view_def)
next
  case (Some i)
  have i: "i < length history" "line_text st = history ! i" using assms by (auto simp: line_ok_def Some)
  have older: "rev (take (Suc i) history) = history ! i # rev (take i history)"
    using i(1) by (simp add: take_Suc_conv_app_nth)
  show ?thesis
  proof (cases "Suc i < length history")
    case True
    have newer: "drop (Suc i) history = history ! Suc i # drop (Suc (Suc i)) history"
      using True by (simp add: Cons_nth_drop_Suc)
    have "navigate_history history 1 st = show_entry (history ! Suc i) (st\<lparr>history_index := Some (Suc i)\<rparr>)"
      using i(1) True by (auto simp: navigate_history_def Some nat_add_distrib)
    then show ?thesis using i True
      by (simp add: view_down_def view_def Some older newer line_ok_def show_entry_def whole_def)
  next
    case False
    then have last: "Suc i = length history" using i(1) by simp
    then have "rev history = history ! i # rev (take i history)" using older by simp
    moreover have "navigate_history history 1 st = show_entry (draft st) (st\<lparr>history_index := None\<rparr>)"
      using i(1) last by (auto simp: navigate_history_def Some)
    ultimately show ?thesis using i(2) last
      by (simp add: view_down_def view_def Some line_ok_def show_entry_def whole_def)
  qed
qed

lemma delete_refines:
  assumes "line_ok history st"
  shows "line_ok history (delete_at_cursor st) \<and>
    view history (delete_at_cursor st) = view_delete history (view history st)"
  using assms
  by (auto simp: delete_at_cursor_def view_delete_def view_def edited_def line_ok_def erase_at_def tl_drop drop_Suc)

lemma apply_key_refines:
  assumes "line_ok history st" and "apply_key history ev st = (oc, st1)"
  shows "line_ok history st1" and "spec_key history ev (view history st) = (oc, view history st1)"
proof -
  obtain k c where ev: "ev = (k, c)" by fastforce
  have le: "cursor st \<le> length (line_text st)" using assms(1) by (simp add: line_ok_def)
  have "line_ok history st1 \<and> spec_key history ev (view history st) = (oc, view history st1)"
  proof (cases k)
    case Char_input
    then show ?thesis using assms(2) le
      by (auto simp: ev line_ok_def view_def edited_def insert_at_def)
  next
    case Backspace
    show ?thesis
    proof (cases "cursor st")
      case 0
      then show ?thesis using assms by (auto simp: ev Backspace view_def)
    next
      case (Suc n)
      then show ?thesis using assms(2) le
        by (auto simp: ev Backspace line_ok_def view_def edited_def erase_at_def butlast_take)
    qed
  next
    case Arrow_left
    show ?thesis
    proof (cases "cursor st")
      case 0
      then show ?thesis using assms by (auto simp: ev Arrow_left view_def)
    next
      case (Suc n)
      then have "take (Suc n) (line_text st) = take n (line_text st) @ [line_text st ! n]"
        "drop n (line_text st) = line_text st ! n # drop (Suc n) (line_text st)"
        using le by (simp_all add: take_Suc_conv_app_nth Cons_nth_drop_Suc)
      then show ?thesis using assms Suc
        by (auto simp: ev Arrow_left line_ok_def view_def split: option.splits)
    qed
  next
    case Arrow_right
    show ?thesis
    proof (cases "cursor st < length (line_text st)")
      case True
      then have "take (Suc (cursor st)) (line_text st) = take (cursor st) (line_text st) @ [line_text st ! cursor st]"
        "drop (cursor st) (line_text st) = line_text st ! cursor st # drop (Suc (cursor st)) (line_text st)"
        by (simp_all add: take_Suc_conv_app_nth Cons_nth_drop_Suc)
      then show ?thesis using assms True by (auto simp: ev Arrow_right line_ok_def view_def split: option.splits)
    next
      case False
      then show ?thesis using assms by (auto simp: ev Arrow_right view_def)
    qed
  next
    case Home
    then show ?thesis using assms by (auto simp: ev line_ok_def view_def whole_def split: option.splits)
  next
    case End_key
    then show ?thesis using assms by (auto simp: ev line_ok_def view_def whole_def split: option.splits)
  next
    case Eof
    then show ?thesis using assms delete_refines [OF assms(1)]
      by (auto simp: ev split: if_splits)
  qed (use assms navigate_up [OF assms(1)] navigate_down [OF assms(1)] delete_refines [OF assms(1)] in
      \<open>auto simp: ev\<close>)
  then show "line_ok history st1" and "spec_key history ev (view history st) = (oc, view history st1)"
    by auto
qed

section \<open>Lines read\<close>

text \<open>The bytes a terminal sends for an editing key.\<close>

fun key_bytes :: "key_event \<Rightarrow> buffer" where
  "key_bytes (Char_input, c) = [char_byte c]"
| "key_bytes (Backspace, c) = [0x7F]"
| "key_bytes (Delete_forward, c) = [0x1B, 0x5B, 0x33, 0x7E]"
| "key_bytes (Arrow_up, c) = [0x1B, 0x5B, 0x41]"
| "key_bytes (Arrow_down, c) = [0x1B, 0x5B, 0x42]"
| "key_bytes (Arrow_right, c) = [0x1B, 0x5B, 0x43]"
| "key_bytes (Arrow_left, c) = [0x1B, 0x5B, 0x44]"
| "key_bytes (Home, c) = [0x1B, 0x5B, 0x48]"
| "key_bytes (End_key, c) = [0x1B, 0x5B, 0x46]"
| "key_bytes (_, c) = []"

definition plain_char :: "char \<Rightarrow> bool" where
  "plain_char c \<longleftrightarrow> 0x20 \<le> char_byte c \<and> char_byte c \<noteq> 0x7F"

fun editing_key :: "key_event \<Rightarrow> bool" where
  "editing_key (Char_input, c) = plain_char c"
| "editing_key (k, c) = (k \<notin> {Enter, Eof, Interrupt, Ignored} \<and> c = CHR 0x00)"

lemma pop_fed_byte_Cons [simp]: "pop_fed_byte (q\<lparr>fed := b # bs\<rparr>) = Some (Some b, q\<lparr>fed := bs\<rparr>)"
  by (simp add: pop_fed_byte_def)

lemma decode_plain:
  "plain_char c \<Longrightarrow> decode_byte_stream (q\<lparr>fed := char_byte c # bs\<rparr>) = Some ((Char_input, c), q\<lparr>fed := bs\<rparr>)"
  by (auto simp: decode_byte_stream_def plain_char_def not_less [symmetric])

lemma decode_key_bytes:
  "editing_key ev \<Longrightarrow> decode_byte_stream (q\<lparr>fed := key_bytes ev @ bs\<rparr>) = Some (ev, q\<lparr>fed := bs\<rparr>)"
  by (cases ev rule: key_bytes.cases)
    (simp_all add: decode_plain, simp_all add: decode_byte_stream_def decode_escape_def decode_code_def key_only_def)

lemma decode_enter: "decode_byte_stream (q\<lparr>fed := 0x0D # bs\<rparr>) = Some (key_only Enter, q\<lparr>fed := bs\<rparr>)"
  by (simp add: decode_byte_stream_def)

lemma spec_key_Editing: "editing_key ev \<Longrightarrow> fst (spec_key history ev v) = Editing"
  by (cases ev rule: key_bytes.cases) simp_all

definition spec_keys :: "string list \<Rightarrow> key_event list \<Rightarrow> line_view \<Rightarrow> line_view" where
  "spec_keys history evs v = foldl (\<lambda>v ev. snd (spec_key history ev v)) v evs"

lemma edit_loop_keys:
  assumes "line_ok history st" and "\<forall>ev \<in> set evs. editing_key ev" and "length evs < n"
  shows "\<exists>out1. run_edit_loop n prompt history st (q\<lparr>fed := concat (map key_bytes evs) @ 0x0D # rest\<rparr>) out =
    Some (Returned (Line (whole (spec_keys history evs (view history st))))
      (remember (whole (spec_keys history evs (view history st))) history) (q\<lparr>fed := rest\<rparr>) out1)"
  using assms
proof (induction evs arbitrary: n st out)
  case Nil
  then obtain m where "n = Suc m" by (cases n) auto
  then show ?case by (simp add: decode_enter key_only_def spec_keys_def)
next
  case (Cons ev evs)
  then obtain m where n: "n = Suc m" by (cases n) auto
  have ev: "editing_key ev" using Cons.prems by simp
  obtain oc st1 where step: "apply_key history ev st = (oc, st1)" by fastforce
  note refines = apply_key_refines [OF Cons.prems(1) step]
  have "oc = Editing" using spec_key_Editing [OF ev, of history "view history st"] refines(2) by simp
  then have "run_edit_loop n prompt history st (q\<lparr>fed := concat (map key_bytes (ev # evs)) @ 0x0D # rest\<rparr>) out =
      run_edit_loop m prompt history st1 (q\<lparr>fed := concat (map key_bytes evs) @ 0x0D # rest\<rparr>) (out @ redraw prompt st1)"
    by (simp add: n step decode_key_bytes [OF ev])
  moreover have "spec_keys history (ev # evs) (view history st) = spec_keys history evs (view history st1)"
    by (simp add: spec_keys_def refines(2))
  ultimately show ?case
    using Cons.IH [OF refines(1), of m "out @ redraw prompt st1"] Cons.prems(2,3) n by simp
qed

subsection \<open>Input that ends\<close>

lemma decode_at_end: "fed q = [] \<Longrightarrow> fed_eof q \<Longrightarrow> decode_byte_stream q = Some (key_only Eof, q)"
  by (simp add: decode_byte_stream_def pop_fed_byte_def)

lemma edit_loop_spins:
  assumes "fed q = []" and "fed_eof q" and "line_text st \<noteq> []" and "cursor st = length (line_text st)"
  shows "run_edit_loop n prompt history st q out = None"
  using assms
  by (induction n arbitrary: out) (simp_all add: decode_at_end key_only_def delete_at_cursor_def)

lemma typed_text_spins:
  assumes "\<forall>c \<in> set s. plain_char c" and "cursor st = length (line_text st)" and "line_text st @ s \<noteq> []"
    and "fed_eof q"
  shows "run_edit_loop n prompt history st (q\<lparr>fed := map char_byte s\<rparr>) out = None"
  using assms
proof (induction s arbitrary: n st out)
  case Nil
  then show ?case by (intro edit_loop_spins) simp_all
next
  case (Cons c s)
  show ?case
  proof (cases n)
    case (Suc m)
    let ?st = "st\<lparr>line_text := insert_at (cursor st) c (line_text st), cursor := cursor st + 1, history_index := None\<rparr>"
    have "run_edit_loop m prompt history ?st (q\<lparr>fed := map char_byte s\<rparr>) (out @ redraw prompt ?st) = None"
      using Cons.prems by (intro Cons.IH) (simp_all add: insert_at_def)
    then show ?thesis using Cons.prems(1) by (simp add: Suc decode_plain)
  qed simp
qed

lemma decode_consumes:
  assumes "decode_byte_stream q = Some (ev, q1)" and "\<not> fed_eof q"
  shows "length (fed q1) < length (fed q) \<and> \<not> fed_eof q1"
proof -
  have pop: "length (fed q2) < length (fed q1) \<and> \<not> fed_eof q2"
    if "pop_fed_byte q1 = Some (b, q2)" "\<not> fed_eof q1" for q1 b q2
    using that by (auto simp: pop_fed_byte_def split: list.splits if_splits)
  have code: "length (fed q2) \<le> length (fed q1) \<and> \<not> fed_eof q2"
    if "decode_code c q1 = Some (e, q2)" "\<not> fed_eof q1" for c q1 e q2
    using that pop by (fastforce simp: decode_code_def split: if_splits)
  have esc: "length (fed q2) \<le> length (fed q1) \<and> \<not> fed_eof q2"
    if "decode_escape q1 = Some (e, q2)" "\<not> fed_eof q1" for q1 e q2
    using that
    by (auto simp: decode_escape_def split: option.splits if_splits dest!: pop code) 
  show ?thesis using assms
    by (auto simp: decode_byte_stream_def split: option.splits if_splits dest!: pop esc)
qed

lemma edit_loop_ends:
  "\<not> fed_eof q \<Longrightarrow> length (fed q) < n \<Longrightarrow> run_edit_loop n prompt history st q out \<noteq> None"
proof (induction n arbitrary: st q out)
  case (Suc n)
  show ?case
  proof (cases "decode_byte_stream q")
    case (Some r)
    obtain ev q1 where r: "r = (ev, q1)" by fastforce
    obtain oc st1 where step: "apply_key history ev st = (oc, st1)" by fastforce
    from decode_consumes [OF Some [unfolded r]] Suc.prems have "\<not> fed_eof q1" "length (fed q1) < n" by auto
    then show ?thesis using Suc.IH by (cases oc) (simp_all add: Some r step)
  qed simp
qed simp

subsection \<open>The history\<close>

definition history_ok :: "string list \<Rightarrow> bool" where
  "history_ok history \<longleftrightarrow> [] \<notin> set history \<and> distinct_adj history"

lemma history_ok_remember: "history_ok history \<Longrightarrow> history_ok (remember line history)"
  by (auto simp: history_ok_def remember_def distinct_adj_append_iff)

lemma edit_loop_history:
  "run_edit_loop n prompt history st q out = Some (Returned r history1 q1 out1) \<Longrightarrow>
   history1 = history \<or> (\<exists>line. history1 = remember line history)"
  by (induction n arbitrary: st q out) (auto split: option.splits prod.splits edit_outcome.splits)

lemma history_invariant:
  assumes "history_ok history" and "run_edit_loop n prompt history st q out = Some (Returned r history1 q1 out1)"
  shows "history_ok history1"
  using edit_loop_history [OF assms(2)] history_ok_remember [OF assms(1)] assms(1) by auto

lemma view_fresh: "view history fresh_line = \<lparr>before = [], after = [], older = rev history, newer = []\<rparr>"
  by (simp add: view_def fresh_line_def)

text \<open>
  C38: The editing rules are those of a text split at the cursor: on a state whose cursor lies in
  the line and whose browsed entry is the line shown, applying a key gives such a state again and
  the outcome and the view of the specification, where the arrows move the line shown between the
  older and the newer entries and every change of the text ends the browsing.
\<close>
theorem line_edit_refines:
  assumes "line_ok history st"
  shows "case apply_key history ev st of (oc, st1) \<Rightarrow>
    line_ok history st1 \<and> spec_key history ev (view history st) = (oc, view history st1)"
  using apply_key_refines [OF assms] by (simp split: prod.splits)

lemma line_edit_refines_witness:
  "case apply_key [''first'', ''second''] (Arrow_up, CHR 0x00) (fresh_line\<lparr>line_text := ''draft'', cursor := 2\<rparr>) of
    (oc, st1) \<Rightarrow> line_ok [''first'', ''second''] st1 \<and>
      spec_key [''first'', ''second''] (Arrow_up, CHR 0x00)
        (view [''first'', ''second''] (fresh_line\<lparr>line_text := ''draft'', cursor := 2\<rparr>)) =
      (oc, view [''first'', ''second''] st1)"
  by (rule line_edit_refines) (simp add: line_ok_def fresh_line_def)

text \<open>
  C39: A line typed is the line read: when the queue holds the bytes of editing keys and a carriage
  return, the call returns the text the specification gives for those keys, leaves the bytes after
  the return for the next call, and remembers the line unless it is empty or the last one again.
\<close>
theorem typed_line_read:
  assumes "\<forall>ev \<in> set evs. editing_key ev" and "length evs < n"
    and "fed q = concat (map key_bytes evs) @ 0x0D # rest"
    and "line = whole (spec_keys history evs \<lparr>before = [], after = [], older = rev history, newer = []\<rparr>)"
  shows "\<exists>out. read_line n prompt history q =
    Some (Returned (Line line) (remember line history) (q\<lparr>fed := rest\<rparr>) out)"
proof -
  have "q\<lparr>fed := concat (map key_bytes evs) @ 0x0D # rest\<rparr> = q" using assms(3) by simp
  then show ?thesis
    using edit_loop_keys [OF fresh_line_ok assms(1,2), where history = history and prompt = prompt and q = q and rest = rest] assms(4)
    unfolding read_line_def view_fresh by metis
qed

lemma typed_line_read_witness:
  "\<exists>out. read_line 9 ''> '' [''old''] \<lparr>fed = [0x61, 0x62, 0x1B, 0x5B, 0x44, 0x7F, 0x0D, 0x7A], fed_eof = False\<rparr> =
    Some (Returned (Line ''b'') [''old'', ''b''] \<lparr>fed = [0x7A], fed_eof = False\<rparr> out)"
proof -
  let ?q = "\<lparr>fed = [0x61, 0x62, 0x1B, 0x5B, 0x44, 0x7F, 0x0D, 0x7A], fed_eof = False\<rparr> :: feed_queue"
  let ?evs = "[(Char_input, CHR ''a''), (Char_input, CHR ''b''), (Arrow_left, CHR 0x00), (Backspace, CHR 0x00)]"
  have "\<exists>out. read_line 9 ''> '' [''old''] ?q =
      Some (Returned (Line ''b'') (remember ''b'' [''old'']) (?q\<lparr>fed := [0x7A]\<rparr>) out)"
  proof (rule typed_line_read)
    show "\<forall>ev \<in> set ?evs. editing_key ev" by (simp add: plain_char_def char_byte_def)
    show "length ?evs < 9" by simp
    show "fed ?q = concat (map key_bytes ?evs) @ 0x0D # [0x7A]" by (simp add: char_byte_def)
    show "''b'' = whole (spec_keys [''old''] ?evs \<lparr>before = [], after = [], older = rev [''old''], newer = []\<rparr>)"
      by (simp add: spec_keys_def edited_def whole_def)
  qed
  then show ?thesis by (simp add: remember_def)
qed

text \<open>
  When the input ends behind a line that was typed and not submitted, the call never returns:
  the loop reads the end of the input as a delete-forward key at the end of the line, redraws and
  asks for the next key again, which is the end of the input once more, whatever fuel it is given.
\<close>
theorem partial_line_spins:
  assumes "\<forall>c \<in> set s. plain_char c" and "s \<noteq> []" and "q = \<lparr>fed = map char_byte s, fed_eof = True\<rparr>"
  shows "read_line n prompt history q = None"
proof -
  have "run_edit_loop n prompt history fresh_line (q\<lparr>fed := map char_byte s\<rparr>) (redraw prompt fresh_line) = None"
    using assms by (intro typed_text_spins) (simp_all add: fresh_line_def)
  then show ?thesis by (simp add: read_line_def assms(3))
qed

lemma partial_line_spins_witness:
  "\<forall>n. read_line n ''> '' [] \<lparr>fed = map char_byte ''ab'', fed_eof = True\<rparr> = None"
proof
  fix n
  show "read_line n ''> '' [] \<lparr>fed = map char_byte ''ab'', fed_eof = True\<rparr> = None"
    by (rule partial_line_spins [of "''ab''"]) (simp_all add: plain_char_def char_byte_def)
qed

end
