(* ===== verification/Yaml_Convert.thy ===== *)
theory Yaml_Convert
  imports Json_Convert
begin

text \<open>
  Import from and export to YAML (src/src/bison/bison.cpp): the events of the YAML library's parser turned into objects
  and the events sent to its emitter. The library's text parser and emitter are parameters; strings
  of events are what both sides see.
\<close>

section \<open>Events\<close>

text \<open>A scalar with its text and whether it has the plain style; the other event types by name.\<close>

datatype yaml_event =
    Stream_start | Stream_end | Document_start | Document_end
  | Scalar string bool
  | Mapping_start | Mapping_end | Sequence_start | Sequence_end
  | Alias

text \<open>The value of a scalar is read as a C string.\<close>

definition c_string :: "string \<Rightarrow> string" where
  "c_string s = takeWhile (\<lambda>c. c \<noteq> CHR 0x00) s"

section \<open>Import\<close>

text \<open>
  A plain scalar is null, a boolean, a number or a text, in this order. \<open>long\<close> has 64 bits on Linux and
  macOS and 32 bits on Windows; its conversion to \<open>int32_t\<close> keeps the low 32 bits. A number beyond the range of
  \<open>float\<close> becomes infinite, as IEEE 754 hosts do.
\<close>

definition yaml_scalar_to_field :: "nat \<Rightarrow> string \<Rightarrow> bool \<Rightarrow> dvalue" where
  "yaml_scalar_to_field long_bits text plain =
     (let s = c_string text in
      if \<not> plain then StringV s
      else if s \<in> {''null'', ''~'', []} then PtrV None
      else if s \<in> {''true'', ''yes'', ''on''} then BoolV True
      else if s \<in> {''false'', ''no'', ''off''} then BoolV False
      else case strtol10 long_bits s of
        Some i \<Rightarrow> Int32V (word_of_int i)
      | None \<Rightarrow> (case strtod s of Some d \<Rightarrow> FloatV (narrow d) | None \<Rightarrow> StringV s))"

fun is_boolV :: "dvalue \<Rightarrow> bool" where
  "is_boolV (BoolV _) = True" | "is_boolV _ = False"

fun is_intV :: "dvalue \<Rightarrow> bool" where
  "is_intV (Int32V _) = True" | "is_intV _ = False"

fun is_floatV :: "dvalue \<Rightarrow> bool" where
  "is_floatV (FloatV _) = True" | "is_floatV _ = False"

fun the_bool :: "dvalue \<Rightarrow> bool" where
  "the_bool (BoolV b) = b" | "the_bool _ = False"

fun the_int :: "dvalue \<Rightarrow> u32" where
  "the_int (Int32V w) = w" | "the_int _ = 0"

fun the_float :: "dvalue \<Rightarrow> float_bits" where
  "the_float (Int32V w) = int_to_float (sint w)" | "the_float (FloatV w) = w" | "the_float _ = 0"

text \<open>\<open>(*dyn)[idx++] = std::move(item)\<close>.\<close>

fun yaml_items_to_indexed :: "dvalue list \<Rightarrow> nat \<Rightarrow> dvalue smap \<Rightarrow> dvalue smap" where
  "yaml_items_to_indexed [] idx m = m"
| "yaml_items_to_indexed (v # vs) idx m = yaml_items_to_indexed vs (Suc idx) (map_put (of_nat idx) v m)"

definition yaml_items_to_field :: "dvalue list \<Rightarrow> dvalue" where
  "yaml_items_to_field vs =
     (if vs \<noteq> [] \<and> list_all is_boolV vs then VecBoolV (map the_bool vs)
      else if vs \<noteq> [] \<and> list_all is_intV vs then VecInt32V (map the_int vs)
      else if vs \<noteq> [] \<and> list_all (\<lambda>v. is_intV v \<or> is_floatV v) vs then VecFloatV (map the_float vs)
      else PtrV (Some (Dyn (yaml_items_to_indexed vs 0 (dyn_new 0 [])))))"

text \<open>
  The parser's events, where the end of the list is the parser's failure. The fuel is counted down by
  mappings and elements; more than the number of events is enough (\<open>yaml_fuel_enough\<close>).
\<close>

function yaml_parse_value :: "nat \<Rightarrow> nat \<Rightarrow> ns_map \<Rightarrow> yaml_event \<Rightarrow> yaml_event list \<Rightarrow> (dvalue \<times> yaml_event list) result"
  and yaml_parse_mapping :: "nat \<Rightarrow> nat \<Rightarrow> ns_map \<Rightarrow> yaml_event list \<Rightarrow> dvalue smap \<Rightarrow> (dvalue smap \<times> yaml_event list) result"
  and yaml_collect_items :: "nat \<Rightarrow> nat \<Rightarrow> ns_map \<Rightarrow> yaml_event list \<Rightarrow> (dvalue list \<times> yaml_event list) result" where
  "yaml_parse_value lb fuel reg ev es =
     (case ev of
        Scalar s plain \<Rightarrow> Inr (yaml_scalar_to_field lb s plain, es)
      | Mapping_start \<Rightarrow>
          bindE (yaml_parse_mapping lb fuel reg es (dyn_new 0 [])) (\<lambda>(m, es1). Inr (PtrV (Some (Dyn m)), es1))
      | Sequence_start \<Rightarrow>
          bindE (yaml_collect_items lb fuel reg es) (\<lambda>(vs, es1). Inr (yaml_items_to_field vs, es1))
      | _ \<Rightarrow> Inr (Monostate, es))"
| "yaml_parse_mapping lb fuel reg es m =
     (case (fuel, es) of
        (0, _) \<Rightarrow> Inl Fuel_exhausted
      | (_, []) \<Rightarrow> Inl (App_error ''YAML parse error in mapping'')
      | (_, Mapping_end # es1) \<Rightarrow> Inr (m, es1)
      | (Suc n, Scalar name _ # es1) \<Rightarrow>
          (case es1 of
             [] \<Rightarrow> Inl (App_error ''YAML parse error reading mapping value'')
           | ev # es2 \<Rightarrow>
               bindE (yaml_parse_value lb n reg ev es2) (\<lambda>(v, es3).
               bindE (store_named reg True (key (c_string name)) v m) (\<lambda>m1.
                 yaml_parse_mapping lb n reg es3 m1)))
      | _ \<Rightarrow> Inl (App_error ''YAML mapping key must be a scalar''))"
| "yaml_collect_items lb fuel reg es =
     (case (fuel, es) of
        (0, _) \<Rightarrow> Inl Fuel_exhausted
      | (_, []) \<Rightarrow> Inl (App_error ''YAML parse error in sequence'')
      | (Suc n, ev # es1) \<Rightarrow>
          if ev = Sequence_end then Inr ([], es1)
          else bindE (yaml_parse_value lb n reg ev es1) (\<lambda>(v, es2).
               bindE (yaml_collect_items lb n reg es2) (\<lambda>(vs, es3). Inr (v # vs, es3))))"
  by pat_completeness auto

termination
  by (relation "measure (case_sum (\<lambda>(lb, fuel, reg, ev, es). 2 * fuel + 1)
        (case_sum (\<lambda>(lb, fuel, reg, es, m). 2 * fuel) (\<lambda>(lb, fuel, reg, es). 2 * fuel)))") auto

text \<open>\<open>yaml_parse_sequence\<close>: a sequence at the root is not turned into a vector.\<close>

definition yaml_parse_sequence :: "nat \<Rightarrow> nat \<Rightarrow> ns_map \<Rightarrow> yaml_event list \<Rightarrow> (dvalue smap \<times> yaml_event list) result" where
  "yaml_parse_sequence lb fuel reg es =
     bindE (yaml_collect_items lb fuel reg es) (\<lambda>(vs, es1). Inr (yaml_items_to_indexed vs 0 (dyn_new 0 []), es1))"

text \<open>The loop of \<open>from_yaml\<close> over the events of the stream; the last root of several documents stays.\<close>

fun yaml_stream :: "nat \<Rightarrow> nat \<Rightarrow> ns_map \<Rightarrow> string \<Rightarrow> yaml_event list \<Rightarrow> dvalue smap \<Rightarrow> dvalue smap result" where
  "yaml_stream lb fuel reg problem [] result = Inl (App_error (''YAML parse error: '' @ problem))"
| "yaml_stream lb 0 reg problem (ev # es) result = Inl Fuel_exhausted"
| "yaml_stream lb (Suc n) reg problem (ev # es) result =
     (case ev of
        Stream_end \<Rightarrow> Inr result
      | Mapping_start \<Rightarrow>
          bindE (yaml_parse_mapping lb n reg es (dyn_new 0 [])) (\<lambda>(m, es1). yaml_stream lb n reg problem es1 m)
      | Sequence_start \<Rightarrow>
          bindE (yaml_parse_sequence lb n reg es) (\<lambda>(m, es1). yaml_stream lb n reg problem es1 m)
      | _ \<Rightarrow> yaml_stream lb n reg problem es result)"

text \<open>What the parser makes of a text: its events, and the problem it reports behind them.\<close>

definition from_yaml :: "nat \<Rightarrow> (string \<Rightarrow> yaml_event list \<times> string) \<Rightarrow> ns_map \<Rightarrow> string \<Rightarrow> dvalue smap result" where
  "from_yaml lb parse reg text =
     (case parse text of (es, problem) \<Rightarrow> yaml_stream lb (length es + 2) reg problem es (dyn_new 0 []))"

declare yaml_parse_value.simps [simp del] yaml_parse_mapping.simps [simp del] yaml_collect_items.simps [simp del]

section \<open>Export\<close>

definition format_float_yaml :: "float_bits \<Rightarrow> string" where
  "format_float_yaml w =
     (let s = stream_float w in if CHR ''.'' \<notin> set s \<and> CHR ''e'' \<notin> set s then s @ ''.0'' else s)"

definition yaml_scalar_plain :: "string \<Rightarrow> yaml_event" where
  "yaml_scalar_plain s = Scalar s True"

definition yaml_scalar_quoted :: "string \<Rightarrow> yaml_event" where
  "yaml_scalar_quoted s = Scalar s False"

definition yaml_emit_sequence :: "('a \<Rightarrow> string) \<Rightarrow> 'a list \<Rightarrow> yaml_event list" where
  "yaml_emit_sequence fmt v = Sequence_start # map (\<lambda>item. yaml_scalar_plain (fmt item)) v @ [Sequence_end]"

definition yaml_bool :: "bool \<Rightarrow> string" where
  "yaml_bool b = (if b then ''true'' else ''false'')"

function emit_field_yaml :: "key_map \<Rightarrow> dvalue \<Rightarrow> yaml_event list"
  and emit_dynamic_yaml :: "key_map \<Rightarrow> dyn \<Rightarrow> yaml_event list"
  and emit_entries_yaml :: "key_map \<Rightarrow> (hash_t \<times> dvalue) list \<Rightarrow> yaml_event list" where
  "emit_field_yaml keys v = (case v of
       Monostate \<Rightarrow> [yaml_scalar_plain ''null'']
     | BoolV b \<Rightarrow> [yaml_scalar_plain (yaml_bool b)]
     | Int32V w \<Rightarrow> [yaml_scalar_plain (int32_to_string w)]
     | FloatV w \<Rightarrow> [yaml_scalar_plain (format_float_yaml w)]
     | StringV s \<Rightarrow> [yaml_scalar_quoted s]
     | HashV w \<Rightarrow> [yaml_scalar_plain (resolve_key keys w)]
     | KeyV w \<Rightarrow> [yaml_scalar_plain (resolve_key keys w)]
     | PtrV p \<Rightarrow> (case p of None \<Rightarrow> [yaml_scalar_plain ''null''] | Some d \<Rightarrow> emit_dynamic_yaml keys d)
     | VecBoolV bs \<Rightarrow> yaml_emit_sequence yaml_bool bs
     | VecInt32V ws \<Rightarrow> yaml_emit_sequence int32_to_string ws
     | VecFloatV ws \<Rightarrow> yaml_emit_sequence format_float_yaml ws
     | VecByteV bs \<Rightarrow> [yaml_scalar_quoted (hex_string bs)])"
| "emit_dynamic_yaml keys (Dyn kvs) = Mapping_start # emit_entries_yaml keys kvs @ [Mapping_end]"
| "emit_entries_yaml keys [] = []"
| "emit_entries_yaml keys ((k, v) # kvs) =
     (if is_zero_bookkeeping_field k v then emit_entries_yaml keys kvs
      else yaml_scalar_plain (resolve_key keys k) # emit_field_yaml keys v @ emit_entries_yaml keys kvs)"
  by pat_completeness auto

termination
  by (relation "measure (case_sum (\<lambda>(keys, v). value_size v)
        (case_sum (\<lambda>(keys, d). size d) (\<lambda>(keys, kvs). entries_size kvs)))") auto

declare emit_field_yaml.simps [simp del]

definition yaml_events :: "key_map \<Rightarrow> dvalue smap \<Rightarrow> yaml_event list" where
  "yaml_events keys m = [Stream_start, Document_start] @ emit_dynamic_yaml keys (Dyn m) @ [Document_end, Stream_end]"

text \<open>The emitter turns events into a text or reports its problem.\<close>

definition to_yaml :: "(yaml_event list \<Rightarrow> string result) \<Rightarrow> key_map \<Rightarrow> dvalue smap \<Rightarrow> string result" where
  "to_yaml emit keys m = emit (yaml_events keys m)"

section \<open>Objects that survive\<close>

text \<open>
  A float survives when the seven digits written for it read back as the same float; a string, when
  it holds no NUL; vectors when they are not empty. Bytes, hashes and keys come back as text.
\<close>

definition float_kept :: "nat \<Rightarrow> float_bits \<Rightarrow> bool" where
  "float_kept lb w \<longleftrightarrow> yaml_scalar_to_field lb (format_float_yaml w) True = FloatV w"

definition yaml_portable :: "nat \<Rightarrow> dvalue \<Rightarrow> bool" where
  "yaml_portable lb v = (case v of
       BoolV _ \<Rightarrow> True
     | Int32V _ \<Rightarrow> True
     | StringV s \<Rightarrow> CHR 0x00 \<notin> set s
     | PtrV _ \<Rightarrow> True
     | FloatV w \<Rightarrow> float_kept lb w
     | VecBoolV bs \<Rightarrow> bs \<noteq> []
     | VecInt32V ws \<Rightarrow> ws \<noteq> []
     | VecFloatV ws \<Rightarrow> ws \<noteq> [] \<and> list_all (float_kept lb) ws
     | _ \<Rightarrow> False)"

definition yaml_fields :: "nat \<Rightarrow> key_map \<Rightarrow> dvalue smap \<Rightarrow> bool" where
  "yaml_fields lb keys kvs \<longleftrightarrow> plain_object kvs \<and>
     (\<forall>(k, v) \<in> set (own_fields kvs). yaml_portable lb v \<and> key (c_string (resolve_key keys k)) = k)"

definition yaml_exportable :: "nat \<Rightarrow> key_map \<Rightarrow> dvalue smap \<Rightarrow> bool" where
  "yaml_exportable lb keys kvs \<longleftrightarrow> object_all (\<lambda>_. True) (yaml_fields lb keys) (Dyn kvs)"

subsection \<open>Storing the members of a mapping\<close>

fun store_members :: "ns_map \<Rightarrow> (hash_t \<times> dvalue) list \<Rightarrow> dvalue smap \<Rightarrow> dvalue smap result" where
  "store_members reg [] m = Inr m"
| "store_members reg ((k, v) # kvs) m = bindE (store_named reg True k v m) (store_members reg kvs)"

lemma store_members_fresh:
  assumes "no_zero_class reg" and "distinct (map fst kvs)" and "CLASS \<notin> fst ` set kvs" and "NAMESPACE \<notin> fst ` set kvs"
    and "\<And>k. k \<in> fst ` set kvs \<Longrightarrow> map_of m k = None"
    and "sorted_map m" and "map_of m CLASS = Some (KeyV 0)" and "map_of m NAMESPACE \<in> {None, Some (KeyV 0)}"
  shows "\<exists>m'. store_members reg kvs m = Inr m' \<and> sorted_map m' \<and>
    (\<forall>k. map_of m' k = (if k \<in> fst ` set kvs then map_of kvs k
       else if k = NAMESPACE \<and> kvs \<noteq> [] then Some (KeyV 0) else map_of m k))"
  using assms(2-)
proof (induction kvs arbitrary: m)
  case (Cons kv kvs)
  obtain k v where kv: "kv = (k, v)" by fastforce
  have k: "CLASS \<noteq> k" "NAMESPACE \<noteq> k" "map_of m k = None" "k \<notin> fst ` set kvs"
    using Cons.prems(1-4) by (auto simp: kv)
  obtain m1 where m1: "store_named reg True k v m = Inr m1" "sorted_map m1"
      "map_of m1 = (map_of m)(NAMESPACE \<mapsto> KeyV 0, k \<mapsto> v)"
    using store_fresh [OF assms(1) Cons.prems(5-7) k(3) k(2) [symmetric]] by metis
  obtain m' where m': "store_members reg kvs m1 = Inr m'" "sorted_map m'"
    "\<And>j. map_of m' j = (if j \<in> fst ` set kvs then map_of kvs j
       else if j = NAMESPACE \<and> kvs \<noteq> [] then Some (KeyV 0) else map_of m1 j)"
  proof (atomize_elim, rule Cons.IH)
    show "map_of m1 j = None" if "j \<in> fst ` set kvs" for j
    proof -
      have "NAMESPACE \<notin> fst ` set kvs" using Cons.prems(3) by simp
      then have "j \<noteq> k" "j \<noteq> NAMESPACE" using that k(4) by metis+
      then show ?thesis using that Cons.prems(4) by (simp add: m1(3) kv)
    qed
    show "map_of m1 CLASS = Some (KeyV 0)" using Cons.prems(6) k(1) class_not_namespace by (simp add: m1(3))
    show "map_of m1 NAMESPACE \<in> {None, Some (KeyV 0)}" using k(2) by (simp add: m1(3))
  qed (use Cons.prems(1,2,3) m1(2) in \<open>auto simp: kv\<close>)
  have "store_members reg (kv # kvs) m = Inr m'" using m1(1) m'(1) by (simp add: kv bindE_def)
  moreover have "map_of m' j = (if j \<in> fst ` set (kv # kvs) then map_of (kv # kvs) j
       else if j = NAMESPACE \<and> kv # kvs \<noteq> [] then Some (KeyV 0) else map_of m j)" for j
  proof (cases "j = k")
    case True
    then show ?thesis using k by (simp add: m'(3) m1(3) kv)
  next
    case False
    moreover have "(NAMESPACE, b) \<notin> set kvs" for b using Cons.prems(3) by force
    ultimately show ?thesis by (auto simp: m'(3) m1(3) kv)
  qed
  ultimately show ?case using m'(2) by blast
qed simp

lemma stored_object:
  assumes "no_zero_class reg" and "plain_object kvs"
  shows "store_members reg (own_fields kvs) (dyn_new 0 []) = Inr kvs"
proof -
  have sorted: "sorted_map (own_fields kvs)"
    using assms(2) unfolding own_fields_def by (auto simp: plain_object_def intro: sorted_map_filter)
  have own: "k \<noteq> CLASS \<and> k \<noteq> NAMESPACE" if "k \<in> fst ` set (own_fields kvs)" for k
    using that by (auto simp: own_fields_def)
  obtain m' where m': "store_members reg (own_fields kvs) (dyn_new 0 []) = Inr m'" "sorted_map m'"
    "\<And>k. map_of m' k = (if k \<in> fst ` set (own_fields kvs) then map_of (own_fields kvs) k
       else if k = NAMESPACE \<and> own_fields kvs \<noteq> [] then Some (KeyV 0) else map_of (dyn_new 0 []) k)"
  proof (atomize_elim, rule store_members_fresh [OF assms(1)])
    show "distinct (map fst (own_fields kvs))" using sorted_map_distinct [OF sorted] .
    show "CLASS \<notin> fst ` set (own_fields kvs)" "NAMESPACE \<notin> fst ` set (own_fields kvs)" using own by blast+
    show "map_of (dyn_new 0 [] :: dvalue smap) k = None" if "k \<in> fst ` set (own_fields kvs)" for k
      using own [OF that] by (simp add: dyn_new_def)
  qed (simp_all add: dyn_new_def class_not_namespace [symmetric])
  have "m' = kvs" using m'(2) by (rule object_restored [OF assms(2)]) (simp add: m'(3) dyn_new_def)
  then show ?thesis using m'(1) by simp
qed

subsection \<open>Scalars and vectors\<close>

lemma c_string_id: "CHR 0x00 \<notin> set s \<Longrightarrow> c_string s = s"
  by (auto simp: c_string_def takeWhile_eq_all_conv)

lemma number_text_chars: "c \<in> set (int_to_string i) \<Longrightarrow> is_digit c \<or> c = CHR ''-''"
  using nat_digits_all_digits by (auto simp: int_to_string_def split: if_splits)

lemma scalar_int:
  assumes "32 \<le> lb"
  shows "yaml_scalar_to_field lb (int32_to_string w) True = Int32V w"
proof -
  have chars: "is_digit c \<or> c = CHR ''-''" if "c \<in> set (int32_to_string w)" for c
    using that number_text_chars by (simp add: int32_to_string_def)
  have word: "int32_to_string w \<noteq> s" if "\<exists>c \<in> set s. \<not> is_digit c \<and> c \<noteq> CHR ''-''" for s
    using that chars by blast
  have "int32_to_string w \<notin> {''null'', ''~'', ''true'', ''yes'', ''on'', ''false'', ''no'', ''off''}"
    by (intro notI, elim insertE; (drule word [THEN notE, rotated])?) (simp_all add: is_digit_def)
  moreover have "int32_to_string w \<noteq> []" by (simp add: int32_to_string_def int_to_string_def)
  moreover have "CHR 0x00 \<notin> set (int32_to_string w)" using chars [of "CHR 0x00"] by (auto simp: is_digit_def)
  moreover have "strtol10 lb (int32_to_string w) = Some (sint w)"
  proof -
    have "(2::int) ^ 31 \<le> 2 ^ (lb - 1)" using assms by (intro power_increasing) auto
    then show ?thesis using sint_ge [of w] sint_lt [of w] by (auto simp: int32_to_string_def intro!: strtol10_int)
  qed
  ultimately show ?thesis by (simp add: yaml_scalar_to_field_def c_string_id)
qed

lemma scalar_bool: "yaml_scalar_to_field lb (yaml_bool b) True = BoolV b"
  by (simp add: yaml_scalar_to_field_def yaml_bool_def c_string_def)

lemma items_back:
  assumes "\<And>x. x \<in> set xs \<Longrightarrow> yaml_scalar_to_field lb (fmt x) True = f x" and "length xs < fuel"
  shows "yaml_collect_items lb fuel reg (map (\<lambda>x. yaml_scalar_plain (fmt x)) xs @ Sequence_end # rest) =
    Inr (map f xs, rest)"
  using assms
proof (induction xs arbitrary: fuel)
  case Nil
  then show ?case by (cases fuel) (simp_all add: yaml_collect_items.simps)
next
  case (Cons x xs)
  then obtain n where n: "fuel = Suc n" "length xs < n" by (cases fuel) auto
  then show ?case using Cons.IH [of n] Cons.prems(1)
    by (simp add: yaml_collect_items.simps [of _ "Suc n"] yaml_scalar_plain_def yaml_parse_value.simps bindE_def)
qed

lemma vector_back:
  assumes "\<And>x. x \<in> set xs \<Longrightarrow> yaml_scalar_to_field lb (fmt x) True = f x" and "length xs < fuel"
  shows "yaml_parse_value lb fuel reg Sequence_start (tl (yaml_emit_sequence fmt xs) @ rest) =
    Inr (yaml_items_to_field (map f xs), rest)"
  using items_back [where f = f and rest = rest, OF assms]
  by (simp add: yaml_parse_value.simps yaml_emit_sequence_def bindE_def)

lemma field_of_vector:
  "bs \<noteq> [] \<Longrightarrow> yaml_items_to_field (map BoolV bs) = VecBoolV bs"
  "ws \<noteq> [] \<Longrightarrow> yaml_items_to_field (map Int32V ws) = VecInt32V ws"
  "ws \<noteq> [] \<Longrightarrow> yaml_items_to_field (map FloatV ws) = VecFloatV ws"
  by (simp_all add: yaml_items_to_field_def list_all_iff comp_def)

subsection \<open>The round trip\<close>

text \<open>The events of a value begin with the event the reader branches on.\<close>

lemma emit_field_Cons: "emit_field_yaml keys v \<noteq> []"
proof -
  have "emit_dynamic_yaml keys d \<noteq> []" for d by (cases d) simp
  then show ?thesis by (cases v) (simp_all add: emit_field_yaml.simps yaml_emit_sequence_def split: option.split)
qed

definition value_back :: "nat \<Rightarrow> ns_map \<Rightarrow> key_map \<Rightarrow> dvalue \<Rightarrow> bool" where
  "value_back lb reg keys v \<longleftrightarrow> (\<forall>fuel rest. length (emit_field_yaml keys v) < fuel \<longrightarrow>
     yaml_parse_value lb fuel reg (hd (emit_field_yaml keys v)) (tl (emit_field_yaml keys v) @ rest) = Inr (v, rest))"

lemma mapping_back:
  assumes "\<And>k v. (k, v) \<in> set kvs \<Longrightarrow> \<not> is_zero_bookkeeping_field k v \<Longrightarrow>
      value_back lb reg keys v \<and> key (c_string (resolve_key keys k)) = k"
    and "length (emit_entries_yaml keys kvs) < fuel"
  shows "yaml_parse_mapping lb fuel reg (emit_entries_yaml keys kvs @ Mapping_end # rest) m =
    bindE (store_members reg (filter (\<lambda>(k, v). \<not> is_zero_bookkeeping_field k v) kvs) m) (\<lambda>m'. Inr (m', rest))"
  using assms
proof (induction kvs arbitrary: fuel m)
  case Nil
  then show ?case by (cases fuel) (simp_all add: yaml_parse_mapping.simps)
next
  case (Cons kv kvs)
  obtain k v where kv: "kv = (k, v)" by fastforce
  show ?case
  proof (cases "is_zero_bookkeeping_field k v")
    case True
    have "yaml_parse_mapping lb fuel reg (emit_entries_yaml keys kvs @ Mapping_end # rest) m =
        bindE (store_members reg (filter (\<lambda>(k, v). \<not> is_zero_bookkeeping_field k v) kvs) m) (\<lambda>m'. Inr (m', rest))"
      using Cons.prems True by (intro Cons.IH) (auto simp: kv)
    then show ?thesis using True by (simp add: kv)
  next
    case False
    obtain ev evs where ev: "emit_field_yaml keys v = ev # evs" using emit_field_Cons by (cases "emit_field_yaml keys v") auto
    obtain n where n: "fuel = Suc n" using Cons.prems(2) by (cases fuel) auto
    have len: "length (emit_field_yaml keys v) < n" "length (emit_entries_yaml keys kvs) < n"
      using Cons.prems(2) False by (simp_all add: kv n)
    have survives: "value_back lb reg keys v" and name: "key (c_string (resolve_key keys k)) = k"
      using Cons.prems(1) [of k v] False by (auto simp: kv)
    let ?rest = "emit_entries_yaml keys kvs @ Mapping_end # rest"
    have parsed: "yaml_parse_value lb n reg ev (evs @ ?rest) = Inr (v, ?rest)"
      using survives len(1) unfolding value_back_def ev by simp
    have IH: "yaml_parse_mapping lb n reg ?rest m1 =
        bindE (store_members reg (filter (\<lambda>(k, v). \<not> is_zero_bookkeeping_field k v) kvs) m1) (\<lambda>m'. Inr (m', rest))" for m1
      using Cons.prems(1) len(2) by (intro Cons.IH) (auto simp: kv)
    show ?thesis
      using False parsed IH
      by (simp add: kv n ev yaml_parse_mapping.simps [of _ "Suc n"] yaml_scalar_plain_def name bindE_def split: sum.split)
  qed
qed

lemma yaml_value_back:
  assumes "no_zero_class reg" and "32 \<le> lb" and "yaml_portable lb v" and "tree_all (\<lambda>_. True) (yaml_fields lb keys) v"
  shows "value_back lb reg keys v"
  using assms(3,4)
proof (induction "value_size v" arbitrary: v rule: less_induct)
  case less
  note scalar = value_back_def emit_field_yaml.simps yaml_parse_value.simps yaml_scalar_plain_def yaml_scalar_quoted_def
  show ?case
  proof (cases v)
    case (PtrV p)
    show ?thesis
    proof (cases p)
      case None
      then show ?thesis by (simp add: PtrV scalar yaml_scalar_to_field_def c_string_def)
    next
      case (Some d)
      obtain kvs where d: "d = Dyn kvs" by (cases d)
      have named: "yaml_fields lb keys kvs" and all: "\<forall>(k, v) \<in> set kvs. tree_all (\<lambda>_. True) (yaml_fields lb keys) v"
        using less.prems(2) by (simp_all add: PtrV Some d tree_all.simps [of _ _ "PtrV _"] entries_all_iff)
      have plain: "plain_object kvs" using named by (simp add: yaml_fields_def)
      have own: "(k, v') \<in> set (own_fields kvs)" if "(k, v') \<in> set kvs" "\<not> is_zero_bookkeeping_field k v'" for k v'
        using that exported_fields [OF plain] by (metis (mono_tags, lifting) case_prodI mem_Collect_eq set_filter)
      have members: "value_back lb reg keys v' \<and> key (c_string (resolve_key keys k)) = k"
        if "(k, v') \<in> set kvs" "\<not> is_zero_bookkeeping_field k v'" for k v'
      proof
        show "value_back lb reg keys v'"
        proof (rule less.hyps)
          show "value_size v' < value_size v" using value_size_entry [OF that(1)] by (simp add: PtrV Some d)
          show "yaml_portable lb v'" using named own [OF that] by (auto simp: yaml_fields_def)
          show "tree_all (\<lambda>_. True) (yaml_fields lb keys) v'" using all that(1) by auto
        qed
        show "key (c_string (resolve_key keys k)) = k" using named own [OF that] by (auto simp: yaml_fields_def)
      qed
      have mapping: "yaml_parse_mapping lb fuel reg (emit_entries_yaml keys kvs @ Mapping_end # rest) (dyn_new 0 []) = Inr (kvs, rest)"
        if "length (emit_entries_yaml keys kvs) < fuel" for fuel rest
        using mapping_back [OF members that] exported_fields [OF plain] stored_object [OF assms(1) plain]
        by (simp add: bindE_def)
      show ?thesis
        unfolding value_back_def PtrV Some d emit_field_yaml.simps [of keys "PtrV _"] field_base.case option.case emit_dynamic_yaml.simps
        by (simp add: yaml_parse_value.simps mapping bindE_def)
    qed
  next
    case (VecBoolV bs)
    then have "bs \<noteq> []" using less.prems(1) by (simp add: yaml_portable_def)
    then show ?thesis
      using vector_back [where f = BoolV and fmt = yaml_bool and xs = bs, OF scalar_bool] field_of_vector(1)
      by (simp add: VecBoolV value_back_def emit_field_yaml.simps) (simp add: yaml_emit_sequence_def)
  next
    case (VecInt32V ws)
    then have "ws \<noteq> []" using less.prems(1) by (simp add: yaml_portable_def)
    then show ?thesis
      using vector_back [where f = Int32V and fmt = int32_to_string and xs = ws, OF scalar_int [OF assms(2)]] field_of_vector(2)
      by (simp add: VecInt32V value_back_def emit_field_yaml.simps) (simp add: yaml_emit_sequence_def)
  next
    case (VecFloatV ws)
    then have ws: "ws \<noteq> []" "\<And>w. w \<in> set ws \<Longrightarrow> yaml_scalar_to_field lb (format_float_yaml w) True = FloatV w"
      using less.prems(1) by (auto simp: yaml_portable_def list_all_iff float_kept_def)
    then show ?thesis
      using vector_back [where f = FloatV and fmt = format_float_yaml and xs = ws, OF ws(2)] field_of_vector(3)
      by (simp add: VecFloatV value_back_def emit_field_yaml.simps) (simp add: yaml_emit_sequence_def)
  next
    case (StringV s)
    then show ?thesis using less.prems(1)
      by (simp add: scalar yaml_portable_def yaml_scalar_to_field_def c_string_id)
  next
    case (Int32V w)
    then show ?thesis using scalar_int [OF assms(2)] by (simp add: scalar)
  next
    case (BoolV b)
    then show ?thesis using scalar_bool by (simp add: scalar)
  next
    case (FloatV w)
    then show ?thesis using less.prems(1) by (simp add: scalar yaml_portable_def float_kept_def)
  qed (use less.prems(1) in \<open>simp_all add: yaml_portable_def\<close>)
qed

text \<open>
  C26: an object exported to YAML and imported again is the same object: any nesting of objects in the
  global namespace without a class whose field names are in the name table, and whose values are
  booleans, integers, strings without NUL, pointers, floats whose seven written digits read back, and
  non-empty vectors of booleans, integers and such floats, provided that the library's parser reads from the emitter's text the
  events that were emitted.
\<close>

theorem yaml_roundtrip:
  assumes "no_zero_class reg" and "32 \<le> lb" and "yaml_exportable lb keys m"
    and "emit (yaml_events keys m) = Inr text" and "parse text = (yaml_events keys m, problem)"
  shows "bindE (to_yaml emit keys m) (from_yaml lb parse reg) = Inr m"
proof -
  let ?obj = "PtrV (Some (Dyn m))"
  have "tree_all (\<lambda>_. True) (yaml_fields lb keys) ?obj" using assms(3) by (simp add: yaml_exportable_def tree_all.simps)
  then have survives: "value_back lb reg keys ?obj"
    by (intro yaml_value_back [OF assms(1,2)]) (simp_all add: yaml_portable_def)
  have emitted: "emit_field_yaml keys ?obj = Mapping_start # emit_entries_yaml keys m @ [Mapping_end]"
    by (simp add: emit_field_yaml.simps)
  let ?n = "length (emit_entries_yaml keys m)"
  have "bindE (yaml_parse_mapping lb fuel reg (emit_entries_yaml keys m @ Mapping_end # rest) (dyn_new 0 []))
      (\<lambda>(m', es). Inr (PtrV (Some (Dyn m')), es)) = Inr (?obj, rest)" if "?n + 2 < fuel" for fuel rest
    using survives that unfolding value_back_def emitted by (simp add: yaml_parse_value.simps)
  then have mapping: "yaml_parse_mapping lb fuel reg (emit_entries_yaml keys m @ Mapping_end # rest) (dyn_new 0 []) = Inr (m, rest)"
    if "?n + 2 < fuel" for fuel rest
    using that by (fastforce simp: bindE_def split: sum.splits prod.splits)
  have "yaml_stream lb (?n + 8) reg problem (yaml_events keys m) (dyn_new 0 []) = Inr m"
    using mapping by (simp add: yaml_events_def eval_nat_numeral)
  moreover have "length (yaml_events keys m) + 2 = ?n + 8" by (simp add: yaml_events_def)
  ultimately show ?thesis using assms(4,5) unfolding to_yaml_def from_yaml_def by (simp only: bindE_simps prod.case)
qed

text \<open>A settings object with a nested object, on a library that keeps the events of its texts.\<close>

definition yaml_settings :: "dvalue smap" where
  "yaml_settings = put_all [(key ''ratio'', StringV ''yes''), (key ''ids'', VecInt32V [7, 0xFFFFFFFF]),
     (key ''next'', PtrV (Some (Dyn [(CLASS, KeyV 0)])))] (map_put NAMESPACE (KeyV 0) (dyn_new 0 []))"

theorem yaml_roundtrip_witness:
  "bindE (to_yaml (\<lambda>es. Inr ''text'') settings_names yaml_settings)
     (from_yaml 64 (\<lambda>_. (yaml_events settings_names yaml_settings, [])) []) = Inr yaml_settings"
proof (rule yaml_roundtrip)
  show "no_zero_class []" by (simp add: no_zero_class_def)
  have keys: "key ''ratio'' = 0xc1121e84" "key ''ids'' = 0x80cfc569" "key ''next'' = 0xdcb68de8"
    by (simp_all add: hash_eval)
  show "yaml_exportable 64 settings_names yaml_settings"
    by (simp add: yaml_exportable_def yaml_settings_def dyn_new_def yaml_fields_def plain_object_def own_fields_def token_values
        keys yaml_portable_def tree_all.simps resolve_key_def settings_names_def c_string_def)
qed simp_all

section \<open>The fuel is enough\<close>

text \<open>
  Documents have no key values, so an object under construction has no class to walk from, and the
  only fuel used is that of the events.
\<close>

definition no_class :: "dvalue smap \<Rightarrow> bool" where
  "no_class m \<longleftrightarrow> (\<forall>k v. (k = CLASS \<or> k = NAMESPACE) \<and> map_of m k = Some (KeyV v) \<longrightarrow> v = 0)"

lemma no_class_put: "no_class m \<Longrightarrow> (\<And>w. v = KeyV w \<Longrightarrow> w = 0) \<Longrightarrow> no_class (map_put k v m)"
  unfolding no_class_def map_of_map_put fun_upd_apply by (metis option.inject)

lemma no_classD: "no_class m \<Longrightarrow> k = CLASS \<or> k = NAMESPACE \<Longrightarrow> map_of m k = Some (KeyV v) \<Longrightarrow> v = 0"
  unfolding no_class_def by blast

lemma as_key_no_class:
  assumes "no_class m" and "k = CLASS \<or> k = NAMESPACE"
  shows "tree_as_key k m \<noteq> Inl Fuel_exhausted \<and> (\<forall>h m1. tree_as_key k m = Inr (h, m1) \<longrightarrow> h = 0 \<and> no_class m1)"
  using no_classD [OF assms] no_class_put [OF assms(1), of "KeyV 0" k] assms(1)
  by (auto simp: tree_as_key_def split: option.split field_base.split)

lemma namespace_no_class:
  assumes "no_class m"
  shows "tree_namespace m \<noteq> Inl Fuel_exhausted \<and> (\<forall>h m1. tree_namespace m = Inr (h, m1) \<longrightarrow> h = 0 \<and> no_class m1)"
  using no_classD [OF assms, of NAMESPACE] no_class_put [OF assms, of "KeyV 0" NAMESPACE] assms
  by (auto simp: tree_namespace_def split: option.split field_base.split)

lemma find_no_class:
  assumes "no_zero_class reg" and "no_class m"
  shows "tree_find reg k m \<noteq> Inl Fuel_exhausted \<and> (\<forall>hit m1. tree_find reg k m = Inr (hit, m1) \<longrightarrow> no_class m1)"
proof (cases "tree_namespace m")
  case (Inl e)
  then show ?thesis using namespace_no_class [OF assms(2)] assms(2) by (auto simp: tree_find_def split: option.split)
next
  case (Inr r)
  then obtain m1 where ns: "tree_namespace m = Inr (0, m1)" "no_class m1"
    using namespace_no_class [OF assms(2)] by (cases r) auto
  show ?thesis
  proof (cases "tree_as_key CLASS m1")
    case (Inl e)
    then show ?thesis using ns as_key_no_class [OF ns(2), of CLASS] assms(2)
      by (auto simp: tree_find_def split: option.split)
  next
    case (Inr r2)
    then obtain m2 where klass: "tree_as_key CLASS m1 = Inr (0, m2)" "no_class m2"
      using as_key_no_class [OF ns(2), of CLASS] by (cases r2) auto
    show ?thesis using ns klass assms
      by (auto simp: tree_find_def no_zero_class_def tree_walk.simps split: option.split)
  qed
qed

lemma store_no_class:
  assumes "no_zero_class reg" and "no_class m" and "\<And>w. v \<noteq> KeyV w"
  shows "store_named reg True k v m \<noteq> Inl Fuel_exhausted \<and> (\<forall>m1. store_named reg True k v m = Inr m1 \<longrightarrow> no_class m1)"
proof (cases "tree_find reg k m")
  case (Inl e)
  then show ?thesis using find_no_class [OF assms(1,2), of k] by (simp add: store_named_def tree_index_def)
next
  case (Inr r)
  then show ?thesis using find_no_class [OF assms(1,2), of k] assms(3)
    by (cases r) (auto simp: store_named_def tree_index_def intro!: no_class_put)
qed

lemma scalar_no_key: "yaml_scalar_to_field lb s plain \<noteq> KeyV w"
  by (simp add: yaml_scalar_to_field_def Let_def split: option.split)

lemma items_no_key: "yaml_items_to_field vs \<noteq> KeyV w"
  by (simp add: yaml_items_to_field_def)

text \<open>What more fuel than events gives: no exhaustion, no more events behind the value than before it, and no key.\<close>

definition value_fits :: "nat \<Rightarrow> ns_map \<Rightarrow> nat \<Rightarrow> bool" where
  "value_fits lb reg fuel \<longleftrightarrow> (\<forall>ev es. length es < fuel \<longrightarrow>
     yaml_parse_value lb fuel reg ev es \<noteq> Inl Fuel_exhausted \<and>
     (\<forall>v es1. yaml_parse_value lb fuel reg ev es = Inr (v, es1) \<longrightarrow> length es1 \<le> length es \<and> (\<forall>w. v \<noteq> KeyV w)))"

definition mapping_fits :: "nat \<Rightarrow> ns_map \<Rightarrow> nat \<Rightarrow> bool" where
  "mapping_fits lb reg fuel \<longleftrightarrow> (\<forall>es m. length es < fuel \<longrightarrow> no_class m \<longrightarrow>
     yaml_parse_mapping lb fuel reg es m \<noteq> Inl Fuel_exhausted \<and>
     (\<forall>m1 es1. yaml_parse_mapping lb fuel reg es m = Inr (m1, es1) \<longrightarrow> length es1 \<le> length es))"

definition items_fit :: "nat \<Rightarrow> ns_map \<Rightarrow> nat \<Rightarrow> bool" where
  "items_fit lb reg fuel \<longleftrightarrow> (\<forall>es. length es < fuel \<longrightarrow>
     yaml_collect_items lb fuel reg es \<noteq> Inl Fuel_exhausted \<and>
     (\<forall>vs es1. yaml_collect_items lb fuel reg es = Inr (vs, es1) \<longrightarrow> length es1 \<le> length es))"

lemma new_no_class: "no_class (dyn_new 0 [])"
  by (simp add: no_class_def dyn_new_def)

lemma mapping_fits_Suc:
  assumes reg: "no_zero_class reg" and IH: "value_fits lb reg n" "mapping_fits lb reg n"
  shows "mapping_fits lb reg (Suc n)"
  unfolding mapping_fits_def
proof (intro allI impI)
  fix es :: "yaml_event list" and m :: "dvalue smap"
  assume len: "length es < Suc n" and m: "no_class m"
  show "yaml_parse_mapping lb (Suc n) reg es m \<noteq> Inl Fuel_exhausted \<and>
    (\<forall>m1 es1. yaml_parse_mapping lb (Suc n) reg es m = Inr (m1, es1) \<longrightarrow> length es1 \<le> length es)"
  proof (cases "\<exists>name plain ev es2. es = Scalar name plain # ev # es2")
    case True
    then obtain name plain ev es2 where es: "es = Scalar name plain # ev # es2" by blast
    have short: "length es2 < n" using len es by simp
    show ?thesis
    proof (cases "yaml_parse_value lb n reg ev es2")
      case (Inl e)
      then show ?thesis using IH(1) short by (auto simp: es yaml_parse_mapping.simps value_fits_def)
    next
      case (Inr r)
      obtain v es3 where r: "r = (v, es3)" by fastforce
      have v: "length es3 \<le> length es2" "\<And>w. v \<noteq> KeyV w" using IH(1) short Inr r by (auto simp: value_fits_def)
      note stored = store_no_class [OF reg m v(2), where k = "key (c_string name)"]
      show ?thesis
      proof (cases "store_named reg True (key (c_string name)) v m")
        case (Inl e)
        then show ?thesis using stored Inr by (auto simp: es r yaml_parse_mapping.simps)
      next
        case (Inr m1)
        then have "no_class m1" "length es3 < n" using stored v(1) short by auto
        then have rest: "yaml_parse_mapping lb n reg es3 m1 \<noteq> Inl Fuel_exhausted \<and>
          (\<forall>m2 es1. yaml_parse_mapping lb n reg es3 m1 = Inr (m2, es1) \<longrightarrow> length es1 \<le> length es3)"
          using IH(2) unfolding mapping_fits_def by blast
        have "yaml_parse_mapping lb (Suc n) reg es m = yaml_parse_mapping lb n reg es3 m1"
          using Inr \<open>yaml_parse_value lb n reg ev es2 = Inr r\<close>
          by (subst yaml_parse_mapping.simps) (simp add: es r)
        moreover have "length es3 \<le> length es" using v(1) by (simp add: es)
        ultimately show ?thesis using rest by (auto dest: order_trans)
      qed
    qed
  next
    case False
    then show ?thesis
      by (cases es rule: list.exhaust; cases "hd es"; cases "tl es") (auto simp: yaml_parse_mapping.simps [of _ "Suc n"])
  qed
qed

lemma items_fit_Suc:
  assumes IH: "value_fits lb reg n" "items_fit lb reg n"
  shows "items_fit lb reg (Suc n)"
  unfolding items_fit_def
proof (intro allI impI)
  fix es :: "yaml_event list"
  assume len: "length es < Suc n"
  show "yaml_collect_items lb (Suc n) reg es \<noteq> Inl Fuel_exhausted \<and>
    (\<forall>vs es1. yaml_collect_items lb (Suc n) reg es = Inr (vs, es1) \<longrightarrow> length es1 \<le> length es)"
  proof (cases es)
    case (Cons ev es1)
    then have short: "length es1 < n" using len by simp
    show ?thesis
    proof (cases "ev = Sequence_end \<or> (\<exists>e. yaml_parse_value lb n reg ev es1 = Inl e)")
      case True
      then show ?thesis using IH(1) short by (auto simp: Cons yaml_collect_items.simps [of _ "Suc n"] value_fits_def)
    next
      case False
      then obtain v es2 where v: "yaml_parse_value lb n reg ev es1 = Inr (v, es2)" "ev \<noteq> Sequence_end"
        by (cases "yaml_parse_value lb n reg ev es1") auto
      then have le: "length es2 \<le> length es1" using IH(1) short by (auto simp: value_fits_def)
      then have "yaml_collect_items lb n reg es2 \<noteq> Inl Fuel_exhausted \<and>
        (\<forall>vs es3. yaml_collect_items lb n reg es2 = Inr (vs, es3) \<longrightarrow> length es3 \<le> length es2)"
        using IH(2) short by (simp add: items_fit_def)
      then show ?thesis using v le
        by (cases "yaml_collect_items lb n reg es2") (auto simp: Cons yaml_collect_items.simps [of _ "Suc n"])
    qed
  qed (simp add: yaml_collect_items.simps)
qed

lemma value_fits_if:
  assumes "mapping_fits lb reg fuel" and "items_fit lb reg fuel"
  shows "value_fits lb reg fuel"
  unfolding value_fits_def
proof (intro allI impI)
  fix ev and es :: "yaml_event list"
  assume len: "length es < fuel"
  note mapping = assms(1) [unfolded mapping_fits_def, rule_format, OF len new_no_class]
    and items = assms(2) [unfolded items_fit_def, rule_format, OF len]
  show "yaml_parse_value lb fuel reg ev es \<noteq> Inl Fuel_exhausted \<and>
    (\<forall>v es1. yaml_parse_value lb fuel reg ev es = Inr (v, es1) \<longrightarrow> length es1 \<le> length es \<and> (\<forall>w. v \<noteq> KeyV w))"
    using mapping items scalar_no_key items_no_key
    by (cases ev; cases "yaml_parse_mapping lb fuel reg es (dyn_new 0 [])"; cases "yaml_collect_items lb fuel reg es")
      (auto simp: yaml_parse_value.simps bindE_def)
qed

lemma yaml_fuel_enough:
  assumes "no_zero_class reg"
  shows "value_fits lb reg fuel \<and> mapping_fits lb reg fuel \<and> items_fit lb reg fuel"
proof (induction fuel)
  case 0
  then show ?case by (simp add: value_fits_def mapping_fits_def items_fit_def)
next
  case (Suc n)
  then show ?case using mapping_fits_Suc [OF assms] items_fit_Suc value_fits_if by blast
qed

lemma yaml_stream_ends:
  assumes "no_zero_class reg"
  shows "length es + 1 < fuel \<Longrightarrow> yaml_stream lb fuel reg problem es result \<noteq> Inl Fuel_exhausted"
proof (induction fuel arbitrary: es result)
  case (Suc n)
  show ?case
  proof (cases es)
    case (Cons ev es1)
    then have short: "length es1 < n" "length es1 + 1 < n" using Suc.prems by simp_all
    note fits = yaml_fuel_enough [OF assms, of lb n]
    have mapping: "yaml_parse_mapping lb n reg es1 (dyn_new 0 []) \<noteq> Inl Fuel_exhausted"
        "yaml_parse_mapping lb n reg es1 (dyn_new 0 []) = Inr (m, es2) \<Longrightarrow> length es2 + 1 < n" for m es2
      using fits short new_no_class unfolding mapping_fits_def by fastforce+
    have items: "yaml_collect_items lb n reg es1 \<noteq> Inl Fuel_exhausted"
        "yaml_collect_items lb n reg es1 = Inr (vs, es2) \<Longrightarrow> length es2 + 1 < n" for vs es2
      using fits short unfolding items_fit_def by fastforce+
    show ?thesis using Suc.IH mapping items short
      by (cases ev; cases "yaml_parse_mapping lb n reg es1 (dyn_new 0 [])"; cases "yaml_collect_items lb n reg es1")
        (auto simp: Cons yaml_parse_sequence_def)
  qed simp
qed simp

text \<open>
  C27: reading YAML always comes to an end: whatever events the parser delivers, nested to any depth or cut
  off anywhere, the reader returns an object or throws an exception of its own, and never uses up
  the fuel of the model, provided that no class is registered under the key 0.
\<close>

theorem from_yaml_total:
  assumes "no_zero_class reg"
  shows "from_yaml lb parse reg text \<noteq> Inl Fuel_exhausted"
  using yaml_stream_ends [OF assms] by (simp add: from_yaml_def split: prod.split)

theorem from_yaml_total_witness:
  "from_yaml 64 (\<lambda>_. ([Stream_start, Mapping_start, Scalar ''a'' True, Sequence_start], ''eof'')) [] ''a: ['' \<noteq> Inl Fuel_exhausted"
  by (rule from_yaml_total) (simp add: no_zero_class_def)

section \<open>What does not survive\<close>

text \<open>
  An infinity is written in a form that reads back as a text, and digits behind the seventh are lost:
  \<open>0x3F800001\<close>, the float after one, is written as \<open>1.0\<close>.
\<close>

lemma infinity_becomes_text: "yaml_scalar_to_field lb (format_float_yaml 0x7F800000) True = StringV ''inf.0''"
proof -
  have "stream_float 0x7F800000 = ''inf''"
    by (simp add: stream_float_def float_mag_def float_neg_def)
  moreover have "strtol10 lb ''inf.0'' = None" by (simp add: strtol10_def signed_text_def is_space_def is_digit_def)
  moreover have "strtod ''inf.0'' = None"
    by (simp add: strtod_def signed_text_def is_space_def unsigned_mag_def lower_def is_nan_text_def number_parts_def is_digit_def)
  ultimately show ?thesis by (simp add: format_float_yaml_def yaml_scalar_to_field_def c_string_def)
qed

text \<open>A string with a NUL is cut there.\<close>

lemma nul_cuts_string: "yaml_scalar_to_field lb (''ab'' @ [CHR 0x00] @ s) False = StringV ''ab''"
  by (simp add: yaml_scalar_to_field_def c_string_def)

text \<open>The class of an object is written as a text, and no further field can be stored into the object read.\<close>

lemma yaml_class_not_imported:
  assumes "key (c_string name) \<noteq> CLASS" and "reg = [(0, col)]"
  shows "yaml_parse_mapping lb 9 reg
      [Scalar ''__class'' True, Scalar ''Table'' False, Scalar name True, Scalar ''x'' False, Mapping_end] (dyn_new 0 []) = Inl Invalid_type"
  using assms class_not_namespace
  by (auto simp: yaml_parse_mapping.simps yaml_parse_value.simps yaml_scalar_to_field_def c_string_def store_named_def tree_index_def
      tree_find_def dyn_new_def CLASS_def [symmetric] tree_namespace_def tree_as_key_def)

end
