(* ===== verification/Bison_C.thy ===== *)
theory Bison_C
  imports Yaml_Convert Print
begin

text \<open>
  The C interface of the object library (src/src/bison/bison_c.cpp, declared in src/include/bison_c.h): handles to
  objects, the error codes that replace exceptions, and every exported function over the heap of
  \<open>Object\<close>. What a function stores through an output pointer is part of its result.
\<close>

section \<open>Handles and outcomes\<close>

text \<open>
  A handle is the address of a \<open>shared_ptr\<close> of its own, here its number; \<open>None\<close> is \<open>NULL\<close>. The
  shared pointers behind the handles are the table: no function leaves an empty one there.
  Objects that nobody holds any more stay on the heap unobserved.
\<close>

type_synonym handle = "nat option"

record c_state =
  objects :: store
  handles :: "nat \<Rightarrow> addr option"
  next_handle :: nat

text \<open>\<open>bison_error\<close>, where \<open>BISON_OK\<close> is the right side of a result.\<close>

datatype c_error =
    ERR_NULL | ERR_TYPE | ERR_NOT_FOUND | ERR_DUPLICATE | ERR_EXCEPTION | ERR_PARSE

type_synonym 'a c_result = "c_error + 'a"

fun error_code :: "unit c_result \<Rightarrow> int" where
  "error_code (Inr _) = 0"
| "error_code (Inl ERR_NULL) = -1"
| "error_code (Inl ERR_TYPE) = -2"
| "error_code (Inl ERR_NOT_FOUND) = -3"
| "error_code (Inl ERR_DUPLICATE) = -4"
| "error_code (Inl ERR_EXCEPTION) = -5"
| "error_code (Inl ERR_PARSE) = -6"

text \<open>
  A call returns, does not return (a walk along a cycle), or has no defined behaviour: a released
  handle is used, or memory outside a buffer.
\<close>

datatype 'a c_outcome = Returns 'a c_state | Never_returns | Undefined

type_synonym 'a c_call = "c_state \<Rightarrow> 'a c_outcome"

definition retC :: "'a \<Rightarrow> 'a c_call" where
  "retC x st = Returns x st"

definition undefinedC :: "'a c_call" where
  "undefinedC st = Undefined"

definition bindC :: "'a c_call \<Rightarrow> ('a \<Rightarrow> 'b c_call) \<Rightarrow> 'b c_call" where
  "bindC m f st = (case m st of
       Returns x st' \<Rightarrow> f x st'
     | Never_returns \<Rightarrow> Never_returns
     | Undefined \<Rightarrow> Undefined)"

text \<open>A member function of the objects, with its exception still a value.\<close>

definition on_objects :: "'a action \<Rightarrow> 'a result c_call" where
  "on_objects m st = (case m (objects st) of
       (Inl Fuel_exhausted, _) \<Rightarrow> Never_returns
     | (r, s) \<Rightarrow> Returns r (st\<lparr>objects := s\<rparr>))"

text \<open>\<open>as_sp\<close> and \<open>dyn\<close> on a handle that is not \<open>NULL\<close>.\<close>

definition deref :: "nat \<Rightarrow> addr c_call" where
  "deref h st = (case handles st h of None \<Rightarrow> Undefined | Some a \<Rightarrow> Returns a st)"

text \<open>\<open>as_handle(new sp_dyn(p))\<close> and \<open>delete as_sp(h)\<close>.\<close>

definition new_handle :: "addr \<Rightarrow> nat c_call" where
  "new_handle a st =
     Returns (next_handle st)
       (st\<lparr>handles := (handles st)(next_handle st \<mapsto> a), next_handle := Suc (next_handle st)\<rparr>)"

definition delete_handle :: "nat \<Rightarrow> unit c_call" where
  "delete_handle h = bindC (deref h) (\<lambda>_ st. Returns () (st\<lparr>handles := (handles st)(h := None)\<rparr>))"

text \<open>\<open>catch (...) { return nullptr; }\<close>.\<close>

definition or_null :: "addr result \<Rightarrow> handle c_call" where
  "or_null r = (case r of Inl _ \<Rightarrow> retC None | Inr a \<Rightarrow> bindC (new_handle a) (\<lambda>h. retC (Some h)))"

text \<open>\<open>catch (...) { return BISON_ERR_EXCEPTION; }\<close>.\<close>

definition any_error :: "'a result \<Rightarrow> 'a c_result" where
  "any_error r = (case r of Inl _ \<Rightarrow> Inl ERR_EXCEPTION | Inr x \<Rightarrow> Inr x)"

text \<open>\<open>catch (const std::runtime_error&)\<close> before \<open>catch (...)\<close>; \<open>stoi\<close> throws logic errors.\<close>

definition is_runtime_error :: "exc \<Rightarrow> bool" where
  "is_runtime_error e \<longleftrightarrow> e \<notin> {Invalid_argument, Out_of_range}"

definition type_error :: "'a result \<Rightarrow> 'a c_result" where
  "type_error r = (case r of
       Inl e \<Rightarrow> Inl (if is_runtime_error e then ERR_TYPE else ERR_EXCEPTION)
     | Inr x \<Rightarrow> Inr x)"

text \<open>\<open>if (!h) return BISON_ERR_NULL\<close>, then the object behind the handle.\<close>

definition with_handle :: "handle \<Rightarrow> (addr \<Rightarrow> 'a c_result c_call) \<Rightarrow> 'a c_result c_call" where
  "with_handle h f = (case h of None \<Rightarrow> retC (Inl ERR_NULL) | Some n \<Rightarrow> bindC (deref n) f)"

definition object_call :: "handle \<Rightarrow> ('a result \<Rightarrow> 'b c_result) \<Rightarrow> (addr \<Rightarrow> 'a action) \<Rightarrow> 'b c_result c_call" where
  "object_call h catch m =
     with_handle h (\<lambda>a. bindC (on_objects (m a)) (\<lambda>r. retC (catch r)))"

text \<open>\<open>if (count > 0 && !values) return BISON_ERR_NULL\<close>, then the first \<open>count\<close> elements.\<close>

definition with_array :: "'a list option \<Rightarrow> nat \<Rightarrow> ('a list \<Rightarrow> 'b c_result c_call) \<Rightarrow> 'b c_result c_call" where
  "with_array values count f =
     (if count = 0 then f []
      else case values of
        None \<Rightarrow> retC (Inl ERR_NULL)
      | Some xs \<Rightarrow> if count \<le> length xs then f (take count xs) else undefinedC)"

text \<open>
  At most \<open>len\<close> elements are copied into the caller's buffer, the whole of which is the result; a buffer
  shorter than the caller says is written past its end.
\<close>

definition copy_out :: "'a list \<Rightarrow> 'a list option \<Rightarrow> nat \<Rightarrow> 'a list option c_call" where
  "copy_out xs buf len = (case buf of
       None \<Rightarrow> retC None
     | Some b \<Rightarrow>
         let d = take len xs
         in if length d \<le> length b then retC (Some (d @ drop (length d) b)) else undefinedC)"

section \<open>What the interface is given\<close>

text \<open>
  The registered factories (on the heap, and the fields the decoder sees of what they mk), the text
  libraries of JSON and YAML, the C callbacks behind methods, the registered key names and the platform.
\<close>

record c_env =
  host_order :: host
  long_bits :: nat
  factories :: "nat \<Rightarrow> addr option action"
  factory_fields :: "nat \<Rightarrow> dvalue smap"
  json_parse :: "string \<Rightarrow> json result"
  json_text :: "int \<Rightarrow> json \<Rightarrow> string result"
  yaml_parse :: "string \<Rightarrow> yaml_event list \<times> string"
  yaml_text :: "yaml_event list \<Rightarrow> string result"
  key_names :: name_registry
  callback :: "nat \<Rightarrow> nat \<Rightarrow> nat \<Rightarrow> nat \<Rightarrow> unit c_call"

text \<open>The class registry as the decoders see it: the prototypes' fields as trees.\<close>

definition class_view :: "c_env \<Rightarrow> store \<Rightarrow> addr \<Rightarrow> class_info" where
  "class_view env s p =
     \<lparr> ci_fields = (case dump p s of (Inr m, _) \<Rightarrow> m | (Inl _, _) \<Rightarrow> []),
       ci_factory = map_option (factory_fields env) (o_factory (obj_at s p)) \<rparr>"

definition registry_view :: "c_env \<Rightarrow> store \<Rightarrow> ns_map" where
  "registry_view env s =
     map (\<lambda>(ns, col). (ns, map (\<lambda>(k, p). (k, class_view env s p)) col)) (registry s)"

definition from_trees :: "(store \<Rightarrow> dvalue smap result) \<Rightarrow> addr action" where
  "from_trees f s = (case f s of Inl e \<Rightarrow> (Inl e, s) | Inr m \<Rightarrow> load m s)"

section \<open>Lifecycle\<close>

definition bison_create :: "hash_t \<Rightarrow> handle c_call" where
  "bison_create klass = bindC (on_objects (new_dynamic klass [])) or_null"

text \<open>A class that is not registered, or a factory that makes nothing: a plain object.\<close>

definition bison_instantiate :: "c_env \<Rightarrow> hash_t \<Rightarrow> hash_t \<Rightarrow> handle c_call" where
  "bison_instantiate env ns klass =
     bindC (on_objects (bindA (create_object (factories env) ns klass) (\<lambda>p. case p of
         Some a \<Rightarrow> retA a
       | None \<Rightarrow> alloc (instantiate_obj ns klass)))) or_null"

definition bison_add_ref :: "handle \<Rightarrow> handle c_call" where
  "bison_add_ref h = (case h of
       None \<Rightarrow> retC None
     | Some n \<Rightarrow> bindC (deref n) (\<lambda>a. bindC (new_handle a) (\<lambda>h'. retC (Some h'))))"

definition bison_release :: "handle \<Rightarrow> unit c_call" where
  "bison_release h = (case h of None \<Rightarrow> retC () | Some n \<Rightarrow> delete_handle n)"

definition bison_clone :: "handle \<Rightarrow> handle c_call" where
  "bison_clone h = (case h of
       None \<Rightarrow> retC None
     | Some n \<Rightarrow> bindC (deref n) (\<lambda>a. bindC (on_objects (clone_ptr a)) or_null))"

section \<open>Text\<close>

definition bison_from_json :: "c_env \<Rightarrow> string option \<Rightarrow> handle c_call" where
  "bison_from_json env text = (case text of
       None \<Rightarrow> retC None
     | Some t \<Rightarrow>
         bindC (on_objects (from_trees (\<lambda>s. from_json (json_parse env) (registry_view env s) (c_string t)))) or_null)"

definition bison_from_yaml :: "c_env \<Rightarrow> string option \<Rightarrow> handle c_call" where
  "bison_from_yaml env text = (case text of
       None \<Rightarrow> retC None
     | Some t \<Rightarrow>
         bindC (on_objects (from_trees (\<lambda>s. from_yaml (long_bits env) (yaml_parse env) (registry_view env s) (c_string t)))) or_null)"

text \<open>\<open>out\<close> says whether the output pointer is there; the text goes to the caller with its length.\<close>

definition bison_to_json :: "c_env \<Rightarrow> handle \<Rightarrow> int \<Rightarrow> bool \<Rightarrow> string c_result c_call" where
  "bison_to_json env h indent out =
     (if \<not> out then retC (Inl ERR_NULL)
      else object_call h any_error (\<lambda>a. bindA (dump a) (\<lambda>m s.
        (json_text env indent (dynamic_to_json Map.empty (Dyn m)), s))))"

definition bison_to_yaml :: "c_env \<Rightarrow> handle \<Rightarrow> bool \<Rightarrow> string c_result c_call" where
  "bison_to_yaml env h out =
     (if \<not> out then retC (Inl ERR_NULL)
      else object_call h any_error (\<lambda>a. bindA (dump a) (\<lambda>m s.
        (to_yaml (yaml_text env) Map.empty m, s))))"

text \<open>\<open>bison_print_options\<close>, whose \<open>NULL\<close> indentation is two blanks.\<close>

definition c_options :: "(u32 \<times> string option) option \<Rightarrow> printing" where
  "c_options opts = (case opts of
       None \<Rightarrow> \<lparr> multiline = True, po_indent = ''  '', hide_internal = False \<rparr>
     | Some (ml, ind) \<Rightarrow>
         \<lparr> multiline = ml \<noteq> 0, po_indent = (case ind of None \<Rightarrow> ''  '' | Some t \<Rightarrow> c_string t),
           hide_internal = False \<rparr>)"

text \<open>As many levels as there are objects and one more: enough for every object without a cycle.\<close>

definition bison_print :: "c_env \<Rightarrow> handle \<Rightarrow> (u32 \<times> string option) option \<Rightarrow> bool \<Rightarrow> string c_result c_call" where
  "bison_print env h opts out =
     (if \<not> out then retC (Inl ERR_NULL)
      else object_call h any_error (\<lambda>a s.
        (case print_object (c_options opts) (key_names env) s (Suc (length (heap s))) a of
           None \<Rightarrow> Inl Fuel_exhausted | Some t \<Rightarrow> Inr t, s)))"

section \<open>Attributes\<close>

record c_attributes =
  c_display :: "string option"
  c_description :: "string option"
  c_category :: "string option"
  c_obsolete :: u32
  c_obsolete_message :: "string option"
  c_required :: u32

definition no_attributes :: c_attributes where
  "no_attributes = \<lparr> c_display = None, c_description = None, c_category = None, c_obsolete = 0,
     c_obsolete_message = None, c_required = 0 \<rparr>"

definition text_attr :: "(string \<Rightarrow> attribute) \<Rightarrow> string option \<Rightarrow> attribute list" where
  "text_attr mk t = (case t of None \<Rightarrow> [] | Some s \<Rightarrow> [mk (c_string s)])"

definition attrs_from_meta :: "c_attributes option \<Rightarrow> attribute list" where
  "attrs_from_meta meta = (case meta of
       None \<Rightarrow> []
     | Some m \<Rightarrow>
         text_attr DisplayName (c_display m) @ text_attr Description (c_description m) @
         text_attr Category (c_category m) @
         (if c_obsolete m \<noteq> 0
          then [Obsolete (case c_obsolete_message m of None \<Rightarrow> [] | Some t \<Rightarrow> c_string t)] else []) @
         (if c_required m \<noteq> 0 then [Required] else []))"

definition fill_attrs :: "attribute list \<Rightarrow> c_attributes" where
  "fill_attrs as =
     \<lparr> c_display = map_option c_string (find_display as),
       c_description = map_option c_string (find_description as),
       c_category = map_option c_string (find_category as),
       c_obsolete = (if find_obsolete as = None then 0 else 1),
       c_obsolete_message = (case find_obsolete as of
           None \<Rightarrow> None | Some t \<Rightarrow> if t = [] then None else Some (c_string t)),
       c_required = (if is_required as then 1 else 0) \<rparr>"

definition field_attrs :: "store \<Rightarrow> addr \<Rightarrow> hash_t \<Rightarrow> attribute list" where
  "field_attrs s a k = (case map_of (fields_of s a) k of None \<Rightarrow> [] | Some f \<Rightarrow> f_attrs f)"

section \<open>Class registry\<close>

definition duplicate_error :: "bool result \<Rightarrow> unit c_result" where
  "duplicate_error r = (case r of
       Inl _ \<Rightarrow> Inl ERR_EXCEPTION
     | Inr ok \<Rightarrow> if ok then Inr () else Inl ERR_DUPLICATE)"

definition bison_add_class :: "hash_t \<Rightarrow> handle \<Rightarrow> hash_t \<Rightarrow> c_attributes option \<Rightarrow> unit c_result c_call" where
  "bison_add_class ns klass parent meta =
     object_call klass duplicate_error (\<lambda>a. add_class_attrs ns a parent (attrs_from_meta meta))"

definition registered_class :: "hash_t \<Rightarrow> hash_t \<Rightarrow> store \<Rightarrow> addr option" where
  "registered_class ns klass s = (case map_of (registry s) ns of
       None \<Rightarrow> None
     | Some col \<Rightarrow> map_of col klass)"

definition bison_find_class :: "hash_t \<Rightarrow> hash_t \<Rightarrow> handle c_call" where
  "bison_find_class ns klass st = (case registered_class ns klass (objects st) of
       None \<Rightarrow> Returns None st
     | Some p \<Rightarrow> bindC (new_handle p) (\<lambda>h. retC (Some h)) st)"

definition bison_clear_registry :: "unit c_call" where
  "bison_clear_registry st = Returns () (st\<lparr>objects := (objects st)\<lparr>registry := []\<rparr>\<rparr>)"

definition bison_get_class_attributes :: "hash_t \<Rightarrow> hash_t \<Rightarrow> bool \<Rightarrow> c_attributes c_result c_call" where
  "bison_get_class_attributes ns klass out st =
     (if \<not> out then Returns (Inl ERR_NULL) st
      else case registered_class ns klass (objects st) of
        None \<Rightarrow> Returns (Inl ERR_NOT_FOUND) st
      | Some p \<Rightarrow>
          bindC (on_objects (bindA (find_field p CLASS) (\<lambda>hit s.
            (Inr (if hit then fill_attrs (field_attrs s p CLASS) else no_attributes), s))))
            (\<lambda>r. retC (any_error r)) st)"

definition not_found :: "'a option result \<Rightarrow> 'a c_result" where
  "not_found r = (case r of
       Inl _ \<Rightarrow> Inl ERR_EXCEPTION
     | Inr None \<Rightarrow> Inl ERR_NOT_FOUND
     | Inr (Some x) \<Rightarrow> Inr x)"

definition bison_get_field_attributes :: "handle \<Rightarrow> hash_t \<Rightarrow> bool \<Rightarrow> c_attributes c_result c_call" where
  "bison_get_field_attributes h k out =
     (if \<not> out then retC (Inl ERR_NULL)
      else object_call h not_found (\<lambda>a. bindA (find_field a k) (\<lambda>hit s.
        (Inr (if hit then Some (fill_attrs (field_attrs s a k)) else None), s))))"

definition bison_get_method_attributes :: "handle \<Rightarrow> hash_t \<Rightarrow> bool \<Rightarrow> c_attributes c_result c_call" where
  "bison_get_method_attributes h k out =
     (if \<not> out then retC (Inl ERR_NULL)
      else object_call h not_found (\<lambda>a. bindA (find_method a k) (\<lambda>e.
        retA (map_option (\<lambda>m. fill_attrs (m_attrs m)) e))))"

section \<open>Field registration\<close>

definition meta_field :: "addr field_base \<Rightarrow> c_attributes option \<Rightarrow> addr field" where
  "meta_field v meta = fold add_attribute (attrs_from_meta meta) (plain_field v)"

definition add_field_impl :: "handle \<Rightarrow> hash_t \<Rightarrow> addr field \<Rightarrow> unit c_result c_call" where
  "add_field_impl h k f = object_call h duplicate_error (\<lambda>a. add_field a k f)"

definition bison_add_field_int :: "handle \<Rightarrow> hash_t \<Rightarrow> u32 \<Rightarrow> c_attributes option \<Rightarrow> unit c_result c_call" where
  "bison_add_field_int h k w meta = add_field_impl h k (meta_field (Int32V w) meta)"

definition bison_add_field_float :: "handle \<Rightarrow> hash_t \<Rightarrow> float_bits \<Rightarrow> c_attributes option \<Rightarrow> unit c_result c_call" where
  "bison_add_field_float h k w meta = add_field_impl h k (meta_field (FloatV w) meta)"

definition bison_add_field_bool :: "handle \<Rightarrow> hash_t \<Rightarrow> u32 \<Rightarrow> c_attributes option \<Rightarrow> unit c_result c_call" where
  "bison_add_field_bool h k w meta = add_field_impl h k (meta_field (BoolV (w \<noteq> 0)) meta)"

definition bison_add_field_string :: "handle \<Rightarrow> hash_t \<Rightarrow> string option \<Rightarrow> c_attributes option \<Rightarrow> unit c_result c_call" where
  "bison_add_field_string h k text meta = (case text of
       None \<Rightarrow> retC (Inl ERR_NULL)
     | Some t \<Rightarrow> add_field_impl h k (meta_field (StringV (c_string t)) meta))"

definition bison_add_field_key :: "handle \<Rightarrow> hash_t \<Rightarrow> hash_t \<Rightarrow> c_attributes option \<Rightarrow> unit c_result c_call" where
  "bison_add_field_key h k w meta = add_field_impl h k (meta_field (KeyV w) meta)"

definition bison_add_field_vector_bool :: "handle \<Rightarrow> hash_t \<Rightarrow> u32 list option \<Rightarrow> nat \<Rightarrow> c_attributes option \<Rightarrow> unit c_result c_call" where
  "bison_add_field_vector_bool h k values count meta =
     with_array values count (\<lambda>xs. add_field_impl h k (meta_field (VecBoolV (map (\<lambda>x. x \<noteq> 0) xs)) meta))"

definition bison_add_field_vector_int :: "handle \<Rightarrow> hash_t \<Rightarrow> u32 list option \<Rightarrow> nat \<Rightarrow> c_attributes option \<Rightarrow> unit c_result c_call" where
  "bison_add_field_vector_int h k values count meta =
     with_array values count (\<lambda>xs. add_field_impl h k (meta_field (VecInt32V xs) meta))"

definition bison_add_field_vector_float :: "handle \<Rightarrow> hash_t \<Rightarrow> float_bits list option \<Rightarrow> nat \<Rightarrow> c_attributes option \<Rightarrow> unit c_result c_call" where
  "bison_add_field_vector_float h k values count meta =
     with_array values count (\<lambda>xs. add_field_impl h k (meta_field (VecFloatV xs) meta))"

definition bison_add_field_vector_bytes :: "handle \<Rightarrow> hash_t \<Rightarrow> u8 list option \<Rightarrow> nat \<Rightarrow> c_attributes option \<Rightarrow> unit c_result c_call" where
  "bison_add_field_vector_bytes h k values count meta =
     with_array values count (\<lambda>xs. add_field_impl h k (meta_field (VecByteV xs) meta))"

section \<open>Setters\<close>

text \<open>\<open>(*dyn(h))[name] = v\<close>.\<close>

definition set_value :: "handle \<Rightarrow> hash_t \<Rightarrow> addr field_base \<Rightarrow> unit c_result c_call" where
  "set_value h name v = object_call h type_error (\<lambda>a. assign_key a name v)"

definition bison_set_int :: "handle \<Rightarrow> hash_t \<Rightarrow> u32 \<Rightarrow> unit c_result c_call" where
  "bison_set_int h name w = set_value h name (Int32V w)"

definition bison_set_float :: "handle \<Rightarrow> hash_t \<Rightarrow> float_bits \<Rightarrow> unit c_result c_call" where
  "bison_set_float h name w = set_value h name (FloatV w)"

definition bison_set_bool :: "handle \<Rightarrow> hash_t \<Rightarrow> u32 \<Rightarrow> unit c_result c_call" where
  "bison_set_bool h name w = set_value h name (BoolV (w \<noteq> 0))"

definition bison_set_string :: "handle \<Rightarrow> hash_t \<Rightarrow> string option \<Rightarrow> unit c_result c_call" where
  "bison_set_string h name text = (case text of
       None \<Rightarrow> retC (Inl ERR_NULL)
     | Some t \<Rightarrow> set_value h name (StringV (c_string t)))"

definition bison_set_key :: "handle \<Rightarrow> hash_t \<Rightarrow> hash_t \<Rightarrow> unit c_result c_call" where
  "bison_set_key h name w = set_value h name (KeyV w)"

text \<open>The object itself is shared with the field, not copied.\<close>

definition bison_set_object :: "handle \<Rightarrow> hash_t \<Rightarrow> handle \<Rightarrow> unit c_result c_call" where
  "bison_set_object h name child = (case h of
       None \<Rightarrow> retC (Inl ERR_NULL)
     | Some _ \<Rightarrow> (case child of
           None \<Rightarrow> set_value h name (PtrV None)
         | Some c \<Rightarrow> bindC (deref c) (\<lambda>q. set_value h name (PtrV (Some q)))))"

text \<open>An index of 64 bits becomes a key of 32.\<close>

definition index_name :: "u64 \<Rightarrow> hash_t" where
  "index_name index = ucast index"

definition bison_set_int_at :: "handle \<Rightarrow> u64 \<Rightarrow> u32 \<Rightarrow> unit c_result c_call" where
  "bison_set_int_at h index w = bison_set_int h (index_name index) w"

definition bison_set_float_at :: "handle \<Rightarrow> u64 \<Rightarrow> float_bits \<Rightarrow> unit c_result c_call" where
  "bison_set_float_at h index w = bison_set_float h (index_name index) w"

definition bison_set_string_at :: "handle \<Rightarrow> u64 \<Rightarrow> string option \<Rightarrow> unit c_result c_call" where
  "bison_set_string_at h index text = bison_set_string h (index_name index) text"

definition bison_set_bool_at :: "handle \<Rightarrow> u64 \<Rightarrow> u32 \<Rightarrow> unit c_result c_call" where
  "bison_set_bool_at h index w = bison_set_bool h (index_name index) w"

definition bison_set_key_at :: "handle \<Rightarrow> u64 \<Rightarrow> hash_t \<Rightarrow> unit c_result c_call" where
  "bison_set_key_at h index w = bison_set_key h (index_name index) w"

definition bison_set_object_at :: "handle \<Rightarrow> u64 \<Rightarrow> handle \<Rightarrow> unit c_result c_call" where
  "bison_set_object_at h index child = bison_set_object h (index_name index) child"

text \<open>\<open>if (!h)\<close> comes before the test of the array.\<close>

definition set_vector :: "handle \<Rightarrow> hash_t \<Rightarrow> 'a list option \<Rightarrow> nat \<Rightarrow> ('a list \<Rightarrow> addr field_base) \<Rightarrow> unit c_result c_call" where
  "set_vector h name values count mk = (case h of
       None \<Rightarrow> retC (Inl ERR_NULL)
     | Some _ \<Rightarrow> with_array values count (\<lambda>xs. set_value h name (mk xs)))"

definition bison_set_vector_bool :: "handle \<Rightarrow> hash_t \<Rightarrow> u32 list option \<Rightarrow> nat \<Rightarrow> unit c_result c_call" where
  "bison_set_vector_bool h name values count = set_vector h name values count (\<lambda>xs. VecBoolV (map (\<lambda>x. x \<noteq> 0) xs))"

definition bison_set_vector_int :: "handle \<Rightarrow> hash_t \<Rightarrow> u32 list option \<Rightarrow> nat \<Rightarrow> unit c_result c_call" where
  "bison_set_vector_int h name values count = set_vector h name values count VecInt32V"

definition bison_set_vector_float :: "handle \<Rightarrow> hash_t \<Rightarrow> float_bits list option \<Rightarrow> nat \<Rightarrow> unit c_result c_call" where
  "bison_set_vector_float h name values count = set_vector h name values count VecFloatV"

definition bison_set_vector_bytes :: "handle \<Rightarrow> hash_t \<Rightarrow> u8 list option \<Rightarrow> nat \<Rightarrow> unit c_result c_call" where
  "bison_set_vector_bytes h name values count = set_vector h name values count VecByteV"

section \<open>Getters\<close>

text \<open>\<open>T{}\<close>: an empty \<open>dynamic_ptr\<close> is a pointer to a new object.\<close>

definition default_value :: "ftype \<Rightarrow> addr field_base action" where
  "default_value T = (case T of
       TMonostate \<Rightarrow> retA Monostate
     | THash \<Rightarrow> retA (HashV 0)
     | TKey \<Rightarrow> retA (KeyV 0)
     | TBool \<Rightarrow> retA (BoolV False)
     | TInt32 \<Rightarrow> retA (Int32V 0)
     | TFloat \<Rightarrow> retA (FloatV 0)
     | TPtr \<Rightarrow> bindA (new_dynamic 0 []) (\<lambda>a. retA (PtrV (Some a)))
     | TString \<Rightarrow> retA (StringV [])
     | TVecBool \<Rightarrow> retA (VecBoolV [])
     | TVecInt32 \<Rightarrow> retA (VecInt32V [])
     | TVecFloat \<Rightarrow> retA (VecFloatV [])
     | TVecByte \<Rightarrow> retA (VecByteV []))"

text \<open>\<open>(*dyn(h))[name].as<T>()\<close>: an absent or empty field is given the default.\<close>

definition field_value_as :: "addr \<Rightarrow> hash_t \<Rightarrow> ftype \<Rightarrow> addr field_base action" where
  "field_value_as a name T s =
     (case map_of (fields_of s a) name of
        None \<Rightarrow> (Inl Invalid_type, s)
      | Some f \<Rightarrow>
          if field_is TMonostate f
          then bindA (default_value T) (\<lambda>v s1. (Inr v, set_field a name (f\<lparr>f_base := v\<rparr>) s1)) s
          else (case field_as_const T f of Inl e \<Rightarrow> (Inl e, s) | Inr v \<Rightarrow> (Inr v, s)))"

definition read_as :: "addr \<Rightarrow> hash_t \<Rightarrow> ftype \<Rightarrow> addr field_base action" where
  "read_as a name T = bindA (index_key a name) (\<lambda>_. field_value_as a name T)"

definition get_value :: "handle \<Rightarrow> hash_t \<Rightarrow> ftype \<Rightarrow> addr field_base c_result c_call" where
  "get_value h name T = object_call h type_error (\<lambda>a. read_as a name T)"

definition then_return :: "'a c_result c_call \<Rightarrow> ('a \<Rightarrow> 'b c_result c_call) \<Rightarrow> 'b c_result c_call" where
  "then_return m f = bindC m (\<lambda>r. case r of Inl e \<Rightarrow> retC (Inl e) | Inr x \<Rightarrow> f x)"

definition when_out :: "bool \<Rightarrow> 'a c_result c_call \<Rightarrow> 'a c_result c_call" where
  "when_out out m = (if out then m else retC (Inl ERR_NULL))"

definition bison_get_int :: "handle \<Rightarrow> hash_t \<Rightarrow> bool \<Rightarrow> u32 c_result c_call" where
  "bison_get_int h name out = when_out out (then_return (get_value h name TInt32) (\<lambda>v. case v of
       Int32V w \<Rightarrow> retC (Inr w) | _ \<Rightarrow> undefinedC))"

definition bison_get_float :: "handle \<Rightarrow> hash_t \<Rightarrow> bool \<Rightarrow> float_bits c_result c_call" where
  "bison_get_float h name out = when_out out (then_return (get_value h name TFloat) (\<lambda>v. case v of
       FloatV w \<Rightarrow> retC (Inr w) | _ \<Rightarrow> undefinedC))"

definition bison_get_bool :: "handle \<Rightarrow> hash_t \<Rightarrow> bool \<Rightarrow> u32 c_result c_call" where
  "bison_get_bool h name out = when_out out (then_return (get_value h name TBool) (\<lambda>v. case v of
       BoolV b \<Rightarrow> retC (Inr (if b then 1 else 0)) | _ \<Rightarrow> undefinedC))"

definition bison_get_key :: "handle \<Rightarrow> hash_t \<Rightarrow> bool \<Rightarrow> hash_t c_result c_call" where
  "bison_get_key h name out = when_out out (then_return (get_value h name TKey) (\<lambda>v. case v of
       KeyV w \<Rightarrow> retC (Inr w) | _ \<Rightarrow> undefinedC))"

text \<open>The length, and the buffer: what fits of the text with a NUL behind it.\<close>

definition bison_get_string :: "handle \<Rightarrow> hash_t \<Rightarrow> string option \<Rightarrow> nat \<Rightarrow> (nat \<times> string option) c_result c_call" where
  "bison_get_string h name buf buf_len = then_return (get_value h name TString) (\<lambda>v. case v of
       StringV s \<Rightarrow>
         if buf = None \<or> buf_len = 0 then retC (Inr (length s, buf))
         else bindC (copy_out (take (buf_len - 1) s @ [CHR 0x00]) buf buf_len) (\<lambda>b. retC (Inr (length s, b)))
     | _ \<Rightarrow> undefinedC)"

definition bison_get_object :: "handle \<Rightarrow> hash_t \<Rightarrow> bool \<Rightarrow> handle c_result c_call" where
  "bison_get_object h name out = when_out out (then_return (get_value h name TPtr) (\<lambda>v. case v of
       PtrV None \<Rightarrow> retC (Inr None)
     | PtrV (Some q) \<Rightarrow> bindC (new_handle q) (\<lambda>h'. retC (Inr (Some h')))
     | _ \<Rightarrow> undefinedC))"

definition bison_get_int_at :: "handle \<Rightarrow> u64 \<Rightarrow> bool \<Rightarrow> u32 c_result c_call" where
  "bison_get_int_at h index out = bison_get_int h (index_name index) out"

definition bison_get_float_at :: "handle \<Rightarrow> u64 \<Rightarrow> bool \<Rightarrow> float_bits c_result c_call" where
  "bison_get_float_at h index out = bison_get_float h (index_name index) out"

definition bison_get_string_at :: "handle \<Rightarrow> u64 \<Rightarrow> string option \<Rightarrow> nat \<Rightarrow> (nat \<times> string option) c_result c_call" where
  "bison_get_string_at h index buf buf_len = bison_get_string h (index_name index) buf buf_len"

definition bison_get_bool_at :: "handle \<Rightarrow> u64 \<Rightarrow> bool \<Rightarrow> u32 c_result c_call" where
  "bison_get_bool_at h index out = bison_get_bool h (index_name index) out"

definition bison_get_key_at :: "handle \<Rightarrow> u64 \<Rightarrow> bool \<Rightarrow> hash_t c_result c_call" where
  "bison_get_key_at h index out = bison_get_key h (index_name index) out"

definition bison_get_object_at :: "handle \<Rightarrow> u64 \<Rightarrow> bool \<Rightarrow> handle c_result c_call" where
  "bison_get_object_at h index out = bison_get_object h (index_name index) out"

definition bison_get_vector_bool :: "handle \<Rightarrow> hash_t \<Rightarrow> u32 list option \<Rightarrow> nat \<Rightarrow> (nat \<times> u32 list option) c_result c_call" where
  "bison_get_vector_bool h name buf buf_len = then_return (get_value h name TVecBool) (\<lambda>v. case v of
       VecBoolV xs \<Rightarrow> bindC (copy_out (map (\<lambda>b. if b then 1 else 0) xs) buf buf_len) (\<lambda>b. retC (Inr (length xs, b)))
     | _ \<Rightarrow> undefinedC)"

definition bison_get_vector_int :: "handle \<Rightarrow> hash_t \<Rightarrow> u32 list option \<Rightarrow> nat \<Rightarrow> (nat \<times> u32 list option) c_result c_call" where
  "bison_get_vector_int h name buf buf_len = then_return (get_value h name TVecInt32) (\<lambda>v. case v of
       VecInt32V xs \<Rightarrow> bindC (copy_out xs buf buf_len) (\<lambda>b. retC (Inr (length xs, b)))
     | _ \<Rightarrow> undefinedC)"

definition bison_get_vector_float :: "handle \<Rightarrow> hash_t \<Rightarrow> float_bits list option \<Rightarrow> nat \<Rightarrow> (nat \<times> float_bits list option) c_result c_call" where
  "bison_get_vector_float h name buf buf_len = then_return (get_value h name TVecFloat) (\<lambda>v. case v of
       VecFloatV xs \<Rightarrow> bindC (copy_out xs buf buf_len) (\<lambda>b. retC (Inr (length xs, b)))
     | _ \<Rightarrow> undefinedC)"

definition bison_get_vector_bytes :: "handle \<Rightarrow> hash_t \<Rightarrow> u8 list option \<Rightarrow> nat \<Rightarrow> (nat \<times> u8 list option) c_result c_call" where
  "bison_get_vector_bytes h name buf buf_len = then_return (get_value h name TVecByte) (\<lambda>v. case v of
       VecByteV xs \<Rightarrow> bindC (copy_out xs buf buf_len) (\<lambda>b. retC (Inr (length xs, b)))
     | _ \<Rightarrow> undefinedC)"

text \<open>The number of indices, 0 without an object; the hash of a name.\<close>

definition bison_size :: "handle \<Rightarrow> nat c_call" where
  "bison_size h = (case h of
       None \<Rightarrow> retC 0
     | Some n \<Rightarrow> bindC (deref n) (\<lambda>a st. Returns (dyn_size (fields_of (objects st) a)) st))"

definition bison_key :: "char_kind \<Rightarrow> string option \<Rightarrow> hash_t" where
  "bison_key ck name = (case name of None \<Rightarrow> 0 | Some t \<Rightarrow> hash ck (c_string t))"

section \<open>Binary serialization\<close>

definition bison_serialize :: "c_env \<Rightarrow> handle \<Rightarrow> bool \<Rightarrow> u8 list c_result c_call" where
  "bison_serialize env h out =
     (if \<not> out then retC (Inl ERR_NULL)
      else object_call h any_error (\<lambda>a. bindA (dump a) (\<lambda>m.
        retA (dynamic_serialize (host_order env) (Dyn m)))))"

text \<open>What follows the object in the buffer is ignored.\<close>

definition bison_deserialize :: "c_env \<Rightarrow> u8 list option \<Rightarrow> nat \<Rightarrow> bool \<Rightarrow> nat c_result c_call" where
  "bison_deserialize env data len out =
     (if \<not> out then retC (Inl ERR_NULL)
      else with_array data len (\<lambda>bytes.
        bindC (on_objects (from_trees (\<lambda>s.
          case dynamic_deserialize buffer_deserializer (registry_view env s) bytes of
            Inl e \<Rightarrow> Inl e | Inr (m, _) \<Rightarrow> Inr m))) (\<lambda>r. case r of
          Inl _ \<Rightarrow> retC (Inl ERR_PARSE)
        | Inr a \<Rightarrow> bindC (new_handle a) (\<lambda>h. retC (Inr h)))))"

section \<open>Methods\<close>

text \<open>A callback with its user pointer is the number of the method; \<open>None\<close> is a null function.\<close>

definition bison_add_method :: "handle \<Rightarrow> hash_t \<Rightarrow> nat option \<Rightarrow> c_attributes option \<Rightarrow> unit c_result c_call" where
  "bison_add_method h name fn meta = (case fn of
       None \<Rightarrow> retC (Inl ERR_NULL)
     | Some i \<Rightarrow> object_call h duplicate_error (\<lambda>a. add_method a name
         \<lparr> m_fn = i, m_input = None, m_output = None, m_attrs = attrs_from_meta meta \<rparr>))"

text \<open>Whether something besides the handle \<open>h\<close> still refers to the object.\<close>

definition kept_elsewhere :: "nat \<Rightarrow> addr \<Rightarrow> c_state \<Rightarrow> bool" where
  "kept_elsewhere h r st \<longleftrightarrow>
     list_ex (\<lambda>h'. h' \<noteq> h \<and> handles st h' = Some r) [0..<next_handle st] \<or>
     list_ex (\<lambda>ob. list_ex (\<lambda>(k, f). f_base f = PtrV (Some r)) (o_fields ob)) (heap (objects st)) \<or>
     list_ex (\<lambda>(ns, col). list_ex (\<lambda>(k, p). p = r) col) (registry (objects st))"

text \<open>
  \<open>std::move(*result_dyn)\<close>. The pointer cache stays behind and then refers into another object's
  fields; a callback that keeps its result object is therefore left undefined.
\<close>

definition move_result :: "nat \<Rightarrow> addr \<Rightarrow> addr c_call" where
  "move_result h r st =
     (if kept_elsewhere h r st then Undefined
      else bindC (on_objects (alloc ((obj_at (objects st) r)\<lparr>o_lookup := \<lambda>_. None\<rparr>))) (\<lambda>moved st1.
        case moved of
          Inl _ \<Rightarrow> Undefined
        | Inr b \<Rightarrow> Returns b (st1\<lparr>objects := update_obj r (\<lambda>_. blank_obj []) (objects st1)\<rparr>)) st)"

text \<open>The function that \<open>bison_add_method\<close> wraps around the callback.\<close>

definition run_callback :: "c_env \<Rightarrow> nat \<Rightarrow> addr \<Rightarrow> addr \<Rightarrow> addr result c_call" where
  "run_callback env fn self params =
     bindC (new_handle self) (\<lambda>self_h.
     bindC (on_objects (clone_ptr params)) (\<lambda>p. case p of
       Inl e \<Rightarrow> retC (Inl e)
     | Inr params_copy \<Rightarrow>
         bindC (new_handle params_copy) (\<lambda>param_h.
         bindC (on_objects (new_dynamic 0 [])) (\<lambda>q. case q of
           Inl e \<Rightarrow> retC (Inl e)
         | Inr result_dyn \<Rightarrow>
             bindC (new_handle result_dyn) (\<lambda>res_h.
             bindC (callback env fn self_h param_h res_h) (\<lambda>_.
             bindC (move_result res_h result_dyn) (\<lambda>moved.
             bindC (delete_handle self_h) (\<lambda>_.
             bindC (delete_handle param_h) (\<lambda>_.
             bindC (delete_handle res_h) (\<lambda>_.
             retC (Inr moved)))))))))))"

definition call_message :: "exc \<Rightarrow> string" where
  "call_message e = (case e of
       Method_not_found \<Rightarrow> ''Method not found''
     | Invalid_type \<Rightarrow> ''Invalid type''
     | App_error t \<Rightarrow> t
     | _ \<Rightarrow> [])"

definition contains_text :: "string \<Rightarrow> string \<Rightarrow> bool" where
  "contains_text t s \<longleftrightarrow> list_ex (\<lambda>n. take (length t) (drop n s) = t) [0..<Suc (length s)]"

definition call_error :: "exc \<Rightarrow> c_error" where
  "call_error e =
     (if is_runtime_error e \<and>
         (contains_text ''not found'' (call_message e) \<or> contains_text ''Not found'' (call_message e))
      then ERR_NOT_FOUND else ERR_EXCEPTION)"

definition bison_call :: "c_env \<Rightarrow> handle \<Rightarrow> hash_t \<Rightarrow> handle \<Rightarrow> bool \<Rightarrow> nat c_result c_call" where
  "bison_call env h name params out =
     (if h = None \<or> params = None \<or> \<not> out then retC (Inl ERR_NULL)
      else with_handle h (\<lambda>self. with_handle params (\<lambda>args.
        bindC (on_objects (resolve_call self name args)) (\<lambda>r. case r of
          Inl e \<Rightarrow> retC (Inl (call_error e))
        | Inr (m, p) \<Rightarrow>
            bindC (run_callback env (m_fn m) self p) (\<lambda>res. case res of
              Inl e \<Rightarrow> retC (Inl (call_error e))
            | Inr b \<Rightarrow> bindC (new_handle b) (\<lambda>h'. retC (Inr h')))))))"

end
