(* ===== verification/Bison_C_Inv.thy ===== *)
theory Bison_C_Inv
  imports Bison_C
begin

text \<open>
  What a client of the C interface may rely on: as long as it passes live handles (or \<open>NULL\<close>) and buffers
  of the size it says, no sequence of calls reaches undefined behaviour, and the handles it holds keep
  their objects. Proved with triples over the calls: \<open>c_safe P m Q\<close>.
\<close>

section \<open>Triples\<close>

definition c_ok :: "c_state \<Rightarrow> bool" where
  "c_ok st \<longleftrightarrow> store_ok (objects st) \<and>
     (\<forall>h a. handles st h = Some a \<longrightarrow> a < length (heap (objects st)) \<and> h < next_handle st)"

definition c_safe :: "(c_state \<Rightarrow> bool) \<Rightarrow> 'a c_call \<Rightarrow> ('a \<Rightarrow> c_state \<Rightarrow> bool) \<Rightarrow> bool" where
  "c_safe P m Q \<longleftrightarrow> (\<forall>st. c_ok st \<longrightarrow> P st \<longrightarrow> (case m st of
       Undefined \<Rightarrow> False
     | Never_returns \<Rightarrow> True
     | Returns x st' \<Rightarrow> c_ok st' \<and> Q x st'))"

text \<open>The addresses of \<open>A\<close> are allocated and the handle table is \<open>H\<close>, filled below \<open>n\<close>.\<close>

definition given :: "addr set \<Rightarrow> (nat \<Rightarrow> addr option) \<Rightarrow> nat \<Rightarrow> c_state \<Rightarrow> bool" where
  "given A H n st \<longleftrightarrow> valid A (objects st) \<and> handles st = H \<and> next_handle st = n"

lemma c_safeI:
  assumes "\<And>st. c_ok st \<Longrightarrow> P st \<Longrightarrow> m st \<noteq> Undefined"
    and "\<And>st x st'. c_ok st \<Longrightarrow> P st \<Longrightarrow> m st = Returns x st' \<Longrightarrow> c_ok st' \<and> Q x st'"
  shows "c_safe P m Q"
  unfolding c_safe_def
proof (intro allI impI)
  fix st assume st: "c_ok st" "P st"
  show "case m st of Undefined \<Rightarrow> False | Never_returns \<Rightarrow> True | Returns x st' \<Rightarrow> c_ok st' \<and> Q x st'"
    using assms(1) [OF st] assms(2) [OF st] by (cases "m st") simp_all
qed

lemma c_safeD:
  assumes "c_safe P m Q" and "c_ok st" and "P st"
  shows "m st \<noteq> Undefined" and "m st = Returns x st' \<Longrightarrow> c_ok st' \<and> Q x st'"
proof -
  have "case m st of Undefined \<Rightarrow> False | Never_returns \<Rightarrow> True | Returns x st' \<Rightarrow> c_ok st' \<and> Q x st'"
    using assms(1) [unfolded c_safe_def, rule_format, OF assms(2,3)] .
  then show "m st \<noteq> Undefined" and "m st = Returns x st' \<Longrightarrow> c_ok st' \<and> Q x st'"
    by (cases "m st"; simp)+
qed

lemma c_safe_bind:
  assumes "c_safe P m R" and "\<And>x. c_safe (R x) (f x) Q"
  shows "c_safe P (bindC m f) Q"
proof (rule c_safeI)
  fix st assume st: "c_ok st" "P st"
  note m = c_safeD [OF assms(1) st]
  show "bindC m f st \<noteq> Undefined"
    using m c_safeD(1) [OF assms(2)] by (auto simp: bindC_def split: c_outcome.splits)
  fix x st' assume "bindC m f st = Returns x st'"
  then obtain y st1 where 1: "m st = Returns y st1" "f y st1 = Returns x st'"
    by (auto simp: bindC_def split: c_outcome.splits)
  show "c_ok st' \<and> Q x st'" using m(2) [OF 1(1)] c_safeD(2) [OF assms(2) _ _ 1(2)] by blast
qed

lemma c_safe_weaken:
  assumes "c_safe P m Q" and "\<And>st. c_ok st \<Longrightarrow> P' st \<Longrightarrow> P st" and "\<And>x st. c_ok st \<Longrightarrow> Q x st \<Longrightarrow> Q' x st"
  shows "c_safe P' m Q'"
proof (rule c_safeI)
  fix st assume st: "c_ok st" "P' st"
  note m = c_safeD [OF assms(1) st(1) assms(2) [OF st]]
  show "m st \<noteq> Undefined" by (rule m(1))
  fix x st' assume "m st = Returns x st'"
  from m(2) [OF this] assms(3) show "c_ok st' \<and> Q' x st'" by blast
qed

lemma c_safe_ret: "(\<And>st. P st \<Longrightarrow> Q x st) \<Longrightarrow> c_safe P (retC x) Q"
  by (simp add: c_safe_def retC_def)

lemma c_safe_given_pure:
  assumes "x = y \<Longrightarrow> c_safe P m Q"
  shows "c_safe (\<lambda>st. x = y \<and> P st) m Q"
  using assms by (auto simp: c_safe_def)

lemma c_safe_pure:
  assumes "B \<Longrightarrow> c_safe P m Q"
  shows "c_safe (\<lambda>st. B \<and> P st) m Q"
  using assms by (auto simp: c_safe_def)

abbreviation result_set :: "('a \<Rightarrow> addr set) \<Rightarrow> 'a result \<Rightarrow> addr set" where
  "result_set B r \<equiv> (case r of Inl _ \<Rightarrow> {} | Inr x \<Rightarrow> B x)"

lemma c_safe_on:
  assumes "keeps A m B" and "A \<subseteq> A'" and "\<And>s r s'. m s = (r, s') \<Longrightarrow> R r"
  shows "c_safe (given A' H n) (on_objects m) (\<lambda>r st. R r \<and> given (A' \<union> result_set B r) H n st)"
proof (rule c_safeI)
  fix st assume st: "c_ok st" "given A' H n st"
  obtain r s where m: "m (objects st) = (r, s)" by fastforce
  show "on_objects m st \<noteq> Undefined"
    by (auto simp: on_objects_def m split: sum.split exc.split)
  fix x st' assume "on_objects m st = Returns x st'"
  then have ret: "x = r" "st' = st\<lparr>objects := s\<rparr>"
    by (auto simp: on_objects_def m split: sum.splits exc.splits)
  have "valid A (objects st)" using st(2) assms(2) by (auto simp: given_def valid_def)
  note k = keepsD [OF assms(1) _ this m]
  have s: "store_ok s" "length (heap (objects st)) \<le> length (heap s)" using k(1,2) st(1) by (auto simp: c_ok_def)
  have "valid A' s" using st(2) valid_mono [OF _ s(2)] by (auto simp: given_def)
  moreover have "valid (result_set B r) s" using k(3) st(1) by (auto simp: c_ok_def split: sum.split)
  ultimately show "c_ok st' \<and> R x \<and> given (A' \<union> result_set B x) H n st'"
    using st s assms(3) [OF m] by (fastforce simp: c_ok_def given_def ret)
qed

lemma c_safe_objects:
  assumes "keeps A m B" and "A \<subseteq> A'"
  shows "c_safe (given A' H n) (on_objects m) (\<lambda>r. given (A' \<union> result_set B r) H n)"
  by (rule c_safe_weaken [OF c_safe_on [OF assms, of "\<lambda>_. True"]]) auto

lemma c_safe_deref:
  assumes "H h \<noteq> None"
  shows "c_safe (given A H n) (deref h) (\<lambda>a st. H h = Some a \<and> given (insert a A) H n st)"
  using assms by (auto intro!: c_safeI simp: deref_def given_def c_ok_def split: option.splits)

lemma c_safe_new:
  assumes "a \<in> A"
  shows "c_safe (given A H n) (new_handle a) (\<lambda>h st. h = n \<and> given A (H(n \<mapsto> a)) (Suc n) st)"
  using assms by (fastforce intro!: c_safeI simp: new_handle_def given_def c_ok_def valid_def split: if_splits)

lemma c_safe_delete:
  assumes "H h \<noteq> None"
  shows "c_safe (given A H n) (delete_handle h) (\<lambda>_. given A (H(h := None)) n)"
  unfolding delete_handle_def
proof (rule c_safe_bind [OF c_safe_deref [where H = H, OF assms]])
  show "c_safe (\<lambda>st. H h = Some a \<and> given (insert a A) H n st) (\<lambda>st. Returns () (st\<lparr>handles := (handles st)(h := None)\<rparr>))
      (\<lambda>_. given A (H(h := None)) n)" for a
    by (auto intro!: c_safeI simp: given_def c_ok_def split: if_splits)
qed

text \<open>Below \<open>n\<close> the table is still \<open>H\<close>, and it has not shrunk.\<close>

definition holding :: "(nat \<Rightarrow> addr option) \<Rightarrow> nat \<Rightarrow> c_state \<Rightarrow> bool" where
  "holding H n st \<longleftrightarrow> (\<forall>h < n. handles st h = H h) \<and> n \<le> next_handle st"

lemma given_holding: "given A H n st \<Longrightarrow> holding H n st"
  by (simp add: given_def holding_def)

lemma given_fresh_holding: "given A (H(n \<mapsto> a)) (Suc n) st \<Longrightarrow> holding H n st"
  by (simp add: given_def holding_def)

abbreviation keeps_handles :: "(nat \<Rightarrow> addr option) \<Rightarrow> nat \<Rightarrow> 'a c_call \<Rightarrow> bool" where
  "keeps_handles H n m \<equiv> c_safe (given {} H n) m (\<lambda>_. holding H n)"

definition live :: "(nat \<Rightarrow> addr option) \<Rightarrow> handle \<Rightarrow> bool" where
  "live H h \<longleftrightarrow> (\<forall>i. h = Some i \<longrightarrow> H i \<noteq> None)"

lemma live_simps [simp]: "live H None" "live H (Some i) \<longleftrightarrow> H i \<noteq> None"
  by (auto simp: live_def)

text \<open>A handle that was handed out is live.\<close>

definition handed :: "(nat \<Rightarrow> addr option) \<Rightarrow> nat \<Rightarrow> handle \<Rightarrow> c_state \<Rightarrow> bool" where
  "handed H n h st \<longleftrightarrow> holding H n st \<and> live (handles st) h"

lemma keeps_handles_ret [simp]: "keeps_handles H n (retC x)"
  by (rule c_safe_ret) (rule given_holding)

lemma c_safe_or_null:
  "c_safe (given (A \<union> result_set (\<lambda>a. {a}) r) H n) (or_null r)
     (handed H n)"
proof (cases r)
  case (Inl e)
  then show ?thesis by (auto simp: or_null_def handed_def intro!: c_safe_ret dest: given_holding)
next
  case (Inr a)
  show ?thesis unfolding Inr or_null_def sum.case
    by (rule c_safe_bind [OF c_safe_new]) (auto simp: given_def holding_def handed_def intro!: c_safe_ret)
qed

text \<open>A call that makes an object and returns a handle to it, which is live.\<close>

abbreviation makes_handle :: "(nat \<Rightarrow> addr option) \<Rightarrow> nat \<Rightarrow> handle c_call \<Rightarrow> bool" where
  "makes_handle H n m \<equiv>
     c_safe (given {} H n) m (handed H n)"

lemma keeps_if_makes: "makes_handle H n m \<Longrightarrow> keeps_handles H n m"
  by (erule c_safe_weaken) (auto simp: handed_def)

lemma c_safe_make:
  assumes "keeps A m (\<lambda>a. {a})" and "A \<subseteq> A'"
  shows "c_safe (given A' H n) (bindC (on_objects m) or_null)
     (handed H n)"
  by (rule c_safe_bind [OF c_safe_objects [OF assms] c_safe_or_null])

lemma makes_none: "makes_handle H n (retC None)"
  by (rule c_safe_ret) (auto simp: handed_def dest: given_holding)

lemma c_safe_with_handle:
  assumes "live H h" and "\<And>a. c_safe (given {a} H n) (f a) (\<lambda>_. holding H n)"
  shows "keeps_handles H n (with_handle h f)"
proof (cases h)
  case None
  then show ?thesis by (simp add: with_handle_def)
next
  case (Some i)
  have "H i \<noteq> None" using assms(1) by (simp add: Some)
  from c_safe_bind [OF c_safe_deref [where H = H, OF this], of "{}" n, OF c_safe_pure, OF assms(2)]
  show ?thesis by (simp add: with_handle_def Some)
qed

lemma c_safe_object_call:
  assumes "live H h" and "\<And>a. keeps {a} (m a) (\<lambda>_. {})"
  shows "keeps_handles H n (object_call h catch m)"
  unfolding object_call_def
  by (rule c_safe_with_handle [OF assms(1)], rule c_safe_bind [OF c_safe_objects [OF assms(2) order_refl]], rule c_safe_ret)
     (rule given_holding)

lemma c_safe_with_array:
  assumes "values = None \<or> count \<le> length (the values)" and "\<And>xs. c_safe P (f xs) Q" and "\<And>st. P st \<Longrightarrow> Q (Inl ERR_NULL) st"
  shows "c_safe P (with_array values count f) Q"
  using assms by (auto simp: with_array_def split: option.split intro: c_safe_ret)

lemma c_safe_copy_out:
  assumes "buf = None \<or> len \<le> length (the buf)"
  shows "c_safe P (copy_out xs buf len) (\<lambda>_. P)"
  using assms by (auto simp: copy_out_def Let_def split: option.split intro: c_safe_ret)

section \<open>The functions, one by one\<close>

subsection \<open>Actions of the objects\<close>

lemma keeps_reading: "keeps A (\<lambda>s. (f s, s)) (\<lambda>_. {})"
  by (simp add: keeps_def)

lemma keeps_dump_then: "keeps A (bindA (dump a) (\<lambda>m s. (f m, s))) (\<lambda>_. {})"
  by (rule keeps_bind [OF keeps_dump]) (rule keeps_reading)

lemma keeps_from_trees: "keeps A (from_trees f) (\<lambda>a. {a})"
proof -
  have "keeps A (\<lambda>s. (Inl e, s)) (\<lambda>a. {a})" for e :: exc by (simp add: keeps_def)
  then show ?thesis using keeps_load [of A] by (auto simp: from_trees_def keeps_def split: sum.splits)
qed

lemma keeps_made:
  assumes "\<And>i. keeps {} (factories env i) option_set"
  shows "keeps {} (bindA (create_object (factories env) ns klass) (\<lambda>p. case p of
     Some a \<Rightarrow> retA a | None \<Rightarrow> alloc (instantiate_obj ns klass))) (\<lambda>a. {a})"
proof (rule keeps_bind [OF keeps_create_object [OF assms]])
  have new: "obj_ok 0 (instantiate_obj ns klass)"
    by (auto simp: instantiate_obj_def Let_def blank_obj_def obj_ok_def cache_ok_def ptr_ok_def plain_field_def
        dest!: map_put_mem)
  show "keeps ({} \<union> option_set p) (case p of Some a \<Rightarrow> retA a | None \<Rightarrow> alloc (instantiate_obj ns klass)) (\<lambda>a. {a})" for p
    by (cases p) (auto intro: keeps_ret keeps_alloc [OF new])
qed

lemma default_value_type: "default_value T s = (Inr v, s') \<Longrightarrow> type_of v = T"
  by (cases T) (auto simp: default_value_def retA_def bindA_def split: prod.splits sum.splits)

lemma keeps_default_value: "keeps A (default_value T) ptrs_of"
proof (cases T)
  case TPtr
  show ?thesis unfolding TPtr default_value_def ftype.case
    by (rule keeps_bind [OF keeps_new_dynamic], rule keeps_ret) simp
qed (auto simp: default_value_def ptrs_of_def intro!: keeps_ret)

lemma default_value_extends: "default_value T s = (r, s') \<Longrightarrow> a < length (heap s) \<Longrightarrow> obj_at s' a = obj_at s a"
  by (cases T) (auto simp: default_value_def retA_def bindA_def new_dynamic_def alloc_def nth_append
      split: prod.splits sum.splits)

lemma keeps_field_value_as: "keeps {a} (field_value_as a name T) ptrs_of"
proof (rule keepsI)
  fix s r s'
  assume s: "store_ok s" "valid {a} s" and run: "field_value_as a name T s = (r, s')"
  have a: "a < length (heap s)" using s(2) by simp
  show "store_ok s' \<and> length (heap s) \<le> length (heap s') \<and> (\<forall>x. r = Inr x \<longrightarrow> valid (ptrs_of x) s')"
  proof (cases "map_of (fields_of s a) name")
    case None
    then show ?thesis using run s by (auto simp: field_value_as_def)
  next
    case (Some f)
    have f: "ptr_ok (length (heap s)) f" by (rule obj_ok_field [OF store_okD [OF s(1) a] Some])
    show ?thesis
    proof (cases "field_is TMonostate f")
      case False
      then show ?thesis using run s f
        by (auto simp: field_value_as_def Some field_as_const_def valid_ptrs split: if_splits)
    next
      case True
      obtain d s1 where d: "default_value T s = (d, s1)" by fastforce
      note k = keepsD [OF keeps_default_value s(1) s(2) d]
      show ?thesis
      proof (cases d)
        case (Inl e)
        then show ?thesis using run k by (auto simp: field_value_as_def Some True bindA_def d)
      next
        case (Inr v)
        have out: "r = Inr v" "s' = set_field a name (f\<lparr>f_base := v\<rparr>) s1"
          using run by (auto simp: field_value_as_def Some True bindA_def d Inr)
        have v: "valid (ptrs_of v) s1" by (rule k(3) [OF Inr])
        have a1: "a < length (heap s1)" using a k(2) by simp
        have "ptr_ok (length (heap s1)) (f\<lparr>f_base := v\<rparr>)"
          using v valid_ptrs [of "f\<lparr>f_base := v\<rparr>" s1] by simp
        moreover have "o_lookup (obj_at s1 a) name \<noteq> Some False"
          using store_okD [OF s(1) a] Some default_value_extends [OF d a] by (auto simp: obj_ok_def cache_ok_def)
        ultimately show ?thesis using k(1,2) v a1
          by (auto simp: out set_field_def valid_def intro!: store_ok_set_field [unfolded set_field_def])
      qed
    qed
  qed
qed

lemma keeps_read_as: "keeps {a} (read_as a name T) ptrs_of"
  unfolding read_as_def
proof (rule keeps_bind [OF keeps_index_key])
  show "keeps ({a} \<union> {}) (field_value_as a name T) ptrs_of" using keeps_field_value_as by simp
qed

lemma field_value_as_type: "field_value_as a name T s = (Inr v, s') \<Longrightarrow> type_of v = T"
  using default_value_type [of T]
  by (auto simp: field_value_as_def field_as_const_def field_is_def bindA_def split: option.splits if_splits prod.splits sum.splits)

lemma read_as_type: "read_as a name T s = (Inr v, s') \<Longrightarrow> type_of v = T"
  using field_value_as_type by (auto simp: read_as_def bindA_def split: prod.splits sum.splits)

subsection \<open>Lifecycle, text and registry\<close>

lemma c_safe_create: "makes_handle H n (bison_create klass)"
  unfolding bison_create_def by (rule c_safe_make [OF keeps_new_dynamic]) simp

lemma c_safe_instantiate:
  assumes "\<And>i. keeps {} (factories env i) option_set"
  shows "makes_handle H n (bison_instantiate env ns klass)"
  unfolding bison_instantiate_def by (rule c_safe_make [OF keeps_made [OF assms]]) simp

lemma c_safe_from_json: "makes_handle H n (bison_from_json env text)"
  by (cases "text") (auto simp: bison_from_json_def makes_none intro: c_safe_make [OF keeps_from_trees])

lemma c_safe_from_yaml: "makes_handle H n (bison_from_yaml env text)"
  by (cases "text") (auto simp: bison_from_yaml_def makes_none intro: c_safe_make [OF keeps_from_trees])

lemma c_safe_new_some:
  assumes "a \<in> A"
  shows "c_safe (given A H n) (bindC (new_handle a) (\<lambda>h. retC (Some h)))
    (handed H n)"
  by (rule c_safe_bind [OF c_safe_new [OF assms]]) (auto simp: given_def holding_def handed_def intro!: c_safe_ret)

lemma c_safe_add_ref:
  assumes "live H h"
  shows "makes_handle H n (bison_add_ref h)"
proof (cases h)
  case None
  then show ?thesis by (simp add: bison_add_ref_def makes_none)
next
  case (Some i)
  have "H i \<noteq> None" using assms by (simp add: Some)
  then show ?thesis unfolding Some bison_add_ref_def option.case
    by (rule c_safe_bind [OF c_safe_deref]) (rule c_safe_pure, rule c_safe_new_some, simp)
qed

lemma c_safe_clone:
  assumes "live H h"
  shows "makes_handle H n (bison_clone h)"
proof (cases h)
  case None
  then show ?thesis by (simp add: bison_clone_def makes_none)
next
  case (Some i)
  have "H i \<noteq> None" using assms by (simp add: Some)
  then show ?thesis unfolding Some bison_clone_def option.case
    by (rule c_safe_bind [OF c_safe_deref]) (rule c_safe_pure, rule c_safe_make [OF keeps_clone_ptr], simp)
qed

lemma c_safe_release:
  assumes "live H h"
  shows "c_safe (given {} H n) (bison_release h) (\<lambda>_ st. \<forall>j. Some j \<noteq> h \<longrightarrow> handles st j = H j)"
proof (cases h)
  case None
  then show ?thesis by (auto simp: bison_release_def given_def intro!: c_safe_ret)
next
  case (Some i)
  have "H i \<noteq> None" using assms by (simp add: Some)
  show ?thesis unfolding Some bison_release_def option.case
    by (rule c_safe_weaken [OF c_safe_delete [where H = H and A = "{}" and n = n, OF \<open>H i \<noteq> None\<close>]]) (auto simp: given_def)
qed

lemma registered_allocated:
  assumes "c_ok st" and "registered_class ns klass (objects st) = Some p"
  shows "p < length (heap (objects st))"
  using assms unfolding c_ok_def store_ok_def registry_ok_def registered_class_def
  by (fastforce split: option.splits dest: map_of_SomeD)

lemma c_safe_find_class: "makes_handle H n (bison_find_class ns klass)"
proof (rule c_safeI)
  fix st assume st: "c_ok st" "given {} H n st"
  let ?p = "registered_class ns klass (objects st)"
  show "bison_find_class ns klass st \<noteq> Undefined"
    by (simp add: bison_find_class_def bindC_def new_handle_def retC_def split: option.split)
  fix h st' assume run: "bison_find_class ns klass st = Returns h st'"
  show "c_ok st' \<and> handed H n h st'"
  proof (cases ?p)
    case None
    then show ?thesis using run st by (auto simp: bison_find_class_def handed_def dest: given_holding)
  next
    case (Some p)
    have "given {p} H n st" using st registered_allocated [OF st(1) Some] by (simp add: given_def)
    from c_safeD(2) [OF c_safe_new_some [OF singletonI] st(1) this, of h st'] run
    show ?thesis by (simp add: bison_find_class_def Some)
  qed
qed

lemma c_safe_clear_registry: "keeps_handles H n bison_clear_registry"
  by (rule c_safeI) (auto simp: bison_clear_registry_def c_ok_def store_ok_def registry_ok_def given_def holding_def)

lemma c_safe_object_calls:
  assumes "live H h"
  shows "keeps_handles H n (bison_to_json env h indent out)"
    and "keeps_handles H n (bison_to_yaml env h out)"
    and "keeps_handles H n (bison_print env h opts out)"
    and "keeps_handles H n (bison_serialize env h out)"
    and "keeps_handles H n (bison_add_class ns h parent meta)"
    and "keeps_handles H n (bison_add_method h name fn meta)"
  unfolding bison_to_json_def bison_to_yaml_def bison_print_def bison_serialize_def bison_add_class_def bison_add_method_def
  by (auto split: option.split intro!: c_safe_object_call [OF assms] keeps_dump_then keeps_reading keeps_add_class_attrs
      keeps_add_method keeps_bind [OF keeps_dump] keeps_ret)

lemma c_safe_attributes:
  assumes "live H h"
  shows "keeps_handles H n (bison_get_field_attributes h k out)"
    and "keeps_handles H n (bison_get_method_attributes h k out)"
  unfolding bison_get_field_attributes_def bison_get_method_attributes_def
  by (auto intro!: c_safe_object_call [OF assms] keeps_bind [OF keeps_find_field] keeps_bind [OF keeps_find_method]
      keeps_reading keeps_ret)

lemma c_safe_class_attributes: "keeps_handles H n (bison_get_class_attributes ns klass out)"
proof (rule c_safeI)
  fix st assume st: "c_ok st" "given {} H n st"
  let ?m = "\<lambda>p. bindC (on_objects (bindA (find_field p CLASS) (\<lambda>hit s.
      (Inr (if hit then fill_attrs (field_attrs s p CLASS) else no_attributes), s)))) (\<lambda>r. retC (any_error r))"
  have m: "c_safe (given {p} H n) (?m p) (\<lambda>_. holding H n)" for p
    by (rule c_safe_bind [OF c_safe_objects, of "{p}"])
       (auto intro!: keeps_bind [OF keeps_find_field] keeps_reading c_safe_ret given_holding)
  have p: "given {p} H n st" if "registered_class ns klass (objects st) = Some p" for p
    using st registered_allocated [OF st(1) that] by (simp add: given_def)
  show "bison_get_class_attributes ns klass out st \<noteq> Undefined"
    using c_safeD(1) [OF m st(1) p] by (auto simp: bison_get_class_attributes_def split: option.split)
  fix x st' assume run: "bison_get_class_attributes ns klass out st = Returns x st'"
  show "c_ok st' \<and> holding H n st'"
    using run st given_holding c_safeD(2) [OF m st(1) p, of _ x st']
    by (auto simp: bison_get_class_attributes_def split: if_splits option.splits)
qed

subsection \<open>Fields\<close>

definition array_given :: "'a list option \<Rightarrow> nat \<Rightarrow> bool" where
  "array_given values count \<longleftrightarrow> values = None \<or> count \<le> length (the values)"

lemma meta_field_base: "f_base (meta_field v meta) = v"
proof -
  have "f_base (fold add_attribute as f) = f_base f" for as and f :: "addr field"
    by (induction as arbitrary: f) (simp_all add: add_attribute_def)
  then show ?thesis by (simp add: meta_field_def plain_field_def)
qed

lemma c_safe_add_field_impl:
  assumes "live H h" and "ptrs_of v = {}"
  shows "keeps_handles H n (add_field_impl h k (meta_field v meta))"
  unfolding add_field_impl_def
proof (rule c_safe_object_call [OF assms(1)])
  show "keeps {a} (add_field a k (meta_field v meta)) (\<lambda>_. {})" for a
    using keeps_add_field [of a "meta_field v meta" k] by (simp add: meta_field_base assms(2))
qed

lemma c_safe_add_field_vector:
  assumes "live H h" and "array_given values count" and "\<And>xs. ptrs_of (mk xs) = {}"
  shows "keeps_handles H n (with_array values count (\<lambda>xs. add_field_impl h k (meta_field (mk xs) meta)))"
  using assms by (intro c_safe_with_array c_safe_add_field_impl) (auto simp: array_given_def dest: given_holding)

lemma c_safe_set_value:
  assumes "live H h"
  shows "c_safe (given (ptrs_of v) H n) (set_value h name v) (\<lambda>_. holding H n)"
proof (cases h)
  case None
  then show ?thesis by (auto simp: set_value_def object_call_def with_handle_def intro!: c_safe_ret dest: given_holding)
next
  case (Some i)
  then have "H i \<noteq> None" using assms by simp
  then show ?thesis unfolding Some set_value_def object_call_def with_handle_def option.case
    by (rule c_safe_bind [OF c_safe_deref])
       (rule c_safe_pure, rule c_safe_bind [OF c_safe_objects [OF keeps_assign_key order_refl]], rule c_safe_ret, rule given_holding)
qed

lemma c_safe_set_plain:
  assumes "live H h" and "ptrs_of v = {}"
  shows "keeps_handles H n (set_value h name v)"
  using c_safe_set_value [OF assms(1), of v n name] by (simp add: assms(2))

lemma c_safe_set_object:
  assumes "live H h" and "live H child"
  shows "keeps_handles H n (bison_set_object h name child)"
proof (cases child)
  case None
  then show ?thesis
    using assms(1) by (auto simp: bison_set_object_def split: option.split intro!: c_safe_set_plain simp: ptrs_of_def)
next
  case (Some c)
  then have c: "H c \<noteq> None" using assms(2) by simp
  have "keeps_handles H n (bindC (deref c) (\<lambda>q. set_value h name (PtrV (Some q))))"
  proof (rule c_safe_bind [OF c_safe_deref [where H = H, OF c]], rule c_safe_pure)
    fix q
    show "c_safe (given {q} H n) (set_value h name (PtrV (Some q))) (\<lambda>_. holding H n)"
      using c_safe_set_value [OF assms(1), of "PtrV (Some q)" n name] by (simp add: ptrs_of_def)
  qed
  then show ?thesis by (auto simp: bison_set_object_def Some split: option.split)
qed

lemma c_safe_set_vector:
  assumes "live H h" and "array_given values count" and "\<And>xs. ptrs_of (mk xs) = {}"
  shows "keeps_handles H n (set_vector h name values count mk)"
  unfolding set_vector_def using assms
  by (cases h) (auto simp: array_given_def intro!: c_safe_with_array c_safe_set_plain dest: given_holding)

lemmas no_pointers = ptrs_of_def field_base.case option.case

lemma c_safe_setters:
  assumes "live H h"
  shows "keeps_handles H n (bison_set_int h name w)"
    and "keeps_handles H n (bison_set_float h name w)"
    and "keeps_handles H n (bison_set_bool h name w)"
    and "keeps_handles H n (bison_set_string h name t)"
    and "keeps_handles H n (bison_set_key h name w)"
  unfolding bison_set_int_def bison_set_float_def bison_set_bool_def bison_set_string_def bison_set_key_def
  by (auto simp: ptrs_of_def split: option.split intro!: c_safe_set_plain [OF assms])

lemma c_safe_vector_setters:
  assumes "live H h"
  shows "array_given bs count \<Longrightarrow> keeps_handles H n (bison_set_vector_bool h name bs count)"
    and "array_given ws count \<Longrightarrow> keeps_handles H n (bison_set_vector_int h name ws count)"
    and "array_given fs count \<Longrightarrow> keeps_handles H n (bison_set_vector_float h name fs count)"
    and "array_given us count \<Longrightarrow> keeps_handles H n (bison_set_vector_bytes h name us count)"
  unfolding bison_set_vector_bool_def bison_set_vector_int_def bison_set_vector_float_def bison_set_vector_bytes_def
  by (auto simp: ptrs_of_def intro!: c_safe_set_vector [OF assms])

lemma c_safe_field_adders:
  assumes "live H h"
  shows "keeps_handles H n (bison_add_field_int h name w meta)"
    and "keeps_handles H n (bison_add_field_float h name w meta)"
    and "keeps_handles H n (bison_add_field_bool h name w meta)"
    and "keeps_handles H n (bison_add_field_string h name t meta)"
    and "keeps_handles H n (bison_add_field_key h name w meta)"
  unfolding bison_add_field_int_def bison_add_field_float_def bison_add_field_bool_def bison_add_field_string_def
    bison_add_field_key_def
  by (auto simp: ptrs_of_def split: option.split intro!: c_safe_add_field_impl [OF assms])

lemma c_safe_vector_adders:
  assumes "live H h"
  shows "array_given bs count \<Longrightarrow> keeps_handles H n (bison_add_field_vector_bool h name bs count meta)"
    and "array_given ws count \<Longrightarrow> keeps_handles H n (bison_add_field_vector_int h name ws count meta)"
    and "array_given fs count \<Longrightarrow> keeps_handles H n (bison_add_field_vector_float h name fs count meta)"
    and "array_given us count \<Longrightarrow> keeps_handles H n (bison_add_field_vector_bytes h name us count meta)"
  unfolding bison_add_field_vector_bool_def bison_add_field_vector_int_def bison_add_field_vector_float_def
    bison_add_field_vector_bytes_def
  by (auto simp: ptrs_of_def intro!: c_safe_add_field_vector [OF assms])

subsection \<open>Getters\<close>

text \<open>A value that was read has the type asked for, and its object is allocated.\<close>

definition got :: "ftype \<Rightarrow> (nat \<Rightarrow> addr option) \<Rightarrow> nat \<Rightarrow> addr field_base c_result \<Rightarrow> c_state \<Rightarrow> bool" where
  "got T H n r st \<longleftrightarrow> given {} H n st \<and>
     (case r of Inl _ \<Rightarrow> True | Inr v \<Rightarrow> type_of v = T \<and> given (ptrs_of v) H n st)"

lemma c_safe_get_value:
  assumes "live H h"
  shows "c_safe (given {} H n) (get_value h name T) (got T H n)"
proof (cases h)
  case None
  then show ?thesis by (auto simp: get_value_def object_call_def with_handle_def got_def intro!: c_safe_ret)
next
  case (Some i)
  then have i: "H i \<noteq> None" using assms by simp
  show ?thesis unfolding Some get_value_def object_call_def with_handle_def option.case
  proof (rule c_safe_bind [OF c_safe_deref [where H = H, OF i]], rule c_safe_pure)
    fix a
    have t: "(\<forall>v. r = Inr v \<longrightarrow> type_of v = T)" if "read_as a name T s = (r, s')" for r s s'
      using read_as_type that by blast
    show "c_safe (given {a} H n) (bindC (on_objects (read_as a name T)) (\<lambda>r. retC (type_error r))) (got T H n)"
      by (rule c_safe_bind [OF c_safe_on [OF keeps_read_as order_refl t]])
         (auto intro!: c_safe_ret simp: got_def type_error_def given_def split: sum.splits)
  qed
qed

lemma c_safe_then_return:
  assumes "c_safe P m R" and "\<And>x. c_safe (R (Inr x)) (f x) Q" and "\<And>e st. R (Inl e) st \<Longrightarrow> Q (Inl e) st"
  shows "c_safe P (then_return m f) Q"
  unfolding then_return_def
proof (rule c_safe_bind [OF assms(1)])
  show "c_safe (R r) (case r of Inl e \<Rightarrow> retC (Inl e) | Inr x \<Rightarrow> f x) Q" for r
    using assms(2,3) by (cases r) (auto intro: c_safe_ret)
qed

lemma got_holding: "got T H n r st \<Longrightarrow> holding H n st"
  by (auto simp: got_def dest: given_holding)

lemma got_type: "got T H n (Inr v) st \<Longrightarrow> type_of v = T"
  by (simp add: got_def)

lemma c_safe_read:
  assumes "live H h" and "\<And>v. type_of v = T \<Longrightarrow> c_safe (given (ptrs_of v) H n) (f v) (\<lambda>_. holding H n)"
  shows "keeps_handles H n (then_return (get_value h name T) f)"
proof (rule c_safe_then_return [OF c_safe_get_value [OF assms(1)]])
  fix v
  have "c_safe (\<lambda>st. type_of v = T \<and> given (ptrs_of v) H n st) (f v) (\<lambda>_. holding H n)"
    by (rule c_safe_pure) (rule assms(2))
  then show "c_safe (got T H n (Inr v)) (f v) (\<lambda>_. holding H n)"
    by (rule c_safe_weaken) (auto simp: got_def)
qed (rule got_holding)

lemma c_safe_when_out: "keeps_handles H n m \<Longrightarrow> keeps_handles H n (when_out out m)"
  by (simp add: when_out_def)

lemma c_safe_hold: "c_safe (given A H n) (retC x) (\<lambda>_. holding H n)"
  by (rule c_safe_ret) (rule given_holding)

lemma c_safe_getters:
  assumes "live H h"
  shows "keeps_handles H n (bison_get_int h name out)"
    and "keeps_handles H n (bison_get_float h name out)"
    and "keeps_handles H n (bison_get_bool h name out)"
    and "keeps_handles H n (bison_get_key h name out)"
  unfolding bison_get_int_def bison_get_float_def bison_get_bool_def bison_get_key_def
  by (rule c_safe_when_out [OF c_safe_read [OF assms]]; auto split: field_base.splits intro: c_safe_hold)+

lemma c_safe_copy_hold:
  assumes "array_given buf len"
  shows "c_safe (given A H n) (bindC (copy_out xs buf len) (\<lambda>b. retC (f b))) (\<lambda>_. holding H n)"
  using assms by (intro c_safe_bind [OF c_safe_copy_out] c_safe_hold) (simp add: array_given_def)

lemma c_safe_get_string:
  assumes "live H h" and "array_given buf buf_len"
  shows "keeps_handles H n (bison_get_string h name buf buf_len)"
  unfolding bison_get_string_def
  by (rule c_safe_read [OF assms(1)])
     (use assms(2) in \<open>auto split: field_base.splits intro: c_safe_hold c_safe_copy_hold\<close>)

lemma c_safe_vector_getters:
  assumes "live H h"
  shows "array_given bs len \<Longrightarrow> keeps_handles H n (bison_get_vector_bool h name bs len)"
    and "array_given ws len \<Longrightarrow> keeps_handles H n (bison_get_vector_int h name ws len)"
    and "array_given fs len \<Longrightarrow> keeps_handles H n (bison_get_vector_float h name fs len)"
    and "array_given us len \<Longrightarrow> keeps_handles H n (bison_get_vector_bytes h name us len)"
  unfolding bison_get_vector_bool_def bison_get_vector_int_def bison_get_vector_float_def bison_get_vector_bytes_def
  by (rule c_safe_read [OF assms]; auto split: field_base.splits intro: c_safe_copy_hold)+

lemma c_safe_get_object:
  assumes "live H h"
  shows "keeps_handles H n (bison_get_object h name out)"
  unfolding bison_get_object_def
proof (rule c_safe_when_out [OF c_safe_read [OF assms]])
  fix v :: "addr field_base" assume "type_of v = TPtr"
  then obtain p where v: "v = PtrV p" by (cases v) auto
  have new: "c_safe (given {q} H n) (bindC (new_handle q) (\<lambda>h'. retC (Inr (Some h') :: handle c_result))) (\<lambda>_. holding H n)" for q
    by (rule c_safe_bind [OF c_safe_new]) (auto intro!: c_safe_ret dest: given_fresh_holding)
  show "c_safe (given (ptrs_of v) H n) (case v of PtrV None \<Rightarrow> retC (Inr None :: handle c_result)
       | PtrV (Some q) \<Rightarrow> bindC (new_handle q) (\<lambda>h'. retC (Inr (Some h'))) | _ \<Rightarrow> undefinedC) (\<lambda>_. holding H n)"
    by (cases p) (auto simp: v ptrs_of_def intro: c_safe_hold new)
qed

lemma c_safe_size: "live H h \<Longrightarrow> keeps_handles H n (bison_size h)"
  by (auto simp: bison_size_def bindC_def deref_def given_def holding_def live_def split: option.splits
      intro!: c_safeI c_safe_hold)

lemma c_safe_deserialize:
  assumes "array_given data len"
  shows "keeps_handles H n (bison_deserialize env data len out)"
proof -
  let ?m = "\<lambda>bytes. from_trees (\<lambda>s. case dynamic_deserialize buffer_deserializer (registry_view env s) bytes of
      Inl e \<Rightarrow> Inl e | Inr (m, _) \<Rightarrow> Inr m)"
  have new: "c_safe (given {a} H n) (bindC (new_handle a) (\<lambda>h. retC (Inr h :: nat c_result))) (\<lambda>_. holding H n)" for a
    by (rule c_safe_bind [OF c_safe_new]) (auto intro!: c_safe_ret dest: given_fresh_holding)
  have "keeps_handles H n (bindC (on_objects (?m bytes)) (\<lambda>r. case r of
      Inl _ \<Rightarrow> retC (Inl ERR_PARSE) | Inr a \<Rightarrow> bindC (new_handle a) (\<lambda>h. retC (Inr h))))" for bytes
    by (rule c_safe_bind [OF c_safe_objects [OF keeps_from_trees order_refl]]) (auto split: sum.split intro: new c_safe_hold)
  then show ?thesis using assms
    by (auto simp: bison_deserialize_def array_given_def intro!: c_safe_with_array dest: given_holding)
qed

subsection \<open>Calls\<close>

text \<open>
  What the interface asks of a callback: given three live handles, the last to a result object nobody
  else refers to, it stays within the interface, leaves the handles it was given and those of others
  in place, and keeps no reference to the result.
\<close>

definition behaved :: "c_env \<Rightarrow> bool" where
  "behaved env \<longleftrightarrow> (\<forall>i. keeps {} (factories env i) option_set) \<and>
     (\<forall>fn h1 h2 h3 r H n. H h1 \<noteq> None \<longrightarrow> H h2 \<noteq> None \<longrightarrow> H h3 = Some r \<longrightarrow>
        c_safe (\<lambda>st. given {} H n st \<and> \<not> kept_elsewhere h3 r st) (callback env fn h1 h2 h3)
          (\<lambda>_ st. holding H n st \<and> \<not> kept_elsewhere h3 r st))"

lemma not_kept_new:
  assumes "c_ok st" and "on_objects (new_dynamic 0 []) st = Returns (Inr r) st1" and "new_handle r st1 = Returns h st2"
  shows "\<not> kept_elsewhere h r st2"
proof -
  have 1: "r = length (heap (objects st))" "handles st1 = handles st" "next_handle st1 = next_handle st"
      "heap (objects st1) = heap (objects st) @ [blank_obj [(CLASS, plain_field (KeyV 0))]]"
      "registry (objects st1) = registry (objects st)"
    using assms(2) by (auto simp: on_objects_def new_dynamic_def construct_def alloc_def field_assign_def field_is_def
        plain_field_def blank_obj_def split: sum.splits exc.splits)
  have 2: "h = next_handle st" "handles st2 = (handles st)(h \<mapsto> r)" "next_handle st2 = Suc (next_handle st)"
      "objects st2 = objects st1"
    using assms(3) 1 by (auto simp: new_handle_def)
  have "ptr_ok r f" if "(k, f) \<in> set (o_fields ob)" "ob \<in> set (heap (objects st))" for k f ob
    using assms(1) that by (auto simp: c_ok_def store_ok_def obj_ok_def 1(1))
  then have fields: "f_base f \<noteq> PtrV (Some r)" if "(k, f) \<in> set (o_fields ob)" "ob \<in> set (heap (objects st))" for k f ob
    using that by (fastforce simp: ptr_ok_def)
  have "p < r" if "(k, p) \<in> set col" "(ns, col) \<in> set (registry (objects st))" for ns col k p
    using assms(1) that by (fastforce simp: c_ok_def store_ok_def registry_ok_def 1(1))
  moreover have "handles st h' \<noteq> Some r" for h'
    using assms(1) by (auto simp: c_ok_def 1(1))
  ultimately show ?thesis using fields
    by (fastforce simp: kept_elsewhere_def list_ex_iff 1(4,5) 2 blank_obj_def plain_field_def)
qed

lemma c_safe_move_result:
  assumes "H h = Some r"
  shows "c_safe (\<lambda>st. holding H n st \<and> \<not> kept_elsewhere h r st \<and> h < n) (move_result h r)
    (\<lambda>b st. holding H n st \<and> b < length (heap (objects st)))"
proof (rule c_safeI)
  fix st assume st: "c_ok st" "holding H n st \<and> \<not> kept_elsewhere h r st \<and> h < n"
  let ?ob = "(obj_at (objects st) r)\<lparr>o_lookup := \<lambda>_. None\<rparr>"
  let ?s = "objects st"
  let ?s1 = "?s\<lparr>heap := heap ?s @ [?ob]\<rparr>"
  have r: "r < length (heap ?s)" using st assms by (auto simp: c_ok_def holding_def)
  have s: "store_ok ?s" using st(1) by (simp add: c_ok_def)
  have ob: "obj_ok (length (heap ?s)) ?ob"
    using store_okD [OF s r] by (auto simp: obj_ok_def cache_ok_def)
  have s1: "store_ok ?s1"
    using s ob by (auto simp: store_ok_def intro: obj_ok_mono registry_ok_mono)
  have "store_ok (update_obj r (\<lambda>_. blank_obj []) ?s1)"
    by (rule store_ok_update [OF s1]) (use r in \<open>auto simp: obj_ok_def cache_ok_def blank_obj_def\<close>)
  moreover have run: "move_result h r st =
      Returns (length (heap ?s)) (st\<lparr>objects := update_obj r (\<lambda>_. blank_obj []) ?s1\<rparr>)"
    using st(2) by (simp add: move_result_def bindC_def on_objects_def alloc_def)
  ultimately show "move_result h r st \<noteq> Undefined"
    and "move_result h r st = Returns b st' \<Longrightarrow> c_ok st' \<and> holding H n st' \<and> b < length (heap (objects st'))" for b st'
    using st by (auto simp: c_ok_def holding_def less_Suc_eq)
qed

lemma given_mono: "given A H n st \<Longrightarrow> B \<subseteq> A \<Longrightarrow> given B H n st"
  by (auto simp: given_def valid_def)

lemma holding_trans: "holding H n st \<Longrightarrow> holding (handles st) (next_handle st) st' \<Longrightarrow> holding H n st'"
  by (auto simp: holding_def)

lemma holding_upd: "holding (H(n \<mapsto> a)) (Suc n) st \<Longrightarrow> holding H n st"
  by (auto simp: holding_def)

text \<open>The three temporary handles, and the object the callback filled.\<close>

lemma c_safe_callback_part:
  assumes b: "behaved env" and H: "H = H0(n \<mapsto> self, Suc n \<mapsto> p, Suc (Suc n) \<mapsto> r)"
  shows "c_safe (\<lambda>st. given {} H (Suc (Suc (Suc n))) st \<and> \<not> kept_elsewhere (Suc (Suc n)) r st)
     (bindC (callback env fn n (Suc n) (Suc (Suc n))) (\<lambda>_.
      bindC (move_result (Suc (Suc n)) r) (\<lambda>moved.
      bindC (delete_handle n) (\<lambda>_.
      bindC (delete_handle (Suc n)) (\<lambda>_.
      bindC (delete_handle (Suc (Suc n))) (\<lambda>_.
      retC (Inr moved :: addr result)))))))
     (\<lambda>res st. holding H0 n st \<and> (\<forall>b. res = Inr b \<longrightarrow> b < length (heap (objects st))))"
proof -
  let ?h1 = n and ?h2 = "Suc n" and ?h3 = "Suc (Suc n)" and ?n = "Suc (Suc (Suc n))"
  have cb: "c_safe (\<lambda>st. given {} H ?n st \<and> \<not> kept_elsewhere ?h3 r st) (callback env fn ?h1 ?h2 ?h3)
      (\<lambda>_ st. holding H ?n st \<and> \<not> kept_elsewhere ?h3 r st)"
    using b by (simp add: behaved_def H)
  have mv: "c_safe (\<lambda>st. holding H ?n st \<and> \<not> kept_elsewhere ?h3 r st) (move_result ?h3 r)
      (\<lambda>b st. holding H ?n st \<and> b < length (heap (objects st)))"
    by (rule c_safe_weaken [OF c_safe_move_result [of H ?h3 r ?n]]) (auto simp: H)
  have del: "c_safe (\<lambda>st. holding H ?n st \<and> b < length (heap (objects st)))
     (bindC (delete_handle ?h1) (\<lambda>_. bindC (delete_handle ?h2) (\<lambda>_. bindC (delete_handle ?h3) (\<lambda>_. retC (Inr b :: addr result)))))
     (\<lambda>res st. holding H0 n st \<and> (\<forall>b. res = Inr b \<longrightarrow> b < length (heap (objects st))))" for b
  proof (rule c_safeI)
    fix st assume st: "c_ok st" "holding H ?n st \<and> b < length (heap (objects st))"
    let ?m = "bindC (delete_handle ?h1) (\<lambda>_. bindC (delete_handle ?h2) (\<lambda>_. bindC (delete_handle ?h3) (\<lambda>_. retC (Inr b :: addr result))))"
    have h: "handles st ?h1 = Some self" "handles st ?h2 = Some p" "handles st ?h3 = Some r"
      using st(2) by (auto simp: holding_def H)
    have run: "?m st = Returns (Inr b) (st\<lparr>handles := (handles st)(?h1 := None, ?h2 := None, ?h3 := None)\<rparr>)"
      by (simp add: delete_handle_def bindC_def deref_def h retC_def)
    have below: "handles st j = H0 j" if "j < n" for j using st(2) that by (simp add: holding_def H)
    then show "?m st \<noteq> Undefined" "?m st = Returns res st' \<Longrightarrow>
        c_ok st' \<and> holding H0 n st' \<and> (\<forall>b. res = Inr b \<longrightarrow> b < length (heap (objects st')))" for res st'
      using st by (auto simp: run c_ok_def holding_def split: if_splits)
  qed
  show ?thesis by (rule c_safe_bind [OF cb], rule c_safe_bind [OF mv], rule del)
qed

lemma c_safe_fresh_result:
  assumes "\<And>r. c_safe (\<lambda>st. given {} (H(m \<mapsto> r)) (Suc m) st \<and> \<not> kept_elsewhere m r st) (g r m) Q"
    and "\<And>e st. given A H m st \<Longrightarrow> Q (Inl e) st"
  shows "c_safe (given A H m) (bindC (on_objects (new_dynamic 0 [])) (\<lambda>q. case q of
      Inl e \<Rightarrow> retC (Inl e) | Inr r \<Rightarrow> bindC (new_handle r) (g r))) Q"
proof -
  let ?c = "bindC (on_objects (new_dynamic 0 [])) (\<lambda>q. case q of
      Inl e \<Rightarrow> retC (Inl e) | Inr r \<Rightarrow> bindC (new_handle r) (g r))"
  have main: "?c st \<noteq> Undefined \<and> (\<forall>x st'. ?c st = Returns x st' \<longrightarrow> c_ok st' \<and> Q x st')"
    if st: "c_ok st" "given A H m st" for st
  proof -
    obtain r st1 where 1: "on_objects (new_dynamic 0 []) st = Returns (Inr r) st1"
      by (auto simp: on_objects_def new_dynamic_def construct_def alloc_def field_assign_def field_is_def plain_field_def)
    have st1: "c_ok st1" "given (insert r A) H m st1"
      using c_safeD(2) [OF c_safe_objects [OF keeps_new_dynamic [of A 0] order_refl] st 1] by simp_all
    obtain h st2 where 2: "new_handle r st1 = Returns h st2" by (simp add: new_handle_def)
    have st2: "h = m" "c_ok st2" "given {} (H(m \<mapsto> r)) (Suc m) st2"
      using c_safeD(2) [OF c_safe_new [of r "insert r A"] st1 2] by (auto dest: given_mono)
    have k: "\<not> kept_elsewhere m r st2" using not_kept_new [OF st(1) 1 2] st2(1) by simp
    have eq: "?c st = g r m st2" by (simp add: bindC_def 1 2 st2(1))
    note g = c_safeD [OF assms(1) st2(2) conjI [OF st2(3) k]]
    show ?thesis unfolding eq using g by blast
  qed
  show ?thesis by (rule c_safeI) (use main in blast)+
qed

lemma c_safe_run_callback:
  assumes "behaved env"
  shows "c_safe (given {self, p} H n) (run_callback env fn self p)
     (\<lambda>res st. holding H n st \<and> (\<forall>b. res = Inr b \<longrightarrow> b < length (heap (objects st))))"
  unfolding run_callback_def
proof (rule c_safe_bind [OF c_safe_new], simp, rule c_safe_given_pure, simp)
  let ?Q = "\<lambda>(res :: addr result) st. holding H n st \<and> (\<forall>b. res = Inr b \<longrightarrow> b < length (heap (objects st)))"
  let ?rest = "\<lambda>q. case q of Inl e \<Rightarrow> retC (Inl e) | Inr params_copy \<Rightarrow>
      bindC (new_handle params_copy) (\<lambda>param_h.
      bindC (on_objects (new_dynamic 0 [])) (\<lambda>q. case q of Inl e \<Rightarrow> retC (Inl e)
       | Inr result_dyn \<Rightarrow> bindC (new_handle result_dyn) (\<lambda>res_h.
          bindC (callback env fn n param_h res_h) (\<lambda>_.
          bindC (move_result res_h result_dyn) (\<lambda>moved.
          bindC (delete_handle n) (\<lambda>_. bindC (delete_handle param_h) (\<lambda>_. bindC (delete_handle res_h) (\<lambda>_.
          retC (Inr moved)))))))))"
  have cl: "c_safe (given {self, p} (H(n \<mapsto> self)) (Suc n)) (on_objects (clone_ptr p))
      (\<lambda>r. given ({self, p} \<union> result_set (\<lambda>b. {b}) r) (H(n \<mapsto> self)) (Suc n))"
    by (rule c_safe_objects [OF keeps_clone_ptr]) simp
  show "c_safe (given {self, p} (H(n \<mapsto> self)) (Suc n)) (bindC (on_objects (clone_ptr p)) ?rest) ?Q"
  proof (rule c_safe_bind [OF cl])
    fix q :: "addr result"
    show "c_safe (given ({self, p} \<union> result_set (\<lambda>b. {b}) q) (H(n \<mapsto> self)) (Suc n)) (?rest q) ?Q"
    proof (cases q)
      case (Inl e)
      then show ?thesis by (auto intro!: c_safe_ret dest: given_fresh_holding)
    next
      case (Inr pc)
      show ?thesis unfolding Inr sum.case
      proof (rule c_safe_bind [OF c_safe_new], simp, rule c_safe_given_pure)
        fix ph assume ph: "ph = Suc n"
        show "c_safe (given ({self, p} \<union> {pc}) (H(n \<mapsto> self, Suc n \<mapsto> pc)) (Suc (Suc n)))
          (bindC (on_objects (new_dynamic 0 [])) (\<lambda>q. case q of Inl e \<Rightarrow> retC (Inl e)
           | Inr result_dyn \<Rightarrow> bindC (new_handle result_dyn) (\<lambda>res_h.
              bindC (callback env fn n ph res_h) (\<lambda>_.
              bindC (move_result res_h result_dyn) (\<lambda>moved.
              bindC (delete_handle n) (\<lambda>_. bindC (delete_handle ph) (\<lambda>_. bindC (delete_handle res_h) (\<lambda>_.
              retC (Inr moved))))))))) ?Q"
          unfolding ph
          by (rule c_safe_fresh_result, rule c_safe_callback_part [OF assms]) (auto simp: given_def holding_def)
      qed
    qed
  qed
qed

lemma c_safe_call:
  assumes b: "behaved env" and "live H h" and "live H params"
  shows "keeps_handles H n (bison_call env h name params out)"
proof (cases "h = None \<or> params = None \<or> \<not> out")
  case True
  then show ?thesis by (simp add: bison_call_def)
next
  case False
  then obtain i j where ij: "h = Some i" "params = Some j" by auto
  have hi: "H i \<noteq> None" and hj: "H j \<noteq> None" using assms(2,3) by (simp_all add: ij)
  have new: "c_safe (\<lambda>st. holding H n st \<and> b < length (heap (objects st)))
      (bindC (new_handle b) (\<lambda>h'. retC (Inr h' :: nat c_result))) (\<lambda>_. holding H n)" for b
    by (rule c_safeI) (auto simp: bindC_def new_handle_def retC_def c_ok_def holding_def less_Suc_eq split: if_splits)
  have part: "c_safe (given {self, args} H n) (bindC (on_objects (resolve_call self name args)) (\<lambda>r. case r of
          Inl e \<Rightarrow> retC (Inl (call_error e))
        | Inr (m, p) \<Rightarrow>
            bindC (run_callback env (m_fn m) self p) (\<lambda>res. case res of
              Inl e \<Rightarrow> retC (Inl (call_error e))
            | Inr b \<Rightarrow> bindC (new_handle b) (\<lambda>h'. retC (Inr h'))))) (\<lambda>_. holding H n)" for self args
  proof (rule c_safe_bind [OF c_safe_objects [OF keeps_resolve_call order_refl]])
    fix r :: "(meth \<times> addr) result"
    have run: "c_safe (given {self, p} H n) (bindC (run_callback env (m_fn m) self p) (\<lambda>res. case res of
              Inl e \<Rightarrow> retC (Inl (call_error e))
            | Inr b \<Rightarrow> bindC (new_handle b) (\<lambda>h'. retC (Inr h')))) (\<lambda>_. holding H n)" for m p
    proof (rule c_safe_bind [OF c_safe_run_callback [OF b]])
      fix res :: "addr result"
      show "c_safe (\<lambda>st. holding H n st \<and> (\<forall>b. res = Inr b \<longrightarrow> b < length (heap (objects st))))
         (case res of Inl e \<Rightarrow> retC (Inl (call_error e)) | Inr b \<Rightarrow> bindC (new_handle b) (\<lambda>h'. retC (Inr h'))) (\<lambda>_. holding H n)"
        by (cases res) (auto intro: c_safe_ret new)
    qed
    show "c_safe (given ({self, args} \<union> result_set (\<lambda>(m, p). {p}) r) H n) (case r of
          Inl e \<Rightarrow> retC (Inl (call_error e))
        | Inr (m, p) \<Rightarrow>
            bindC (run_callback env (m_fn m) self p) (\<lambda>res. case res of
              Inl e \<Rightarrow> retC (Inl (call_error e))
            | Inr b \<Rightarrow> bindC (new_handle b) (\<lambda>h'. retC (Inr h')))) (\<lambda>_. holding H n)"
    proof (cases r)
      case (Inl e)
      then show ?thesis by (simp add: c_safe_hold)
    next
      case (Inr mp)
      obtain m p where mp: "mp = (m, p)" by fastforce
      show ?thesis unfolding Inr mp sum.case prod.case
        by (rule c_safe_weaken [OF run]) (auto elim!: given_mono)
    qed
  qed
  show ?thesis
    unfolding bison_call_def using False
    by (simp add: ij with_handle_def)
       (rule c_safe_bind [OF c_safe_deref [where H = H, OF hi]], rule c_safe_pure,
        rule c_safe_bind [OF c_safe_deref [where H = H, OF hj]], rule c_safe_pure,
        rule c_safe_weaken [OF part], auto elim!: given_mono)
qed

section \<open>Clients\<close>

definition discard :: "'a c_call \<Rightarrow> unit c_call" where
  "discard m = bindC m (\<lambda>_. retC ())"

text \<open>The calls of the interface with the handles they are given, and the handle a release takes away.\<close>

inductive c_operation :: "c_env \<Rightarrow> handle list \<Rightarrow> handle \<Rightarrow> unit c_call \<Rightarrow> bool" for env where
  "c_operation env [] None (discard (bison_create klass))"
| "c_operation env [] None (discard (bison_instantiate env ns klass))"
| "c_operation env [h] None (discard (bison_add_ref h))"
| "c_operation env [h] h (bison_release h)"
| "c_operation env [h] None (discard (bison_clone h))"
| "c_operation env [] None (discard (bison_from_json env t))"
| "c_operation env [] None (discard (bison_from_yaml env t))"
| "c_operation env [h] None (discard (bison_to_json env h indent out))"
| "c_operation env [h] None (discard (bison_to_yaml env h out))"
| "c_operation env [h] None (discard (bison_print env h opts out))"
| "c_operation env [h] None (discard (bison_add_class ns h parent meta))"
| "c_operation env [] None (discard (bison_find_class ns klass))"
| "c_operation env [] None bison_clear_registry"
| "c_operation env [] None (discard (bison_get_class_attributes ns klass out))"
| "c_operation env [h] None (discard (bison_get_field_attributes h name out))"
| "c_operation env [h] None (discard (bison_get_method_attributes h name out))"
| "c_operation env [h] None (discard (bison_add_field_int h name w meta))"
| "c_operation env [h] None (discard (bison_add_field_float h name w meta))"
| "c_operation env [h] None (discard (bison_add_field_bool h name w meta))"
| "c_operation env [h] None (discard (bison_add_field_string h name t meta))"
| "c_operation env [h] None (discard (bison_add_field_key h name w meta))"
| "array_given bs count \<Longrightarrow> c_operation env [h] None (discard (bison_add_field_vector_bool h name bs count meta))"
| "array_given ws count \<Longrightarrow> c_operation env [h] None (discard (bison_add_field_vector_int h name ws count meta))"
| "array_given fs count \<Longrightarrow> c_operation env [h] None (discard (bison_add_field_vector_float h name fs count meta))"
| "array_given us count \<Longrightarrow> c_operation env [h] None (discard (bison_add_field_vector_bytes h name us count meta))"
| "array_given bs len \<Longrightarrow> c_operation env [h] None (discard (bison_get_vector_bool h name bs len))"
| "array_given ws len \<Longrightarrow> c_operation env [h] None (discard (bison_get_vector_int h name ws len))"
| "array_given fs len \<Longrightarrow> c_operation env [h] None (discard (bison_get_vector_float h name fs len))"
| "array_given us len \<Longrightarrow> c_operation env [h] None (discard (bison_get_vector_bytes h name us len))"
| "array_given bs count \<Longrightarrow> c_operation env [h] None (discard (bison_set_vector_bool h name bs count))"
| "array_given ws count \<Longrightarrow> c_operation env [h] None (discard (bison_set_vector_int h name ws count))"
| "array_given fs count \<Longrightarrow> c_operation env [h] None (discard (bison_set_vector_float h name fs count))"
| "array_given us count \<Longrightarrow> c_operation env [h] None (discard (bison_set_vector_bytes h name us count))"
| "c_operation env [h] None (discard (bison_serialize env h out))"
| "array_given us len \<Longrightarrow> c_operation env [] None (discard (bison_deserialize env us len out))"
| "c_operation env [h] None (discard (bison_set_int h name w))"
| "c_operation env [h] None (discard (bison_set_float h name w))"
| "c_operation env [h] None (discard (bison_set_bool h name w))"
| "c_operation env [h] None (discard (bison_set_string h name t))"
| "c_operation env [h] None (discard (bison_set_key h name w))"
| "c_operation env [h, child] None (discard (bison_set_object h name child))"
| "c_operation env [h] None (discard (bison_set_int_at h i w))"
| "c_operation env [h] None (discard (bison_set_float_at h i w))"
| "c_operation env [h] None (discard (bison_set_string_at h i t))"
| "c_operation env [h] None (discard (bison_set_bool_at h i w))"
| "c_operation env [h] None (discard (bison_set_key_at h i w))"
| "c_operation env [h, child] None (discard (bison_set_object_at h i child))"
| "c_operation env [h] None (discard (bison_get_int h name out))"
| "c_operation env [h] None (discard (bison_get_float h name out))"
| "c_operation env [h] None (discard (bison_get_bool h name out))"
| "array_given buf len \<Longrightarrow> c_operation env [h] None (discard (bison_get_string h name buf len))"
| "c_operation env [h] None (discard (bison_get_key h name out))"
| "c_operation env [h] None (discard (bison_get_object h name out))"
| "c_operation env [h] None (discard (bison_get_int_at h i out))"
| "c_operation env [h] None (discard (bison_get_float_at h i out))"
| "array_given buf len \<Longrightarrow> c_operation env [h] None (discard (bison_get_string_at h i buf len))"
| "c_operation env [h] None (discard (bison_get_bool_at h i out))"
| "c_operation env [h] None (discard (bison_get_key_at h i out))"
| "c_operation env [h] None (discard (bison_get_object_at h i out))"
| "c_operation env [h] None (discard (bison_size h))"
| "c_operation env [h] None (discard (bison_add_method h name fn meta))"
| "c_operation env [h, params] None (discard (bison_call env h name params out))"

definition c_start :: c_state where
  "c_start = \<lparr> objects = empty_store, handles = (\<lambda>_. None), next_handle = 0 \<rparr>"

text \<open>A client passes handles it holds.\<close>

inductive c_reachable :: "c_env \<Rightarrow> c_state \<Rightarrow> bool" for env where
  start: "c_reachable env c_start"
| step: "c_reachable env st \<Longrightarrow> c_operation env used released m \<Longrightarrow> list_all (live (handles st)) used \<Longrightarrow>
     m st = Returns () st' \<Longrightarrow> c_reachable env st'"

lemma c_safe_discard: "c_safe P m Q \<Longrightarrow> (\<And>x st. Q x st \<Longrightarrow> R st) \<Longrightarrow> c_safe P (discard m) (\<lambda>_. R)"
  unfolding discard_def by (erule c_safe_bind) (rule c_safe_ret)

text \<open>The table without the released handle.\<close>

definition without :: "(nat \<Rightarrow> addr option) \<Rightarrow> handle \<Rightarrow> nat \<Rightarrow> addr option" where
  "without H released = (case released of None \<Rightarrow> H | Some i \<Rightarrow> H(i := None))"

lemma without_simps [simp]: "without H None = H" "without H (Some i) = H(i := None)"
  by (simp_all add: without_def)

lemma c_safe_released: "live H h \<Longrightarrow> c_safe (given {} H n) (bison_release h) (\<lambda>_. holding (without H h) n)"
proof (cases h)
  case None
  then show ?thesis by (simp add: bison_release_def)
next
  case (Some i)
  moreover assume "live H h"
  ultimately show ?thesis unfolding Some bison_release_def option.case
    by (intro c_safe_weaken [OF c_safe_delete [where H = H and A = "{}" and n = n]]) (auto simp: given_def holding_def)
qed

lemma discard_keeps: "keeps_handles H n m \<Longrightarrow> keeps_handles H n (discard m)"
  by (erule c_safe_discard)

lemma discard_makes: "makes_handle H n m \<Longrightarrow> keeps_handles H n (discard m)"
  by (rule discard_keeps) (rule keeps_if_makes)

lemmas at_defs = bison_set_int_at_def bison_set_float_at_def bison_set_string_at_def bison_set_bool_at_def
  bison_set_key_at_def bison_set_object_at_def bison_get_int_at_def bison_get_float_at_def bison_get_string_at_def
  bison_get_bool_at_def bison_get_key_at_def bison_get_object_at_def

lemma c_operation_safe:
  assumes "c_operation env used released m" and "behaved env" and "list_all (live H) used"
  shows "c_safe (given {} H n) m (\<lambda>_. holding (without H released) n)"
proof -
  have f: "\<And>i. keeps {} (factories env i) option_set" using assms(2) by (simp add: behaved_def)
  show ?thesis using assms(1,3)
    by (cases rule: c_operation.cases)
       (simp_all add: at_defs c_safe_released discard_keeps discard_makes c_safe_create c_safe_instantiate [OF f] c_safe_add_ref c_safe_clone
          c_safe_from_json c_safe_from_yaml c_safe_object_calls c_safe_find_class c_safe_clear_registry c_safe_class_attributes
          c_safe_attributes c_safe_field_adders c_safe_vector_adders c_safe_vector_getters c_safe_vector_setters c_safe_deserialize
          c_safe_setters c_safe_set_object c_safe_getters c_safe_get_string c_safe_get_object c_safe_size c_safe_call [OF assms(2)])
qed

lemma c_reachable_ok:
  assumes "c_reachable env st" and "behaved env"
  shows "c_ok st"
  using assms(1)
proof induction
  case start
  then show ?case by (simp add: c_ok_def c_start_def store_ok_def empty_store_def registry_ok_def)
next
  case (step st used released m st')
  from c_safeD(2) [OF c_operation_safe [OF step(2) assms(2) step(3)] step(5) _ step(4)]
  show ?case by (simp add: given_def)
qed


text \<open>A program without factories whose callbacks only look at their object.\<close>

definition sample_env :: c_env where
  "sample_env = \<lparr> host_order = Little_endian, long_bits = 64, factories = (\<lambda>_. retA None), factory_fields = (\<lambda>_. []),
     json_parse = (\<lambda>_. Inl Not_implemented), json_text = (\<lambda>_ _. Inl Not_implemented),
     yaml_parse = (\<lambda>_. ([], [])), yaml_text = (\<lambda>_. Inl Not_implemented), key_names = Map.empty,
     callback = (\<lambda>_ self _ _. discard (bison_size (Some self))) \<rparr>"

lemma sample_env_behaved: "behaved sample_env"
proof -
  have cb: "c_safe (\<lambda>st. given {} H n st \<and> \<not> kept_elsewhere h3 r st) (discard (bison_size (Some h1)))
      (\<lambda>_ st. holding H n st \<and> \<not> kept_elsewhere h3 r st)" if "H h1 \<noteq> None" for h1 h3 r H n
    using that by (auto intro!: c_safeI simp: discard_def bison_size_def bindC_def deref_def retC_def given_def holding_def)
  have "keeps {} (retA None) option_set" by (rule keeps_ret) simp
  then show ?thesis using cb by (simp add: behaved_def sample_env_def)
qed

definition made_one :: c_state where
  "made_one = c_start\<lparr>objects := \<lparr>heap = [blank_obj [(CLASS, plain_field (KeyV 5))]], registry = []\<rparr>,
     handles := [0 \<mapsto> 0], next_handle := 1\<rparr>"

lemma create_one: "bison_create 5 c_start = Returns (Some 0) made_one"
  by (simp add: bison_create_def or_null_def bindC_def on_objects_def new_dynamic_def construct_def alloc_def
      field_assign_def field_is_def plain_field_def new_handle_def retC_def made_one_def c_start_def empty_store_def blank_obj_def)

lemma made_one_reachable: "c_reachable env made_one"
proof (rule c_reachable.step [OF c_reachable.start])
  show "c_operation env [] None (discard (bison_create 5))" by (rule c_operation.intros)
  show "list_all (live (handles c_start)) []" by simp
  show "discard (bison_create 5) c_start = Returns () made_one"
    by (simp add: discard_def bindC_def create_one retC_def)
qed

lemma release_one: "bison_release (Some 0) made_one = Returns () (made_one\<lparr>handles := Map.empty\<rparr>)"
  by (simp add: bison_release_def delete_handle_def bindC_def deref_def retC_def made_one_def c_start_def)


end
