(* ===== verification/Bison_C_Spec.thy ===== *)
theory Bison_C_Spec
  imports Bison_C_Inv
begin

text \<open>
  What calls of the C interface mean together: a value that was set is read back through any handle to the
  object, a text is fetched in two calls, an object is restored from its bytes, attributes come back as
  they were given; and the calls that do not do what the header says.
\<close>

section \<open>Set, then get\<close>

lemma fields_set_field: "a < length (heap s) \<Longrightarrow> fields_of (set_field a k f s) a = map_put k f (fields_of s a)"
  by (simp add: set_field_def update_obj_def)

lemma assigned_base:
  assumes "field_assign f v = Inr f'"
  shows "f_base f' = v \<or> type_of v = TString \<and> type_of (f_base f') = TInt32"
  using assms by (auto simp: field_assign_def split: if_splits field_base.splits option.splits sum.splits)

lemma assign_key_value:
  assumes s: "store_ok s" "a < length (heap s)" and run: "assign_key a name v s = (Inr (), s')"
  shows "\<exists>f. map_of (fields_of s' a) name = Some f \<and>
    (f_base f = v \<or> type_of v = TString \<and> type_of (f_base f) = TInt32)"
proof -
  obtain s1 where 1: "index_key a name s = (Inr (), s1)" "assign_at a name v s1 = (Inr (), s')"
    using run by (auto simp: assign_key_def bindA_def split: prod.splits sum.splits)
  have a: "a < length (heap s1)"
    using keepsD(2) [OF keeps_index_key s(1) _ 1(1)] s(2) by simp
  obtain f f' where f: "field_assign f v = Inr f'" "s' = set_field a name f' s1"
    using 1(2) by (auto simp: assign_at_def split: option.splits sum.splits)
  show ?thesis using assigned_base [OF f(1)] by (simp add: f(2) fields_set_field [OF a] map_of_map_put)
qed

lemma read_present:
  assumes s: "store_ok s" "a < length (heap s)" and f: "map_of (fields_of s a) name = Some f" and T: "type_of (f_base f) \<noteq> TMonostate"
  shows "\<exists>s'. read_as a name (type_of (f_base f)) s = (Inr (f_base f), s')"
proof -
  have no: "o_lookup (obj_at s a) name \<noteq> Some False" using store_okD [OF s] f by (auto simp: obj_ok_def cache_ok_def)
  have "fields_of (set_lookup a name True s) a = fields_of s a"
    using s(2) by (simp add: set_lookup_def update_obj_def)
  then show ?thesis using no f T
    by (cases "o_lookup (obj_at s a) name")
       (auto simp: read_as_def bindA_def index_key_def find_field_def field_value_as_def field_is_def field_as_const_def)
qed

text \<open>What a call on the object behind a live handle does.\<close>

lemma object_call_run:
  assumes "handles st i = Some a" and "object_call (Some i) catch m st = Returns r st'"
  obtains x s where "m a (objects st) = (x, s)" and "st' = st\<lparr>objects := s\<rparr>" and "r = catch x"
  using assms
  by (auto simp: object_call_def with_handle_def bindC_def deref_def on_objects_def retC_def
      split: c_outcome.splits prod.splits sum.splits exc.splits)

lemma object_call_returns:
  assumes "handles st i = Some a" and "m a (objects st) = (Inr x, s)"
  shows "object_call (Some i) catch m st = Returns (catch (Inr x)) (st\<lparr>objects := s\<rparr>)"
  using assms by (simp add: object_call_def with_handle_def bindC_def deref_def on_objects_def retC_def)

lemma handle_allocated: "c_ok st \<Longrightarrow> handles st i = Some a \<Longrightarrow> a < length (heap (objects st))"
  by (simp add: c_ok_def)

lemma type_error_Inr: "type_error r = Inr x \<longleftrightarrow> r = Inr x"
  by (auto simp: type_error_def split: sum.split)

text \<open>A string assigned to an enumerated integer is stored as its number.\<close>

lemma set_value_stored:
  assumes ok: "c_ok st" and a: "handles st i = Some a" and v: "valid (ptrs_of v) (objects st)"
    and run: "set_value (Some i) name v st = Returns (Inr ()) st1"
  shows "c_ok st1 \<and> handles st1 = handles st \<and>
    (\<exists>f. map_of (fields_of (objects st1) a) name = Some f \<and>
      (f_base f = v \<or> type_of v = TString \<and> type_of (f_base f) = TInt32))"
proof -
  obtain x s where x: "assign_key a name v (objects st) = (x, s)" "st1 = st\<lparr>objects := s\<rparr>" "Inr () = type_error x"
    using object_call_run [OF a run [unfolded set_value_def]] by metis
  then have x0: "x = Inr ()" by (auto simp: type_error_def split: sum.splits)
  note al = handle_allocated [OF ok a]
  have so: "store_ok (objects st)" using ok by (simp add: c_ok_def)
  have k: "store_ok s" "length (heap (objects st)) \<le> length (heap s)"
    using keepsD(1,2) [OF keeps_assign_key so _ x(1)] al v by simp_all
  have "c_ok st1" using ok k by (fastforce simp: c_ok_def x(2))
  then show ?thesis using assign_key_value [OF so al, of name v s] x(1) by (simp add: x(2) x0)
qed

lemma get_value_present:
  assumes ok: "c_ok st" and a: "handles st i = Some a" and f: "map_of (fields_of (objects st) a) name = Some f"
    and T: "type_of (f_base f) = T" "T \<noteq> TMonostate"
  shows "\<exists>st'. get_value (Some i) name T st = Returns (Inr (f_base f)) st' \<and> handles st' = handles st \<and> next_handle st' = next_handle st"
proof -
  have so: "store_ok (objects st)" using ok by (simp add: c_ok_def)
  obtain s where "read_as a name T (objects st) = (Inr (f_base f), s)"
    using read_present [OF so handle_allocated [OF ok a] f] T by auto
  from object_call_returns [OF a, of "\<lambda>a. read_as a name T", OF this, of type_error] show ?thesis
    by (simp add: get_value_def type_error_def)
qed

lemma set_get:
  assumes ok: "c_ok st" and a: "handles st i = Some a" "handles st j = Some a" and v: "valid (ptrs_of v) (objects st)"
    and T: "type_of v \<noteq> TMonostate" "type_of v \<noteq> TString"
    and run: "set_value (Some i) name v st = Returns (Inr ()) t"
  shows "\<exists>u. get_value (Some j) name (type_of v) t = Returns (Inr v) u \<and> handles u = handles st \<and> next_handle u = next_handle t"
  using set_value_stored [OF ok a(1) v run] get_value_present [of t j a name _ "type_of v"] a(2) T by auto


text \<open>On an object outside every namespace a new name can always be set.\<close>

lemma set_on_blank:
  assumes "registry s = []" and "a < length (heap s)" and "o_lookup (obj_at s a) = (\<lambda>_. None)"
    and "map_of (fields_of s a) name = None" and "map_of (fields_of s a) NAMESPACE = None" and "name \<noteq> NAMESPACE"
  shows "\<exists>s'. assign_key a name v s = (Inr (), s')"
  using assms
  by (simp add: assign_key_def index_key_def bindA_def find_field_def resolve_namespace_def assign_at_def retA_def set_field_def
      set_lookup_def update_obj_def fields_index_def cache_result_def map_of_map_put field_assign_def field_is_def mono_field_def plain_field_def)

lemma made_one_ok: "c_ok made_one"
  by (rule c_reachable_ok [OF made_one_reachable sample_env_behaved])


section \<open>A text in two calls\<close>

lemma field_value_stored:
  assumes s: "store_ok s" "a < length (heap s)" and run: "field_value_as a name T s = (Inr v, s')"
  shows "\<exists>f. map_of (fields_of s' a) name = Some f \<and> f_base f = v"
proof -
  obtain f where f: "map_of (fields_of s a) name = Some f"
    using run by (auto simp: field_value_as_def split: option.splits)
  show ?thesis
  proof (cases "field_is TMonostate f")
    case False
    then show ?thesis using run f by (auto simp: field_value_as_def field_as_const_def split: if_splits)
  next
    case True
    then obtain s1 where d: "default_value T s = (Inr v, s1)" "s' = set_field a name (f\<lparr>f_base := v\<rparr>) s1"
      using run f by (auto simp: field_value_as_def bindA_def split: prod.splits sum.splits)
    have "a < length (heap s1)"
      using keepsD(2) [OF keeps_default_value s(1) _ d(1), of "{}"] s(2) by simp
    then show ?thesis by (simp add: d(2) fields_set_field map_of_map_put)
  qed
qed

lemma get_value_stored:
  assumes ok: "c_ok st" and a: "handles st i = Some a" and run: "get_value (Some i) name T st = Returns (Inr v) st1"
  shows "c_ok st1 \<and> handles st1 = handles st \<and> type_of v = T \<and> (\<exists>f. map_of (fields_of (objects st1) a) name = Some f \<and> f_base f = v)"
proof -
  obtain x s where x: "read_as a name T (objects st) = (x, s)" "st1 = st\<lparr>objects := s\<rparr>" "Inr v = type_error x"
    using object_call_run [OF a run [unfolded get_value_def]] by metis
  then have x0: "x = Inr v" by (auto simp: type_error_def split: sum.splits)
  have so: "store_ok (objects st)" using ok by (simp add: c_ok_def)
  note al = handle_allocated [OF ok a]
  have k: "store_ok s" "length (heap (objects st)) \<le> length (heap s)"
    using keepsD(1,2) [OF keeps_read_as so _ x(1)] al by simp_all
  obtain s1 where 1: "index_key a name (objects st) = (Inr (), s1)" "field_value_as a name T s1 = (Inr v, s)"
    using x(1) by (auto simp: read_as_def bindA_def x0 split: prod.splits sum.splits)
  have s1: "store_ok s1" "a < length (heap s1)"
    using keepsD(1,2) [OF keeps_index_key so _ 1(1)] al by simp_all
  have "c_ok st1" using ok k by (fastforce simp: c_ok_def x(2))
  then show ?thesis using field_value_stored [OF s1 1(2)] field_value_as_type [OF 1(2)] by (simp add: x(2))
qed


text \<open>An object outside every namespace whose field 9 holds the text \<open>abc\<close>.\<close>

definition text_object :: c_state where
  "text_object = c_start\<lparr>objects := \<lparr>heap = [blank_obj [(9, plain_field (StringV ''abc'')), (CLASS, plain_field (KeyV 5))]],
     registry = []\<rparr>, handles := [0 \<mapsto> 0], next_handle := 1\<rparr>"

lemma text_object_ok: "c_ok text_object"
  by (simp add: c_ok_def text_object_def c_start_def store_ok_def obj_ok_def cache_ok_def blank_obj_def ptr_ok_def plain_field_def
      registry_ok_def token_values)


section \<open>Bytes and back\<close>

lemma dump_unchanged: "dump a s = (r, s') \<Longrightarrow> s' = s"
  by (simp add: dump_def)

lemma wf_object_ordered: "wf_object reg m \<Longrightarrow> object_all (\<lambda>_. True) sorted_map (Dyn m)"
proof -
  assume wf: "wf_object reg m"
  have "tree_all (\<lambda>_. True) sorted_map v" if "wf_value reg v" for v
    using that unfolding wf_value_def by (rule tree_all_mono(1) [rotated 2]) (auto simp: settled_map_def)
  then show ?thesis using wf by (auto simp: wf_object_def entries_all_iff)
qed

lemma serialize_dump:
  assumes a: "handles st i = Some a" and d: "dump a (objects st) = (Inr m, objects st)"
  shows "bison_serialize env (Some i) True st = Returns (Inr (dynamic_serialize (host_order env) (Dyn m))) st"
proof -
  let ?m = "\<lambda>a. bindA (dump a) (\<lambda>m. retA (dynamic_serialize (host_order env) (Dyn m)))"
  have "?m a (objects st) = (Inr (dynamic_serialize (host_order env) (Dyn m)), objects st)"
    by (simp add: bindA_def d retA_def)
  from object_call_returns [where m = ?m, OF a this, of any_error] show ?thesis
    by (simp add: bison_serialize_def any_error_def del: dynamic_serialize.simps)
qed



section \<open>Attributes\<close>

text \<open>What a client gets back: texts up to their NUL, flags as 0 or 1, no empty message.\<close>

definition given_back :: "c_attributes \<Rightarrow> c_attributes" where
  "given_back m =
     \<lparr> c_display = map_option c_string (c_display m), c_description = map_option c_string (c_description m),
       c_category = map_option c_string (c_category m), c_obsolete = (if c_obsolete m = 0 then 0 else 1),
       c_obsolete_message = (if c_obsolete m = 0 then None
         else case c_obsolete_message m of None \<Rightarrow> None | Some t \<Rightarrow> if c_string t = [] then None else Some (c_string t)),
       c_required = (if c_required m = 0 then 0 else 1) \<rparr>"

lemma c_string_idem [simp]: "c_string (c_string t) = c_string t"
  by (rule c_string_id) (auto simp: c_string_def dest: set_takeWhileD)

lemma attributes_given_back: "fill_attrs (attrs_from_meta (Some m)) = given_back m"
  by (cases "c_display m"; cases "c_description m"; cases "c_category m"; cases "c_obsolete_message m")
     (simp_all add: attrs_from_meta_def fill_attrs_def given_back_def text_attr_def is_required_def)

lemma meta_field_attrs: "f_attrs (meta_field v meta) = attrs_from_meta meta"
proof -
  have "f_attrs (fold add_attribute as f) = f_attrs f @ as" for as and f :: "addr field"
    by (induction as arbitrary: f) (simp_all add: add_attribute_def)
  then show ?thesis by (simp add: meta_field_def plain_field_def)
qed

text \<open>A field registered with attributes shows them to every later query, through any handle.\<close>

lemma field_attributes_returned:
  assumes ok: "c_ok st" and a: "handles st i = Some a" "handles st j = Some a"
    and run: "add_field_impl (Some i) name (meta_field v (Some meta)) st = Returns (Inr ()) st1"
  shows "bison_get_field_attributes (Some j) name True st1 = Returns (Inr (given_back meta)) st1"
proof -
  let ?f = "meta_field v (Some meta)"
  obtain x s where x: "add_field a name ?f (objects st) = (x, s)" "st1 = st\<lparr>objects := s\<rparr>" "Inr () = duplicate_error x"
    using object_call_run [OF a(1) run [unfolded add_field_impl_def]] by metis
  then have x0: "x = Inr True" by (auto simp: duplicate_error_def split: sum.splits if_splits)
  note al = handle_allocated [OF ok a(1)]
  have s: "map_of (fields_of s a) name = Some ?f" "o_lookup (obj_at s a) name = Some True"
    using x(1) al by (auto simp: add_field_def x0 set_lookup_def set_field_def update_obj_def map_of_map_put split: option.splits)
  let ?m = "\<lambda>a. bindA (find_field a name) (\<lambda>hit s. (Inr (if hit then Some (fill_attrs (field_attrs s a name)) else None), s))"
  have "?m a s = (Inr (Some (given_back meta)), s)"
    by (simp add: bindA_def find_field_def s field_attrs_def meta_field_attrs attributes_given_back)
  moreover have "handles st1 j = Some a" "objects st1 = s" using a(2) by (simp_all add: x(2))
  ultimately show ?thesis using object_call_returns [of st1 j a ?m "Some (given_back meta)" s not_found]
    by (simp add: bison_get_field_attributes_def not_found_def x(2))
qed

section \<open>Behaviour the header does not mention\<close>

text \<open>
  A getter writes: a name the object does not have becomes a field of the type that was asked for, which
  from then on refuses every other type.
\<close>

lemma get_fixes_type:
  assumes ok: "c_ok st" and a: "handles st i = Some a" and run: "get_value (Some i) name T st = Returns (Inr v) st1"
    and w: "type_of w \<noteq> T" "type_of w \<noteq> TString" "T \<noteq> TMonostate"
  shows "\<exists>st2. set_value (Some i) name w st1 = Returns (Inl ERR_TYPE) st2"
proof -
  obtain f where f: "c_ok st1" "handles st1 = handles st" "type_of v = T" "map_of (fields_of (objects st1) a) name = Some f" "f_base f = v"
    using get_value_stored [OF ok a run] by blast
  have s1: "store_ok (objects st1)" "a < length (heap (objects st1))"
    using f(1,2) handle_allocated [OF f(1)] a by (simp_all add: c_ok_def)
  have no: "o_lookup (obj_at (objects st1) a) name \<noteq> Some False" using store_okD [OF s1] f(4) by (auto simp: obj_ok_def cache_ok_def)
  have e: "field_assign f w = Inl Invalid_type"
    using w f(3,5) by (cases w) (auto simp: field_assign_def field_is_def)
  have "fields_of (set_lookup a name True (objects st1)) a = fields_of (objects st1) a"
    using s1(2) by (simp add: set_lookup_def update_obj_def)
  then obtain s where "assign_key a name w (objects st1) = (Inl Invalid_type, s)"
    using no f(4) e
    by (cases "o_lookup (obj_at (objects st1) a) name")
       (auto simp: assign_key_def bindA_def index_key_def find_field_def assign_at_def)
  then show ?thesis using a f(2)
    by (simp add: set_value_def object_call_def with_handle_def bindC_def deref_def on_objects_def retC_def type_error_def
        is_runtime_error_def)
qed

text \<open>An index beyond 32 bits denotes the element its low 32 bits denote.\<close>

lemma index_wraps: "bison_set_int_at h (index + 2 ^ 32) w = bison_set_int_at h index w"
proof -
  have "ucast (index + 2 ^ 32) = (ucast index :: 32 word)"
    by transfer (simp add: take_bit_eq_mod mod_mod_cancel)
  then show ?thesis by (simp add: bison_set_int_at_def index_name_def)
qed

text \<open>
  Every \<open>bison_find_class\<close> that finds the class leaves one more handle, which the header forbids to release.
\<close>

lemma find_class_makes_handle:
  assumes "registered_class ns klass (objects st) = Some p"
  shows "bison_find_class ns klass st =
    Returns (Some (next_handle st)) (st\<lparr>handles := (handles st)(next_handle st \<mapsto> p), next_handle := Suc (next_handle st)\<rparr>)"
  using assms by (simp add: bison_find_class_def bindC_def new_handle_def retC_def)

text \<open>An object that was put into itself can no longer be written, exported or copied: those calls do not return.\<close>

lemma dump_fields_diverges:
  assumes "(k, f) \<in> set m" and "dump_value rec (f_base f) = Inl Fuel_exhausted"
    and "\<And>q e. rec q = Inl e \<Longrightarrow> e = Fuel_exhausted"
  shows "dump_fields rec m = Inl Fuel_exhausted"
  using assms(1)
proof (induction m)
  case (Cons kv m)
  obtain k' f' where kv: "kv = (k', f')" by fastforce
  have "dump_value rec (f_base f') = Inl e \<Longrightarrow> e = Fuel_exhausted" for e
    using assms(3) by (auto simp: dump_value_def split: field_base.splits option.splits sum.splits)
  then show ?case using Cons assms(2) by (auto simp: kv split: sum.split)
qed simp

lemma dump_fuel_error: "dump_fuel n s a = Inl e \<Longrightarrow> e = Fuel_exhausted"
proof (induction n arbitrary: a e)
  case (Suc n)
  have v: "dump_value (dump_fuel n s) v = Inl e \<Longrightarrow> e = Fuel_exhausted" for v e
    using Suc.IH by (auto simp: dump_value_def split: field_base.splits option.splits sum.splits)
  have "dump_fields (dump_fuel n s) m = Inl e \<Longrightarrow> e = Fuel_exhausted" for m e
    by (induction m arbitrary: e) (auto split: sum.splits dest: v)
  then show ?case using Suc.prems by simp
qed simp

lemma dump_self: "(k, f) \<in> set (fields_of s a) \<Longrightarrow> f_base f = PtrV (Some a) \<Longrightarrow> dump_fuel n s a = Inl Fuel_exhausted"
proof (induction n)
  case (Suc n)
  have "dump_value (dump_fuel n s) (f_base f) = Inl Fuel_exhausted" using Suc by (simp add: dump_value_def)
  with Suc.prems(1) show ?case by (simp add: dump_fields_diverges dump_fuel_error)
qed simp

lemma self_reference_hangs:
  assumes ok: "c_ok st" and a: "handles st i = Some a" and run: "bison_set_object (Some i) name (Some i) st = Returns (Inr ()) st1"
  shows "bison_serialize env (Some i) True st1 = Never_returns" and "bison_to_json env (Some i) indent True st1 = Never_returns"
    and "bison_to_yaml env (Some i) True st1 = Never_returns"
proof -
  have set: "set_value (Some i) name (PtrV (Some a)) st = Returns (Inr ()) st1"
    using run a by (simp add: bison_set_object_def bindC_def deref_def)
  obtain f where f: "handles st1 = handles st" "map_of (fields_of (objects st1) a) name = Some f" "f_base f = PtrV (Some a)"
    using set_value_stored [OF ok a _ set] handle_allocated [OF ok a] by auto
  have "dump a (objects st1) = (Inl Fuel_exhausted, objects st1)"
    unfolding dump_def using dump_self [OF map_of_SomeD [OF f(2)] f(3)] by simp
  then show "bison_serialize env (Some i) True st1 = Never_returns" "bison_to_json env (Some i) indent True st1 = Never_returns"
    "bison_to_yaml env (Some i) True st1 = Never_returns"
    using a f(1) by (simp_all add: bison_serialize_def bison_to_json_def bison_to_yaml_def object_call_def with_handle_def
        bindC_def deref_def on_objects_def bindA_def)
qed

end
