(* ===== verification/Perfetto.thy ===== *)
theory Perfetto
  imports Serializer
begin

text \<open>
  The trace packets of the profiler (src/src/bison/bison_perfetto.cpp): five encoders in the protobuf wire format, and the
  reader of that format by which they are measured. A trace file is the concatenation of packets.
\<close>

section \<open>Field numbers and wire types\<close>

definition kWireVarint :: u64 where
  "kWireVarint = 0"

definition kWireFixed64 :: u64 where
  "kWireFixed64 = 1"

definition kWireLengthDelimited :: u64 where
  "kWireLengthDelimited = 2"

definition kTracePacketTimestamp :: u64 where
  "kTracePacketTimestamp = 8"

definition kTracePacketTrustedSequenceId :: u64 where
  "kTracePacketTrustedSequenceId = 10"

definition kTracePacketTrackEvent :: u64 where
  "kTracePacketTrackEvent = 11"

definition kTracePacketTrackDescriptor :: u64 where
  "kTracePacketTrackDescriptor = 60"

definition kTrackEventType :: u64 where
  "kTrackEventType = 9"

definition kTrackEventTrackUuid :: u64 where
  "kTrackEventTrackUuid = 11"

definition kTrackEventName :: u64 where
  "kTrackEventName = 23"

definition kTrackEventCounterValue :: u64 where
  "kTrackEventCounterValue = 30"

definition kTrackEventDoubleCounterValue :: u64 where
  "kTrackEventDoubleCounterValue = 44"

definition kTrackDescriptorUuid :: u64 where
  "kTrackDescriptorUuid = 1"

definition kTrackDescriptorName :: u64 where
  "kTrackDescriptorName = 2"

definition kTrackDescriptorCounter :: u64 where
  "kTrackDescriptorCounter = 8"

definition kCounterDescriptorUnit :: u64 where
  "kCounterDescriptorUnit = 3"

lemmas field_numbers = kWireVarint_def kWireFixed64_def kWireLengthDelimited_def kTracePacketTimestamp_def
  kTracePacketTrustedSequenceId_def kTracePacketTrackEvent_def kTracePacketTrackDescriptor_def kTrackEventType_def
  kTrackEventTrackUuid_def kTrackEventName_def kTrackEventCounterValue_def kTrackEventDoubleCounterValue_def
  kTrackDescriptorUuid_def kTrackDescriptorName_def kTrackDescriptorCounter_def kCounterDescriptorUnit_def

datatype event_type = Unspecified_event | Slice_begin | Slice_end | Instant_event | Counter_event

fun event_code :: "event_type \<Rightarrow> u64" where
  "event_code Unspecified_event = 0"
| "event_code Slice_begin = 1"
| "event_code Slice_end = 2"
| "event_code Instant_event = 3"
| "event_code Counter_event = 4"

datatype counter_unit = Unspecified_unit | Time_ns | Count_unit | Size_bytes

fun unit_code :: "counter_unit \<Rightarrow> u64" where
  "unit_code Unspecified_unit = 0"
| "unit_code Time_ns = 1"
| "unit_code Count_unit = 2"
| "unit_code Size_bytes = 3"

section \<open>Fields\<close>

definition wire_tag :: "u64 \<Rightarrow> u64 \<Rightarrow> u64" where
  "wire_tag field_number wire_type = push_bit 3 field_number OR wire_type"

text \<open>\<open>write_length_delimited\<close> of a buffer and of a string.\<close>

definition write_length_delimited :: "u64 \<Rightarrow> buffer \<Rightarrow> buffer" where
  "write_length_delimited field_number payload =
     write_varint (wire_tag field_number kWireLengthDelimited) @ write_vec8 payload"

definition write_text_field :: "u64 \<Rightarrow> string \<Rightarrow> buffer" where
  "write_text_field field_number payload =
     write_varint (wire_tag field_number kWireLengthDelimited) @ write_string payload"

definition write_varint_field :: "u64 \<Rightarrow> u64 \<Rightarrow> buffer" where
  "write_varint_field field_number v = write_varint (wire_tag field_number kWireVarint) @ write_varint v"

text \<open>A double is its bit pattern, written with the least byte first.\<close>

definition le_bytes :: "u64 \<Rightarrow> buffer" where
  "le_bytes bits = map (\<lambda>i. ucast (drop_bit (8 * i) bits)) [0..<8]"

definition write_fixed64_field :: "u64 \<Rightarrow> u64 \<Rightarrow> buffer" where
  "write_fixed64_field field_number bits = write_varint (wire_tag field_number kWireFixed64) @ le_bytes bits"

definition frame_trace_packet :: "buffer \<Rightarrow> buffer" where
  "frame_trace_packet body = write_length_delimited 1 body"

section \<open>Packets\<close>

definition encode_track_event_packet :: "u64 \<Rightarrow> u32 \<Rightarrow> u64 \<Rightarrow> event_type \<Rightarrow> string \<Rightarrow> buffer" where
  "encode_track_event_packet timestamp_ns sequence_id track_uuid type name =
     (let event = write_varint_field kTrackEventType (event_code type) @
        write_varint_field kTrackEventTrackUuid track_uuid @
        (if type \<noteq> Slice_end \<and> name \<noteq> [] then write_text_field kTrackEventName name else [])
      in frame_trace_packet (write_varint_field kTracePacketTimestamp timestamp_ns @
        write_varint_field kTracePacketTrustedSequenceId (ucast sequence_id) @
        write_length_delimited kTracePacketTrackEvent event))"

definition encode_track_descriptor_packet :: "u64 \<Rightarrow> u32 \<Rightarrow> u64 \<Rightarrow> string \<Rightarrow> buffer" where
  "encode_track_descriptor_packet timestamp_ns sequence_id track_uuid track_name =
     (let descriptor = write_varint_field kTrackDescriptorUuid track_uuid @ write_text_field kTrackDescriptorName track_name
      in frame_trace_packet (write_varint_field kTracePacketTimestamp timestamp_ns @
        write_varint_field kTracePacketTrustedSequenceId (ucast sequence_id) @
        write_length_delimited kTracePacketTrackDescriptor descriptor))"

definition encode_counter_track_descriptor_packet :: "u64 \<Rightarrow> u32 \<Rightarrow> u64 \<Rightarrow> string \<Rightarrow> counter_unit \<Rightarrow> buffer" where
  "encode_counter_track_descriptor_packet timestamp_ns sequence_id track_uuid track_name unit =
     (let descriptor = write_varint_field kTrackDescriptorUuid track_uuid @ write_text_field kTrackDescriptorName track_name @
        (if unit \<noteq> Unspecified_unit
         then write_length_delimited kTrackDescriptorCounter (write_varint_field kCounterDescriptorUnit (unit_code unit)) else [])
      in frame_trace_packet (write_varint_field kTracePacketTimestamp timestamp_ns @
        write_varint_field kTracePacketTrustedSequenceId (ucast sequence_id) @
        write_length_delimited kTracePacketTrackDescriptor descriptor))"

text \<open>The value of an \<open>int64_t\<close> counter is its 64 bits.\<close>

definition encode_counter_event_packet :: "u64 \<Rightarrow> u32 \<Rightarrow> u64 \<Rightarrow> u64 \<Rightarrow> buffer" where
  "encode_counter_event_packet timestamp_ns sequence_id track_uuid v =
     (let event = write_varint_field kTrackEventType (event_code Counter_event) @
        write_varint_field kTrackEventTrackUuid track_uuid @ write_varint_field kTrackEventCounterValue v
      in frame_trace_packet (write_varint_field kTracePacketTimestamp timestamp_ns @
        write_varint_field kTracePacketTrustedSequenceId (ucast sequence_id) @
        write_length_delimited kTracePacketTrackEvent event))"

definition encode_double_counter_event_packet :: "u64 \<Rightarrow> u32 \<Rightarrow> u64 \<Rightarrow> u64 \<Rightarrow> buffer" where
  "encode_double_counter_event_packet timestamp_ns sequence_id track_uuid bits =
     (let event = write_varint_field kTrackEventType (event_code Counter_event) @
        write_varint_field kTrackEventTrackUuid track_uuid @ write_fixed64_field kTrackEventDoubleCounterValue bits
      in frame_trace_packet (write_varint_field kTracePacketTimestamp timestamp_ns @
        write_varint_field kTracePacketTrustedSequenceId (ucast sequence_id) @
        write_length_delimited kTracePacketTrackEvent event))"

section \<open>A reader of the wire format\<close>

text \<open>
  The protobuf wire format as its documentation has it: a message is a sequence of fields, each a tag and, by the low
  three bits of the tag, a varint, eight bytes or a counted run of bytes.
\<close>

datatype wire_value = Varint u64 | Fixed64 buffer | Bytes buffer

definition read_wire :: "u64 \<Rightarrow> buffer \<Rightarrow> (wire_value \<times> buffer) option" where
  "read_wire wire_type bs =
     (if wire_type = 0 then (case read_varint bs of Inr (v, rest) \<Rightarrow> Some (Varint v, rest) | Inl _ \<Rightarrow> None)
      else if wire_type = 1 then (if length bs < 8 then None else Some (Fixed64 (take 8 bs), drop 8 bs))
      else if wire_type = 2 then (case read_varint bs of
          Inr (n, rest) \<Rightarrow> if length rest < unat n then None else Some (Bytes (take (unat n) rest), drop (unat n) rest)
        | Inl _ \<Rightarrow> None)
      else None)"

definition read_field :: "buffer \<Rightarrow> ((u64 \<times> wire_value) \<times> buffer) option" where
  "read_field bs = (case read_varint bs of
       Inr (t, rest) \<Rightarrow> (case read_wire (take_bit 3 t) rest of
           Some (v, rest') \<Rightarrow> Some ((drop_bit 3 t, v), rest') | None \<Rightarrow> None)
     | Inl _ \<Rightarrow> None)"

lemma read_varint_shorter: "read_varint bs = Inr (v, rest) \<Longrightarrow> length rest < length bs"
  by (auto dest: read_varint_consumes)

lemma read_field_shorter: "read_field bs = Some (f, rest) \<Longrightarrow> length rest < length bs"
  by (auto simp: read_field_def read_wire_def split: sum.splits prod.splits option.splits if_splits
      dest!: read_varint_shorter)

function read_message :: "buffer \<Rightarrow> (u64 \<times> wire_value) list option" where
  "read_message bs =
     (if bs = [] then Some []
      else case read_field bs of
        Some (f, rest) \<Rightarrow> map_option ((#) f) (read_message rest)
      | None \<Rightarrow> None)"
  by auto

termination
  by (relation "measure length") (auto dest: read_field_shorter)

declare read_message.simps [simp del]

section \<open>What a packet says\<close>

datatype packet =
    Track_event u64 u32 u64 event_type string
  | Track_descriptor u64 u32 u64 string
  | Counter_descriptor u64 u32 u64 string counter_unit
  | Int_sample u64 u32 u64 u64
  | Double_sample u64 u32 u64 u64

fun encode_packet :: "packet \<Rightarrow> buffer" where
  "encode_packet (Track_event ts seq track type name) = encode_track_event_packet ts seq track type name"
| "encode_packet (Track_descriptor ts seq track name) = encode_track_descriptor_packet ts seq track name"
| "encode_packet (Counter_descriptor ts seq track name unit) = encode_counter_track_descriptor_packet ts seq track name unit"
| "encode_packet (Int_sample ts seq track v) = encode_counter_event_packet ts seq track v"
| "encode_packet (Double_sample ts seq track bits) = encode_double_counter_event_packet ts seq track bits"

text \<open>The fields of the message inside a packet.\<close>

definition text_bytes :: "string \<Rightarrow> buffer" where
  "text_bytes = map char_byte"

fun inner_fields :: "packet \<Rightarrow> (u64 \<times> wire_value) list" where
  "inner_fields (Track_event ts seq track type name) =
     [(9, Varint (event_code type)), (11, Varint track)] @
     (if type \<noteq> Slice_end \<and> name \<noteq> [] then [(23, Bytes (text_bytes name))] else [])"
| "inner_fields (Track_descriptor ts seq track name) = [(1, Varint track), (2, Bytes (text_bytes name))]"
| "inner_fields (Counter_descriptor ts seq track name unit) =
     [(1, Varint track), (2, Bytes (text_bytes name))] @
     (if unit \<noteq> Unspecified_unit then [(8, Bytes (write_varint_field 3 (unit_code unit)))] else [])"
| "inner_fields (Int_sample ts seq track v) = [(9, Varint 4), (11, Varint track), (30, Varint v)]"
| "inner_fields (Double_sample ts seq track bits) = [(9, Varint 4), (11, Varint track), (44, Fixed64 (le_bytes bits))]"

fun packet_time :: "packet \<Rightarrow> u64 \<times> u32" where
  "packet_time (Track_event ts seq track type name) = (ts, seq)"
| "packet_time (Track_descriptor ts seq track name) = (ts, seq)"
| "packet_time (Counter_descriptor ts seq track name unit) = (ts, seq)"
| "packet_time (Int_sample ts seq track v) = (ts, seq)"
| "packet_time (Double_sample ts seq track bits) = (ts, seq)"

definition is_descriptor :: "packet \<Rightarrow> bool" where
  "is_descriptor p = (case p of Track_descriptor _ _ _ _ \<Rightarrow> True | Counter_descriptor _ _ _ _ _ \<Rightarrow> True | _ \<Rightarrow> False)"

text \<open>A packet read with the wire format: its time, its sequence, and the fields of its event or descriptor.\<close>

definition view_packet :: "packet \<Rightarrow> (u64 \<times> u32) \<times> bool \<times> (u64 \<times> wire_value) list" where
  "view_packet p = (packet_time p, is_descriptor p, inner_fields p)"

definition read_packet :: "u64 \<times> wire_value \<Rightarrow> ((u64 \<times> u32) \<times> bool \<times> (u64 \<times> wire_value) list) option" where
  "read_packet f = (case f of
       (n, Bytes body) \<Rightarrow> if n \<noteq> 1 then None else (case read_message body of
           Some [(t, Varint ts), (s, Varint seq), (m, Bytes inner)] \<Rightarrow>
             if t = 8 \<and> s = 10 \<and> (m = 11 \<or> m = 60)
             then map_option (\<lambda>fs. ((ts, ucast seq), m = 60, fs)) (read_message inner) else None
         | _ \<Rightarrow> None)
     | _ \<Rightarrow> None)"

definition read_trace :: "buffer \<Rightarrow> ((u64 \<times> u32) \<times> bool \<times> (u64 \<times> wire_value) list) list option" where
  "read_trace bs = (case read_message bs of None \<Rightarrow> None | Some fs \<Rightarrow> those (map read_packet fs))"

section \<open>Reading back\<close>

lemma take_small: "unat x < 2 ^ k \<Longrightarrow> take_bit k x = (x :: u64)"
  by (rule word_unat_eq_iff [THEN iffD2]) (simp add: unsigned_take_bit_eq take_bit_nat_eq_self)

lemma wire_tag_parts:
  assumes "take_bit 61 n = n" and "w < 8"
  shows "take_bit 3 (wire_tag n w) = w" and "drop_bit 3 (wire_tag n w) = n"
proof -
  have w: "\<not> bit w i" if "i \<ge> 3" for i
  proof -
    have "take_bit 3 w = w" by (rule take_small) (use assms(2) in \<open>simp add: word_less_nat_alt\<close>)
    then show ?thesis using that by (metis bit_take_bit_iff not_less)
  qed
  have n: "\<not> bit n i" if "i \<ge> 61" for i using assms(1) that by (metis bit_take_bit_iff not_less)
  show "take_bit 3 (wire_tag n w) = w"
    by (rule bit_word_eqI) (auto simp: wire_tag_def bit_simps w not_less)
  show "drop_bit 3 (wire_tag n w) = n"
    proof (rule bit_word_eqI)
    fix i assume "i < LENGTH(64)"
    then show "bit (drop_bit 3 (wire_tag n w)) i = bit n i"
      using n [of i] by (cases "i < 61") (auto simp: wire_tag_def bit_simps w)
  qed
qed

lemma small_number: "n < 1024 \<Longrightarrow> take_bit 61 n = (n :: u64)"
  by (rule take_small) (simp add: word_less_nat_alt)

lemma read_varint_field:
  assumes "n < 1024"
  shows "read_field (write_varint_field n v @ rest) = Some ((n, Varint v), rest)"
  using wire_tag_parts [OF small_number [OF assms], of 0]
  by (simp add: write_varint_field_def kWireVarint_def read_field_def read_wire_def read_write_varint)

lemma read_bytes_field:
  assumes "n < 1024" and "fits (length p)"
  shows "read_field (write_length_delimited n p @ rest) = Some ((n, Bytes p), rest)"
  using wire_tag_parts [OF small_number [OF assms(1)], of 2] assms(2)
  by (simp add: write_length_delimited_def write_vec8_def kWireLengthDelimited_def read_field_def read_wire_def
      read_write_varint fits_unat)

lemma text_field_bytes: "write_text_field n s = write_length_delimited n (text_bytes s)"
  by (simp add: write_text_field_def write_length_delimited_def write_vec8_def write_string_def text_bytes_def)

lemma length_le_bytes [simp]: "length (le_bytes bits) = 8"
  by (simp add: le_bytes_def)

lemma read_fixed64_field:
  assumes "n < 1024"
  shows "read_field (write_fixed64_field n bits @ rest) = Some ((n, Fixed64 (le_bytes bits)), rest)"
  using wire_tag_parts [OF small_number [OF assms], of 1]
  by (simp add: write_fixed64_field_def kWireFixed64_def read_field_def read_wire_def read_write_varint)

lemma read_message_Nil [simp]: "read_message [] = Some []"
  by (simp add: read_message.simps)

lemma read_message_field:
  assumes "read_field (x @ rest) = Some (f, rest)"
  shows "read_message (x @ rest) = map_option ((#) f) (read_message rest)"
proof -
  have "x @ rest \<noteq> []" using read_field_shorter [OF assms] by auto
  then show ?thesis by (simp add: read_message.simps [of "x @ rest"] assms)
qed

lemma fixed64_bits: "le_bytes a = le_bytes b \<Longrightarrow> a = b"
proof (rule bit_word_eqI)
  fix n assume eq: "le_bytes a = le_bytes b" and n: "n < LENGTH(64)"
  have "le_bytes a ! (n div 8) = le_bytes b ! (n div 8)" by (simp add: eq)
  then have "(ucast (drop_bit (8 * (n div 8)) a) :: u8) = ucast (drop_bit (8 * (n div 8)) b)"
    using n nth_upt [of 0 "n div 8" 8] by (simp add: le_bytes_def)
  then have "bit (ucast (drop_bit (8 * (n div 8)) a) :: u8) (n mod 8) = bit (ucast (drop_bit (8 * (n div 8)) b) :: u8) (n mod 8)"
    by simp
  then show "bit a n = bit b n" by (simp add: bit_ucast_iff bit_drop_bit_eq)
qed

text \<open>Sizes the counts can hold.\<close>

definition text_ok :: "string \<Rightarrow> bool" where
  "text_ok s \<longleftrightarrow> length s < 2 ^ 60"

fun packet_ok :: "packet \<Rightarrow> bool" where
  "packet_ok (Track_event ts seq track type name) = text_ok name"
| "packet_ok (Track_descriptor ts seq track name) = text_ok name"
| "packet_ok (Counter_descriptor ts seq track name unit) = text_ok name"
| "packet_ok (Int_sample ts seq track v) = True"
| "packet_ok (Double_sample ts seq track bits) = True"

lemma varint_at_most_10: "length (write_varint v) \<le> 10"
  using varint_length_minimal [of v 0] by simp

lemma field_lengths:
  "length (write_varint_field n v) \<le> 20"
  "length (write_length_delimited n p) \<le> 20 + length p"
  "length (write_fixed64_field n bits) \<le> 18"
proof -
  have 1: "length (write_varint a) + length (write_varint b) \<le> 20" for a b
    using varint_at_most_10 [of a] varint_at_most_10 [of b] by simp
  show "length (write_varint_field n v) \<le> 20" by (simp add: write_varint_field_def 1)
  show "length (write_length_delimited n p) \<le> 20 + length p"
    using 1 [of "wire_tag n kWireLengthDelimited" "of_nat (length p)"] by (simp add: write_length_delimited_def write_vec8_def)
  show "length (write_fixed64_field n bits) \<le> 18"
    using varint_at_most_10 [of "wire_tag n kWireFixed64"] by (simp add: write_fixed64_field_def)
qed

text \<open>The message inside a packet, as bytes, and the packet around it.\<close>

fun inner_bytes :: "packet \<Rightarrow> buffer" where
  "inner_bytes (Track_event ts seq track type name) = write_varint_field 9 (event_code type) @ write_varint_field 11 track @
     (if type \<noteq> Slice_end \<and> name \<noteq> [] then write_text_field 23 name else [])"
| "inner_bytes (Track_descriptor ts seq track name) = write_varint_field 1 track @ write_text_field 2 name"
| "inner_bytes (Counter_descriptor ts seq track name unit) = write_varint_field 1 track @ write_text_field 2 name @
     (if unit \<noteq> Unspecified_unit then write_length_delimited 8 (write_varint_field 3 (unit_code unit)) else [])"
| "inner_bytes (Int_sample ts seq track v) =
     write_varint_field 9 4 @ write_varint_field 11 track @ write_varint_field 30 v"
| "inner_bytes (Double_sample ts seq track bits) =
     write_varint_field 9 4 @ write_varint_field 11 track @ write_fixed64_field 44 bits"

definition packet_body :: "packet \<Rightarrow> buffer" where
  "packet_body p = write_varint_field 8 (fst (packet_time p)) @ write_varint_field 10 (ucast (snd (packet_time p))) @
     write_length_delimited (if is_descriptor p then 60 else 11) (inner_bytes p)"

lemma encode_packet_eq: "encode_packet p = write_length_delimited 1 (packet_body p)"
  by (cases p) (simp_all add: encode_track_event_packet_def encode_track_descriptor_packet_def
      encode_counter_track_descriptor_packet_def encode_counter_event_packet_def encode_double_counter_event_packet_def
      frame_trace_packet_def packet_body_def is_descriptor_def field_numbers Let_def)

lemma fits_small: "n < 2 ^ 61 \<Longrightarrow> fits n"
  by (simp add: fits_def)

lemma text_field_length: "text_ok s \<Longrightarrow> length (write_text_field n s) < 2 ^ 60 + 20"
  using field_lengths(2) [of n "text_bytes s"] by (simp add: text_field_bytes text_ok_def text_bytes_def)

lemma inner_length: "packet_ok p \<Longrightarrow> length (inner_bytes p) < 2 ^ 60 + 100"
proof (cases p)
  case (Track_event ts seq track type name)
  assume "packet_ok p"
  then have "length (write_text_field 23 name) < 2 ^ 60 + 20" using text_field_length [of name 23] by (simp add: Track_event)
  then show ?thesis using field_lengths(1) [of 9 "event_code type"] field_lengths(1) [of 11 track] by (simp add: Track_event)
next
  case (Track_descriptor ts seq track name)
  assume "packet_ok p"
  then have "length (write_text_field 2 name) < 2 ^ 60 + 20" using text_field_length [of name 2] by (simp add: Track_descriptor)
  then show ?thesis using field_lengths(1) [of 1 track] by (simp add: Track_descriptor)
next
  case (Counter_descriptor ts seq track name unit)
  assume "packet_ok p"
  then have "length (write_text_field 2 name) < 2 ^ 60 + 20" using text_field_length [of name 2] by (simp add: Counter_descriptor)
  then show ?thesis
    using field_lengths(1) [of 1 track] field_lengths(1) [of 3 "unit_code unit"]
      field_lengths(2) [of 8 "write_varint_field 3 (unit_code unit)"] by (simp add: Counter_descriptor)
next
  case (Int_sample ts seq track v)
  then show ?thesis using field_lengths(1) [of 9 4] field_lengths(1) [of 11 track] field_lengths(1) [of 30 v] by simp
next
  case (Double_sample ts seq track bits)
  then show ?thesis using field_lengths(1) [of 9 4] field_lengths(1) [of 11 track] field_lengths(3) [of 44 bits] by simp
qed

lemma read_text_field: "n < 1024 \<Longrightarrow> text_ok s \<Longrightarrow> read_field (write_text_field n s @ rest) = Some ((n, Bytes (text_bytes s)), rest)"
  unfolding text_field_bytes by (rule read_bytes_field) (auto simp: text_ok_def text_bytes_def fits_def)

lemma read_unit_field:
  "read_field (write_length_delimited 8 (write_varint_field 3 v) @ rest) = Some ((8, Bytes (write_varint_field 3 v)), rest)"
  by (rule read_bytes_field) (use field_lengths(1) [of 3 v] in \<open>simp_all add: fits_def\<close>)

lemmas read_message_steps = read_message_field [OF read_varint_field] read_message_field [OF read_varint_field, of _ _ "[]", simplified]
  read_message_field [OF read_text_field] read_message_field [OF read_text_field, of _ _ "[]", simplified]
  read_message_field [OF read_fixed64_field, of _ _ "[]", simplified]
  read_message_field [OF read_unit_field, of _ "[]", simplified]

lemma read_inner: "packet_ok p \<Longrightarrow> read_message (inner_bytes p) = Some (inner_fields p)"
  by (cases p) (simp_all add: read_message_steps)

lemma read_body: "packet_ok p \<Longrightarrow> read_packet (1, Bytes (packet_body p)) = Some (view_packet p)"
proof -
  assume ok: "packet_ok p"
  let ?m = "if is_descriptor p then 60 else 11 :: u64"
  have "read_message (write_length_delimited ?m (inner_bytes p) @ []) = map_option ((#) (?m, Bytes (inner_bytes p))) (read_message [])"
    by (rule read_message_field, rule read_bytes_field) (use inner_length [OF ok] in \<open>simp_all add: fits_def\<close>)
  then have "read_message (packet_body p) =
      Some [(8, Varint (fst (packet_time p))), (10, Varint (ucast (snd (packet_time p)))), (?m, Bytes (inner_bytes p))]"
    by (simp add: packet_body_def read_message_steps)
  moreover have "ucast (ucast w :: u64) = w" for w :: u32 by (rule bit_word_eqI) (simp add: bit_ucast_iff)
  ultimately show ?thesis
    by (simp add: read_packet_def read_inner [OF ok] view_packet_def prod_eq_iff)
qed

lemma packet_body_length: "packet_ok p \<Longrightarrow> fits (length (packet_body p))"
  using inner_length [of p] field_lengths(1) [of 8 "fst (packet_time p)"] field_lengths(1) [of 10 "ucast (snd (packet_time p))"]
    field_lengths(2) [of "if is_descriptor p then 60 else 11" "inner_bytes p"]
  by (simp add: fits_def packet_body_def)

text \<open>
  A trace file, the concatenation of whatever packets the five encoders made, is read with the protobuf wire format
  as exactly these packets in this order, each with its time stamp, its sequence and the fields of its event or
  descriptor, and nothing is left over.
\<close>

lemma trace_reads_back:
  assumes "list_all packet_ok ps"
  shows "read_trace (concat (map encode_packet ps)) = Some (map view_packet ps)"
proof -
  have "read_message (concat (map encode_packet ps)) = Some (map (\<lambda>p. (1, Bytes (packet_body p))) ps)"
    using assms
  proof (induction ps)
    case (Cons p ps)
    have "read_field (encode_packet p @ concat (map encode_packet ps)) =
        Some ((1, Bytes (packet_body p)), concat (map encode_packet ps))"
      unfolding encode_packet_eq by (rule read_bytes_field) (use Cons.prems in \<open>simp_all add: packet_body_length\<close>)
    from read_message_field [OF this] show ?case using Cons by simp
  qed simp
  moreover have "those (map (read_packet \<circ> (\<lambda>p. (1, Bytes (packet_body p)))) ps) = Some (map view_packet ps)"
    using assms by (induction ps) (simp_all add: read_body)
  ultimately show ?thesis by (simp add: read_trace_def)
qed

end
