(* ===== verification/Recorder.thy ===== *)
theory Recorder
  imports Perfetto Object
begin

text \<open>
  The recording side of the profiler: the recorder (src/src/rmi/shared/profiling.hpp) with its buffer, its tracks and
  its flushes, and the client's recorder (src/src/rmi/client/profiler_client.cpp), which sends its batches to the server and obeys the
  server's answer.
\<close>

section \<open>State\<close>

record raw_event =
  e_time :: u64
  e_track :: u64
  e_name :: string
  e_type :: event_type
  e_int :: u64
  e_double :: u64
  e_is_double :: bool

text \<open>
  \<open>r_joinable\<close> says that \<open>flush_thread_\<close> stands for a thread that was not joined yet; \<open>r_sent\<close> lists the
  blocks handed to the sink. The thread-local track of a
  thread (its number and its name) belongs to the thread, not to a recorder: it is a table of its own.
\<close>

record recorder =
  r_sequence :: u32
  r_active :: bool
  r_next_thread :: u64
  r_next_counter :: u64
  r_buffer :: "raw_event list"
  r_names :: "u64 \<Rightarrow> string option"
  r_counters :: "string \<Rightarrow> u64 option"
  r_units :: "u64 \<Rightarrow> counter_unit option"
  r_emitted :: "u64 set"
  r_joinable :: bool
  r_stopping :: bool
  r_sent :: "buffer list"

type_synonym tracks = "nat \<Rightarrow> u64 \<times> string"

definition new_recorder :: "u32 \<Rightarrow> recorder" where
  "new_recorder sequence =
     \<lparr> r_sequence = sequence, r_active = False, r_next_thread = 1, r_next_counter = 1, r_buffer = [],
       r_names = Map.empty, r_counters = Map.empty, r_units = Map.empty, r_emitted = {},
       r_joinable = False, r_stopping = False, r_sent = [] \<rparr>"

definition kCounterTrackFlag :: u64 where
  "kCounterTrackFlag = push_bit 31 1"

definition kFlushEventThreshold :: nat where
  "kFlushEventThreshold = 2048"

section \<open>Recording\<close>

text \<open>\<open>(sequence << 32) | index\<close>, where the index is cut to 32 bits.\<close>

definition track_number :: "u32 \<Rightarrow> u64 \<Rightarrow> u64" where
  "track_number sequence index = push_bit 32 (ucast sequence) OR ucast (ucast index :: u32)"

text \<open>The track of the calling thread \<open>t\<close>; \<open>thread_text\<close> prints a thread id.\<close>

definition thread_track_uuid :: "(nat \<Rightarrow> string) \<Rightarrow> nat \<Rightarrow> tracks \<Rightarrow> recorder \<Rightarrow> u64 \<times> tracks \<times> recorder" where
  "thread_track_uuid thread_text t tls r =
     (case tls t of (track, name) \<Rightarrow>
        if track \<noteq> 0 then (track, tls, r)
        else
          let uuid = track_number (r_sequence r) (r_next_thread r);
              name' = (if name = [] then ''thread-'' @ thread_text t else name)
          in (uuid, tls(t := (uuid, name')),
              r\<lparr>r_next_thread := r_next_thread r + 1, r_names := (r_names r)(uuid \<mapsto> name')\<rparr>))"

definition counter_track_uuid :: "string \<Rightarrow> recorder \<Rightarrow> u64 \<times> recorder" where
  "counter_track_uuid name r = (case r_counters r name of
       Some uuid \<Rightarrow> (uuid, r)
     | None \<Rightarrow>
         let uuid = track_number (r_sequence r) (r_next_counter r) OR kCounterTrackFlag
         in (uuid, r\<lparr>r_next_counter := r_next_counter r + 1, r_counters := (r_counters r)(name \<mapsto> uuid),
                      r_names := (r_names r)(uuid \<mapsto> name)\<rparr>))"

text \<open>\<open>push\<close>; the result says whether the flush thread is woken.\<close>

definition push_event :: "raw_event \<Rightarrow> recorder \<Rightarrow> recorder" where
  "push_event e r = r\<lparr>r_buffer := r_buffer r @ [e]\<rparr>"

definition wakes_flusher :: "recorder \<Rightarrow> bool" where
  "wakes_flusher r \<longleftrightarrow> kFlushEventThreshold \<le> length (r_buffer r)"

definition plain_event :: "u64 \<Rightarrow> u64 \<Rightarrow> string \<Rightarrow> event_type \<Rightarrow> raw_event" where
  "plain_event time track name type =
     \<lparr> e_time = time, e_track = track, e_name = name, e_type = type, e_int = 0, e_double = 0, e_is_double = False \<rparr>"

text \<open>\<open>record\<close> after its test of \<open>capture_active_\<close>, and the whole of it.\<close>

definition record_passed :: "(nat \<Rightarrow> string) \<Rightarrow> nat \<Rightarrow> u64 \<Rightarrow> event_type \<Rightarrow> string \<Rightarrow> tracks \<Rightarrow> recorder \<Rightarrow> tracks \<times> recorder" where
  "record_passed thread_text t now type name tls r =
     (case thread_track_uuid thread_text t tls r of (uuid, tls', r') \<Rightarrow>
        (tls', push_event (plain_event now uuid name type) r'))"

definition record_event :: "(nat \<Rightarrow> string) \<Rightarrow> nat \<Rightarrow> u64 \<Rightarrow> event_type \<Rightarrow> string \<Rightarrow> tracks \<Rightarrow> recorder \<Rightarrow> tracks \<times> recorder" where
  "record_event thread_text t now type name tls r =
     (if \<not> r_active r then (tls, r) else record_passed thread_text t now type name tls r)"

definition record_slice_begin :: "(nat \<Rightarrow> string) \<Rightarrow> nat \<Rightarrow> u64 \<Rightarrow> string \<Rightarrow> tracks \<Rightarrow> recorder \<Rightarrow> tracks \<times> recorder" where
  "record_slice_begin thread_text t now name = record_event thread_text t now Slice_begin name"

definition record_slice_end :: "(nat \<Rightarrow> string) \<Rightarrow> nat \<Rightarrow> u64 \<Rightarrow> tracks \<Rightarrow> recorder \<Rightarrow> tracks \<times> recorder" where
  "record_slice_end thread_text t now = record_event thread_text t now Slice_end []"

definition record_instant :: "(nat \<Rightarrow> string) \<Rightarrow> nat \<Rightarrow> u64 \<Rightarrow> string \<Rightarrow> tracks \<Rightarrow> recorder \<Rightarrow> tracks \<times> recorder" where
  "record_instant thread_text t now name = record_event thread_text t now Instant_event name"

definition int_passed :: "u64 \<Rightarrow> string \<Rightarrow> u64 \<Rightarrow> recorder \<Rightarrow> recorder" where
  "int_passed now name v r = (case counter_track_uuid name r of (uuid, r') \<Rightarrow>
     push_event ((plain_event now uuid [] Counter_event)\<lparr>e_int := v\<rparr>) r')"

definition double_passed :: "u64 \<Rightarrow> string \<Rightarrow> u64 \<Rightarrow> recorder \<Rightarrow> recorder" where
  "double_passed now name bits r = (case counter_track_uuid name r of (uuid, r') \<Rightarrow>
     push_event ((plain_event now uuid [] Counter_event)\<lparr>e_double := bits, e_is_double := True\<rparr>) r')"

definition record_counter_int :: "u64 \<Rightarrow> string \<Rightarrow> u64 \<Rightarrow> recorder \<Rightarrow> recorder" where
  "record_counter_int now name v r = (if \<not> r_active r then r else int_passed now name v r)"

definition record_counter_double :: "u64 \<Rightarrow> string \<Rightarrow> u64 \<Rightarrow> recorder \<Rightarrow> recorder" where
  "record_counter_double now name bits r = (if \<not> r_active r then r else double_passed now name bits r)"

definition set_counter_unit :: "string \<Rightarrow> counter_unit \<Rightarrow> recorder \<Rightarrow> recorder" where
  "set_counter_unit name unit r = (case counter_track_uuid name r of (uuid, r') \<Rightarrow>
     r'\<lparr>r_units := (r_units r')(uuid \<mapsto> unit)\<rparr>)"

definition set_thread_track_name :: "nat \<Rightarrow> string \<Rightarrow> tracks \<Rightarrow> tracks" where
  "set_thread_track_name t name tls = tls(t := (fst (tls t), name))"

section \<open>Flushing\<close>

text \<open>The packet of an event, and the descriptor of its track when this is the track's first event.\<close>

definition event_packet :: "u32 \<Rightarrow> raw_event \<Rightarrow> packet" where
  "event_packet sequence e =
     (if e_type e = Counter_event
      then if e_is_double e then Double_sample (e_time e) sequence (e_track e) (e_double e)
           else Int_sample (e_time e) sequence (e_track e) (e_int e)
      else Track_event (e_time e) sequence (e_track e) (e_type e) (e_name e))"

definition descriptor_packet :: "recorder \<Rightarrow> raw_event \<Rightarrow> packet" where
  "descriptor_packet r e =
     (let track_name = (case r_names r (e_track e) of Some name \<Rightarrow> name | None \<Rightarrow> [])
      in if e_type e = Counter_event
         then Counter_descriptor (e_time e) (r_sequence r) (e_track e) track_name
           (case r_units r (e_track e) of Some unit \<Rightarrow> unit | None \<Rightarrow> Unspecified_unit)
         else Track_descriptor (e_time e) (r_sequence r) (e_track e) track_name)"

fun flush_events :: "raw_event list \<Rightarrow> recorder \<Rightarrow> packet list \<times> recorder" where
  "flush_events [] r = ([], r)"
| "flush_events (e # batch) r =
     (let r1 = r\<lparr>r_emitted := insert (e_track e) (r_emitted r)\<rparr>;
          descriptor = (if e_track e \<in> r_emitted r then [] else [descriptor_packet r e])
      in case flush_events batch r1 of (ps, r2) \<Rightarrow> (descriptor @ event_packet (r_sequence r) e # ps, r2))"

definition encoded_batch :: "packet list \<Rightarrow> buffer" where
  "encoded_batch ps = concat (map encode_packet ps)"

text \<open>The rest of \<open>flush_once\<close> after \<open>batch.swap(*lp)\<close>, up to the bytes it hands to the sink.\<close>

definition encode_taken :: "raw_event list \<Rightarrow> recorder \<Rightarrow> buffer \<times> recorder" where
  "encode_taken batch r = (case flush_events batch r of (ps, r') \<Rightarrow> (encoded_batch ps, r'))"

section \<open>Starting and stopping\<close>

text \<open>
  Which thread runs the code matters: a thread that joins itself gets an exception
  (\<open>resource_deadlock_would_occur\<close>), and assigning a new thread to a \<open>std::thread\<close> that is joinable ends the process.
\<close>

datatype runs_on = Flush_thread | Other_thread

datatype control = Continues recorder "bool result list" | Throws recorder "bool result list" | Terminates

definition start_flush_thread :: "recorder \<Rightarrow> bool result list \<Rightarrow> control" where
  "start_flush_thread r answers =
     (if r_joinable r then Terminates else Continues (r\<lparr>r_stopping := False, r_joinable := True\<rparr>) answers)"

definition stop_flush_thread :: "runs_on \<Rightarrow> recorder \<Rightarrow> bool result list \<Rightarrow> control" where
  "stop_flush_thread me r answers =
     (let r1 = r\<lparr>r_stopping := True\<rparr>
      in if \<not> r_joinable r then Continues r1 answers
         else if me = Flush_thread then Throws r1 answers
         else Continues (r1\<lparr>r_joinable := False\<rparr>) answers)"

text \<open>
  \<open>set_capture_active\<close>, \<open>flush_once\<close> and the client's \<open>flush_sink\<close>, which call each other. The server's answers
  to the blocks are given in order: whether it still captures, or the failure of the call; no answer left is a lost
  connection. An exception of the switch that follows a good answer is caught like a failure of the call.
\<close>

function set_capture_active :: "runs_on \<Rightarrow> bool \<Rightarrow> recorder \<Rightarrow> bool result list \<Rightarrow> control"
  and flush_once :: "runs_on \<Rightarrow> recorder \<Rightarrow> bool result list \<Rightarrow> control"
  and flush_sink :: "runs_on \<Rightarrow> buffer \<Rightarrow> recorder \<Rightarrow> bool result list \<Rightarrow> control" where
  "set_capture_active me active r answers =
     (if active = r_active r then Continues r answers
      else if active then start_flush_thread (r\<lparr>r_active := True\<rparr>) answers
      else case flush_once me (r\<lparr>r_active := False\<rparr>) answers of
        Continues r1 answers1 \<Rightarrow> stop_flush_thread me r1 answers1
      | Throws r1 answers1 \<Rightarrow> Throws r1 answers1
      | Terminates \<Rightarrow> Terminates)"
| "flush_once me r answers =
     (if r_buffer r = [] then Continues r answers
      else case encode_taken (r_buffer r) (r\<lparr>r_buffer := []\<rparr>) of (bytes, r1) \<Rightarrow> flush_sink me bytes r1 answers)"
| "flush_sink me bytes r answers =
     (case answers of
        [] \<Rightarrow> set_capture_active me False (r\<lparr>r_sent := r_sent r @ [bytes]\<rparr>) []
      | answer # answers1 \<Rightarrow> (case answer of
          Inl e \<Rightarrow> set_capture_active me False (r\<lparr>r_sent := r_sent r @ [bytes]\<rparr>) answers1
        | Inr active \<Rightarrow> (case set_capture_active me active (r\<lparr>r_sent := r_sent r @ [bytes]\<rparr>) answers1 of
            Continues r1 answers2 \<Rightarrow> Continues r1 answers2
          | Throws r1 answers2 \<Rightarrow> set_capture_active me False r1 answers2
          | Terminates \<Rightarrow> Terminates)))"
  by pat_completeness auto

text \<open>
  They end: a switch or a flush makes a few nested calls, each of which finds the buffer empty, since nothing is
  recorded meanwhile.
\<close>

lemma flush_events_keep: "flush_events batch r = (ps, r') \<Longrightarrow> r' = r\<lparr>r_emitted := r_emitted r'\<rparr>"
proof (induction batch arbitrary: r ps r')
  case (Cons e batch)
  then obtain qs where "flush_events batch (r\<lparr>r_emitted := insert (e_track e) (r_emitted r)\<rparr>) = (qs, r')"
    by (auto simp: Let_def split: prod.splits)
  from Cons.IH [OF this] show ?case by simp
qed simp

lemma encode_taken_keeps: "encode_taken batch r = (bytes, r') \<Longrightarrow> r' = r\<lparr>r_emitted := r_emitted r'\<rparr>"
  by (auto simp: encode_taken_def split: prod.splits dest: flush_events_keep)

lemma encode_taken_buffer: "encode_taken batch r = (bytes, r') \<Longrightarrow> r_buffer r' = r_buffer r"
  by (drule encode_taken_keeps) (metis recorder.select_convs(5) recorder.surjective recorder.update_convs(9))

definition leaves_empty :: "control \<Rightarrow> bool" where
  "leaves_empty c = (case c of Continues r _ \<Rightarrow> r_buffer r = [] | Throws r _ \<Rightarrow> r_buffer r = [] | Terminates \<Rightarrow> True)"

lemma leaves_empty_simps:
  "leaves_empty (Continues r answers) = (r_buffer r = [])" "leaves_empty (Throws r answers) = (r_buffer r = [])"
  "leaves_empty Terminates"
  by (simp_all add: leaves_empty_def)

lemma stop_leaves_empty: "r_buffer r = [] \<Longrightarrow> leaves_empty (stop_flush_thread me r answers)"
  by (simp add: stop_flush_thread_def leaves_empty_def Let_def)

lemma start_leaves_empty: "r_buffer r = [] \<Longrightarrow> leaves_empty (start_flush_thread r answers)"
  by (simp add: start_flush_thread_def leaves_empty_def)

lemma flush_leaves_empty:
  "set_capture_active_flush_once_flush_sink_dom (Inl (me, active, r, answers)) \<Longrightarrow> r_buffer r = [] \<or> (r_active r \<and> \<not> active) \<Longrightarrow>
     leaves_empty (set_capture_active me active r answers)"
  "set_capture_active_flush_once_flush_sink_dom (Inr (Inl (me, r, answers))) \<Longrightarrow> leaves_empty (flush_once me r answers)"
  "set_capture_active_flush_once_flush_sink_dom (Inr (Inr (me, bytes, r, answers))) \<Longrightarrow> r_buffer r = [] \<Longrightarrow>
     leaves_empty (flush_sink me bytes r answers)"
proof (induction me active r answers and me r answers and me bytes r answers
    rule: set_capture_active_flush_once_flush_sink.pinduct)
  case (1 me active r answers)
  show ?case
  proof (cases "active = r_active r \<or> active")
    case True
    then show ?thesis using 1 by (auto simp: set_capture_active.psimps start_leaves_empty leaves_empty_simps)
  next
    case False
    then have "leaves_empty (flush_once me (r\<lparr>r_active := False\<rparr>) answers)" using 1 by auto
    then show ?thesis using 1(1) False
      by (auto simp: set_capture_active.psimps stop_leaves_empty leaves_empty_simps split: control.splits)
  qed
next
  case (2 me r answers)
  show ?case
  proof (cases "r_buffer r = []")
    case True
    then show ?thesis using 2(1) by (simp add: flush_once.psimps leaves_empty_simps)
  next
    case False
    obtain bytes r1 where e: "encode_taken (r_buffer r) (r\<lparr>r_buffer := []\<rparr>) = (bytes, r1)" by (metis surj_pair)
    then have "leaves_empty (flush_sink me bytes r1 answers)"
      using 2(2) [OF False e [symmetric]] encode_taken_buffer [OF e] by simp
    then show ?thesis using 2(1) False e by (simp add: flush_once.psimps)
  qed
next
  case (3 me bytes r answers)
  note ps = flush_sink.psimps [OF 3(1)]
  show ?case
  proof (cases answers)
    case Nil
    then show ?thesis using 3(2) [OF Nil] 3(6) unfolding ps by simp
  next
    case (Cons answer rest)
    show ?thesis
    proof (cases answer)
      case (Inl e)
      then show ?thesis using 3(3) [OF Cons Inl] 3(6) Cons unfolding ps by simp
    next
      case (Inr active)
      have first: "leaves_empty (set_capture_active me active (r\<lparr>r_sent := r_sent r @ [bytes]\<rparr>) rest)"
        using 3(4) [OF Cons Inr] 3(6) by simp
      show ?thesis
      proof (cases "set_capture_active me active (r\<lparr>r_sent := r_sent r @ [bytes]\<rparr>) rest")
        case (Throws r1 answers2)
        then show ?thesis using 3(5) [OF Cons Inr Throws] first Cons Inr unfolding ps by (simp add: leaves_empty_simps)
      qed (use first Cons Inr in \<open>simp_all add: ps [unfolded Cons Inr]\<close>)
    qed
  qed
qed

termination set_capture_active
  by (relation "measure (\<lambda>x. case x of
        Inl (me, active, r, answers) \<Rightarrow> if r_buffer r = [] then 1 else 4
      | Inr (Inl (me, r, answers)) \<Rightarrow> if r_buffer r = [] then 0 else 3
      | Inr (Inr (me, bytes, r, answers)) \<Rightarrow> if r_buffer r = [] then 2 else 5)")
    (auto dest: encode_taken_buffer [OF sym] flush_leaves_empty(1) simp: leaves_empty_simps)

declare set_capture_active.simps [simp del] flush_once.simps [simp del] flush_sink.simps [simp del]

text \<open>
  One round of \<open>flush_loop\<close> after its wait (which ends by itself every \<open>kFlushInterval\<close>): an exception that leaves it
  leaves the thread's function and ends the process. \<open>stop\<close>, which the destructors call, runs on another thread.
\<close>

definition flush_round :: "recorder \<Rightarrow> bool result list \<Rightarrow> control" where
  "flush_round r answers = (case flush_once Flush_thread r answers of
       Continues r1 answers1 \<Rightarrow> Continues r1 answers1
     | Throws r1 answers1 \<Rightarrow> Terminates
     | Terminates \<Rightarrow> Terminates)"

definition stop_recorder :: "recorder \<Rightarrow> bool result list \<Rightarrow> control" where
  "stop_recorder r answers = set_capture_active Other_thread False r answers"

section \<open>Runs\<close>

text \<open>
  What the threads of a process do with a recorder. A thread's parts of one recording (taking its track, pushing the
  event) touch nothing another thread's recording or a flush reads in between, so that each is one action.
\<close>

datatype trace_action =
    Begins nat u64 string
  | Ends nat u64
  | Marks nat u64 string
  | Counts u64 string u64
  | Counts_double u64 string u64
  | Sets_unit string counter_unit
  | Names_thread nat string
  | Flushes
  | Switches bool

record process =
  p_tracks :: tracks
  p_recorder :: recorder
  p_answers :: "bool result list"
  p_log :: "raw_event list"

text \<open>\<open>p_log\<close> lists every event that was pushed; it is there to speak of them.\<close>

definition recorded :: "tracks \<times> recorder \<Rightarrow> process \<Rightarrow> process" where
  "recorded tr p = p\<lparr>p_tracks := fst tr, p_recorder := snd tr,
     p_log := p_log p @ drop (length (r_buffer (p_recorder p))) (r_buffer (snd tr))\<rparr>"

definition controlled :: "control \<Rightarrow> process \<Rightarrow> process option" where
  "controlled c p = (case c of
       Continues r answers \<Rightarrow> Some (p\<lparr>p_recorder := r, p_answers := answers\<rparr>)
     | Throws r answers \<Rightarrow> None
     | Terminates \<Rightarrow> None)"

fun perform :: "(nat \<Rightarrow> string) \<Rightarrow> trace_action \<Rightarrow> process \<Rightarrow> process option" where
  "perform tt (Begins t now name) p = Some (recorded (record_slice_begin tt t now name (p_tracks p) (p_recorder p)) p)"
| "perform tt (Ends t now) p = Some (recorded (record_slice_end tt t now (p_tracks p) (p_recorder p)) p)"
| "perform tt (Marks t now name) p = Some (recorded (record_instant tt t now name (p_tracks p) (p_recorder p)) p)"
| "perform tt (Counts now name v) p = Some (recorded (p_tracks p, record_counter_int now name v (p_recorder p)) p)"
| "perform tt (Counts_double now name bits) p = Some (recorded (p_tracks p, record_counter_double now name bits (p_recorder p)) p)"
| "perform tt (Sets_unit name unit) p = Some (p\<lparr>p_recorder := set_counter_unit name unit (p_recorder p)\<rparr>)"
| "perform tt (Names_thread t name) p = Some (p\<lparr>p_tracks := set_thread_track_name t name (p_tracks p)\<rparr>)"
| "perform tt Flushes p = controlled (flush_round (p_recorder p) (p_answers p)) p"
| "perform tt (Switches active) p = controlled (set_capture_active Other_thread active (p_recorder p) (p_answers p)) p"

fun performs :: "(nat \<Rightarrow> string) \<Rightarrow> trace_action list \<Rightarrow> process \<Rightarrow> process option" where
  "performs tt [] p = Some p"
| "performs tt (a # as) p = (case perform tt a p of None \<Rightarrow> None | Some p' \<Rightarrow> performs tt as p')"

definition attached :: "u32 \<Rightarrow> bool result list \<Rightarrow> process" where
  "attached sequence answers = \<lparr> p_tracks = (\<lambda>_. (0, [])), p_recorder = new_recorder sequence, p_answers = answers, p_log = [] \<rparr>"

section \<open>What reaches the file\<close>

fun packet_track :: "packet \<Rightarrow> u64" where
  "packet_track (Track_event ts seq track type name) = track"
| "packet_track (Track_descriptor ts seq track name) = track"
| "packet_track (Counter_descriptor ts seq track name unit) = track"
| "packet_track (Int_sample ts seq track v) = track"
| "packet_track (Double_sample ts seq track bits) = track"

text \<open>Each track is described exactly once, before its first event.\<close>

fun described :: "u64 set \<Rightarrow> packet list \<Rightarrow> bool" where
  "described D [] = True"
| "described D (p # ps) =
     (if is_descriptor p then packet_track p \<notin> D \<and> described (insert (packet_track p) D) ps
      else packet_track p \<in> D \<and> described D ps)"

definition described_tracks :: "packet list \<Rightarrow> u64 set" where
  "described_tracks ps = packet_track ` {p \<in> set ps. is_descriptor p}"

abbreviation event_packets :: "packet list \<Rightarrow> packet list" where
  "event_packets \<equiv> filter (\<lambda>p. \<not> is_descriptor p)"

lemma described_tracks_simps [simp]:
  "described_tracks [] = {}"
  "described_tracks (p # ps) = (if is_descriptor p then insert (packet_track p) (described_tracks ps) else described_tracks ps)"
  "described_tracks (ps @ qs) = described_tracks ps \<union> described_tracks qs"
  by (auto simp: described_tracks_def)

lemma described_append: "described D (ps @ qs) \<longleftrightarrow> described D ps \<and> described (D \<union> described_tracks ps) qs"
  by (induction ps arbitrary: D) (auto simp: insert_commute)

lemma event_packet_simps [simp]: "packet_track (event_packet s e) = e_track e" "\<not> is_descriptor (event_packet s e)"
  by (simp_all add: event_packet_def is_descriptor_def)

lemma descriptor_packet_simps [simp]: "packet_track (descriptor_packet r e) = e_track e" "is_descriptor (descriptor_packet r e)"
  by (simp_all add: descriptor_packet_def is_descriptor_def Let_def)

text \<open>Every name the recorder may write is short enough for its count.\<close>

definition names_ok :: "recorder \<Rightarrow> bool" where
  "names_ok r \<longleftrightarrow> (\<forall>track name. r_names r track = Some name \<longrightarrow> text_ok name) \<and> (\<forall>e \<in> set (r_buffer r). text_ok (e_name e))"

lemma flush_events_spec:
  assumes "flush_events batch r = (ps, r')" and "\<forall>e \<in> set batch. text_ok (e_name e)"
    and "\<forall>track name. r_names r track = Some name \<longrightarrow> text_ok name"
  shows "described (r_emitted r) ps \<and> r_emitted r' = r_emitted r \<union> described_tracks ps \<and> list_all packet_ok ps \<and>
     event_packets ps = map (event_packet (r_sequence r)) batch"
  using assms
proof (induction batch arbitrary: r ps r')
  case (Cons e batch)
  let ?r1 = "r\<lparr>r_emitted := insert (e_track e) (r_emitted r)\<rparr>"
  obtain qs where q: "flush_events batch ?r1 = (qs, r')" using Cons.prems(1) by (auto simp: Let_def split: prod.splits)
  have ps: "ps = (if e_track e \<in> r_emitted r then [] else [descriptor_packet r e]) @ event_packet (r_sequence r) e # qs"
    using Cons.prems(1) q by (auto simp: Let_def split: prod.splits)
  have ok: "packet_ok (event_packet (r_sequence r) e)" "packet_ok (descriptor_packet r e)"
    using Cons.prems(2,3) by (auto simp: event_packet_def descriptor_packet_def Let_def text_ok_def split: option.splits)
  note ih = Cons.IH [OF q] 
  show ?case
  proof (cases "e_track e \<in> r_emitted r")
    case True
    then have "?r1 = r" by (simp add: insert_absorb)
    then show ?thesis using ih Cons.prems(2,3) ok True by (simp add: ps)
  next
    case False
    then show ?thesis using ih Cons.prems(2,3) ok by (simp add: ps)
  qed
qed simp

text \<open>
  The blocks sent so far are packets, in which each track is described once before its first event; with what is still
  buffered they hold every event of the log, in order.
\<close>

definition conveyed :: "u32 \<Rightarrow> raw_event list \<Rightarrow> recorder \<Rightarrow> bool" where
  "conveyed s events r \<longleftrightarrow> r_sequence r = s \<and> names_ok r \<and> (\<exists>ps old. concat (r_sent r) = encoded_batch ps \<and> list_all packet_ok ps \<and>
     described {} ps \<and> described_tracks ps = r_emitted r \<and> events = old @ r_buffer r \<and>
     event_packets ps = map (event_packet s) old)"

lemma conveyed_flags [simp]:
  "conveyed s log (r\<lparr>r_active := b\<rparr>) = conveyed s log r"
  "conveyed s log (r\<lparr>r_joinable := b\<rparr>) = conveyed s log r"
  "conveyed s log (r\<lparr>r_stopping := b\<rparr>) = conveyed s log r"
  "conveyed s log (r\<lparr>r_units := u\<rparr>) = conveyed s log r"
  by (simp_all add: conveyed_def names_ok_def)

lemma conveyed_flush:
  assumes c: "conveyed s log r" and e: "encode_taken (r_buffer r) (r\<lparr>r_buffer := []\<rparr>) = (bytes, r1)"
  shows "conveyed s log (r1\<lparr>r_sent := r_sent r1 @ [bytes]\<rparr>)"
proof -
  let ?r = "r\<lparr>r_buffer := []\<rparr>"
  obtain qs where f: "flush_events (r_buffer r) ?r = (qs, r1)" and b: "bytes = encoded_batch qs"
    using e by (auto simp: encode_taken_def split: prod.splits)
  obtain ps old where p: "concat (r_sent r) = encoded_batch ps" "list_all packet_ok ps" "described {} ps"
     "described_tracks ps = r_emitted r" "log = old @ r_buffer r" "event_packets ps = map (event_packet (r_sequence r)) old"
    using c by (auto simp: conveyed_def)
  have q: "described (r_emitted r) qs \<and> r_emitted r1 = r_emitted r \<union> described_tracks qs \<and> list_all packet_ok qs \<and>
     event_packets qs = map (event_packet (r_sequence r)) (r_buffer r)"
    using flush_events_spec [OF f] c by (simp add: conveyed_def names_ok_def)
  have k: "r1 = ?r\<lparr>r_emitted := r_emitted r1\<rparr>" by (rule flush_events_keep [OF f])
  have "r_sent r1 = r_sent r" "r_names r1 = r_names r" "r_buffer r1 = []" "r_sequence r1 = r_sequence r"
    by (subst k, simp)+
  then show ?thesis using c p q b
    by (auto simp: conveyed_def names_ok_def encoded_batch_def described_append intro!: exI [of _ "ps @ qs"])
qed

definition conveyed_control :: "u32 \<Rightarrow> raw_event list \<Rightarrow> control \<Rightarrow> bool" where
  "conveyed_control s log c = (case c of Continues r _ \<Rightarrow> conveyed s log r | Throws r _ \<Rightarrow> conveyed s log r | Terminates \<Rightarrow> True)"

lemma conveyed_control_simps [simp]:
  "conveyed_control s log (Continues r answers) = conveyed s log r" "conveyed_control s log (Throws r answers) = conveyed s log r"
  "conveyed_control s log Terminates"
  by (simp_all add: conveyed_control_def)

lemma conveyed_start: "conveyed s log r \<Longrightarrow> conveyed_control s log (start_flush_thread r answers)"
  by (simp add: start_flush_thread_def)

lemma conveyed_stop: "conveyed s log r \<Longrightarrow> conveyed_control s log (stop_flush_thread me r answers)"
  by (simp add: stop_flush_thread_def Let_def)

lemma conveyed_control:
  "conveyed s log r \<Longrightarrow> conveyed_control s log (set_capture_active me active r answers)"
  "conveyed s log r \<Longrightarrow> conveyed_control s log (flush_once me r answers)"
  "conveyed s log (r\<lparr>r_sent := r_sent r @ [bytes]\<rparr>) \<Longrightarrow> conveyed_control s log (flush_sink me bytes r answers)"
proof (induction me active r answers and me r answers and me bytes r answers
    rule: set_capture_active_flush_once_flush_sink.induct)
  case (1 me active r answers)
  show ?case
  proof (cases "active = r_active r \<or> active")
    case False
    then have off: "r_active r" "\<not> active" by auto
    then have "conveyed_control s log (flush_once me (r\<lparr>r_active := False\<rparr>) answers)" using 1 by auto
    then show ?thesis using off
      by (cases "flush_once me (r\<lparr>r_active := False\<rparr>) answers") (simp_all add: set_capture_active.simps [of me] conveyed_stop)
  qed (use 1(2) in \<open>auto simp: set_capture_active.simps [of me active] conveyed_start\<close>)
next
  case (2 me r answers)
  show ?case
  proof (cases "r_buffer r = []")
    case False
    obtain bytes r1 where e: "encode_taken (r_buffer r) (r\<lparr>r_buffer := []\<rparr>) = (bytes, r1)" by (metis surj_pair)
    then show ?thesis using 2(1) [OF False e [symmetric] conveyed_flush [OF 2(2) e]] False e
      by (simp add: flush_once.simps [of me])
  qed (use 2(2) in \<open>simp add: flush_once.simps [of me]\<close>)
next
  case (3 me bytes r answers)
  show ?case
  proof (cases answers)
    case Nil
    then show ?thesis using 3(1,5) by (simp add: flush_sink.simps [of me])
  next
    case (Cons answer rest)
    show ?thesis
    proof (cases answer)
      case (Inl e)
      then show ?thesis using 3(2) [OF Cons Inl 3(5)] Cons by (simp add: flush_sink.simps [of me])
    next
      case (Inr active)
      note first = 3(3) [OF Cons Inr 3(5)]
      show ?thesis
      proof (cases "set_capture_active me active (r\<lparr>r_sent := r_sent r @ [bytes]\<rparr>) rest")
        case (Throws r1 answers2)
        then show ?thesis using 3(4) [OF Cons Inr Throws] first Cons Inr by (simp add: flush_sink.simps [of me])
      qed (use first Cons Inr in \<open>simp_all add: flush_sink.simps [of me]\<close>)
    qed
  qed
qed

text \<open>Recording keeps it.\<close>

lemma conveyed_push: "conveyed s log r \<Longrightarrow> text_ok (e_name e) \<Longrightarrow> conveyed s (log @ [e]) (push_event e r)"
  by (auto simp: conveyed_def push_event_def names_ok_def)

lemma conveyed_name:
  "conveyed s log r \<Longrightarrow> text_ok name \<Longrightarrow> conveyed s log (r\<lparr>r_names := (r_names r)(track \<mapsto> name)\<rparr>)"
  "conveyed s log (r\<lparr>r_next_thread := n\<rparr>) = conveyed s log r"
  "conveyed s log (r\<lparr>r_next_counter := n\<rparr>) = conveyed s log r"
  "conveyed s log (r\<lparr>r_counters := m\<rparr>) = conveyed s log r"
  by (auto simp: conveyed_def names_ok_def)

definition tracks_ok :: "tracks \<Rightarrow> bool" where
  "tracks_ok tls \<longleftrightarrow> (\<forall>t. text_ok (snd (tls t)))"

lemma thread_track_keeps:
  assumes "thread_track_uuid tt t tls r = (uuid, tls', r')" and "text_ok (''thread-'' @ tt t)"
    and "conveyed s log r" and "tracks_ok tls"
  shows "conveyed s log r' \<and> tracks_ok tls' \<and> r_buffer r' = r_buffer r \<and> r_active r' = r_active r"
proof (cases "fst (tls t) = 0")
  case True
  let ?name = "if snd (tls t) = [] then ''thread-'' @ tt t else snd (tls t)"
  have "text_ok ?name" using assms(2,4) by (simp add: tracks_ok_def)
  then show ?thesis using assms True
    by (auto simp: thread_track_uuid_def Let_def tracks_ok_def conveyed_def names_ok_def split: prod.splits if_splits)
qed (use assms in \<open>auto simp: thread_track_uuid_def split: prod.splits\<close>)

lemma counter_track_keeps:
  assumes "counter_track_uuid name r = (uuid, r')" and "text_ok name" and "conveyed s log r"
  shows "conveyed s log r' \<and> r_buffer r' = r_buffer r \<and> r_active r' = r_active r"
  using assms by (auto simp: counter_track_uuid_def Let_def conveyed_def names_ok_def split: option.splits if_splits)

definition event_view :: "raw_event \<Rightarrow> u64 \<times> event_type \<times> string" where
  "event_view e = (e_time e, e_type e, e_name e)"

fun told :: "trace_action \<Rightarrow> (u64 \<times> event_type \<times> string) list" where
  "told (Begins t now name) = [(now, Slice_begin, name)]"
| "told (Ends t now) = [(now, Slice_end, [])]"
| "told (Marks t now name) = [(now, Instant_event, name)]"
| "told (Counts now name v) = [(now, Counter_event, [])]"
| "told (Counts_double now name bits) = [(now, Counter_event, [])]"
| "told _ = []"

fun action_ok :: "trace_action \<Rightarrow> bool" where
  "action_ok (Begins t now name) = text_ok name"
| "action_ok (Marks t now name) = text_ok name"
| "action_ok (Counts now name v) = text_ok name"
| "action_ok (Counts_double now name bits) = text_ok name"
| "action_ok (Sets_unit name unit) = text_ok name"
| "action_ok (Names_thread t name) = text_ok name"
| "action_ok _ = True"

text \<open>The events of a run: what its recording actions say, those made while the capture is active.\<close>

fun events_told :: "(nat \<Rightarrow> string) \<Rightarrow> trace_action list \<Rightarrow> process \<Rightarrow> (u64 \<times> event_type \<times> string) list" where
  "events_told tt [] p = []"
| "events_told tt (a # as) p = (if r_active (p_recorder p) then told a else []) @
     (case perform tt a p of None \<Rightarrow> [] | Some p' \<Rightarrow> events_told tt as p')"

definition process_ok :: "u32 \<Rightarrow> process \<Rightarrow> bool" where
  "process_ok s p \<longleftrightarrow> conveyed s (p_log p) (p_recorder p) \<and> tracks_ok (p_tracks p)"

definition grows :: "u32 \<Rightarrow> trace_action \<Rightarrow> process \<Rightarrow> process \<Rightarrow> bool" where
  "grows s a p p' \<longleftrightarrow> process_ok s p' \<and>
     map event_view (p_log p') = map event_view (p_log p) @ (if r_active (p_recorder p) then told a else [])"

lemma text_ok_Nil [simp]: "text_ok []"
  by (simp add: text_ok_def)

lemma record_event_grows:
  assumes "process_ok s p" and "text_ok name" and "text_ok (''thread-'' @ tt t)" and "told a = [(now, type, name)]"
  shows "grows s a p (recorded (record_event tt t now type name (p_tracks p) (p_recorder p)) p)"
proof (cases "r_active (p_recorder p)")
  case True
  obtain uuid tls r where u: "thread_track_uuid tt t (p_tracks p) (p_recorder p) = (uuid, tls, r)" by (metis prod_cases3)
  from thread_track_keeps [OF u assms(3)] assms(1) have k: "conveyed s (p_log p) r" "tracks_ok tls"
    "r_buffer r = r_buffer (p_recorder p)" by (auto simp: process_ok_def)
  from conveyed_push [OF k(1), of "plain_event now uuid name type"] assms(2) k show ?thesis
    by (simp add: grows_def process_ok_def recorded_def record_event_def record_passed_def u True push_event_def
        plain_event_def event_view_def assms(4))
qed (use assms(1) in \<open>simp add: grows_def process_ok_def recorded_def record_event_def\<close>)

lemma counter_grows:
  assumes "process_ok s p" and "text_ok name" and "told a = [(now, Counter_event, [])]"
  shows "grows s a p (recorded (p_tracks p, record_counter_int now name v (p_recorder p)) p)"
    "grows s a p (recorded (p_tracks p, record_counter_double now name bits (p_recorder p)) p)"
proof -
  obtain uuid r where u: "counter_track_uuid name (p_recorder p) = (uuid, r)" by (metis surj_pair)
  from counter_track_keeps [OF u assms(2)] assms(1) have k: "conveyed s (p_log p) r"
    "r_buffer r = r_buffer (p_recorder p)" by (auto simp: process_ok_def)
  note defs = grows_def process_ok_def recorded_def int_passed_def double_passed_def record_counter_int_def
    record_counter_double_def u push_event_def plain_event_def event_view_def
  show "grows s a p (recorded (p_tracks p, record_counter_int now name v (p_recorder p)) p)"
    using conveyed_push [OF k(1), of "(plain_event now uuid [] Counter_event)\<lparr>e_int := v\<rparr>"] assms k
    by (cases "r_active (p_recorder p)") (simp_all add: defs)
  show "grows s a p (recorded (p_tracks p, record_counter_double now name bits (p_recorder p)) p)"
    using conveyed_push [OF k(1), of "(plain_event now uuid [] Counter_event)\<lparr>e_double := bits, e_is_double := True\<rparr>"] assms k
    by (cases "r_active (p_recorder p)") (simp_all add: defs)
qed

lemma controlled_grows:
  assumes "process_ok s p" and "conveyed_control s (p_log p) c" and "controlled c p = Some p'" and "told a = []"
  shows "grows s a p p'"
  using assms by (cases c) (auto simp: controlled_def grows_def process_ok_def)

lemma perform_grows:
  assumes ok: "process_ok s p" and a: "action_ok a" "\<forall>t. text_ok (''thread-'' @ tt t)" and p: "perform tt a p = Some p'"
  shows "grows s a p p'"
proof -
  have c: "conveyed s (p_log p) (p_recorder p)" using ok by (simp add: process_ok_def)
  show ?thesis
  proof (cases a)
    case (Sets_unit name unit)
    obtain uuid r where u: "counter_track_uuid name (p_recorder p) = (uuid, r)" by (metis surj_pair)
    from counter_track_keeps [OF u _ c] Sets_unit a p ok show ?thesis
      by (auto simp: u set_counter_unit_def grows_def process_ok_def)
  next
    case (Names_thread t name)
    then show ?thesis using a p ok by (auto simp: set_thread_track_name_def grows_def process_ok_def tracks_ok_def)
  next
    case Flushes
    have "conveyed_control s (p_log p) (flush_round (p_recorder p) (p_answers p))"
      using conveyed_control(2) [OF c, of Flush_thread "p_answers p"] by (auto simp: flush_round_def split: control.splits)
    from controlled_grows [OF ok this, of p' a] Flushes p show ?thesis by simp
  next
    case (Switches active)
    from controlled_grows [OF ok conveyed_control(1) [OF c], of Other_thread active "p_answers p" p' a] Switches p
    show ?thesis by simp
  qed (use ok a p in \<open>auto simp: record_slice_begin_def record_slice_end_def record_instant_def
      intro!: record_event_grows counter_grows\<close>)
qed

lemma performs_grow:
  assumes "process_ok s p" and "list_all action_ok as" and "\<forall>t. text_ok (''thread-'' @ tt t)"
    and "performs tt as p = Some p'"
  shows "process_ok s p' \<and> map event_view (p_log p') = map event_view (p_log p) @ events_told tt as p"
  using assms
proof (induction as arbitrary: p)
  case (Cons a as)
  then obtain q where q: "perform tt a p = Some q" "performs tt as q = Some p'" by (auto split: option.splits)
  have "grows s a p q" by (rule perform_grows [OF Cons.prems(1) _ Cons.prems(3) q(1)]) (use Cons.prems(2) in simp)
  then show ?case using Cons.IH [of q] Cons.prems q by (simp add: grows_def)
qed simp

lemma attached_ok: "process_ok s (attached s answers)"
  by (auto simp: process_ok_def attached_def conveyed_def names_ok_def new_recorder_def tracks_ok_def encoded_batch_def
      intro: exI [of _ "[]"])


definition short_name :: "nat \<Rightarrow> string" where
  "short_name t = ''one''"

section \<open>How a recording ends\<close>

text \<open>What is handed out when the buffer is flushed, and the recorder after it.\<close>

definition handed_out :: "recorder \<Rightarrow> recorder" where
  "handed_out r = (case encode_taken (r_buffer r) (r\<lparr>r_buffer := []\<rparr>) of (bytes, r1) \<Rightarrow> r1\<lparr>r_sent := r_sent r1 @ [bytes]\<rparr>)"

lemma flush_events_active:
  "flush_events batch (r\<lparr>r_active := b\<rparr>) = (case flush_events batch r of (ps, r') \<Rightarrow> (ps, r'\<lparr>r_active := b\<rparr>))"
proof (induction batch arbitrary: r)
  case (Cons e batch)
  have swap: "r\<lparr>r_active := b, r_emitted := X\<rparr> = r\<lparr>r_emitted := X, r_active := b\<rparr>" for X by simp
  show ?case
    using Cons.IH [of "r\<lparr>r_emitted := insert (e_track e) (r_emitted r)\<rparr>"]
    by (simp add: Let_def descriptor_packet_def swap split: prod.splits)
qed simp

lemma handed_out_active: "handed_out (r\<lparr>r_active := b\<rparr>) = (handed_out r)\<lparr>r_active := b\<rparr>"
proof -
  have swap: "r\<lparr>r_active := b, r_buffer := []\<rparr> = (r\<lparr>r_buffer := []\<rparr>)\<lparr>r_active := b\<rparr>" by simp
  have swap': "x\<lparr>r_active := b, r_sent := X\<rparr> = x\<lparr>r_sent := X, r_active := b\<rparr>" for x :: recorder and X by simp
  show ?thesis by (simp add: handed_out_def encode_taken_def swap flush_events_active swap' split: prod.splits)
qed

lemma handed_out_keeps: "r_active (handed_out r) = r_active r" "r_joinable (handed_out r) = r_joinable r" "r_buffer (handed_out r) = []"
proof -
  obtain bytes r1 where e: "encode_taken (r_buffer r) (r\<lparr>r_buffer := []\<rparr>) = (bytes, r1)" by (metis surj_pair)
  have k: "r1 = (r\<lparr>r_buffer := []\<rparr>)\<lparr>r_emitted := r_emitted r1\<rparr>" by (rule encode_taken_keeps [OF e])
  show "r_active (handed_out r) = r_active r" "r_joinable (handed_out r) = r_joinable r" "r_buffer (handed_out r) = []"
    unfolding handed_out_def e by (subst k, simp)+
qed

lemma flush_hands_out:
  "r_buffer r \<noteq> [] \<Longrightarrow> flush_once me r answers = (case answers of
       [] \<Rightarrow> set_capture_active me False (handed_out r) []
     | Inl e # rest \<Rightarrow> set_capture_active me False (handed_out r) rest
     | Inr active # rest \<Rightarrow> (case set_capture_active me active (handed_out r) rest of
         Continues r1 answers2 \<Rightarrow> Continues r1 answers2
       | Throws r1 answers2 \<Rightarrow> set_capture_active me False r1 answers2
       | Terminates \<Rightarrow> Terminates))"
  by (auto simp: flush_once.simps [of me] flush_sink.simps [of me] handed_out_def split: prod.splits list.splits sum.splits)

lemma flush_empty: "r_buffer r = [] \<Longrightarrow> flush_once me r answers = Continues r answers"
  by (simp add: flush_once.simps)

text \<open>
  C36: how the recording of a client ends, for a recorder that captures, whose flush thread runs and which holds events. On the
  flush thread: while the server captures, recording goes on; when the server answers that it stopped, recording stops
  and the exception of the thread's attempt to join itself is swallowed; when the call fails, this exception is
  thrown while the first one is handled, leaves the thread and ends the process. In the recorder's destructor: a server
  that stopped, or a failed call, lets the thread be joined; a server that still captures makes the final flush start
  a second flush thread over the running one, which ends the process.
\<close>

theorem recording_ends:
  assumes "r_active r" and "r_joinable r" and "r_buffer r \<noteq> []"
  shows "flush_round r answers = (case answers of
      Inr active # rest \<Rightarrow> Continues (if active then handed_out r else (handed_out r)\<lparr>r_active := False, r_stopping := True\<rparr>) rest
    | _ \<Rightarrow> Terminates) \<and>
    stop_recorder r answers = (let off = (handed_out r)\<lparr>r_active := False, r_joinable := False, r_stopping := True\<rparr>
     in case answers of
      [] \<Rightarrow> Continues off []
    | Inl e # rest \<Rightarrow> Continues off rest
    | Inr active # rest \<Rightarrow> if active then Terminates else Continues off rest)"
    (is "?round \<and> ?stop")
proof -
  have off: "set_capture_active me False (handed_out r) rest = stop_flush_thread me ((handed_out r)\<lparr>r_active := False\<rparr>) rest" for me rest
    by (simp add: set_capture_active.simps [of me] handed_out_keeps assms flush_empty)
  have on: "set_capture_active me True (handed_out r) rest = Continues (handed_out r) rest" for me rest
    by (simp add: set_capture_active.simps [of me] handed_out_keeps assms)
  have still: "set_capture_active me False (x\<lparr>r_active := False, r_stopping := b\<rparr>) rest = Continues (x\<lparr>r_active := False, r_stopping := b\<rparr>) rest"
    for me x b rest by (simp add: set_capture_active.simps [of me])
  have round: ?round
    by (auto simp: flush_round_def flush_hands_out [OF assms(3)] off on still stop_flush_thread_def handed_out_keeps assms(2) Let_def
        split: list.splits sum.splits)
  let ?h = "(handed_out r)\<lparr>r_active := False\<rparr>"
  have f: "flush_once Other_thread (r\<lparr>r_active := False\<rparr>) answers = (case answers of
      [] \<Rightarrow> Continues ?h [] | Inl e # rest \<Rightarrow> Continues ?h rest
    | Inr active # rest \<Rightarrow> if active then Terminates else Continues ?h rest)"
    using flush_hands_out [of "r\<lparr>r_active := False\<rparr>" Other_thread answers]
    by (auto simp: assms(2,3) handed_out_active set_capture_active.simps [of Other_thread] start_flush_thread_def handed_out_keeps
        split: list.splits sum.splits)
  have ?stop
    by (auto simp: stop_recorder_def set_capture_active.simps [of Other_thread] assms(1) f stop_flush_thread_def handed_out_keeps assms(2)
        Let_def split: list.splits sum.splits)
  with round show ?thesis ..
qed

definition recording_one :: recorder where
  "recording_one = (new_recorder 1)\<lparr>r_active := True, r_joinable := True, r_names := [4294967297 \<mapsto> ''main''],
     r_buffer := [plain_event 7 4294967297 ''work'' Slice_begin]\<rparr>"

theorem recording_ends_witness:
  "flush_round recording_one [Inl Not_implemented] = Terminates \<and> stop_recorder recording_one [Inr True] = Terminates \<and>
   (\<exists>r. stop_recorder recording_one [Inr False] = Continues r [] \<and> \<not> r_active r)"
proof -
  have r: "r_active recording_one" "r_joinable recording_one" "r_buffer recording_one \<noteq> []" by (simp_all add: recording_one_def)
  show ?thesis using recording_ends [OF r, of "[Inl Not_implemented]"] recording_ends [OF r, of "[Inr True]"]
      recording_ends [OF r, of "[Inr False]"] by (simp add: Let_def)
qed

text \<open>With an empty buffer the destructor stops the thread without a call to the server.\<close>

lemma quiet_stop:
  "r_active r \<Longrightarrow> r_buffer r = [] \<Longrightarrow>
     stop_recorder r answers = Continues (r\<lparr>r_active := False, r_joinable := False, r_stopping := True\<rparr>) answers"
  by (simp add: stop_recorder_def set_capture_active.simps flush_empty stop_flush_thread_def Let_def)

text \<open>A recorder whose server stopped the capture keeps the finished thread unjoined: switching it on again ends the process.\<close>

lemma restart_terminates:
  assumes "r_active r" and "r_joinable r" and "r_buffer r \<noteq> []" and "flush_round r (Inr False # rest) = Continues r1 answers"
  shows "set_capture_active me True r1 answers = Terminates"
proof -
  have off: "set_capture_active Flush_thread False (handed_out r) rest = Throws ((handed_out r)\<lparr>r_active := False, r_stopping := True\<rparr>) rest"
    using assms(2) by (simp add: set_capture_active.simps [of Flush_thread] handed_out_keeps assms(1) flush_empty stop_flush_thread_def Let_def)
  have "set_capture_active Flush_thread False ((handed_out r)\<lparr>r_active := False, r_stopping := True\<rparr>) rest =
      Continues ((handed_out r)\<lparr>r_active := False, r_stopping := True\<rparr>) rest"
    by (simp add: set_capture_active.simps [of Flush_thread])
  with off assms(3,4) have "r1 = (handed_out r)\<lparr>r_active := False, r_stopping := True\<rparr>"
    by (simp add: flush_round_def flush_hands_out)
  then show ?thesis by (simp add: set_capture_active.simps start_flush_thread_def handed_out_keeps assms(2))
qed

text \<open>The tracks described stay remembered: the next trace file holds no description of them.\<close>

lemma second_capture_undescribed:
  "\<forall>e \<in> set batch. e_track e \<in> r_emitted r \<Longrightarrow> flush_events batch r = (map (event_packet (r_sequence r)) batch, r)"
  by (induction batch) (simp_all add: insert_absorb Let_def)

text \<open>
  The track of a thread is the thread's, not the recorder's: a second recorder of the process records it under the
  first one's number, which it has no name for.
\<close>

lemma foreign_track_unnamed:
  "r_active r \<Longrightarrow> fst (tls t) \<noteq> 0 \<Longrightarrow>
     record_slice_begin tt t now name tls r = (tls, push_event (plain_event now (fst (tls t)) name Slice_begin) r)"
  by (cases "tls t") (simp add: record_slice_begin_def record_event_def record_passed_def thread_track_uuid_def)

text \<open>Thread and counter tracks differ while there are fewer than \<open>2 ^ 31\<close> threads, whatever the recorders.\<close>

lemma thread_counter_disjoint: "\<not> bit i 31 \<Longrightarrow> track_number s i \<noteq> track_number s' j OR kCounterTrackFlag"
proof
  assume i: "\<not> bit i 31" and eq: "track_number s i = track_number s' j OR kCounterTrackFlag"
  have "bit (track_number s' j OR kCounterTrackFlag) 31"
    by (simp add: track_number_def kCounterTrackFlag_def bit_or_iff bit_push_bit_iff bit_1_iff)
  moreover have "\<not> bit (track_number s i) 31"
    using i by (simp add: track_number_def bit_or_iff bit_push_bit_iff bit_ucast_iff)
  ultimately show False using eq by simp
qed

section \<open>The process-wide recorder\<close>

text \<open>
  \<open>local()\<close> gives the recorder that is installed, if one is. A scope without a name records nothing. The recorder
  counts at the scope's end again: a capture that began inside the scope gets its end only.
\<close>

definition at_local :: "(recorder \<Rightarrow> tracks \<times> recorder) \<Rightarrow> tracks \<Rightarrow> recorder option \<Rightarrow> tracks \<times> recorder option" where
  "at_local f tls installed = (case installed of
       Some r \<Rightarrow> (case f r of (tls', r') \<Rightarrow> (tls', Some r'))
     | None \<Rightarrow> (tls, None))"

definition scope_begin :: "(nat \<Rightarrow> string) \<Rightarrow> nat \<Rightarrow> u64 \<Rightarrow> string option \<Rightarrow> tracks \<Rightarrow> recorder option \<Rightarrow> tracks \<times> recorder option" where
  "scope_begin tt t now name tls installed = (case name of
       Some n \<Rightarrow> at_local (record_slice_begin tt t now n tls) tls installed
     | None \<Rightarrow> (tls, installed))"

definition scope_end :: "(nat \<Rightarrow> string) \<Rightarrow> nat \<Rightarrow> u64 \<Rightarrow> string option \<Rightarrow> tracks \<Rightarrow> recorder option \<Rightarrow> tracks \<times> recorder option" where
  "scope_end tt t now name tls installed =
     (if name \<noteq> None then at_local (record_slice_end tt t now tls) tls installed else (tls, installed))"

definition local_instant :: "(nat \<Rightarrow> string) \<Rightarrow> nat \<Rightarrow> u64 \<Rightarrow> string \<Rightarrow> tracks \<Rightarrow> recorder option \<Rightarrow> tracks \<times> recorder option" where
  "local_instant tt t now name tls = at_local (record_instant tt t now name tls) tls"

definition local_counter_int :: "u64 \<Rightarrow> string \<Rightarrow> u64 \<Rightarrow> tracks \<Rightarrow> recorder option \<Rightarrow> tracks \<times> recorder option" where
  "local_counter_int now name v tls = at_local (\<lambda>r. (tls, record_counter_int now name v r)) tls"

definition local_counter_double :: "u64 \<Rightarrow> string \<Rightarrow> u64 \<Rightarrow> tracks \<Rightarrow> recorder option \<Rightarrow> tracks \<times> recorder option" where
  "local_counter_double now name bits tls = at_local (\<lambda>r. (tls, record_counter_double now name bits r)) tls"

lemma scope_end_unmatched:
  assumes "\<not> r_active r" and "scope_begin tt t now (Some name) tls (Some r) = (tls1, installed)"
  shows "installed = Some r \<and> (\<exists>track tls2 r2. scope_end tt t later (Some name) tls1 (Some (r\<lparr>r_active := True\<rparr>)) = (tls2, Some r2) \<and>
     r_buffer r2 = r_buffer r @ [plain_event later track [] Slice_end])"
  using assms
  by (auto simp: scope_begin_def scope_end_def at_local_def record_slice_begin_def record_slice_end_def record_event_def
      record_passed_def thread_track_uuid_def push_event_def Let_def split: prod.splits)

section \<open>The client's session\<close>

text \<open>
  \<open>attach_profiling\<close>: the proxy, then the session (its sequence number and whether the server captures), both of which may
  fail; a failure gives no recorder.
\<close>

definition attach_profiling :: "unit result \<Rightarrow> (u32 \<times> bool) result \<Rightarrow> bool result list \<Rightarrow> control option" where
  "attach_profiling proxy session answers = (case proxy of
       Inl e \<Rightarrow> None
     | Inr u \<Rightarrow> (case session of
         Inl e \<Rightarrow> None
       | Inr (sequence_id, active) \<Rightarrow> Some (set_capture_active Other_thread active (new_recorder sequence_id) answers)))"

lemma attach_outcome:
  "attach_profiling (Inr ()) (Inr (sequence_id, active)) answers =
     Some (Continues ((new_recorder sequence_id)\<lparr>r_active := active, r_joinable := active\<rparr>) answers)"
  by (cases active) (simp_all add: attach_profiling_def set_capture_active.simps new_recorder_def start_flush_thread_def)


text \<open>
  A recorder that is off stays off and sends nothing, whatever its threads do, until someone switches it on: a client
  attached before the server's capture starts does not take part in it.
\<close>

lemma inactive_perform:
  assumes "perform tt a p = Some p'" and "a \<noteq> Switches True" and "\<not> r_active (p_recorder p)" and "r_buffer (p_recorder p) = []"
  shows "\<not> r_active (p_recorder p') \<and> r_buffer (p_recorder p') = [] \<and> r_sent (p_recorder p') = r_sent (p_recorder p)"
proof (cases a)
  case (Sets_unit name unit)
  then show ?thesis using assms
    by (auto simp: set_counter_unit_def counter_track_uuid_def Let_def split: option.splits)
qed (use assms in \<open>auto simp: recorded_def record_slice_begin_def record_slice_end_def record_instant_def record_event_def
    record_counter_int_def record_counter_double_def controlled_def flush_round_def flush_empty set_capture_active.simps\<close>)

lemma inactive_client_silent:
  "performs tt as (attached s answers) = Some p \<Longrightarrow> Switches True \<notin> set as \<Longrightarrow>
     \<not> r_active (p_recorder p) \<and> r_sent (p_recorder p) = []"
proof -
  have "\<not> r_active (p_recorder p) \<and> r_sent (p_recorder p) = r_sent (p_recorder q)"
    if "performs tt as q = Some p" "Switches True \<notin> set as" "\<not> r_active (p_recorder q)" "r_buffer (p_recorder q) = []" for q
    using that
  proof (induction as arbitrary: q)
    case (Cons a as)
    then obtain q' where q': "perform tt a q = Some q'" "performs tt as q' = Some p" by (auto split: option.splits)
    from inactive_perform [OF q'(1) _ Cons.prems(3,4)] Cons.prems(2) Cons.IH [OF q'(2)] show ?case by fastforce
  qed simp
  from this [of "attached s answers"] show "performs tt as (attached s answers) = Some p \<Longrightarrow> Switches True \<notin> set as \<Longrightarrow> ?thesis"
    by (simp add: attached_def new_recorder_def)
qed
end
