(* ===== verification/Profiler_Service.thy ===== *)
theory Profiler_Service
  imports Recorder Schema "HOL-Library.Multiset"
begin

text \<open>
  The server's side of the profiler (src/src/rmi/server/profiler_service.cpp): the service that owns the trace file,
  takes the clients' blocks into a bounded queue, and writes them on a thread of its own; then its threads as a machine.
\<close>

section \<open>State\<close>

text \<open>
  \<open>s_file\<close> is the path of the file that is open, \<open>s_good\<close> whether the stream is free of errors: opening a stream
  that is open fails, and a failed stream writes nothing. \<open>s_disk\<close> holds the files.
\<close>

record service =
  s_dir :: string
  s_active :: bool
  s_next_id :: u32
  s_queue :: "buffer list"
  s_file :: "string option"
  s_good :: bool
  s_path :: string
  s_disk :: "string \<Rightarrow> buffer option"
  s_local :: recorder

definition kMaxQueuedTraceBlocks :: nat where
  "kMaxQueuedTraceBlocks = 256"

definition new_service :: "string \<Rightarrow> service" where
  "new_service dir =
     \<lparr> s_dir = dir, s_active = False, s_next_id = 1, s_queue = [], s_file = None, s_good = True, s_path = [],
       s_disk = Map.empty, s_local = new_recorder 0 \<rparr>"

section \<open>Operations\<close>

definition append_to_file :: "buffer \<Rightarrow> service \<Rightarrow> service" where
  "append_to_file bytes s = (case s_file s of
       None \<Rightarrow> s
     | Some path \<Rightarrow> if \<not> s_good s then s
         else s\<lparr>s_disk := (s_disk s)(path \<mapsto> (case s_disk s path of Some old \<Rightarrow> old | None \<Rightarrow> []) @ bytes)\<rparr>)"

definition enqueue_trace_block :: "buffer \<Rightarrow> service \<Rightarrow> bool \<times> service" where
  "enqueue_trace_block bytes s =
     (if kMaxQueuedTraceBlocks \<le> length (s_queue s) then (False, s) else (True, s\<lparr>s_queue := s_queue s @ [bytes]\<rparr>))"

text \<open>Taking the front block under the queue's lock, which is released before the block is written.\<close>

definition pop_block :: "service \<Rightarrow> (buffer \<times> service) option" where
  "pop_block s = (case s_queue s of [] \<Rightarrow> None | block # rest \<Rightarrow> Some (block, s\<lparr>s_queue := rest\<rparr>))"

lemma append_to_file_queue [simp]: "s_queue (append_to_file b s) = s_queue s"
  by (simp add: append_to_file_def split: option.split)

function write_pending_blocks :: "service \<Rightarrow> service" where
  "write_pending_blocks s = (case pop_block s of
       None \<Rightarrow> s
     | Some (block, s1) \<Rightarrow> write_pending_blocks (append_to_file block s1))"
  by auto

termination
  by (relation "measure (\<lambda>s. length (s_queue s))") (auto simp: pop_block_def split: list.splits)

text \<open>
  The switch of the server's own recorder, whose \<open>flush_sink\<close> appends to the file. \<open>None\<close> says that the process is ended.
\<close>

definition local_flush :: "service \<Rightarrow> service" where
  "local_flush s =
     (if r_buffer (s_local s) = [] then s
      else case encode_taken (r_buffer (s_local s)) ((s_local s)\<lparr>r_buffer := []\<rparr>) of (bytes, r) \<Rightarrow>
        append_to_file bytes (s\<lparr>s_local := r\<lparr>r_sent := r_sent r @ [bytes]\<rparr>\<rparr>))"

definition switched :: "control \<Rightarrow> service \<Rightarrow> service option" where
  "switched c s = (case c of Continues r _ \<Rightarrow> Some (s\<lparr>s_local := r\<rparr>) | _ \<Rightarrow> None)"

definition local_switch :: "bool \<Rightarrow> service \<Rightarrow> service option" where
  "local_switch active s =
     (if active = r_active (s_local s) then Some s
      else if active then switched (start_flush_thread ((s_local s)\<lparr>r_active := True\<rparr>) []) s
      else let s1 = local_flush (s\<lparr>s_local := (s_local s)\<lparr>r_active := False\<rparr>\<rparr>)
           in switched (stop_flush_thread Other_thread (s_local s1) []) s1)"

text \<open>The responses of the methods, with the values of their fields.\<close>

datatype reply = Session u32 bool | Capture bool | Started bool string | Stopped bool | Submitted bool bool

definition begin_profiling_session :: "service \<Rightarrow> reply \<times> service" where
  "begin_profiling_session s = (Session (s_next_id s) (s_active s), s\<lparr>s_next_id := s_next_id s + 1\<rparr>)"

definition is_capture_active :: "service \<Rightarrow> reply" where
  "is_capture_active s = Capture (s_active s)"

definition trace_filename :: "nat \<Rightarrow> string \<Rightarrow> string" where
  "trace_filename ms label =
     ''trace-'' @ nat_digits ms @ (if label \<noteq> [] then ''-'' @ label else []) @ ''.perfetto-trace''"

definition path_join :: "string \<Rightarrow> string \<Rightarrow> string" where
  "path_join dir file = (if dir = [] \<or> last dir = CHR ''/'' then dir @ file else dir @ ''/'' @ file)"

text \<open>\<open>opens path\<close> says whether the file system lets the file be created; \<open>ms\<close> is the clock.\<close>

definition start_capture :: "(string \<Rightarrow> bool) \<Rightarrow> nat \<Rightarrow> string \<Rightarrow> service \<Rightarrow> (reply \<times> service) option" where
  "start_capture opens ms label s =
     (if s_active s then Some (Started True (s_path s), s)
      else let path = path_join (s_dir s) (trace_filename ms label);
               s1 = (if s_file s \<noteq> None then s\<lparr>s_good := False\<rparr>
                     else if opens path then s\<lparr>s_file := Some path, s_good := True, s_disk := (s_disk s)(path \<mapsto> [])\<rparr>
                     else s\<lparr>s_good := False\<rparr>)
           in if s_file s1 = None then Some (Started False [], s1)
              else case local_switch True (s1\<lparr>s_path := path, s_active := True\<rparr>) of
                None \<Rightarrow> None
              | Some s2 \<Rightarrow> Some (Started True path, s2))"

text \<open>\<open>stop_capture\<close> in its parts, which other threads' work may come between, and as a whole.\<close>

definition stop_switch :: "service \<Rightarrow> service option" where
  "stop_switch s = local_switch False (s\<lparr>s_active := False\<rparr>)"

definition close_file :: "service \<Rightarrow> service" where
  "close_file s = s\<lparr>s_file := None\<rparr>"

definition stop_capture :: "service \<Rightarrow> (reply \<times> service) option" where
  "stop_capture s =
     (if \<not> s_active s then Some (Stopped True, s)
      else case stop_switch s of
        None \<Rightarrow> None
      | Some s1 \<Rightarrow> Some (Stopped True, close_file (write_pending_blocks s1)))"

definition submit_trace_block :: "buffer \<Rightarrow> u32 \<Rightarrow> service \<Rightarrow> reply \<times> service" where
  "submit_trace_block bytes sequence_id s =
     (if \<not> s_active s \<or> bytes = [] then (Submitted False (s_active s), s)
      else case enqueue_trace_block bytes s of (accepted, s1) \<Rightarrow> (Submitted accepted True, s1))"

text \<open>The destructor: the server's recorder is stopped and the writer, told to stop, writes what is left.\<close>

definition destroy_service :: "service \<Rightarrow> service option" where
  "destroy_service s = map_option write_pending_blocks (local_switch False s)"

section \<open>The class\<close>

text \<open>Parameters as the method bodies read them (\<open>as<T>\<close>): an absent or empty one becomes the type's default.\<close>

definition label_param :: "dvalue smap \<Rightarrow> string result" where
  "label_param p = (case map_of p FIELD_PROFILER_LABEL of
       None \<Rightarrow> Inr [] | Some Monostate \<Rightarrow> Inr [] | Some (StringV s) \<Rightarrow> Inr s | Some _ \<Rightarrow> Inl Invalid_type)"

definition bytes_param :: "dvalue smap \<Rightarrow> buffer result" where
  "bytes_param p = (case map_of p FIELD_PROFILER_BYTES of
       None \<Rightarrow> Inr [] | Some Monostate \<Rightarrow> Inr [] | Some (VecByteV bs) \<Rightarrow> Inr bs | Some _ \<Rightarrow> Inl Invalid_type)"

definition sequence_param :: "dvalue smap \<Rightarrow> u32 result" where
  "sequence_param p = (case map_of p FIELD_PROFILER_SEQUENCE_ID of
       None \<Rightarrow> Inr 0 | Some Monostate \<Rightarrow> Inr 0 | Some (Int32V i) \<Rightarrow> Inr i | Some _ \<Rightarrow> Inl Invalid_type)"

text \<open>The methods that \<open>register_profiler_class\<close> adds; a name it adds no method for is not found.\<close>

definition profiler_method ::
  "(string \<Rightarrow> bool) \<Rightarrow> nat \<Rightarrow> hash_t \<Rightarrow> dvalue smap \<Rightarrow> service \<Rightarrow> (reply \<times> service) option result" where
  "profiler_method opens ms name p s =
     (if name = METHOD_BEGIN_PROFILING_SESSION then Inr (Some (begin_profiling_session s))
      else if name = METHOD_IS_CAPTURE_ACTIVE then Inr (Some (is_capture_active s, s))
      else if name = METHOD_START_CAPTURE then (case label_param p of
        Inl e \<Rightarrow> Inl e
      | Inr label \<Rightarrow> Inr (start_capture opens ms label s))
      else if name = METHOD_STOP_CAPTURE then Inr (stop_capture s)
      else if name = METHOD_SUBMIT_TRACE_BLOCK then (case bytes_param p of
        Inl e \<Rightarrow> Inl e
      | Inr bytes \<Rightarrow> (case sequence_param p of
          Inl e \<Rightarrow> Inl e
        | Inr sequence_id \<Rightarrow> Inr (Some (submit_trace_block bytes sequence_id s))))
      else Inl Method_not_found)"

text \<open>The server's own calls; without profiling there is no service.\<close>

definition start_capture_now :: "(string \<Rightarrow> bool) \<Rightarrow> nat \<Rightarrow> string \<Rightarrow> service option \<Rightarrow> (bool \<times> service option) option" where
  "start_capture_now opens ms label profiler = (case profiler of
       None \<Rightarrow> Some (False, None)
     | Some s \<Rightarrow> map_option (\<lambda>(answer, s'). (case answer of Started ok path \<Rightarrow> ok | _ \<Rightarrow> False, Some s')) (start_capture opens ms label s))"

definition stop_capture_now :: "service option \<Rightarrow> service option option" where
  "stop_capture_now profiler = (case profiler of
       None \<Rightarrow> Some None
     | Some s \<Rightarrow> map_option (Some \<circ> snd) (stop_capture s))"

definition is_capture_active_now :: "service option \<Rightarrow> bool" where
  "is_capture_active_now profiler = (case profiler of
       None \<Rightarrow> False
     | Some s \<Rightarrow> (case is_capture_active s of Capture active \<Rightarrow> active | _ \<Rightarrow> False))"

section \<open>The threads\<close>

text \<open>
  The dispatch threads that carry submissions (\<open>m_submitting\<close>: the blocks whose thread found the capture active and has
  not queued them yet), the writer's hand, and the dispatch threads in \<open>stop_capture\<close>, each with its hand. The lists of
  accepted, written and lost blocks are there to speak of them.
\<close>

record threads =
  m_service :: service
  m_submitting :: "buffer multiset"
  m_writer :: "buffer option"
  m_stops :: "buffer option multiset"
  m_accepted :: "buffer multiset"
  m_written :: "buffer multiset"
  m_lost :: "buffer multiset"

definition threads_start :: "string \<Rightarrow> threads" where
  "threads_start dir =
     \<lparr> m_service = new_service dir, m_submitting = {#}, m_writer = None, m_stops = {#}, m_accepted = {#},
       m_written = {#}, m_lost = {#} \<rparr>"

definition put_block :: "buffer \<Rightarrow> threads \<Rightarrow> threads" where
  "put_block b m = (let m1 = m\<lparr>m_service := append_to_file b (m_service m)\<rparr>
     in if s_file (m_service m) \<noteq> None \<and> s_good (m_service m)
        then m1\<lparr>m_written := add_mset b (m_written m)\<rparr> else m1\<lparr>m_lost := add_mset b (m_lost m)\<rparr>)"

inductive threads_step :: "(string \<Rightarrow> bool) \<Rightarrow> threads \<Rightarrow> threads \<Rightarrow> bool" for opens where
  check: "s_active (m_service m) \<Longrightarrow> bytes \<noteq> [] \<Longrightarrow>
    threads_step opens m (m\<lparr>m_submitting := add_mset bytes (m_submitting m)\<rparr>)"
| enqueue: "bytes \<in># m_submitting m \<Longrightarrow> enqueue_trace_block bytes (m_service m) = (accepted, s) \<Longrightarrow>
    threads_step opens m (m\<lparr>m_service := s, m_submitting := m_submitting m - {#bytes#},
      m_accepted := (if accepted then add_mset bytes (m_accepted m) else m_accepted m)\<rparr>)"
| writer_pop: "m_writer m = None \<Longrightarrow> pop_block (m_service m) = Some (b, s) \<Longrightarrow>
    threads_step opens m (m\<lparr>m_service := s, m_writer := Some b\<rparr>)"
| writer_write: "m_writer m = Some b \<Longrightarrow> threads_step opens m (put_block b m\<lparr>m_writer := None\<rparr>)"
| start: "start_capture opens ms label (m_service m) = Some (answer, s) \<Longrightarrow>
    threads_step opens m (m\<lparr>m_service := s\<rparr>)"
| stop_begin: "s_active (m_service m) \<Longrightarrow> stop_switch (m_service m) = Some s \<Longrightarrow>
    threads_step opens m (m\<lparr>m_service := s, m_stops := add_mset None (m_stops m)\<rparr>)"
| stop_pop: "None \<in># m_stops m \<Longrightarrow> pop_block (m_service m) = Some (b, s) \<Longrightarrow>
    threads_step opens m (m\<lparr>m_service := s, m_stops := add_mset (Some b) (m_stops m - {#None#})\<rparr>)"
| stop_write: "Some b \<in># m_stops m \<Longrightarrow>
    threads_step opens m (put_block b m\<lparr>m_stops := add_mset None (m_stops m - {#Some b#})\<rparr>)"
| stop_close: "None \<in># m_stops m \<Longrightarrow> s_queue (m_service m) = [] \<Longrightarrow>
    threads_step opens m (m\<lparr>m_service := close_file (m_service m), m_stops := m_stops m - {#None#}\<rparr>)"
| local_flushes: "threads_step opens m (m\<lparr>m_service := local_flush (m_service m)\<rparr>)"
| records: "threads_step opens m (m\<lparr>m_service := (m_service m)\<lparr>s_local := (s_local (m_service m))\<lparr>r_buffer := events\<rparr>\<rparr>\<rparr>)"

text \<open>
  Orderly: no capture starts while another one is being stopped, and the file is closed when the writer holds no
  block and no submission is on its way. The code takes care of neither.
\<close>

definition orderly :: "threads \<Rightarrow> threads \<Rightarrow> bool" where
  "orderly m m' \<longleftrightarrow>
     (s_active (m_service m') \<and> \<not> s_active (m_service m) \<longrightarrow> m_stops m = {#}) \<and>
     (size (m_stops m') < size (m_stops m) \<longrightarrow> m_writer m = None \<and> m_submitting m = {#})"

inductive threads_reach :: "(string \<Rightarrow> bool) \<Rightarrow> bool \<Rightarrow> threads \<Rightarrow> bool" for opens ord where
  reach_start: "threads_reach opens ord (threads_start dir)"
| reach_step: "threads_reach opens ord m \<Longrightarrow> threads_step opens m m' \<Longrightarrow> (ord \<longrightarrow> orderly m m') \<Longrightarrow>
    threads_reach opens ord m'"

text \<open>The blocks that were taken from the queue and not handed to the file yet.\<close>

definition held_in :: "buffer option \<Rightarrow> buffer multiset" where
  "held_in hand = (case hand of None \<Rightarrow> {#} | Some b \<Rightarrow> {#b#})"

definition in_hands :: "threads \<Rightarrow> buffer multiset" where
  "in_hands m = held_in (m_writer m) + sum_mset (image_mset held_in (m_stops m))"

lemma held_in_simps [simp]: "held_in None = {#}" "held_in (Some b) = {#b#}"
  by (simp_all add: held_in_def)

definition accounted_blocks :: "threads \<Rightarrow> bool" where
  "accounted_blocks m \<longleftrightarrow> m_accepted m = mset (s_queue (m_service m)) + in_hands m + m_written m + m_lost m \<and>
     length (s_queue (m_service m)) \<le> kMaxQueuedTraceBlocks"


lemma pop_block_eq: "pop_block s = Some (b, s') \<longleftrightarrow> (\<exists>q. s_queue s = b # q \<and> s' = s\<lparr>s_queue := q\<rparr>)"
  by (auto simp: pop_block_def split: list.splits)

lemma append_to_file_simps [simp]:
  "s_active (append_to_file b s) = s_active s" "s_file (append_to_file b s) = s_file s" "s_good (append_to_file b s) = s_good s"
  by (simp_all add: append_to_file_def split: option.splits)

lemma local_flush_simps [simp]:
  "s_queue (local_flush s) = s_queue s" "s_active (local_flush s) = s_active s" "s_file (local_flush s) = s_file s"
  "s_good (local_flush s) = s_good s"
  by (simp_all add: local_flush_def split: prod.splits)

lemma local_switch_keeps:
  assumes "local_switch active s = Some s'"
  shows "s_queue s' = s_queue s" "s_active s' = s_active s" "s_file s' = s_file s" "s_good s' = s_good s"
  using assms by (auto simp: local_switch_def switched_def Let_def split: if_splits control.splits)

lemma stop_switch_keeps:
  assumes "stop_switch s = Some s'"
  shows "s_queue s' = s_queue s" "\<not> s_active s'" "s_file s' = s_file s" "s_good s' = s_good s"
  using assms by (auto simp: stop_switch_def dest: local_switch_keeps)

lemma start_capture_queue: "start_capture opens ms label s = Some (answer, s') \<Longrightarrow> s_queue s' = s_queue s"
  by (auto simp: start_capture_def Let_def split: if_splits option.splits dest: local_switch_keeps)

lemma put_block_simps [simp]:
  "s_queue (m_service (put_block b m)) = s_queue (m_service m)" "m_writer (put_block b m) = m_writer m"
  "m_stops (put_block b m) = m_stops m" "m_accepted (put_block b m) = m_accepted m" "m_submitting (put_block b m) = m_submitting m"
  "m_written (put_block b m) + m_lost (put_block b m) = add_mset b (m_written m + m_lost m)"
  "s_active (m_service (put_block b m)) = s_active (m_service m)" "s_file (m_service (put_block b m)) = s_file (m_service m)"
  "s_good (m_service (put_block b m)) = s_good (m_service m)"
  by (simp_all add: put_block_def Let_def)

lemma accounted_blocks_step: "threads_step opens m m' \<Longrightarrow> accounted_blocks m \<Longrightarrow> accounted_blocks m'"
proof (induction rule: threads_step.induct)
  case (enqueue bytes m accepted s)
  then show ?case by (auto simp: accounted_blocks_def in_hands_def enqueue_trace_block_def split: if_splits)
next
  case (writer_pop m b s)
  then show ?case by (auto simp: accounted_blocks_def in_hands_def pop_block_eq)
next
  case (writer_write m b)
  then show ?case using put_block_simps(6) [of b m] by (auto simp: accounted_blocks_def in_hands_def add_ac)
next
  case (start ms label m answer s)
  then show ?case by (simp add: accounted_blocks_def in_hands_def start_capture_queue)
next
  case (stop_begin m s)
  then show ?case by (simp add: accounted_blocks_def in_hands_def stop_switch_keeps)
next
  case (stop_pop m b s)
  then show ?case by (auto simp: accounted_blocks_def in_hands_def pop_block_eq dest!: multi_member_split)
next
  case (stop_write b m)
  then show ?case using put_block_simps(6) [of b m] by (auto simp: accounted_blocks_def in_hands_def add_ac dest!: multi_member_split)
next
  case (stop_close m)
  then show ?case by (auto simp: accounted_blocks_def in_hands_def close_file_def dest!: multi_member_split)
qed (simp_all add: accounted_blocks_def in_hands_def)

text \<open>Orderly: while the file is closed nobody has a block for it.\<close>

definition file_guarded :: "threads \<Rightarrow> bool" where
  "file_guarded m \<longleftrightarrow> m_lost m = {#} \<and> size (m_stops m) \<le> 1 \<and> (s_active (m_service m) \<longrightarrow> m_stops m = {#}) \<and>
     (case s_file (m_service m) of
        None \<Rightarrow> \<not> s_active (m_service m) \<and> s_queue (m_service m) = [] \<and> m_writer m = None \<and> m_stops m = {#} \<and> m_submitting m = {#}
      | Some path \<Rightarrow> s_good (m_service m) \<and> (\<not> s_active (m_service m) \<longrightarrow> m_stops m \<noteq> {#}))"

lemma put_block_lost: "s_file (m_service m) \<noteq> None \<Longrightarrow> s_good (m_service m) \<Longrightarrow> m_lost (put_block b m) = m_lost m"
  by (simp add: put_block_def Let_def)

lemma start_capture_cases:
  assumes "start_capture opens ms label s = Some (answer, s')"
  shows "s' = s \<and> s_active s \<or> \<not> s_active s \<and> (s_file s = None \<and> s_file s' = None \<and> \<not> s_active s' \<or>
     s_active s' \<and> s_file s' \<noteq> None \<and> (s_file s = None \<longrightarrow> s_good s'))"
  using assms by (auto simp: start_capture_def Let_def split: if_splits option.splits dest: local_switch_keeps)

lemma guarded_step:
  assumes "threads_step opens m m'" and "file_guarded m" and "orderly m m'"
  shows "file_guarded m'"
  using assms
proof (induction rule: threads_step.induct)
  case (check m bytes)
  then show ?case by (auto simp: file_guarded_def split: option.splits)
next
  case (enqueue bytes m accepted s)
  then show ?case by (auto simp: file_guarded_def enqueue_trace_block_def split: option.splits if_splits)
next
  case (writer_pop m b s)
  then show ?case by (auto simp: file_guarded_def pop_block_eq split: option.splits)
next
  case (writer_write m b)
  then show ?case by (auto simp: file_guarded_def put_block_lost split: option.splits)
next
  case (start ms label m answer s)
  from start_capture_cases [OF start(1)] start(2,3) show ?case
    by (auto simp: file_guarded_def orderly_def start_capture_queue [OF start(1)] split: option.splits)
next
  case (stop_begin m s)
  then show ?case by (auto simp: file_guarded_def stop_switch_keeps split: option.splits)
next
  case (stop_pop m b s)
  then show ?case by (auto simp: file_guarded_def pop_block_eq split: option.splits dest!: multi_member_split)
next
  case (stop_write b m)
  then show ?case by (auto simp: file_guarded_def put_block_lost split: option.splits dest!: multi_member_split)
next
  case (stop_close m)
  then show ?case by (auto simp: file_guarded_def close_file_def orderly_def split: option.splits dest!: multi_member_split)
qed (auto simp: file_guarded_def split: option.splits)



definition anything_opens :: "string \<Rightarrow> bool" where
  "anything_opens path = True"

text \<open>A capture that got one block, at the points of its life.\<close>

definition capturing_service :: "buffer list \<Rightarrow> service" where
  "capturing_service queue = (new_service ''t'')\<lparr>s_active := True, s_file := Some ''t/trace-0.perfetto-trace'',
     s_path := ''t/trace-0.perfetto-trace'', s_disk := [''t/trace-0.perfetto-trace'' \<mapsto> []],
     s_local := (new_recorder 0)\<lparr>r_active := True, r_joinable := True\<rparr>, s_queue := queue\<rparr>"

lemma capture_started:
  "start_capture anything_opens 0 [] (new_service ''t'') = Some (Started True ''t/trace-0.perfetto-trace'', capturing_service [])"
proof -
  have "nat_digits 0 = ''0''" by code_simp
  then show ?thesis
    by (simp add: start_capture_def new_service_def path_join_def trace_filename_def anything_opens_def local_switch_def
        new_recorder_def start_flush_thread_def switched_def capturing_service_def Let_def)
qed

definition block_held :: threads where
  "block_held = (threads_start ''t'')\<lparr>m_service := capturing_service [], m_accepted := {#[7]#}, m_writer := Some [7]\<rparr>"

lemma block_held_reached: "threads_reach anything_opens ord block_held"
proof -
  let ?m0 = "threads_start ''t''"
  let ?m1 = "?m0\<lparr>m_service := capturing_service []\<rparr>"
  let ?m2 = "?m1\<lparr>m_submitting := {#[7]#}\<rparr>"
  let ?m3 = "?m1\<lparr>m_service := capturing_service [[7]], m_accepted := {#[7]#}\<rparr>"
  have s0: "threads_step anything_opens ?m0 ?m1"
    using threads_step.start [of anything_opens 0 "[]" ?m0, OF _] capture_started by (auto simp: threads_start_def)
  have s1: "threads_step anything_opens ?m1 ?m2"
    using threads_step.check [of ?m1 "[7]" anything_opens] by (simp add: capturing_service_def threads_start_def)
  have s2: "threads_step anything_opens ?m2 ?m3"
    using threads_step.enqueue [of "[7]" ?m2 True "capturing_service [[7]]" anything_opens]
    by (simp add: enqueue_trace_block_def kMaxQueuedTraceBlocks_def capturing_service_def new_service_def threads_start_def)
  have s3: "threads_step anything_opens ?m3 block_held"
    using threads_step.writer_pop [of ?m3 "[7]" "capturing_service []" anything_opens]
    by (simp add: pop_block_def capturing_service_def new_service_def threads_start_def block_held_def)
  note r0 = threads_reach.reach_start [of anything_opens ord "''t''"]
  note r1 = threads_reach.reach_step [OF r0 s0]
  have "threads_reach anything_opens ord ?m1" by (rule r1) (simp add: orderly_def threads_start_def)
  from threads_reach.reach_step [OF this s1] have "threads_reach anything_opens ord ?m2" by (simp add: orderly_def)
  from threads_reach.reach_step [OF this s2] have "threads_reach anything_opens ord ?m3" by (simp add: orderly_def capturing_service_def)
  from threads_reach.reach_step [OF this s3] show ?thesis by (simp add: orderly_def block_held_def capturing_service_def)
qed

text \<open>
  A block that was accepted is lost: the writer has taken it from the queue when another thread stops the capture, finds the
  queue empty and closes the file before the writer gets to write.
\<close>

lemma accepted_block_lost: "\<exists>m. threads_reach anything_opens False m \<and> m_accepted m = {#[7]#} \<and> m_lost m = {#[7]#}"
proof -
  let ?m = "block_held"
  define s where "s = (capturing_service [])\<lparr>s_active := False,
    s_local := (new_recorder 0)\<lparr>r_active := False, r_stopping := True, r_joinable := False\<rparr>\<rparr>"
  have sw: "stop_switch (m_service ?m) = Some s"
    by (simp add: stop_switch_def local_switch_def block_held_def capturing_service_def local_flush_def new_recorder_def
        stop_flush_thread_def switched_def s_def)
  have act: "s_active (m_service ?m)" by (simp add: block_held_def capturing_service_def)
  let ?m1 = "?m\<lparr>m_service := s, m_stops := {#None#}\<rparr>"
  let ?m2 = "?m\<lparr>m_service := close_file s, m_stops := {#}\<rparr>"
  have st: "m_stops ?m = {#}" by (simp add: block_held_def threads_start_def)
  have s1: "threads_step anything_opens ?m ?m1" using threads_step.stop_begin [OF act sw] by (simp add: st)
  have "s_queue s = []" by (simp add: s_def capturing_service_def new_service_def)
  then have s2: "threads_step anything_opens ?m1 ?m2"
    using threads_step.stop_close [of ?m1 anything_opens] by simp
  have s3: "threads_step anything_opens ?m2 (put_block [7] ?m2\<lparr>m_writer := None\<rparr>)"
    by (rule threads_step.writer_write) (simp add: block_held_def)
  have "threads_reach anything_opens False (put_block [7] ?m2\<lparr>m_writer := None\<rparr>)"
    by (rule threads_reach.reach_step [OF threads_reach.reach_step [OF threads_reach.reach_step [OF block_held_reached s1] s2] s3]) simp_all
  moreover have "m_lost (put_block [7] ?m2) = {#[7]#}" "m_accepted (put_block [7] ?m2) = {#[7]#}"
    by (simp_all add: put_block_def Let_def close_file_def block_held_def threads_start_def)
  ultimately show ?thesis by (metis threads.select_convs(5,7) threads.surjective threads.update_convs(3))
qed


text \<open>With no other thread about, \<open>stop_capture\<close> writes all that is queued, after the server's own events.\<close>

lemma write_pending_alone:
  "s_file s = Some path \<Longrightarrow> s_good s \<Longrightarrow> s_disk s path = Some old \<Longrightarrow>
     s_disk (write_pending_blocks s) path = Some (old @ concat (s_queue s)) \<and> s_queue (write_pending_blocks s) = [] \<and>
     s_file (write_pending_blocks s) = Some path"
proof (induction "s_queue s" arbitrary: s old)
  case Nil
  then have "pop_block s = None" by (simp add: pop_block_def)
  then show ?case using Nil by (simp add: write_pending_blocks.simps [of s])
next
  case (Cons b q)
  let ?s = "append_to_file b (s\<lparr>s_queue := q\<rparr>)"
  have p: "pop_block s = Some (b, s\<lparr>s_queue := q\<rparr>)" by (simp add: pop_block_def flip: Cons(2))
  have "s_disk ?s path = Some (old @ b)" using Cons(3-5) by (simp add: append_to_file_def)
  from Cons(1) [of ?s, OF _ _ _ this] Cons(2-4) show ?case
    by (simp add: write_pending_blocks.simps [of s] p) (metis concat.simps(2))
qed

end
