(* ===== verification/Server_Threads.thy ===== *)
theory Server_Threads
  imports Prelude "HOL-Library.Multiset"
begin

text \<open>
  The threads of the server (src/src/rmi/server/server.cpp): the accept loop, which makes a session of each connection and gives it to a
  worker, the dispatch workers, which serve their sessions in laps and tear down the closed ones, and the shutdown. What is done with one
  frame and at one session's end is in Rmi_Server; here is which thread does it, when and how often.
\<close>

section \<open>State\<close>

text \<open>
  A thread's state says where its function stands between two accesses to what the threads share. Sessions are
  numbered in the order of their connections.
\<close>

datatype accept_state =
    Testing
  | Waiting
  | Starting nat
  | Accept_ended

datatype worker_state =
    Between_laps
  | Lap "nat list" "nat list"
  | Serving nat "nat list" "nat list"
  | Tearing "nat list" "nat list"
  | Sweeping "nat list"
  | Worker_ended

record server_threads =
  v_running :: bool
  v_accept :: accept_state
  v_next :: nat
  v_sessions :: "nat \<Rightarrow> nat list"
  v_worker :: "nat \<Rightarrow> worker_state"
  v_closed :: "nat set"
  v_contexts :: "nat set"
  v_created :: "nat list"
  v_torn :: "nat list"

definition listening :: server_threads where
  "listening =
     \<lparr> v_running = True, v_accept = Testing, v_next = 0, v_sessions = (\<lambda>_. []), v_worker = (\<lambda>_. Between_laps),
       v_closed = {}, v_contexts = {}, v_created = [], v_torn = [] \<rparr>"

section \<open>Steps\<close>

text \<open>\<open>start_session\<close>: the context is registered, then, later, the slot is pushed to the worker whose turn it is.\<close>

definition register_session :: "server_threads \<Rightarrow> server_threads" where
  "register_session m = (let s = length (v_created m) in
     m\<lparr>v_accept := Starting s, v_contexts := insert s (v_contexts m), v_created := v_created m @ [s]\<rparr>)"

definition assign_session :: "nat \<Rightarrow> nat \<Rightarrow> server_threads \<Rightarrow> server_threads" where
  "assign_session n s m =
     m\<lparr>v_accept := Testing, v_sessions := (v_sessions m)(v_next m := v_sessions m (v_next m) @ [s]),
       v_next := (v_next m + 1) mod n\<rparr>"

inductive accept_step :: "nat \<Rightarrow> server_threads \<Rightarrow> server_threads \<Rightarrow> bool" for n where
  test: "v_accept m = Testing \<Longrightarrow>
    accept_step n m (m\<lparr>v_accept := (if v_running m then Waiting else Accept_ended)\<rparr>)"
| timed_out: "v_accept m = Waiting \<Longrightarrow> accept_step n m (m\<lparr>v_accept := Testing\<rparr>)"
| accepted: "v_accept m = Waiting \<Longrightarrow> accept_step n m (register_session m)"
| assigned: "v_accept m = Starting s \<Longrightarrow> accept_step n m (assign_session n s m)"

text \<open>
  One step of the function \<open>dispatch_worker\<close> of worker \<open>i\<close>: its next state, its sessions, and the session it tore down, if it did.
  The bodies of \<open>service_session\<close> and \<open>teardown_session\<close> are those of Rmi_Server.
\<close>

definition after_serving :: "nat set \<Rightarrow> nat \<Rightarrow> nat list \<Rightarrow> nat list \<Rightarrow> worker_state" where
  "after_serving closed s rest cl = Lap rest (if s \<in> closed then cl @ [s] else cl)"

definition worker_moves :: "bool \<Rightarrow> nat set \<Rightarrow> worker_state \<Rightarrow> nat list \<Rightarrow> worker_state \<times> nat list \<times> nat option" where
  "worker_moves running closed w sessions = (case w of
       Between_laps \<Rightarrow>
         if \<not> running then (Sweeping sessions, [], None)
         else if sessions = [] then (Between_laps, sessions, None)
         else (Lap sessions [], sessions, None)
     | Lap current cl \<Rightarrow> (case current of
         [] \<Rightarrow> (Tearing cl cl, sessions, None)
       | s # rest \<Rightarrow>
           if \<not> running then (Tearing cl cl, sessions, None)
           else if s \<in> closed then (Lap rest (cl @ [s]), sessions, None)
           else (Serving s rest cl, sessions, None))
     | Serving s rest cl \<Rightarrow> (after_serving closed s rest cl, sessions, None)
     | Tearing left cl \<Rightarrow> (case left of
         [] \<Rightarrow> (Between_laps, filter (\<lambda>s. s \<notin> set cl) sessions, None)
       | s # rest \<Rightarrow> (Tearing rest cl, sessions, Some s))
     | Sweeping left \<Rightarrow> (case left of
         [] \<Rightarrow> (Worker_ended, sessions, None)
       | s # rest \<Rightarrow> (Sweeping rest, sessions, Some s))
     | Worker_ended \<Rightarrow> (Worker_ended, sessions, None))"

text \<open>A torn-down session is unregistered.\<close>

definition worker_acts :: "nat \<Rightarrow> server_threads \<Rightarrow> server_threads" where
  "worker_acts i m = (case worker_moves (v_running m) (v_closed m) (v_worker m i) (v_sessions m i) of (w, sessions, torn) \<Rightarrow>
     m\<lparr>v_worker := (v_worker m)(i := w), v_sessions := (v_sessions m)(i := sessions),
       v_contexts := (case torn of None \<Rightarrow> v_contexts m | Some s \<Rightarrow> v_contexts m - {s}),
       v_torn := (case torn of None \<Rightarrow> v_torn m | Some s \<Rightarrow> v_torn m @ [s])\<rparr>)"

text \<open>\<open>stop\<close> clears \<open>running_\<close>; it returns when the accept thread and then the workers have ended.\<close>

definition stop_server :: "server_threads \<Rightarrow> server_threads" where
  "stop_server m = m\<lparr>v_running := False\<rparr>"

definition stop_returns :: "nat \<Rightarrow> server_threads \<Rightarrow> bool" where
  "stop_returns n m \<longleftrightarrow> \<not> v_running m \<and> v_accept m = Accept_ended \<and> list_all (\<lambda>i. v_worker m i = Worker_ended) [0..<n]"

inductive server_step :: "nat \<Rightarrow> server_threads \<Rightarrow> server_threads \<Rightarrow> bool" for n where
  accept: "accept_step n m m' \<Longrightarrow> server_step n m m'"
| worker: "i < n \<Longrightarrow> server_step n m (worker_acts i m)"
| disconnects: "server_step n m (m\<lparr>v_closed := insert s (v_closed m)\<rparr>)"
| stops: "server_step n m (stop_server m)"

text \<open>Orderly: no connection is accepted after \<open>stop\<close> was called, and none is being made a session when it is.\<close>

definition orderly_stop :: "server_threads \<Rightarrow> server_threads \<Rightarrow> bool" where
  "orderly_stop m m' \<longleftrightarrow> (\<not> v_running m' \<longrightarrow> (case v_accept m' of Starting s \<Rightarrow> False | _ \<Rightarrow> True))"

inductive server_reach :: "nat \<Rightarrow> bool \<Rightarrow> server_threads \<Rightarrow> bool" for n ord where
  begin_listening: "server_reach n ord listening"
| takes_step: "server_reach n ord m \<Longrightarrow> server_step n m m' \<Longrightarrow> (ord \<longrightarrow> orderly_stop m m') \<Longrightarrow> server_reach n ord m'"

section \<open>Where the sessions are\<close>

text \<open>The sessions of a worker that were not torn down.\<close>

definition live_of :: "worker_state \<Rightarrow> nat list \<Rightarrow> nat multiset" where
  "live_of w sessions = (case w of
       Tearing left cl \<Rightarrow> mset (filter (\<lambda>s. s \<notin> set cl) sessions) + mset left
     | Sweeping left \<Rightarrow> mset left + mset sessions
     | _ \<Rightarrow> mset sessions)"

definition starting :: "accept_state \<Rightarrow> nat multiset" where
  "starting a = (case a of Starting s \<Rightarrow> {#s#} | _ \<Rightarrow> {#})"

text \<open>A worker's lists hold sessions of its own, each once.\<close>

definition worker_ok :: "worker_state \<Rightarrow> nat list \<Rightarrow> bool" where
  "worker_ok w sessions \<longleftrightarrow> distinct sessions \<and> (case w of
       Between_laps \<Rightarrow> True
     | Lap current cl \<Rightarrow> distinct (cl @ current) \<and> set (cl @ current) \<subseteq> set sessions
     | Serving s rest cl \<Rightarrow> distinct (cl @ s # rest) \<and> set (cl @ s # rest) \<subseteq> set sessions
     | Tearing left cl \<Rightarrow> distinct cl \<and> set cl \<subseteq> set sessions \<and> distinct left \<and> set left \<subseteq> set cl
     | Sweeping left \<Rightarrow> distinct left \<and> set left \<inter> set sessions = {}
     | Worker_ended \<Rightarrow> True)"

lemma worker_moves_keep:
  assumes "worker_ok w sessions" and "worker_moves running closed w sessions = (w', sessions', torn)"
  shows "worker_ok w' sessions' \<and> live_of w sessions = live_of w' sessions' + mset_set (set_option torn)"
proof (cases w)
  case Between_laps
  then show ?thesis using assms by (auto simp: worker_moves_def worker_ok_def live_of_def split: if_splits)
next
  case (Lap current cl)
  have split: "mset sessions = mset (filter (\<lambda>s. s \<notin> set cl) sessions) + mset cl" if "distinct sessions" "distinct cl" "set cl \<subseteq> set sessions"
  proof -
    have "mset (filter (\<lambda>s. s \<in> set cl) sessions) = mset cl"
      by (rule set_eq_iff_mset_eq_distinct [THEN iffD1]) (use that in auto)
    then show ?thesis using multiset_partition [of "mset sessions" "\<lambda>s. s \<notin> set cl"] by (simp flip: mset_filter)
  qed
  show ?thesis
    using assms Lap split by (cases current) (auto simp: worker_moves_def worker_ok_def live_of_def split: if_splits)
next
  case (Serving s rest cl)
  then show ?thesis using assms by (auto simp: worker_moves_def after_serving_def worker_ok_def live_of_def)
next
  case (Tearing left cl)
  then show ?thesis using assms by (cases left) (auto simp: worker_moves_def worker_ok_def live_of_def)
next
  case (Sweeping left)
  then show ?thesis using assms by (cases left) (auto simp: worker_moves_def worker_ok_def live_of_def)
next
  case Worker_ended
  then show ?thesis using assms by (auto simp: worker_moves_def worker_ok_def live_of_def)
qed

lemma sum_worker:
  fixes f g :: "nat \<Rightarrow> nat multiset"
  assumes "i < (n::nat)" and "\<And>j. j < n \<Longrightarrow> j \<noteq> i \<Longrightarrow> g j = f j"
  shows "(\<Sum>j<n. f j) = f i + (\<Sum>j\<in>{..<n} - {i}. f j)" "(\<Sum>j<n. g j) = g i + (\<Sum>j\<in>{..<n} - {i}. f j)"
proof -
  show "(\<Sum>j<n. f j) = f i + (\<Sum>j\<in>{..<n} - {i}. f j)" using assms(1) by (simp add: sum.remove)
  have "(\<Sum>j<n. g j) = g i + (\<Sum>j\<in>{..<n} - {i}. g j)" using assms(1) by (simp add: sum.remove)
  also have "(\<Sum>j\<in>{..<n} - {i}. g j) = (\<Sum>j\<in>{..<n} - {i}. f j)" by (rule sum.cong) (use assms(2) in auto)
  finally show "(\<Sum>j<n. g j) = g i + (\<Sum>j\<in>{..<n} - {i}. f j)" .
qed

definition in_order :: "nat list \<Rightarrow> bool" where
  "in_order xs \<longleftrightarrow> xs = [0..<length xs]"

lemma in_order_snoc: "in_order xs \<Longrightarrow> in_order (xs @ [length xs])"
  unfolding in_order_def by (metis length_append_singleton upt_Suc_append zero_le)

lemma in_order_distinct: "in_order xs \<Longrightarrow> distinct xs"
  unfolding in_order_def by (metis distinct_upt)

definition assigned_count :: "server_threads \<Rightarrow> nat" where
  "assigned_count m = length (v_created m) - size (starting (v_accept m))"

text \<open>The sessions of worker \<open>i\<close>, when \<open>k\<close> sessions were given out in turn.\<close>

definition fits_worker :: "nat \<Rightarrow> nat \<Rightarrow> nat \<Rightarrow> worker_state \<Rightarrow> nat list \<Rightarrow> bool" where
  "fits_worker n i k w sessions \<longleftrightarrow> worker_ok w sessions \<and> (\<forall>s \<in> set sessions. s mod n = i \<and> s < k) \<and>
     (\<forall>s \<in># live_of w sessions. s mod n = i \<and> s < k)"

text \<open>
  Sessions are created in order and assigned in turn; each is starting, with the worker of its turn, or torn down.
\<close>

definition sessions_accounted :: "nat \<Rightarrow> server_threads \<Rightarrow> bool" where
  "sessions_accounted n m \<longleftrightarrow> in_order (v_created m) \<and> v_next m = assigned_count m mod n \<and>
     (\<forall>s. v_accept m = Starting s \<longrightarrow> Suc s = length (v_created m)) \<and>
     (\<forall>i<n. fits_worker n i (assigned_count m) (v_worker m i) (v_sessions m i)) \<and>
     mset (v_created m) = starting (v_accept m) + (\<Sum>i<n. live_of (v_worker m i) (v_sessions m i)) + mset (v_torn m)"

lemma worker_moves_subset: "worker_moves running closed w sessions = (w', sessions', torn) \<Longrightarrow> set sessions' \<subseteq> set sessions"
  by (auto simp: worker_moves_def split: worker_state.splits list.splits if_splits)

lemma accounted_worker:
  assumes "i < n" and "sessions_accounted n m"
  shows "sessions_accounted n (worker_acts i m)"
proof -
  obtain w sessions torn where w: "worker_moves (v_running m) (v_closed m) (v_worker m i) (v_sessions m i) = (w, sessions, torn)"
    by (metis prod_cases3)
  have k: "worker_ok w sessions \<and> live_of (v_worker m i) (v_sessions m i) = live_of w sessions + mset_set (set_option torn)"
    using worker_moves_keep [OF _ w] assms by (simp add: sessions_accounted_def fits_worker_def)
  let ?m = "worker_acts i m"
  have m': "v_created ?m = v_created m" "v_next ?m = v_next m" "v_accept ?m = v_accept m" "assigned_count ?m = assigned_count m"
    "v_worker ?m = (v_worker m)(i := w)" "v_sessions ?m = (v_sessions m)(i := sessions)"
    "mset (v_torn ?m) = mset (v_torn m) + mset_set (set_option torn)"
    by (simp_all add: worker_acts_def w assigned_count_def split: option.split)
  note sums = sum_worker [of i n "\<lambda>j. live_of (((v_worker m)(i := w)) j) (((v_sessions m)(i := sessions)) j)"
      "\<lambda>j. live_of (v_worker m j) (v_sessions m j)", OF assms(1)]
  show ?thesis
    using assms(2) k worker_moves_subset [OF w] sums unfolding sessions_accounted_def fits_worker_def m' by (auto simp: add_ac)
qed

lemma live_of_push: "worker_ok w sessions \<Longrightarrow> s \<notin> set sessions \<Longrightarrow> live_of w (sessions @ [s]) = add_mset s (live_of w sessions)"
  by (cases w) (auto simp: live_of_def worker_ok_def)

lemma worker_ok_push:
  "worker_ok w sessions \<Longrightarrow> s \<notin> set sessions \<Longrightarrow> s \<notin># live_of w sessions \<Longrightarrow> worker_ok w (sessions @ [s])"
  by (cases w) (auto simp: live_of_def worker_ok_def)

lemma fits_worker_push:
  assumes "fits_worker n i s w sessions" and "i = s mod n"
  shows "fits_worker n i (Suc s) w (sessions @ [s]) \<and> live_of w (sessions @ [s]) = add_mset s (live_of w sessions)"
proof -
  have w: "worker_ok w sessions" "s \<notin> set sessions" "s \<notin># live_of w sessions"
    using assms(1) unfolding fits_worker_def by blast+
  have live: "live_of w (sessions @ [s]) = add_mset s (live_of w sessions)" by (rule live_of_push [OF w(1,2)])
  have x: "x mod n = i \<and> x < Suc s" if "x = s \<or> x \<in> set sessions \<or> x \<in># live_of w sessions" for x
    using that assms unfolding fits_worker_def by (metis lessI less_SucI)
  show ?thesis using worker_ok_push [OF w] live x by (simp add: fits_worker_def)
qed

lemma fits_worker_Suc: "fits_worker n i s w sessions \<Longrightarrow> fits_worker n i (Suc s) w sessions"
  unfolding fits_worker_def using less_SucI by blast

lemma accounted_accept:
  assumes "accept_step n m m'" and "sessions_accounted n m" and "0 < n"
  shows "sessions_accounted n m'"
  using assms(1)
proof cases
  case (assigned s)
  let ?i = "v_next m"
  have f: "in_order (v_created m)" "v_next m = assigned_count m mod n" "Suc s = length (v_created m)"
    "\<forall>i<n. fits_worker n i (assigned_count m) (v_worker m i) (v_sessions m i)"
    "mset (v_created m) = starting (v_accept m) + (\<Sum>i<n. live_of (v_worker m i) (v_sessions m i)) + mset (v_torn m)"
    using assms(2) assigned(2) unfolding sessions_accounted_def by blast+
  have c2: "assigned_count m = s" unfolding assigned_count_def assigned(2) f(3) [symmetric] by (simp add: starting_def)
  have c3: "?i = s mod n" using f(2) unfolding c2 .
  have i: "?i < n" unfolding c3 using assms(3) by simp
  note push = fits_worker_push [OF f(4) [rule_format, OF i, unfolded c2] c3]
  let ?f = "\<lambda>j. live_of (v_worker m j) (v_sessions m j)"
  let ?g = "\<lambda>j. live_of (v_worker m j) (((v_sessions m)(?i := v_sessions m ?i @ [s])) j)"
  have same: "?g j = ?f j" if "j < n" "j \<noteq> ?i" for j using that by simp
  have m': "v_created m' = v_created m" "v_accept m' = Testing" "assigned_count m' = Suc s" "v_next m' = Suc s mod n"
    "v_worker m' = v_worker m" "v_sessions m' = (v_sessions m)(?i := v_sessions m ?i @ [s])" "v_torn m' = v_torn m"
    using f(3) mod_Suc_eq [of s n] unfolding assigned(1) assign_session_def by (simp_all add: assigned_count_def starting_def c3)
  note acc = f(5) [unfolded assigned(2) starting_def accept_state.case]
  have "(\<Sum>j<n. ?g j) = ?g ?i + (\<Sum>j\<in>{..<n} - {?i}. ?f j)" by (rule sum_worker(2) [OF i same])
  also have "?g ?i = add_mset s (?f ?i)" using push by simp
  also have "add_mset s (?f ?i) + (\<Sum>j\<in>{..<n} - {?i}. ?f j) = add_mset s (\<Sum>j<n. ?f j)"
    unfolding sum_worker(1) [where f = ?f and g = ?f, OF i refl] by (rule union_mset_add_mset_left)
  finally have "mset (v_created m) = (\<Sum>j<n. ?g j) + mset (v_torn m)" unfolding acc by simp
  moreover have "fits_worker n i (Suc s) (v_worker m i) (((v_sessions m)(?i := v_sessions m ?i @ [s])) i)" if "i < n" for i
    using push f(4) [rule_format, OF that, unfolded c2] by (cases "i = ?i") (simp_all add: fits_worker_Suc)
  ultimately show ?thesis using f(1) unfolding sessions_accounted_def m' by (simp add: starting_def)
next
  case accepted
  have l: "v_created m' = v_created m @ [length (v_created m)]" "v_accept m' = Starting (length (v_created m))"
    "assigned_count m' = assigned_count m" "v_next m' = v_next m" "v_worker m' = v_worker m" "v_sessions m' = v_sessions m"
    "v_torn m' = v_torn m" "starting (v_accept m) = {#}"
    using accepted by (simp_all add: register_session_def Let_def assigned_count_def starting_def)
  have "in_order (v_created m')"
    using assms(2) unfolding l sessions_accounted_def by (simp add: in_order_snoc)
  then show ?thesis using assms(2) unfolding sessions_accounted_def l by (simp add: starting_def)
next
  case test
  then have l: "starting (v_accept m') = starting (v_accept m)" "assigned_count m' = assigned_count m" "\<forall>s. v_accept m' \<noteq> Starting s"
    by (simp_all add: starting_def assigned_count_def)
  then show ?thesis using assms(2) unfolding sessions_accounted_def l(1,2) by (simp add: test(1))
next
  case timed_out
  then have l: "starting (v_accept m') = starting (v_accept m)" "assigned_count m' = assigned_count m" "\<forall>s. v_accept m' \<noteq> Starting s"
    by (simp_all add: starting_def assigned_count_def)
  then show ?thesis using assms(2) unfolding sessions_accounted_def l(1,2) by (simp add: timed_out(1))
qed

lemma accounted_reachable: "server_reach n ord m \<Longrightarrow> 0 < n \<Longrightarrow> sessions_accounted n m"
proof (induction rule: server_reach.induct)
  case begin_listening
  then show ?case
    by (simp add: sessions_accounted_def in_order_def listening_def assigned_count_def starting_def fits_worker_def worker_ok_def live_of_def)
next
  case (takes_step m m')
  from takes_step.hyps(2) show ?case
  proof cases
    case (accept)
    then show ?thesis using accounted_accept takes_step by blast
  next
    case (worker i)
    then show ?thesis using accounted_worker takes_step by blast
  next
    case (disconnects s)
    then show ?thesis using takes_step by (simp add: sessions_accounted_def assigned_count_def)
  next
    case stops
    then show ?thesis using takes_step by (simp add: sessions_accounted_def assigned_count_def stop_server_def)
  qed
qed

text \<open>Outside the shutdown of the machine, the registered contexts are those of the sessions that were not torn down.\<close>

lemma torn_created: "sessions_accounted n m \<Longrightarrow> set (v_torn m) \<subseteq> set (v_created m)"
  unfolding sessions_accounted_def by (metis Un_upper2 set_mset_mset set_mset_union)

lemma fresh_session: "sessions_accounted n m \<Longrightarrow> length (v_created m) \<notin> set (v_torn m)"
proof
  assume acc: "sessions_accounted n m" and "length (v_created m) \<in> set (v_torn m)"
  then have "length (v_created m) \<in> set (v_created m)" using torn_created by blast
  moreover have "in_order (v_created m)" using acc by (simp add: sessions_accounted_def)
  ultimately show False unfolding in_order_def by (metis atLeastLessThan_iff less_irrefl set_upt)
qed

lemma contexts_reachable:
  "server_reach n ord m \<Longrightarrow> 0 < n \<Longrightarrow> v_contexts m = set (v_created m) - set (v_torn m)"
proof (induction rule: server_reach.induct)
  case begin_listening
  show ?case by (simp add: listening_def)
next
  case (takes_step m m')
  note ih = takes_step.IH [OF takes_step.prems]
  from takes_step.hyps(2) show ?case
  proof cases
    case accept
    from accept show ?thesis
    proof cases
      case accepted
      then show ?thesis using fresh_session [OF accounted_reachable [OF takes_step.hyps(1) takes_step.prems]] ih
        by (auto simp: register_session_def Let_def)
    qed (use ih in \<open>simp_all add: assign_session_def\<close>)
  next
    case (worker i)
    then show ?thesis using ih by (auto simp: worker_acts_def split: prod.splits option.splits)
  qed (use ih in \<open>simp_all add: stop_server_def\<close>)
qed

text \<open>Orderly: once the workers sweep, nothing is given to them.\<close>

definition clean_worker :: "bool \<Rightarrow> worker_state \<Rightarrow> nat list \<Rightarrow> bool" where
  "clean_worker running w sessions \<longleftrightarrow> (case w of
       Sweeping left \<Rightarrow> \<not> running \<and> sessions = []
     | Worker_ended \<Rightarrow> \<not> running \<and> sessions = []
     | _ \<Rightarrow> True)"

definition swept_clean :: "nat \<Rightarrow> server_threads \<Rightarrow> bool" where
  "swept_clean n m \<longleftrightarrow> (\<not> v_running m \<longrightarrow> (\<forall>s. v_accept m \<noteq> Starting s)) \<and>
     (\<forall>i<n. clean_worker (v_running m) (v_worker m i) (v_sessions m i))"

lemma worker_moves_clean:
  assumes "worker_moves running closed w sessions = (w', sessions', torn)" and "clean_worker running w sessions"
  shows "clean_worker running w' sessions'"
  using assms by (auto simp: clean_worker_def worker_moves_def after_serving_def split: worker_state.splits list.splits if_splits)

lemma clean_worker_push: "running \<Longrightarrow> clean_worker running w sessions \<Longrightarrow> clean_worker running w (sessions @ [s])"
  by (auto simp: clean_worker_def split: worker_state.splits)

lemma clean_worker_stop: "clean_worker running w sessions \<Longrightarrow> clean_worker False w sessions"
  by (auto simp: clean_worker_def split: worker_state.splits)

lemma clean_step:
  assumes "server_step n m m'" and "swept_clean n m" and "orderly_stop m m'"
  shows "swept_clean n m'"
  using assms(1)
proof cases
  case accept
  from accept assms(2,3) show ?thesis
    by cases (auto simp: swept_clean_def orderly_stop_def register_session_def assign_session_def Let_def clean_worker_push)
next
  case (worker i)
  obtain w sessions torn where w: "worker_moves (v_running m) (v_closed m) (v_worker m i) (v_sessions m i) = (w, sessions, torn)"
    by (metis prod_cases3)
  from worker_moves_clean [OF w] assms(2) worker(2) have "clean_worker (v_running m) w sessions" by (simp add: swept_clean_def)
  then show ?thesis using assms(2) unfolding worker(1) by (simp add: swept_clean_def worker_acts_def w)
next
  case (disconnects s)
  then show ?thesis using assms(2) by (simp add: swept_clean_def)
next
  case stops
  then show ?thesis using assms(2,3)
    by (auto simp: swept_clean_def stop_server_def orderly_stop_def intro: clean_worker_stop split: accept_state.splits)
qed

lemma clean_reachable: "server_reach n True m \<Longrightarrow> swept_clean n m"
proof (induction rule: server_reach.induct)
  case begin_listening
  show ?case by (simp add: swept_clean_def listening_def clean_worker_def)
next
  case (takes_step m m')
  then show ?case using clean_step by blast
qed

text \<open>
  C28: the server's threads, in any order of their steps: no session is torn down twice, the sessions are given to the
  \<open>n\<close> workers in turn, so that a worker holds those of its turn only, and the registered contexts are those of the sessions
  created and not torn down. When \<open>stop\<close> has returned, a context that is still registered is that of a session which was given to a
  worker after its last sweep; if no connection was being accepted after the stop, every session was torn down.
\<close>

theorem sessions_torn_down_once:
  assumes "server_reach n ord m" and "0 < n"
  shows "distinct (v_torn m) \<and> set (v_torn m) \<subseteq> set (v_created m) \<and>
    list_all (\<lambda>i. list_all (\<lambda>s. s mod n = i) (v_sessions m i)) [0..<n] \<and>
    v_contexts m = set (v_created m) - set (v_torn m) \<and>
    (stop_returns n m \<longrightarrow> v_contexts m = (\<Union>i<n. set (v_sessions m i))) \<and>
    (stop_returns n m \<and> ord \<longrightarrow> mset (v_torn m) = mset (v_created m))"
proof -
  have acc: "sessions_accounted n m" by (rule accounted_reachable [OF assms])
  let ?live = "\<Sum>i<n. live_of (v_worker m i) (v_sessions m i)"
  have created: "mset (v_created m) = starting (v_accept m) + ?live + mset (v_torn m)" "distinct (v_created m)"
    using acc in_order_distinct unfolding sessions_accounted_def by blast+
  have once: "count (mset (v_created m)) s \<le> 1" for s using created(2) by (simp add: distinct_count_atmost_1)
  have "count (mset (v_torn m)) s \<le> 1" for s using once [of s] by (simp add: created(1))
  then have torn: "distinct (v_torn m)"
    by (simp add: distinct_count_atmost_1) (metis One_nat_def count_greater_zero_iff count_mset_0_iff le_antisym less_one not_less set_mset_mset)
  have sub: "set (v_torn m) \<subseteq> set (v_created m)" using created(1) by (metis Un_upper2 set_mset_mset set_mset_union)
  have turn: "list_all (\<lambda>i. list_all (\<lambda>s. s mod n = i) (v_sessions m i)) [0..<n]"
    using acc by (simp add: sessions_accounted_def fits_worker_def list_all_iff)
  have ended: "mset (v_created m) = (\<Sum>i<n. mset (v_sessions m i)) + mset (v_torn m)" if "stop_returns n m"
  proof -
    have "live_of (v_worker m i) (v_sessions m i) = mset (v_sessions m i)" if "i < n" for i
      using \<open>stop_returns n m\<close> that by (simp add: stop_returns_def list_all_iff live_of_def)
    then have "?live = (\<Sum>i<n. mset (v_sessions m i))" by (intro sum.cong) simp_all
    then show ?thesis using created(1) that by (simp add: stop_returns_def starting_def)
  qed
  have stranded: "set (v_created m) - set (v_torn m) = (\<Union>i<n. set (v_sessions m i))" if r: "stop_returns n m"
  proof -
    have "set (v_created m) = (\<Union>i<n. set (v_sessions m i)) \<union> set (v_torn m)"
      using arg_cong [OF ended [OF r], of set_mset] by (simp add: set_mset_sum)
    moreover have False if "s \<in> (\<Union>i<n. set (v_sessions m i))" "s \<in> set (v_torn m)" for s
    proof -
      have "s \<in># (\<Sum>i<n. mset (v_sessions m i))" using that(1) by (simp add: set_mset_sum)
      then have "Suc 0 \<le> count (\<Sum>i<n. mset (v_sessions m i)) s" by (simp only: Suc_le_eq count_greater_zero_iff)
      moreover have "Suc 0 \<le> count (mset (v_torn m)) s" using that(2) by (simp only: Suc_le_eq count_greater_zero_iff set_mset_mset)
      ultimately show False using once [of s] unfolding ended [OF r] count_union by linarith
    qed
    ultimately show ?thesis by blast
  qed
  have all: "mset (v_torn m) = mset (v_created m)" if "stop_returns n m" "ord"
  proof -
    have "swept_clean n m" using clean_reachable assms(1) that(2) by simp
    then have "v_sessions m i = []" if "i < n" for i
      using \<open>stop_returns n m\<close> that by (auto simp: swept_clean_def stop_returns_def list_all_iff clean_worker_def)
    then have "(\<Sum>i<n. mset (v_sessions m i)) = {#}" by simp
    then show ?thesis using ended [OF that(1)] by simp
  qed
  show ?thesis using torn sub turn stranded all contexts_reachable [OF assms] by simp
qed


lemma reach_by:
  "server_reach n ord m \<Longrightarrow> server_step n m m' \<Longrightarrow> (ord \<longrightarrow> orderly_stop m m') \<Longrightarrow> m' = m'' \<Longrightarrow> server_reach n ord m''"
  using server_reach.takes_step by blast

text \<open>Two runs with one worker: a session that is torn down by the shutdown, and one that comes too late for it.\<close>

definition one_session :: "bool \<Rightarrow> accept_state \<Rightarrow> nat list \<Rightarrow> worker_state \<Rightarrow> nat list \<Rightarrow> server_threads" where
  "one_session running a sessions w torn =
     \<lparr> v_running = running, v_accept = a, v_next = 0, v_sessions = (\<lambda>_. [])(0 := sessions), v_worker = (\<lambda>_. Between_laps)(0 := w),
       v_closed = {}, v_contexts = {0} - set torn, v_created = [0], v_torn = torn \<rparr>"

lemma session_starting: "server_reach 1 ord (one_session True (Starting 0) [] Between_laps [])"
proof -
  have "server_reach 1 ord (listening\<lparr>v_accept := Waiting\<rparr>)"
    using server_reach.takes_step [OF server_reach.begin_listening server_step.accept [OF accept_step.test]]
    by (simp add: listening_def orderly_stop_def)
  from server_reach.takes_step [OF this server_step.accept [OF accept_step.accepted]] show ?thesis
    by (simp add: listening_def orderly_stop_def register_session_def one_session_def Let_def fun_upd_idem)
qed

lemma worker_reach:
  assumes "server_reach 1 ord (one_session running a sessions w torn)"
    and "worker_moves running {} w sessions = (w', sessions', gone)" and "ord \<and> \<not> running \<longrightarrow> (\<forall>s. a \<noteq> Starting s)"
    and "torn' = torn @ (case gone of None \<Rightarrow> [] | Some s \<Rightarrow> [s])"
  shows "server_reach 1 ord (one_session running a sessions' w' torn')"
  by (rule reach_by [OF assms(1) server_step.worker [of 0]])
    (use assms(2,3,4) in \<open>auto simp: one_session_def worker_acts_def orderly_stop_def split: accept_state.splits option.splits\<close>)

lemma accept_reach:
  assumes "server_reach 1 ord (one_session running a sessions w torn)" and "(a, sessions, a', sessions') \<in>
    {(Starting 0, [], Testing, [0]), (Testing, sessions, if running then Waiting else Accept_ended, sessions)}"
  shows "server_reach 1 ord (one_session running a' sessions' w torn)"
proof (cases "a = Testing")
  case True
  show ?thesis
    by (rule reach_by [OF assms(1) server_step.accept [OF accept_step.test]])
      (use assms(2) True in \<open>auto simp: one_session_def orderly_stop_def\<close>)
next
  case False
  show ?thesis
    by (rule reach_by [OF assms(1) server_step.accept [OF accept_step.assigned [of _ 0]]])
      (use assms(2) False in \<open>auto simp: one_session_def assign_session_def orderly_stop_def\<close>)
qed

lemma stop_reach:
  assumes "server_reach 1 ord (one_session True a sessions w torn)" and "ord \<longrightarrow> (\<forall>s. a \<noteq> Starting s)"
  shows "server_reach 1 ord (one_session False a sessions w torn)"
  by (rule reach_by [OF assms(1) server_step.stops])
    (use assms(2) in \<open>auto simp: one_session_def stop_server_def orderly_stop_def split: accept_state.splits\<close>)

lemma session_swept: "server_reach 1 True (one_session False Accept_ended [] Worker_ended [0])"
proof -
  have "server_reach 1 True (one_session True Testing [0] Between_laps [])" by (rule accept_reach [OF session_starting]) simp
  then have "server_reach 1 True (one_session False Testing [0] Between_laps [])" by (rule stop_reach) simp
  then have "server_reach 1 True (one_session False Accept_ended [0] Between_laps [])" by (rule accept_reach) simp
  then have "server_reach 1 True (one_session False Accept_ended [] (Sweeping [0]) [])"
    by (rule worker_reach [where gone = None]) (simp_all add: worker_moves_def)
  then have "server_reach 1 True (one_session False Accept_ended [] (Sweeping []) [0])"
    by (rule worker_reach [where gone = "Some 0"]) (simp_all add: worker_moves_def)
  then show ?thesis by (rule worker_reach [where gone = None]) (simp_all add: worker_moves_def)
qed

text \<open>
  A connection that is accepted while \<open>stop\<close> runs: its worker has swept and ended when the session is pushed, so that it
  is never torn down and its context stays registered after \<open>stop\<close> returned.
\<close>

lemma late_session_stranded:
  "\<exists>m. server_reach 1 False m \<and> stop_returns 1 m \<and> v_created m = [0] \<and> v_torn m = [] \<and> v_contexts m = {0}"
proof -
  have "server_reach 1 False (one_session False (Starting 0) [] Between_laps [])" by (rule stop_reach [OF session_starting]) simp
  then have "server_reach 1 False (one_session False (Starting 0) [] (Sweeping []) [])"
    by (rule worker_reach [where gone = None]) (simp_all add: worker_moves_def)
  then have "server_reach 1 False (one_session False (Starting 0) [] Worker_ended [])"
    by (rule worker_reach [where gone = None]) (simp_all add: worker_moves_def)
  then have "server_reach 1 False (one_session False Testing [0] Worker_ended [])" by (rule accept_reach) simp
  then have "server_reach 1 False (one_session False Accept_ended [0] Worker_ended [])" by (rule accept_reach) simp
  moreover have "stop_returns 1 (one_session False Accept_ended [0] Worker_ended [])" "v_created (one_session False Accept_ended [0] Worker_ended []) = [0]"
    "v_torn (one_session False Accept_ended [0] Worker_ended []) = []" "v_contexts (one_session False Accept_ended [0] Worker_ended []) = {0}"
    by (simp_all add: one_session_def stop_returns_def)
  ultimately show ?thesis by blast
qed

theorem sessions_torn_down_once_witness:
  "stop_returns 1 (one_session False Accept_ended [] Worker_ended [0]) \<and>
   mset (v_torn (one_session False Accept_ended [] Worker_ended [0])) = mset (v_created (one_session False Accept_ended [] Worker_ended [0]))"
proof -
  have r: "stop_returns 1 (one_session False Accept_ended [] Worker_ended [0])" by (simp add: one_session_def stop_returns_def)
  show ?thesis using sessions_torn_down_once [OF session_swept] r by simp
qed

end
