(* ===== verification/Spec2Isabelle.thy ===== *)
theory Spec2Isabelle
  imports Framing Term_Reader Memory_Transport Rmi_Session_Inv Client_Threads Client_Events
    Standalone_Server Standalone_Threads Stream_Transport Bridge Cli Line_Editor
    Yaml_Convert Bison_C_Spec Profiler_Service Server_Threads
begin

text \<open>
  A model of bison, a C++ library of dynamic objects with a binary format and a remote method
  invocation (RMI) layer.

  The program. A \<open>dynamic\<close> (src/src/bison) is an object whose fields are named by hashed keys and
  hold variants; it inherits from prototypes registered in a class registry. A codec writes such
  objects as bytes, self-describing or against a schema, and adapters write them as JSON, as YAML or as
  text for a person. The RMI layer (src/src/rmi) sends objects as envelopes in frames over a
  transport: a client registers a pending request and waits for its promise, a server dispatches the
  request to a handler over the session's objects and groups, a bridge relays the requests of its
  sessions to an upstream server, and a standalone runtime runs the handlers without a connection. Programs in
  other languages use the objects through a C interface of handles and error codes.

  Where the parts are. Basis: Prelude (byte parsers, sorted association lists as std::map, the
  sequencing of fallible steps), Keys (src/src/bison/bison_common.hpp and the key functions: the hash, the name
  registry, the id generator), Constants (the protocol tokens), Text (to_string, stoi, trim),
  Floats (binary32 and binary64 as words: widening, narrowing, conversion, the seven digits of a stream).

  Wire formats: Serializer (scalars, LEB128 counts, strings, vectors over a buffer and over a
  stream, for hosts of either byte order), Values (the field variant, stable types, enumerations
  and flags), Codec_Spec and Codec (the bytes of fields and objects, and what a reader of them
  promises), Schema (serializeWithSchema), Envelope (encode and decode of RMI messages).

  Objects: Object (the heap of objects, pointer fields, prototype lookup, the class registry,
  calls), Object_Inv (that every operation keeps the heap well formed), Payload (copying a tree
  of objects between the heap and the wire), Json_Convert, Yaml_Convert and Print.

  Transports: Framing (frame_parser and the receive path of the libuv stream), Stream_Transport
  (frames over std::iostream), Term_Codec and Term_Reader (frames inside the escape sequences of
  a terminal), Fifo and Memory_Transport (two queues between threads, as interleavings).

  Server: Rmi_Describe (metadata requests), Rmi_Session (the context of a session: its objects,
  groups and id counter), Rmi_Server (every handler and the dispatch of a frame), and over them
  Rmi_Tables (the handlers refine a table of ids), Context_Effect and Rmi_Groups (the relation of a
  request's context to the one it leaves, once as a locale and twice interpreted), Rmi_Replies (who
  answers what), Rmi_Session_Inv (the invariant of a session over the heap), Server_Threads (the accept loop, the
  workers and the shutdown, as interleavings).

  Client: Rmi_Client (requests, the pending table, one frame), Client_Threads (the worker and the
  calling threads as a step relation over the shared table), Client_Events (the event thread).
  Rmi_Roundtrip joins client, codec, channel and server in one operation. Standalone,
  Standalone_Server and Standalone_Threads hold the runtime without connection; Bridge the relay.
  Line_Editor (src/src/app/client) and Cli (src/src/app/cli) are the command line over the client: the editing of a
  line from keys, and how a line becomes a request. Bison_C (src/src/bison/bison_c.cpp) is the C interface over Object,
  Payload and the codec; Bison_C_Inv its safety, by triples over the calls; Bison_C_Spec what calls mean together.
  Perfetto (src/src/bison/bison_perfetto.cpp), Recorder (src/src/rmi/shared/profiling.hpp and the client's recorder) and
  Profiler_Service (src/src/rmi/server/profiler_service.cpp) are the profiler: trace packets, recording and flushing, and the
  server's trace file with its queue and threads.

  How the code is represented. A std::map is an association list sorted by its key, so that its order
  of iteration, which reaches the wire, is that of the code. A shared_ptr is an address into a heap of
  objects; aliasing and cycles are therefore those of the code. An exception is the left side of a sum, with
  the state as it was when the exception left; the handlers that catch it are written at the places
  where the code has them. Integers have the width of the code; floating-point values are their
  bit patterns. Threads are step relations whose steps are the critical sections between two
  acquisitions of a lock.

  What the theorems show. Codec: what is written is read back, truncated input is an error, the
  reader always ends, reading a stream agrees with reading a buffer, and each writer and reader
  meets the equations of Codec_Spec. Framing and the terminal: a byte stream cut anywhere gives the
  same frames as the reference cut of the whole, no byte of a terminal is lost, what is reassembled
  was sent. Memory_Transport: each channel is a fifo queue with a close. Server: every request gets
  one answer and in order, the session context changes as the table of ids does, and the heap invariant holds after any
  sequence of frames, and no session is torn down twice, nor forgotten by an orderly shutdown. Client: a promise is settled once, by the answer of its own request, and none is left
  waiting when the worker has ended. Standalone: the handlers behave as the server's on a
  session, and the queue of tasks is empty at the end. Bridge: after a session's end its upstream objects are gone, and an
  event reaches every session. JSON and YAML: an object is
  restored from its export where its values survive as text, and YAML import ends on every event sequence.
  Print: it ends exactly where the pointers have no cycle. Command line: the
  line shown is the one an abstract editor holds, and a call command sends the request it names. C interface: a
  client that passes handles it holds and honest buffer sizes never reaches undefined behaviour, and what it sets or
  serializes it gets back. Profiler: the blocks of a
  recorder hold its events in order, each track described once and first; how a recording ends by each answer of the
  server; where each accepted block is, whatever the threads do. The findings among
  them (a task forgotten by a second stop, the wake-up that disconnect misses, an empty poll of the stream
  transport, the buffer reused inside a frame, authentication that dispatch never asks for) are
  stated as theorems about the same definitions.

  Bounds and fuel. A walk along prototypes has as fuel the number of registered classes, which
  a walk without a repeated class cannot exceed; the code ends such a walk by its set of visited classes or
  not at all, and running out is the value of that case. The codec has as fuel the
  length of its input, since every nested value takes a byte (deserialize_total: it is never used up).
  Payload copies with the length of the heap as fuel, the longest path without a cycle. print has as fuel any number above the rank of
  the object (print_terminates); a cycle gives no result for any fuel (print_cycle). Loops over a receive
  buffer end by the length of what is left.

  Parameters. Application code (methods, factories, event handlers, the authentication module) and
  the clock that seeds ids are arguments of the definitions that call them, as are the JSON
  library's text parser and printer, which stay outside: its document tree is a datatype, and the YAML
  library's, whose events are. Hypotheses on them
  are stated in each theorem and shown to hold together at a concrete instance by its witness.

  Not modelled. The libuv, mbedTLS and named-pipe set-up around the frame parser (operating-system and
  library input and output); waiting times; joining and starting of threads, the server's and the profiler's apart; the
  C interface of the RMI layer and the bindings, which marshal arguments around the C++ classes; reference counts (the
  heap of objects only grows); the command-line
  applications and examples. Locks appear only as the
  bounds of the steps of the threaded models. The component list of the manifest says for each part what is left out.
\<close>

end
